(* ===== verification/C_Prelude.thy ===== *)
theory C_Prelude
  imports Complex_Main "HOL-Library.Word"
begin

text \<open>
  The shared prelude: bytes and C strings, the parts of the C library the sources call
  (character classes, string comparison), the allocator that every \<open>malloc\<close> and
  \<open>free\<close> of the sources goes through, and the generic list facts the component theories
  use.

  A byte is a HOL character; its unsigned value is \<open>of_char c\<close>. A C string is a list of
  bytes: the bytes before the terminating NUL. A cursor into a C string is the list of the
  bytes that are left, so \<open>deref []\<close>, the byte at the end, is NUL.
\<close>

named_theorems c_string \<open>facts on the C library's character and string functions\<close>
named_theorems heap_simps \<open>facts on the allocator\<close>

section \<open>Bytes and character classes\<close>

type_synonym byte = char

abbreviation NUL :: byte where "NUL \<equiv> CHR 0x00"
abbreviation TAB :: byte where "TAB \<equiv> CHR 0x09"
abbreviation LF :: byte where "LF \<equiv> CHR 0x0A"
abbreviation CR :: byte where "CR \<equiv> CHR 0x0D"
abbreviation QUOTE :: byte where "QUOTE \<equiv> CHR 0x22"
abbreviation BACKSLASH :: byte where "BACKSLASH \<equiv> CHR 0x5C"

definition ord :: "byte \<Rightarrow> nat" where
  "ord c = of_char c"

definition chr :: "nat \<Rightarrow> byte" where
  "chr n = char_of n"

lemma ord_less [simp, intro]: "ord c < 256"
  unfolding ord_def by simp

lemma chr_ord [simp]: "chr (ord c) = c"
  by (simp add: ord_def chr_def)

lemma ord_chr [simp]: "n < 256 \<Longrightarrow> ord (chr n) = n"
  by (simp add: ord_def chr_def)

lemma ord_eq_iff [simp]: "ord c = ord d \<longleftrightarrow> c = d"
  by (simp add: ord_def)

definition isdigit :: "byte \<Rightarrow> bool" where
  "isdigit c \<longleftrightarrow> 48 \<le> ord c \<and> ord c \<le> 57"

definition isspace :: "byte \<Rightarrow> bool" where
  "isspace c \<longleftrightarrow> ord c = 32 \<or> 9 \<le> ord c \<and> ord c \<le> 13"

text \<open>\<open>tolower\<close> in the C locale, as \<open>strncasecmp\<close> uses it.\<close>

definition tolower :: "byte \<Rightarrow> byte" where
  "tolower c = (if 65 \<le> ord c \<and> ord c \<le> 90 then chr (ord c + 32) else c)"

text \<open>\<open>(signed char)c \<le> 0\<close>: the byte is NUL or has its top bit set.\<close>

definition nonpositive_byte :: "byte \<Rightarrow> bool" where
  "nonpositive_byte c \<longleftrightarrow> ord c = 0 \<or> 128 \<le> ord c"

lemma isdigit_not_NUL [simp]: "\<not> isdigit NUL"
  by (simp add: isdigit_def ord_def)

lemma isspace_not_NUL [simp]: "\<not> isspace NUL"
  by (simp add: isspace_def ord_def)

section \<open>C strings\<close>

fun deref :: "byte list \<Rightarrow> byte" where
  "deref [] = NUL"
| "deref (c # _) = c"

text \<open>The C string held in a buffer: its bytes up to the first NUL.\<close>

definition cstr :: "byte list \<Rightarrow> byte list" where
  "cstr s = takeWhile (\<lambda>c. c \<noteq> NUL) s"

fun byte_cmp :: "byte list \<Rightarrow> byte list \<Rightarrow> int" where
  "byte_cmp [] [] = 0"
| "byte_cmp [] (_ # _) = - 1"
| "byte_cmp (_ # _) [] = 1"
| "byte_cmp (a # s) (b # t) =
     (if a = b then byte_cmp s t else int (ord a) - int (ord b))"

definition strcmp :: "byte list \<Rightarrow> byte list \<Rightarrow> int" where
  "strcmp s t = byte_cmp (cstr s) (cstr t)"

text \<open>\<open>strncmp s t n = 0\<close> and \<open>strncasecmp s t n = 0\<close> on counted bytes.\<close>

definition strncmp_eq :: "byte list \<Rightarrow> byte list \<Rightarrow> nat \<Rightarrow> bool" where
  "strncmp_eq s t n \<longleftrightarrow> take n (cstr s) = take n (cstr t)"

definition strncasecmp_eq :: "byte list \<Rightarrow> byte list \<Rightarrow> nat \<Rightarrow> bool" where
  "strncasecmp_eq s t n \<longleftrightarrow>
     map tolower (take n (cstr s)) = map tolower (take n (cstr t))"

lemma cstr_Nil [simp]: "cstr [] = []"
  by (simp add: cstr_def)

lemma cstr_Cons: "cstr (c # s) = (if c = NUL then [] else c # cstr s)"
  by (simp add: cstr_def)

lemma NUL_notin_cstr [simp]: "NUL \<notin> set (cstr s)"
  by (auto simp: cstr_def dest: set_takeWhileD)

lemma cstr_id [simp]: "NUL \<notin> set s \<Longrightarrow> cstr s = s"
  by (auto simp: cstr_def takeWhile_eq_all_conv)

lemma cstr_idem [simp]: "cstr (cstr s) = cstr s"
  by simp

lemma length_cstr [simp]: "length (cstr s) \<le> length s"
  by (simp add: cstr_def length_takeWhile_le)

lemma byte_cmp_refl [simp]: "byte_cmp s s = 0"
  by (induction s) auto

lemma byte_cmp_eq_0 [simp]: "byte_cmp s t = 0 \<longleftrightarrow> s = t"
  by (induction s t rule: byte_cmp.induct) auto

lemma byte_cmp_antisym: "byte_cmp s t < 0 \<longleftrightarrow> byte_cmp t s > 0"
  by (induction s t rule: byte_cmp.induct) auto

lemma byte_cmp_trans: "byte_cmp s t < 0 \<Longrightarrow> byte_cmp t u < 0 \<Longrightarrow> byte_cmp s u < 0"
proof (induction s t arbitrary: u rule: byte_cmp.induct)
  case (2 b t)
  then show ?case by (cases u) auto
next
  case (4 a s b t)
  then show ?case by (cases u) (auto split: if_splits)
qed auto

lemma strcmp_eq_0 [simp]: "strcmp s t = 0 \<longleftrightarrow> cstr s = cstr t"
  by (simp add: strcmp_def)

lemma strcmp_antisym: "strcmp s t < 0 \<longleftrightarrow> strcmp t s > 0"
  by (simp add: strcmp_def byte_cmp_antisym)

lemma strcmp_trans: "strcmp s t < 0 \<Longrightarrow> strcmp t u < 0 \<Longrightarrow> strcmp s u < 0"
  unfolding strcmp_def by (rule byte_cmp_trans)

lemma strcmp_total: "strcmp s t < 0 \<or> strcmp s t = 0 \<or> strcmp t s < 0"
  using strcmp_antisym [of t s] by linarith

text \<open>\<open>while (isspace( *cursor)) cursor++;\<close>\<close>

fun skip_space :: "byte list \<Rightarrow> byte list" where
  "skip_space [] = []"
| "skip_space (c # s) = (if isspace c then skip_space s else c # s)"

lemma length_skip_space [simp]: "length (skip_space s) \<le> length s"
  by (induction s) auto

lemma skip_space_le [intro]: "length s \<le> n \<Longrightarrow> length (skip_space s) \<le> n"
  using length_skip_space [of s] by linarith

lemma skip_space_not_space: "\<not> isspace (deref s) \<Longrightarrow> skip_space s = s"
  by (cases s) auto

section \<open>The allocator\<close>

type_synonym addr = nat

text \<open>
  \<open>outcomes\<close> says which of the next allocations succeed (past its end they all do), so a
  theorem over every \<open>heap_st\<close> covers every pattern of allocation failures. A block is
  named by a fresh number; \<open>live\<close> is the set of blocks allocated and not yet freed;
  \<open>bad_free\<close> records a \<open>free\<close> of a block that is not live (a double free).
\<close>

record heap_st =
  outcomes :: "bool list"
  brk :: nat
  live :: "nat set"
  bad_free :: bool

definition malloc :: "heap_st \<Rightarrow> nat option \<times> heap_st" where
  "malloc h =
     (case outcomes h of
        [] \<Rightarrow> (Some (brk h), h\<lparr>brk := Suc (brk h), live := insert (brk h) (live h)\<rparr>)
      | ok # rest \<Rightarrow>
          (if ok
           then (Some (brk h), h\<lparr>outcomes := rest, brk := Suc (brk h),
                                 live := insert (brk h) (live h)\<rparr>)
           else (None, h\<lparr>outcomes := rest\<rparr>)))"

definition free :: "nat \<Rightarrow> heap_st \<Rightarrow> heap_st" where
  "free a h = h\<lparr>live := live h - {a}, bad_free := (bad_free h \<or> a \<notin> live h)\<rparr>"

definition heap_ok :: "heap_st \<Rightarrow> bool" where
  "heap_ok h \<longleftrightarrow> live h \<subseteq> {..<brk h} \<and> \<not> bad_free h"

lemma malloc_None [heap_simps]:
  "malloc h = (None, h') \<Longrightarrow> live h' = live h \<and> brk h' = brk h \<and> bad_free h' = bad_free h"
  by (auto simp: malloc_def split: list.splits if_splits)

lemma malloc_Some [heap_simps]:
  "malloc h = (Some a, h') \<Longrightarrow>
     a = brk h \<and> brk h' = Suc (brk h) \<and> live h' = insert (brk h) (live h)
     \<and> bad_free h' = bad_free h"
  by (auto simp: malloc_def split: list.splits if_splits)

lemma live_free [simp]: "live (free a h) = live h - {a}"
  by (simp add: free_def)

lemma brk_free [simp]: "brk (free a h) = brk h"
  by (simp add: free_def)

lemma bad_free_free [simp]: "bad_free (free a h) \<longleftrightarrow> bad_free h \<or> a \<notin> live h"
  by (simp add: free_def)

lemma heap_ok_malloc: "heap_ok h \<Longrightarrow> malloc h = (p, h') \<Longrightarrow> heap_ok h'"
  by (cases p) (auto simp: heap_ok_def less_Suc_eq dest!: malloc_None malloc_Some)

lemma heap_ok_fresh: "heap_ok h \<Longrightarrow> brk h \<notin> live h"
  by (auto simp: heap_ok_def)

end
