(* ===== verification/Clist.thy ===== *)
theory Clist
  imports C_Prelude
begin

text \<open>
  The intrusive lists of \<open>src/src/kernel/list.h\<close>: the circular doubly linked list
  (\<open>struct list_head\<close>) and the singly linked list (\<open>struct slist_head\<close>), on an explicit
  store of link fields. The abstraction relations \<open>clist\<close> and \<open>slist\<close> say which sequence
  of entries a head represents, and one lemma per operation says what the operation does to
  that sequence and that it leaves every other list alone. The locale \<open>intrusive_list\<close> is
  the contract the components that keep entries on such lists rely on.
\<close>

section \<open>The store of \<open>list_head\<close> fields\<close>

record lheap =
  nxt :: "addr \<Rightarrow> addr"
  prv :: "addr \<Rightarrow> addr"

definition set_next :: "addr \<Rightarrow> addr \<Rightarrow> lheap \<Rightarrow> lheap" where
  "set_next a b h = h\<lparr>nxt := (nxt h)(a := b)\<rparr>"

definition set_prev :: "addr \<Rightarrow> addr \<Rightarrow> lheap \<Rightarrow> lheap" where
  "set_prev a b h = h\<lparr>prv := (prv h)(a := b)\<rparr>"

section \<open>Operations of the doubly linked list\<close>

definition INIT_LIST_HEAD :: "addr \<Rightarrow> lheap \<Rightarrow> lheap" where
  "INIT_LIST_HEAD l h = set_prev l l (set_next l l h)"

text \<open>\<open>__list_add\<close>.\<close>

definition raw_list_add :: "addr \<Rightarrow> addr \<Rightarrow> addr \<Rightarrow> lheap \<Rightarrow> lheap" where
  "raw_list_add entry p n h =
     (let h1 = set_prev n entry h;
          h2 = set_next entry n h1;
          h3 = set_prev entry p h2
      in set_next p entry h3)"

definition list_add :: "addr \<Rightarrow> addr \<Rightarrow> lheap \<Rightarrow> lheap" where
  "list_add entry head h = raw_list_add entry head (nxt h head) h"

definition list_add_tail :: "addr \<Rightarrow> addr \<Rightarrow> lheap \<Rightarrow> lheap" where
  "list_add_tail entry head h = raw_list_add entry (prv h head) head h"

text \<open>\<open>__list_del\<close>.\<close>

definition raw_list_del :: "addr \<Rightarrow> addr \<Rightarrow> lheap \<Rightarrow> lheap" where
  "raw_list_del p n h = set_next p n (set_prev n p h)"

definition list_del :: "addr \<Rightarrow> lheap \<Rightarrow> lheap" where
  "list_del entry h = raw_list_del (prv h entry) (nxt h entry) h"

definition list_move :: "addr \<Rightarrow> addr \<Rightarrow> lheap \<Rightarrow> lheap" where
  "list_move entry head h =
     list_add entry head (raw_list_del (prv h entry) (nxt h entry) h)"

definition list_move_tail :: "addr \<Rightarrow> addr \<Rightarrow> lheap \<Rightarrow> lheap" where
  "list_move_tail entry head h =
     list_add_tail entry head (raw_list_del (prv h entry) (nxt h entry) h)"

definition list_empty :: "addr \<Rightarrow> lheap \<Rightarrow> bool" where
  "list_empty head h \<longleftrightarrow> nxt h head = head"

text \<open>\<open>__list_splice\<close>.\<close>

definition raw_list_splice :: "addr \<Rightarrow> addr \<Rightarrow> addr \<Rightarrow> lheap \<Rightarrow> lheap" where
  "raw_list_splice l p n h =
     (let first = nxt h l;
          last = prv h l;
          h1 = set_prev first p h;
          h2 = set_next p first h1;
          h3 = set_next last n h2
      in set_prev n last h3)"

definition list_splice :: "addr \<Rightarrow> addr \<Rightarrow> lheap \<Rightarrow> lheap" where
  "list_splice l head h =
     (if \<not> list_empty l h then raw_list_splice l head (nxt h head) h else h)"

definition list_splice_init :: "addr \<Rightarrow> addr \<Rightarrow> lheap \<Rightarrow> lheap" where
  "list_splice_init l head h =
     (if \<not> list_empty l h
      then INIT_LIST_HEAD l (raw_list_splice l head (nxt h head) h) else h)"

text \<open>
  The iteration macros: the sequence of positions the loop body sees. A loop over a list
  that is not circular may run forever, hence the option. \<open>list_for_each_safe\<close> reads the
  successor of a position before the body runs, so it visits the same positions when the
  body unlinks or frees the current entry: \<open>body\<close> is the effect of the loop body.
\<close>

partial_function (option) list_for_each_from ::
  "addr \<Rightarrow> addr \<Rightarrow> lheap \<Rightarrow> addr list option" where
  "list_for_each_from pos head h =
     (if pos = head then Some []
      else Option.bind (list_for_each_from (nxt h pos) head h) (\<lambda>ps. Some (pos # ps)))"

definition list_for_each :: "addr \<Rightarrow> lheap \<Rightarrow> addr list option" where
  "list_for_each head h = list_for_each_from (nxt h head) head h"

partial_function (option) list_for_each_prev_from ::
  "addr \<Rightarrow> addr \<Rightarrow> lheap \<Rightarrow> addr list option" where
  "list_for_each_prev_from pos head h =
     (if pos = head then Some []
      else Option.bind (list_for_each_prev_from (prv h pos) head h) (\<lambda>ps. Some (pos # ps)))"

definition list_for_each_prev :: "addr \<Rightarrow> lheap \<Rightarrow> addr list option" where
  "list_for_each_prev head h = list_for_each_prev_from (prv h head) head h"

partial_function (option) list_for_each_safe_from ::
  "(addr \<Rightarrow> lheap \<Rightarrow> lheap) \<Rightarrow> addr \<Rightarrow> addr \<Rightarrow> addr \<Rightarrow> lheap
     \<Rightarrow> (addr list \<times> lheap) option" where
  "list_for_each_safe_from body pos n head h =
     (if pos = head then Some ([], h)
      else let h' = body pos h in
           Option.bind (list_for_each_safe_from body n (nxt h' n) head h')
             (\<lambda>(ps, h''). Some (pos # ps, h'')))"

definition list_for_each_safe ::
  "(addr \<Rightarrow> lheap \<Rightarrow> lheap) \<Rightarrow> addr \<Rightarrow> lheap \<Rightarrow> (addr list \<times> lheap) option" where
  "list_for_each_safe body head h =
     list_for_each_safe_from body (nxt h head) (nxt h (nxt h head)) head h"

section \<open>Abstraction: the entries of a circular list\<close>

fun links :: "lheap \<Rightarrow> addr list \<Rightarrow> bool" where
  "links h (a # b # zs) \<longleftrightarrow> nxt h a = b \<and> prv h b = a \<and> links h (b # zs)"
| "links h _ \<longleftrightarrow> True"

definition clist :: "lheap \<Rightarrow> addr \<Rightarrow> addr list \<Rightarrow> bool" where
  "clist h head xs \<longleftrightarrow> distinct (head # xs) \<and> links h (head # xs @ [head])"

lemmas lheap_defs = set_next_def set_prev_def

lemma links_append: "links h (xs @ a # ys) \<longleftrightarrow> links h (xs @ [a]) \<and> links h (a # ys)"
proof (induction xs)
  case (Cons x xs)
  then show ?case by (cases xs) auto
qed simp

lemma links_cong:
  assumes "\<And>a. a \<in> set (butlast zs) \<Longrightarrow> nxt h' a = nxt h a"
    and "\<And>a. a \<in> set (tl zs) \<Longrightarrow> prv h' a = prv h a"
  shows "links h' zs \<longleftrightarrow> links h zs"
  using assms
proof (induction h zs rule: links.induct)
  case (1 h a b zs)
  then show ?case by (cases zs) auto
qed auto

lemma clist_cong:
  assumes "\<And>a. a \<in> set (head # xs) \<Longrightarrow> nxt h' a = nxt h a \<and> prv h' a = prv h a"
  shows "clist h' head xs \<longleftrightarrow> clist h head xs"
proof -
  have "links h' (head # xs @ [head]) \<longleftrightarrow> links h (head # xs @ [head])"
    by (rule links_cong) (use assms in \<open>auto dest: in_set_butlastD\<close>)
  then show ?thesis by (simp add: clist_def)
qed

lemma clist_nxt: "clist h head (xs @ x # y # ys) \<Longrightarrow> nxt h x = y \<and> prv h y = x"
  using links_append [of h "head # xs" x "y # ys @ [head]"] by (auto simp: clist_def)

lemma clist_first: "clist h head xs \<Longrightarrow> nxt h head = hd (xs @ [head])"
  by (cases xs) (auto simp: clist_def)

lemma clist_last: "clist h head xs \<Longrightarrow> prv h head = last (head # xs)"
proof (cases xs rule: rev_cases)
  case (snoc ys y)
  moreover assume "clist h head xs"
  ultimately show ?thesis
    using links_append [of h "head # ys" y "[head]"] by (auto simp: clist_def)
qed (auto simp: clist_def)

lemma clist_next_of:
  "clist h head (xs @ x # ys) \<Longrightarrow> nxt h x = hd (ys @ [head]) \<and> prv h x = last (head # xs)"
proof
  assume c: "clist h head (xs @ x # ys)"
  then have l: "links h ((head # xs) @ x # (ys @ [head]))" by (simp add: clist_def)
  from l have "links h (x # ys @ [head])" using links_append by blast
  then show "nxt h x = hd (ys @ [head])" by (cases ys) auto
  from l have m: "links h ((head # xs) @ [x])" using links_append by blast
  show "prv h x = last (head # xs)"
  proof (cases xs rule: rev_cases)
    case (snoc zs z)
    then show ?thesis using m links_append [of h "head # zs" z "[x]"] by simp
  qed (use m in simp)
qed

lemma clist_empty: "clist h head xs \<Longrightarrow> list_empty head h \<longleftrightarrow> xs = []"
  by (cases xs) (auto simp: list_empty_def clist_def)

section \<open>What each operation does to the sequence of entries\<close>

lemma clist_INIT: "clist (INIT_LIST_HEAD l h) l []"
  by (simp add: clist_def INIT_LIST_HEAD_def lheap_defs)

lemma links_insert:
  assumes "links h (A @ p # n # B)"
    and "e \<notin> set (A @ p # n # B)" "p \<notin> set A" "p \<notin> set (butlast (n # B))"
    and "n \<notin> set (tl (A @ [p]))" "n \<notin> set B"
  shows "links (raw_list_add e p n h) (A @ p # e # n # B)"
proof -
  let ?h = "raw_list_add e p n h"
  have fields: "nxt ?h = (nxt h)(e := n, p := e)" "prv ?h = (prv h)(n := e, e := p)"
    by (simp_all add: raw_list_add_def lheap_defs)
  from assms(1) have "links h (A @ [p])" "links h (n # B)"
    using links_append [of h A p "n # B"] by auto
  moreover have "links ?h (A @ [p]) = links h (A @ [p])"
    by (rule links_cong; cases A) (use assms in \<open>auto simp: fields dest: in_set_butlastD\<close>)
  moreover have "links ?h (n # B) = links h (n # B)"
    by (rule links_cong)
      (use assms in \<open>auto simp: fields dest: in_set_butlastD split: if_splits\<close>)
  moreover have "nxt ?h p = e" "prv ?h e = p" "nxt ?h e = n" "prv ?h n = e"
    using assms(2) by (auto simp: fields)
  ultimately show ?thesis by (simp add: links_append [of ?h A p "e # n # B"])
qed

lemma links_delete:
  assumes "links h (A @ p # e # n # B)"
    and "p \<notin> set A" "p \<notin> set (butlast (n # B))" "n \<notin> set (tl (A @ [p]))" "n \<notin> set B"
  shows "links (raw_list_del p n h) (A @ p # n # B)"
proof -
  let ?h = "raw_list_del p n h"
  have fields: "nxt ?h = (nxt h)(p := n)" "prv ?h = (prv h)(n := p)"
    by (simp_all add: raw_list_del_def lheap_defs)
  from assms(1) have "links h (A @ [p])" "links h (n # B)"
    using links_append [of h A p "e # n # B"] by auto
  moreover have "links ?h (A @ [p]) = links h (A @ [p])"
    by (rule links_cong; cases A) (use assms in \<open>auto simp: fields dest: in_set_butlastD\<close>)
  moreover have "links ?h (n # B) = links h (n # B)"
    by (rule links_cong)
      (use assms in \<open>auto simp: fields dest: in_set_butlastD split: if_splits\<close>)
  ultimately show ?thesis by (simp add: links_append [of ?h A p "n # B"] fields)
qed

text \<open>
  How a list splits around a gap: \<open>p\<close> is the entry (or the head) before the gap and \<open>n\<close>
  the one after it.
\<close>

lemma ring_gap:
  assumes "distinct (head # xs @ ys)"
  defines "A \<equiv> butlast (head # xs)" and "p \<equiv> last (head # xs)"
    and "n \<equiv> hd (ys @ [head])" and "B \<equiv> tl (ys @ [head])"
  shows "head # xs = A @ [p]" "ys @ [head] = n # B" "p \<notin> set A" "p \<notin> set (butlast (n # B))"
    "n \<notin> set (tl (A @ [p]))" "n \<notin> set B"
proof -
  show 1: "head # xs = A @ [p]" unfolding A_def p_def by (metis append_butlast_last_id list.distinct(1))
  show 2: "ys @ [head] = n # B" unfolding n_def B_def by simp
  have d: "distinct (A @ [p])" using assms(1) unfolding 1 [symmetric] by auto
  then show "p \<notin> set A" by auto
  have b: "butlast (n # B) = ys" unfolding 2 [symmetric] by simp
  have "p \<in> set (head # xs)" unfolding p_def using last_in_set by blast
  then show "p \<notin> set (butlast (n # B))" unfolding b using assms(1) by auto
  have t: "tl (A @ [p]) = xs" unfolding 1 [symmetric] by simp
  have "n \<in> set (ys @ [head])" unfolding 2 by simp
  then show "n \<notin> set (tl (A @ [p]))" unfolding t using assms(1) by auto
  show "n \<notin> set B"
    using assms(1) unfolding n_def B_def by (cases ys) auto
qed

lemma clist_insert:
  assumes c: "clist h head (xs @ ys)" and e: "e \<notin> set (head # xs @ ys)"
  shows "clist (raw_list_add e (last (head # xs)) (hd (ys @ [head])) h) head (xs @ e # ys)"
proof -
  from c have d: "distinct (head # xs @ ys)" by (simp add: clist_def)
  note gap = ring_gap [OF d]
  let ?A = "butlast (head # xs)" and ?p = "last (head # xs)"
    and ?n = "hd (ys @ [head])" and ?B = "tl (ys @ [head])"
  have whole: "head # xs @ ys @ [head] = ?A @ ?p # ?n # ?B"
    using gap(1,2) by (metis append.assoc append_Cons append_Nil)
  have "links (raw_list_add e ?p ?n h) (?A @ ?p # e # ?n # ?B)"
  proof (rule links_insert)
    show "links h (?A @ ?p # ?n # ?B)" using c whole by (simp add: clist_def)
    show "e \<notin> set (?A @ ?p # ?n # ?B)" using e unfolding whole [symmetric] by auto
  qed (use gap in auto)
  moreover have "?A @ ?p # e # ?n # ?B = head # (xs @ e # ys) @ [head]"
    using gap(1,2) by (metis append.assoc append_Cons append_Nil)
  ultimately have "links (raw_list_add e ?p ?n h) (head # (xs @ e # ys) @ [head])"
    by (simp only:)
  then show ?thesis using d e unfolding clist_def by auto
qed

lemma clist_next_last:
  "clist h head (xs @ ys) \<Longrightarrow> nxt h (last (head # xs)) = hd (ys @ [head])"
proof (cases xs rule: rev_cases)
  case (snoc zs z)
  moreover assume "clist h head (xs @ ys)"
  ultimately show ?thesis using clist_next_of [of h head zs z ys] by auto
qed (use clist_first in auto)

lemma clist_list_add:
  assumes "clist h head (xs @ ys)" "e \<notin> set (head # xs @ ys)" "p = last (head # xs)"
  shows "clist (list_add e p h) head (xs @ e # ys)"
  using clist_insert [OF assms(1,2)] clist_next_last [OF assms(1)] assms(3)
  by (simp add: list_add_def)

lemma clist_list_add_head:
  "clist h head xs \<Longrightarrow> e \<notin> set (head # xs) \<Longrightarrow> clist (list_add e head h) head (e # xs)"
  using clist_list_add [of h head "[]" xs e head] by simp

lemma clist_list_add_tail:
  "clist h head xs \<Longrightarrow> e \<notin> set (head # xs) \<Longrightarrow> clist (list_add_tail e head h) head (xs @ [e])"
  using clist_insert [of h head xs "[]" e] clist_last [of h head xs]
  by (simp add: list_add_tail_def)

lemma clist_list_del:
  assumes c: "clist h head (xs @ e # ys)"
  shows "clist (list_del e h) head (xs @ ys)"
proof -
  from c have d: "distinct (head # xs @ ys)" by (auto simp: clist_def)
  note gap = ring_gap [OF d]
  let ?A = "butlast (head # xs)" and ?p = "last (head # xs)"
    and ?n = "hd (ys @ [head])" and ?B = "tl (ys @ [head])"
  have whole: "head # (xs @ e # ys) @ [head] = ?A @ ?p # e # ?n # ?B"
    using gap(1,2) by (metis append.assoc append_Cons append_Nil)
  have "links h (?A @ ?p # e # ?n # ?B)" using c unfolding clist_def whole by blast
  then have "links (raw_list_del ?p ?n h) (?A @ ?p # ?n # ?B)"
    by (rule links_delete) (use gap in auto)
  moreover have "?A @ ?p # ?n # ?B = head # (xs @ ys) @ [head]"
    using gap(1,2) by (metis append.assoc append_Cons append_Nil)
  ultimately have "links (raw_list_del ?p ?n h) (head # (xs @ ys) @ [head])"
    by (simp only:)
  then show ?thesis using d clist_next_of [OF c] unfolding clist_def list_del_def by auto
qed

text \<open>Operations on one list leave every other list alone.\<close>

lemma clist_closed:
  "clist h head xs \<Longrightarrow> a \<in> set (head # xs) \<Longrightarrow>
     nxt h a \<in> set (head # xs) \<and> prv h a \<in> set (head # xs)"
proof (cases "a = head")
  case True
  moreover assume "clist h head xs"
  ultimately show ?thesis
    using clist_first [of h head xs] clist_last [of h head xs] by (cases xs) auto
next
  case False
  moreover assume c: "clist h head xs" and "a \<in> set (head # xs)"
  ultimately obtain ys zs where "xs = ys @ a # zs" by (auto dest: split_list)
  with c show ?thesis
    using clist_next_of [of h head ys a zs] by (cases zs; cases ys rule: rev_cases) auto
qed

lemma raw_list_add_frame:
  "clist h l zs \<Longrightarrow> {e, p, n} \<inter> set (l # zs) = {} \<Longrightarrow> clist (raw_list_add e p n h) l zs"
  by (subst clist_cong [of l zs _ h]) (auto simp: raw_list_add_def lheap_defs)

lemma raw_list_del_frame:
  "clist h l zs \<Longrightarrow> {p, n} \<inter> set (l # zs) = {} \<Longrightarrow> clist (raw_list_del p n h) l zs"
  by (subst clist_cong [of l zs _ h]) (auto simp: raw_list_del_def lheap_defs)

lemma list_add_frame:
  assumes "clist h head xs" "p \<in> set (head # xs)" "clist h l zs" "e \<notin> set (l # zs)"
    "set (head # xs) \<inter> set (l # zs) = {}"
  shows "clist (list_add e p h) l zs"
  unfolding list_add_def
  by (rule raw_list_add_frame) (use assms clist_closed [OF assms(1,2)] in auto)

lemma list_add_tail_frame:
  assumes "clist h head xs" "clist h l zs" "e \<notin> set (l # zs)"
    "set (head # xs) \<inter> set (l # zs) = {}"
  shows "clist (list_add_tail e head h) l zs"
  unfolding list_add_tail_def
  by (rule raw_list_add_frame) (use assms clist_closed [OF assms(1), of head] in auto)

lemma list_del_frame:
  assumes "clist h head xs" "e \<in> set (head # xs)" "clist h l zs"
    "set (head # xs) \<inter> set (l # zs) = {}"
  shows "clist (list_del e h) l zs"
  unfolding list_del_def
  by (rule raw_list_del_frame) (use assms clist_closed [OF assms(1,2)] in auto)

section \<open>The contract of an intrusive list\<close>

text \<open>
  What a component that keeps entries on a list relies on: \<open>rep h l xs\<close> says that the list
  with head \<open>l\<close> holds the entries \<open>xs\<close> in this order.
\<close>

locale intrusive_list =
  fixes rep :: "'h \<Rightarrow> addr \<Rightarrow> addr list \<Rightarrow> bool"
    and init :: "addr \<Rightarrow> 'h \<Rightarrow> 'h"
    and add_tail :: "addr \<Rightarrow> addr \<Rightarrow> 'h \<Rightarrow> 'h"
    and del :: "addr \<Rightarrow> 'h \<Rightarrow> 'h"
  assumes rep_init: "rep (init l h) l []"
    and rep_distinct: "rep h l xs \<Longrightarrow> distinct (l # xs)"
    and rep_add_tail: "rep h l xs \<Longrightarrow> e \<notin> set (l # xs) \<Longrightarrow> rep (add_tail e l h) l (xs @ [e])"
    and rep_del: "rep h l (xs @ e # ys) \<Longrightarrow> rep (del e h) l (xs @ ys)"
    and add_tail_frame: "rep h l xs \<Longrightarrow> rep h m zs \<Longrightarrow> e \<notin> set (m # zs) \<Longrightarrow>
      set (l # xs) \<inter> set (m # zs) = {} \<Longrightarrow> rep (add_tail e l h) m zs"
    and del_frame: "rep h l xs \<Longrightarrow> e \<in> set xs \<Longrightarrow> rep h m zs \<Longrightarrow>
      set (l # xs) \<inter> set (m # zs) = {} \<Longrightarrow> rep (del e h) m zs"
begin

lemma rep_append_all:
  "rep h l xs \<Longrightarrow> distinct (l # xs @ es) \<Longrightarrow> rep (fold (\<lambda>e. add_tail e l) es h) l (xs @ es)"
proof (induction es arbitrary: h xs)
  case (Cons e es)
  then have "rep (add_tail e l h) l (xs @ [e])" by (intro rep_add_tail) auto
  from Cons.IH [OF this] Cons.prems show ?case by simp
qed simp

lemma rep_move_other:
  assumes "rep h l (xs @ e # ys)" "rep h m zs" "set (l # xs @ e # ys) \<inter> set (m # zs) = {}"
  shows "rep (add_tail e m (del e h)) l (xs @ ys) \<and> rep (add_tail e m (del e h)) m (zs @ [e])"
proof -
  have l: "rep (del e h) l (xs @ ys)" using assms(1) by (rule rep_del)
  have m: "rep (del e h) m zs" by (rule del_frame [OF assms(1) _ assms(2,3)]) simp
  have d: "distinct (l # xs @ e # ys)" using assms(1) by (rule rep_distinct)
  have "rep (add_tail e m (del e h)) m (zs @ [e])" using m by (rule rep_add_tail) (use assms(3) in auto)
  moreover have "rep (add_tail e m (del e h)) l (xs @ ys)"
    by (rule add_tail_frame [OF m l]) (use d assms(3) in auto)
  ultimately show ?thesis by blast
qed

lemma rep_move_same:
  assumes "rep h l (xs @ e # ys)"
  shows "rep (add_tail e l (del e h)) l (xs @ ys @ [e])"
  using rep_add_tail [OF rep_del [OF assms], of e] rep_distinct [OF assms] by auto

end

interpretation cl: intrusive_list clist INIT_LIST_HEAD list_add_tail list_del
proof (unfold_locales, goal_cases)
  case (1 l h) show ?case by (rule clist_INIT)
next
  case (2 h l xs) then show ?case by (simp add: clist_def)
next
  case (3 h l xs e) then show ?case by (rule clist_list_add_tail)
next
  case (4 h l xs e ys) then show ?case by (rule clist_list_del)
next
  case (5 h l xs m zs e) then show ?case by (intro list_add_tail_frame) auto
next
  case (6 h l xs e m zs) then show ?case by (intro list_del_frame [of h l xs]) auto
qed

section \<open>Moves, splices and iteration\<close>

lemma list_move_tail_eq: "list_move_tail e head h = list_add_tail e head (list_del e h)"
  by (simp add: list_move_tail_def list_del_def)

lemma list_move_eq: "list_move e head h = list_add e head (list_del e h)"
  by (simp add: list_move_def list_del_def)

lemma links_splice:
  assumes c: "clist h head xs" and l: "clist h l ls" and ne: "ls \<noteq> []"
    and dis: "set (head # xs) \<inter> set (l # ls) = {}"
  defines "h' \<equiv> raw_list_splice l head (nxt h head) h"
  shows "links h' (head # (ls @ xs) @ [head])"
proof -
  obtain f F where F: "ls = f # F" using ne by (cases ls) auto
  obtain A la where A: "ls = A @ [la]" using ne by (cases ls rule: rev_cases) auto
  obtain n B where B: "xs @ [head] = n # B" by (cases xs) auto
  have nx: "nxt h head = n" using clist_first [OF c] B by simp
  have fl: "nxt h l = f" "prv h l = la"
    using clist_first [OF l] clist_last [OF l] by (simp add: F, simp add: A)
  have dl: "distinct (l # ls)" and dx: "distinct (head # xs)" using l c by (auto simp: clist_def)
  have fields: "nxt h' = (nxt h)(head := f, la := n)" "prv h' = (prv h)(f := head, n := la)"
    by (simp_all add: h'_def raw_list_splice_def lheap_defs fl nx Let_def)
  have mem: "la \<in> set ls" "f \<in> set ls" by (simp add: A, simp add: F)
  have memA: "la \<notin> set A" using dl by (simp add: A)
  have memF: "f \<notin> set F" using dl by (simp add: F)
  have n: "n \<in> set (head # xs)" "n \<notin> set B" and BS: "set B \<subseteq> set (head # xs)"
    using B dx by (cases xs; auto)+
  have "links h (ls @ [l])" using l F by (auto simp: clist_def)
  then have "links h (A @ la # [l])" by (simp add: A)
  then have "links h ls" unfolding A using links_append by blast
  moreover have "links h' ls = links h ls"
  proof (rule links_cong)
    fix a assume "a \<in> set (butlast ls)"
    then have "a \<in> set A" "a \<in> set ls" by (simp_all add: A)
    then show "nxt h' a = nxt h a" using dis memA by (auto simp: fields)
  next
    fix a assume "a \<in> set (tl ls)"
    then have "a \<in> set F" "a \<in> set ls" by (simp_all add: F)
    then show "prv h' a = prv h a" using dis memF n by (auto simp: fields)
  qed
  ultimately have ils: "links h' (A @ [la])" by (simp add: A)
  have "links h (xs @ [head])" using c by (cases xs) (auto simp: clist_def)
  moreover have "links h' (xs @ [head]) = links h (xs @ [head])"
  proof (rule links_cong)
    fix a assume "a \<in> set (butlast (xs @ [head]))"
    then show "nxt h' a = nxt h a" using dis mem dx by (auto simp: fields)
  next
    fix a assume "a \<in> set (tl (xs @ [head]))"
    then have "a \<in> set B" "a \<in> set (head # xs)" using B BS by auto
    then show "prv h' a = prv h a" using dis mem n by (auto simp: fields)
  qed
  ultimately have ixs: "links h' (n # B)" by (simp add: B)
  have ends: "nxt h' head = f" "prv h' f = head" "nxt h' la = n" "prv h' n = la"
    using dis mem n by (auto simp: fields)
  have "links h' (la # n # B)" using ixs ends by simp
  with ils have "links h' (A @ la # n # B)" using links_append by blast
  then have "links h' (ls @ xs @ [head])" by (simp add: A B)
  then show ?thesis using ends by (simp add: F)
qed

lemma clist_list_splice:
  assumes "clist h head xs" "clist h l ls" "set (head # xs) \<inter> set (l # ls) = {}"
  shows "clist (list_splice l head h) head (ls @ xs)"
proof (cases "ls = []")
  case True
  with assms clist_empty [OF assms(2)] show ?thesis by (simp add: list_splice_def)
next
  case False
  then show ?thesis
    using links_splice [OF assms(1,2) False assms(3)] assms clist_empty [OF assms(2)]
    by (auto simp: list_splice_def clist_def)
qed

lemma clist_list_splice_init:
  assumes "clist h head xs" "clist h l ls" "set (head # xs) \<inter> set (l # ls) = {}"
  shows "clist (list_splice_init l head h) head (ls @ xs) \<and> clist (list_splice_init l head h) l []"
proof (cases "ls = []")
  case True
  with assms clist_empty [OF assms(2)] show ?thesis by (simp add: list_splice_init_def)
next
  case False
  then have eq: "list_splice_init l head h = INIT_LIST_HEAD l (list_splice l head h)"
    using clist_empty [OF assms(2)] by (simp add: list_splice_init_def list_splice_def)
  have "clist (list_splice l head h) head (ls @ xs)" using assms by (rule clist_list_splice)
  moreover have "l \<notin> set (head # ls @ xs)" using assms(2,3) by (auto simp: clist_def)
  ultimately have "clist (INIT_LIST_HEAD l (list_splice l head h)) head (ls @ xs)"
    by (subst clist_cong [of head "ls @ xs" _ "list_splice l head h"])
      (auto simp: INIT_LIST_HEAD_def lheap_defs)
  then show ?thesis unfolding eq using clist_INIT by blast
qed

lemma list_for_each_from_rest:
  "clist h head (xs @ ys) \<Longrightarrow> list_for_each_from (hd (ys @ [head])) head h = Some ys"
proof (induction ys arbitrary: xs)
  case Nil
  show ?case by (simp add: list_for_each_from.simps)
next
  case (Cons y ys)
  from Cons.prems have "nxt h y = hd (ys @ [head])" "y \<noteq> head"
    using clist_next_of [of h head xs y ys] by (auto simp: clist_def)
  with Cons.IH [of "xs @ [y]"] Cons.prems show ?case
    by (simp add: list_for_each_from.simps [of y])
qed

lemma list_for_each_prev_from_rest:
  "clist h head (xs @ ys) \<Longrightarrow> list_for_each_prev_from (last (head # xs)) head h = Some (rev xs)"
proof (induction xs arbitrary: ys rule: rev_induct)
  case Nil
  show ?case by (simp add: list_for_each_prev_from.simps)
next
  case (snoc x xs)
  from snoc.prems have "prv h x = last (head # xs)" "x \<noteq> head"
    using clist_next_of [of h head xs x ys] by (auto simp: clist_def)
  with snoc.IH [of "x # ys"] snoc.prems show ?case
    by (simp add: list_for_each_prev_from.simps [of x])
qed

fun nchain :: "lheap \<Rightarrow> addr list \<Rightarrow> addr \<Rightarrow> bool" where
  "nchain h [] e \<longleftrightarrow> True"
| "nchain h (a # ys) e \<longleftrightarrow> a \<noteq> e \<and> nxt h a = hd (ys @ [e]) \<and> nchain h ys e"

lemma clist_nchain: "clist h head (xs @ ys) \<Longrightarrow> nchain h ys head"
proof (induction ys arbitrary: xs)
  case (Cons y ys)
  then show ?case
    using clist_next_of [of h head xs y ys] Cons.IH [of "xs @ [y]"] by (auto simp: clist_def)
qed simp

lemma list_for_each_safe_visits:
  assumes step: "\<And>a ys h. I (a # ys) h \<Longrightarrow> I ys (body a h)"
    and chain: "\<And>ys h. I ys h \<Longrightarrow> nchain h ys head"
    and "I ys h" and "pos = hd (ys @ [head])" and "n = nxt h pos"
  shows "\<exists>h'. list_for_each_safe_from body pos n head h = Some (ys, h') \<and> I [] h'"
  using assms(3-5)
proof (induction ys arbitrary: pos n h)
  case Nil
  then show ?case by (simp add: list_for_each_safe_from.simps)
next
  case (Cons a ys)
  from chain [OF Cons.prems(1)] have a: "a \<noteq> head" "n = hd (ys @ [head])"
    using Cons.prems by auto
  from Cons.IH [OF step [OF Cons.prems(1)] a(2) refl] obtain h' where
    "list_for_each_safe_from body n (nxt (body a h) n) head (body a h) = Some (ys, h')" "I [] h'"
    by blast
  with a Cons.prems show ?case
    by (simp add: list_for_each_safe_from.simps [of body a] Let_def)
qed

section \<open>The singly linked list\<close>

text \<open>
  A node is its address; the head structure embeds its sentinel node \<open>first\<close> at offset 0,
  so the head and its sentinel share the address \<open>l\<close>. Following a null pointer is \<open>None\<close>.
\<close>

record sheap =
  snxt :: "addr \<Rightarrow> addr option"
  slast :: "addr \<Rightarrow> addr"

definition set_snext :: "addr \<Rightarrow> addr option \<Rightarrow> sheap \<Rightarrow> sheap" where
  "set_snext a b h = h\<lparr>snxt := (snxt h)(a := b)\<rparr>"

definition set_slast :: "addr \<Rightarrow> addr \<Rightarrow> sheap \<Rightarrow> sheap" where
  "set_slast l b h = h\<lparr>slast := (slast h)(l := b)\<rparr>"

definition INIT_SLIST_HEAD :: "addr \<Rightarrow> sheap \<Rightarrow> sheap" where
  "INIT_SLIST_HEAD l h = set_slast l l (set_snext l None h)"

definition slist_add_after :: "addr \<Rightarrow> addr \<Rightarrow> addr \<Rightarrow> sheap \<Rightarrow> sheap" where
  "slist_add_after entry p l h =
     (let h1 = set_snext entry (snxt h p) h;
          h2 = set_snext p (Some entry) h1
      in if snxt h2 entry = None then set_slast l entry h2 else h2)"

definition slist_add_head :: "addr \<Rightarrow> addr \<Rightarrow> sheap \<Rightarrow> sheap" where
  "slist_add_head entry l h = slist_add_after entry l l h"

definition slist_add_tail :: "addr \<Rightarrow> addr \<Rightarrow> sheap \<Rightarrow> sheap" where
  "slist_add_tail entry l h =
     (let h1 = set_snext entry None h;
          h2 = set_snext (slast h1 l) (Some entry) h1
      in set_slast l entry h2)"

definition slist_del_after :: "addr \<Rightarrow> addr \<Rightarrow> sheap \<Rightarrow> sheap option" where
  "slist_del_after p l h =
     (case snxt h p of
        None \<Rightarrow> None
      | Some q \<Rightarrow>
          let h1 = set_snext p (snxt h q) h
          in Some (if snxt h1 p = None then set_slast l p h1 else h1))"

definition slist_del_head :: "addr \<Rightarrow> sheap \<Rightarrow> sheap option" where
  "slist_del_head l h = slist_del_after l l h"

definition slist_empty :: "addr \<Rightarrow> sheap \<Rightarrow> bool" where
  "slist_empty l h \<longleftrightarrow> snxt h l = None"

text \<open>\<open>__slist_splice\<close>.\<close>

definition raw_slist_splice :: "addr \<Rightarrow> addr \<Rightarrow> addr \<Rightarrow> sheap \<Rightarrow> sheap" where
  "raw_slist_splice l p head h =
     (let h1 = set_snext (slast h l) (snxt h p) h;
          h2 = set_snext p (snxt h1 l) h1
      in if snxt h2 (slast h2 l) = None then set_slast head (slast h2 l) h2 else h2)"

definition slist_splice :: "addr \<Rightarrow> addr \<Rightarrow> addr \<Rightarrow> sheap \<Rightarrow> sheap" where
  "slist_splice l p head h = (if \<not> slist_empty l h then raw_slist_splice l p head h else h)"

definition slist_splice_init :: "addr \<Rightarrow> addr \<Rightarrow> addr \<Rightarrow> sheap \<Rightarrow> sheap" where
  "slist_splice_init l p head h =
     (if \<not> slist_empty l h then INIT_SLIST_HEAD l (raw_slist_splice l p head h) else h)"

partial_function (option) slist_for_each_from :: "addr option \<Rightarrow> sheap \<Rightarrow> addr list option" where
  "slist_for_each_from pos h =
     (case pos of
        None \<Rightarrow> Some []
      | Some a \<Rightarrow> Option.bind (slist_for_each_from (snxt h a) h) (\<lambda>ps. Some (a # ps)))"

definition slist_for_each :: "addr \<Rightarrow> sheap \<Rightarrow> addr list option" where
  "slist_for_each l h = slist_for_each_from (snxt h l) h"

text \<open>
  \<open>slist_for_each_safe\<close>: the body sees the position and its predecessor; it may unlink the
  position, and then the loop keeps the predecessor.
\<close>

partial_function (option) slist_for_each_safe_from ::
  "(addr \<Rightarrow> addr \<Rightarrow> sheap \<Rightarrow> sheap option) \<Rightarrow> addr \<Rightarrow> addr option \<Rightarrow> sheap
     \<Rightarrow> (addr list \<times> sheap) option" where
  "slist_for_each_safe_from body p pos h =
     (case pos of
        None \<Rightarrow> Some ([], h)
      | Some a \<Rightarrow>
          Option.bind (body p a h) (\<lambda>h'.
            let p' = (if snxt h' p = Some a then a else p)
            in Option.bind (slist_for_each_safe_from body p' (snxt h' p') h')
                 (\<lambda>(ps, h''). Some (a # ps, h''))))"

definition slist_for_each_safe ::
  "(addr \<Rightarrow> addr \<Rightarrow> sheap \<Rightarrow> sheap option) \<Rightarrow> addr \<Rightarrow> sheap \<Rightarrow> (addr list \<times> sheap) option" where
  "slist_for_each_safe body l h = slist_for_each_safe_from body l (snxt h l) h"

fun schain :: "sheap \<Rightarrow> addr list \<Rightarrow> addr option \<Rightarrow> bool" where
  "schain h [] e \<longleftrightarrow> True"
| "schain h [a] e \<longleftrightarrow> snxt h a = e"
| "schain h (a # b # zs) e \<longleftrightarrow> snxt h a = Some b \<and> schain h (b # zs) e"

definition slist :: "sheap \<Rightarrow> addr \<Rightarrow> addr list \<Rightarrow> bool" where
  "slist h l xs \<longleftrightarrow> distinct (l # xs) \<and> schain h (l # xs) None \<and> slast h l = last (l # xs)"

lemmas sheap_defs = set_snext_def set_slast_def

definition ptr_hd :: "addr list \<Rightarrow> addr option" where
  "ptr_hd zs = (case zs of [] \<Rightarrow> None | z # _ \<Rightarrow> Some z)"

lemma ptr_hd_simps [simp]: "ptr_hd [] = None" "ptr_hd (z # zs) = Some z"
  by (simp_all add: ptr_hd_def)

lemma schain_append:
  "ys \<noteq> [] \<Longrightarrow> schain h (xs @ ys) e \<longleftrightarrow> schain h xs (Some (hd ys)) \<and> schain h ys e"
  by (induction h xs e rule: schain.induct) (auto simp: neq_Nil_conv)

lemma schain_cong:
  "(\<And>a. a \<in> set zs \<Longrightarrow> snxt h' a = snxt h a) \<Longrightarrow> schain h' zs e \<longleftrightarrow> schain h zs e"
  by (induction h zs e rule: schain.induct) auto

lemma schain_last: "xs \<noteq> [] \<Longrightarrow> schain h xs e \<Longrightarrow> snxt h (last xs) = e"
  by (induction h xs e rule: schain.induct) auto

lemma schain_set_last:
  assumes "distinct xs" "xs \<noteq> []" "schain h xs e" and "snxt h' = (snxt h)(last xs := e')"
  shows "schain h' xs e'"
proof -
  obtain A a where A: "xs = A @ [a]" using assms(2) by (cases xs rule: rev_cases) auto
  have "schain h A (Some a)" using assms(3) schain_append [of "[a]" h A e] A by simp
  moreover have "schain h' A (Some a) = schain h A (Some a)"
    by (rule schain_cong) (use assms A in auto)
  ultimately show ?thesis using assms(4) A schain_append [of "[a]" h' A e'] by simp
qed

lemma slist_split:
  "slist h l (xs @ ys) \<longleftrightarrow>
     distinct (l # xs @ ys) \<and> schain h (l # xs) (ptr_hd ys) \<and> schain h ys None
     \<and> slast h l = last (l # xs @ ys)"
  using schain_append [of ys h "l # xs" None] by (cases ys) (auto simp: slist_def)

lemma slist_next_of: "slist h l (xs @ ys) \<Longrightarrow> snxt h (last (l # xs)) = ptr_hd ys"
  using schain_last [of "l # xs" h "ptr_hd ys"] by (simp add: slist_split)

lemma slist_INIT: "slist (INIT_SLIST_HEAD l h) l []"
  by (simp add: slist_def INIT_SLIST_HEAD_def sheap_defs)

lemma slist_add_after:
  assumes s: "slist h l (xs @ ys)" and e: "e \<notin> set (l # xs @ ys)" and p: "p = last (l # xs)"
  shows "slist (slist_add_after e p l h) l (xs @ e # ys)"
proof -
  let ?h = "slist_add_after e p l h"
  have pe: "p \<noteq> e" and pin: "p \<in> set (l # xs)"
    using e p last_in_set [of "l # xs"] by (auto simp del: last.simps)
  have np: "snxt h p = ptr_hd ys" using slist_next_of [OF s] p by simp
  have sn: "snxt ?h = (snxt h)(e := ptr_hd ys, p := Some e)"
    using pe by (auto simp: slist_add_after_def sheap_defs np Let_def)
  have d: "distinct (l # xs @ ys)" using s by (simp add: slist_def)
  have "schain h (l # xs) (ptr_hd ys)" "schain h ys None" using s by (simp_all add: slist_split)
  moreover have "schain ?h ys None = schain h ys None"
    by (rule schain_cong) (use e d pin sn in auto)
  moreover have "schain ?h (l # xs) (Some e)"
  proof -
    let ?g = "h\<lparr>snxt := (snxt h)(p := Some e)\<rparr>"
    have "schain ?g (l # xs) (Some e)"
      by (rule schain_set_last [of _ h "ptr_hd ys"]) (use d p calculation in auto)
    moreover have "schain ?h (l # xs) (Some e) = schain ?g (l # xs) (Some e)"
      by (rule schain_cong) (use e sn in auto)
    ultimately show ?thesis by simp
  qed
  ultimately have "schain ?h (e # ys) None" "schain ?h (l # xs) (Some e)"
    using pe by (cases ys; simp add: sn)+
  moreover have "slast ?h l = last (l # xs @ e # ys)"
    using s pe np by (cases ys) (auto simp: slist_add_after_def sheap_defs slist_def Let_def)
  ultimately show ?thesis using d e by (auto simp: slist_split)
qed

lemma slist_add_tail:
  assumes s: "slist h l xs" and e: "e \<notin> set (l # xs)"
  shows "slist (slist_add_tail e l h) l (xs @ [e])"
proof -
  have "slast h l = last (l # xs)" "snxt h (last (l # xs)) = None" "last (l # xs) \<noteq> e"
    using s e slist_next_of [of h l xs "[]"] last_in_set [of "l # xs"]
    by (auto simp: slist_def simp del: last.simps)
  then have "slist_add_tail e l h = slist_add_after e (last (l # xs)) l h"
    by (auto simp: slist_add_tail_def slist_add_after_def sheap_defs Let_def fun_upd_twist)
  then show ?thesis using slist_add_after [of h l xs "[]" e] s e by simp
qed

lemma slist_del_after:
  assumes s: "slist h l (xs @ e # ys)" and p: "p = last (l # xs)"
  shows "\<exists>h'. slist_del_after p l h = Some h' \<and> slist h' l (xs @ ys)
    \<and> (\<forall>a. a \<noteq> p \<longrightarrow> snxt h' a = snxt h a)"
proof -
  have pin: "p \<in> set (l # xs)" using p last_in_set [of "l # xs"] by (auto simp del: last.simps)
  have np: "snxt h p = Some e" using slist_next_of [OF s] p by simp
  have ne: "snxt h e = ptr_hd ys"
    using slist_next_of [of h l "xs @ [e]" ys] s by simp
  have d: "distinct (l # xs @ e # ys)" using s by (simp add: slist_def)
  let ?h = "set_snext p (ptr_hd ys) h"
  have fields: "snxt ?h = (snxt h)(p := ptr_hd ys)" "slast ?h = slast h" by (simp_all add: sheap_defs)
  have "schain h (l # xs) (Some e)" "schain h (e # ys) None" using s by (simp_all add: slist_split)
  then have ys: "schain h ys None" by (cases ys) auto
  have "schain ?h ys None = schain h ys None"
    by (rule schain_cong) (use d pin fields in auto)
  moreover have "schain ?h (l # xs) (ptr_hd ys)"
    by (rule schain_set_last [of _ h "Some e"]) (use d p \<open>schain h (l # xs) (Some e)\<close> fields in auto)
  ultimately have ch: "schain ?h (l # xs) (ptr_hd ys)" "schain ?h ys None" using ys by auto
  let ?g = "if snxt ?h p = None then set_slast l p ?h else ?h"
  have sg: "snxt ?g = snxt ?h" by (simp add: sheap_defs)
  have "schain ?g zs w = schain ?h zs w" for zs w by (rule schain_cong) (simp add: sg)
  moreover have "slast ?g l = last (l # xs @ ys)"
    using s p by (cases ys) (auto simp: slist_def sheap_defs)
  ultimately have "slist ?g l (xs @ ys)"
    unfolding slist_split using d ch by auto
  moreover have "slist_del_after p l h = Some ?g"
    by (simp add: slist_del_after_def np ne Let_def)
  ultimately show ?thesis by (intro exI [of _ ?g]) (auto simp: sheap_defs)
qed

lemma slist_splice:
  assumes s: "slist h l (xs @ ys)" and m: "slist h m ms"
    and dis: "set (l # xs @ ys) \<inter> set (m # ms) = {}" and p: "p = last (l # xs)"
  shows "slist (slist_splice m p l h) l (xs @ ms @ ys)"
proof (cases "ms = []")
  case True
  then show ?thesis using s m by (simp add: slist_splice_def slist_empty_def slist_def)
next
  case False
  then obtain f F where F: "ms = f # F" by (cases ms) auto
  let ?la = "last ms"
  have la: "?la \<in> set ms" using False by simp
  have pin: "p \<in> set (l # xs)" using p last_in_set [of "l # xs"] by (auto simp del: last.simps)
  have np: "snxt h p = ptr_hd ys" using slist_next_of [OF s] p by simp
  have hm: "snxt h m = Some f" "slast h m = ?la" using m False F by (auto simp: slist_def)
  have d: "distinct (l # xs @ ys)" and dm: "distinct (m # ms)" using s m by (auto simp: slist_def)
  have ne: "m \<noteq> ?la" "p \<noteq> ?la" "m \<noteq> p" using dm la dis pin by auto
  let ?h = "slist_splice m p l h"
  have sp: "?h = raw_slist_splice m p l h" using hm by (simp add: slist_splice_def slist_empty_def)
  have sn: "snxt ?h = (snxt h)(?la := ptr_hd ys, p := Some f)"
    using ne hm np by (auto simp: sp raw_slist_splice_def sheap_defs Let_def)
  have sl: "slast ?h l = last (l # xs @ ms @ ys)"
    using s ne hm np False dis
    by (cases ys) (auto simp: sp raw_slist_splice_def sheap_defs Let_def slist_def)
  have "schain h (l # xs) (ptr_hd ys)" "schain h ys None" using s by (simp_all add: slist_split)
  moreover have "schain h ms None" using m F by (simp add: slist_def)
  ultimately have base: "schain h (l # xs) (ptr_hd ys)" "schain h ys None" "schain h ms None" by auto
  have "schain (h\<lparr>snxt := (snxt h)(?la := ptr_hd ys)\<rparr>) ms (ptr_hd ys)"
    by (rule schain_set_last [of _ h None]) (use dm False base in auto)
  moreover have "schain ?h ms w = schain (h\<lparr>snxt := (snxt h)(?la := ptr_hd ys)\<rparr>) ms w" for w
    by (rule schain_cong) (use dis pin sn in auto)
  ultimately have cm: "schain ?h ms (ptr_hd ys)" by simp
  have "schain (h\<lparr>snxt := (snxt h)(p := Some f)\<rparr>) (l # xs) (Some f)"
    by (rule schain_set_last [of _ h "ptr_hd ys"]) (use d p base in auto)
  moreover have "schain ?h (l # xs) w = schain (h\<lparr>snxt := (snxt h)(p := Some f)\<rparr>) (l # xs) w" for w
    by (rule schain_cong) (use dis la sn in auto)
  ultimately have cl: "schain ?h (l # xs) (Some f)" by simp
  have "schain ?h ys None = schain h ys None"
    by (rule schain_cong) (use dis la pin d sn in auto)
  with base have cy: "schain ?h ys None" by simp
  have "schain ?h (ms @ ys) None"
    using cm cy schain_append [of ys ?h ms None] by (cases ys) auto
  moreover have "distinct (l # xs @ ms @ ys)" using d dm dis by auto
  ultimately show ?thesis using cl sl unfolding slist_split by (simp add: F)
qed

lemma slist_for_each_from_rest: "slist h l (xs @ ys) \<Longrightarrow> slist_for_each_from (ptr_hd ys) h = Some ys"
proof (induction ys arbitrary: xs)
  case Nil
  show ?case by (simp add: slist_for_each_from.simps)
next
  case (Cons y ys)
  then show ?case
    using slist_next_of [of h l "xs @ [y]" ys] Cons.IH [of "xs @ [y]"]
    by (simp add: slist_for_each_from.simps [of "Some y"])
qed

text \<open>A loop body that unlinks the entries \<open>P\<close> selects, as \<open>slist_del_after(prev, list)\<close>.\<close>

definition unlink_if :: "(addr \<Rightarrow> bool) \<Rightarrow> addr \<Rightarrow> addr \<Rightarrow> addr \<Rightarrow> sheap \<Rightarrow> sheap option" where
  "unlink_if P l p a h = (if P a then slist_del_after p l h else Some h)"

lemma slist_for_each_safe_from_unlink:
  "slist h l (xs @ ys) \<Longrightarrow> p = last (l # xs) \<Longrightarrow>
     \<exists>h'. slist_for_each_safe_from (unlink_if P l) p (ptr_hd ys) h = Some (ys, h')
       \<and> slist h' l (xs @ filter (\<lambda>a. \<not> P a) ys)"
proof (induction ys arbitrary: xs p h)
  case Nil
  then show ?case by (simp add: slist_for_each_safe_from.simps)
next
  case (Cons a ys)
  show ?case
  proof (cases "P a")
    case True
    from slist_del_after [OF Cons.prems] obtain g where
      g: "slist_del_after p l h = Some g" "slist g l (xs @ ys)" by blast
    have "ptr_hd ys \<noteq> Some a" using Cons.prems(1) by (cases ys) (auto simp: slist_def)
    moreover have "snxt g p = ptr_hd ys" using slist_next_of [OF g(2)] Cons.prems(2) by simp
    moreover obtain h' where "slist_for_each_safe_from (unlink_if P l) p (ptr_hd ys) g = Some (ys, h')"
      "slist h' l (xs @ filter (\<lambda>a. \<not> P a) ys)"
      using Cons.IH [OF g(2) Cons.prems(2)] by blast
    moreover have "unlink_if P l p a h = Some g" using True g(1) by (simp add: unlink_if_def)
    ultimately show ?thesis using True
      by (simp add: slist_for_each_safe_from.simps [of _ p "Some a"] Let_def)
  next
    case False
    have n: "snxt h p = Some a" "snxt h a = ptr_hd ys"
      using slist_next_of [OF Cons.prems(1)] slist_next_of [of h l "xs @ [a]" ys] Cons.prems by auto
    from Cons.IH [of h "xs @ [a]" a] Cons.prems(1) obtain h' where
      "slist_for_each_safe_from (unlink_if P l) a (ptr_hd ys) h = Some (ys, h')"
      "slist h' l ((xs @ [a]) @ filter (\<lambda>a. \<not> P a) ys)" by auto
    moreover have "unlink_if P l p a h = Some h" using False by (simp add: unlink_if_def)
    ultimately show ?thesis using False n
      by (simp add: slist_for_each_safe_from.simps [of _ p "Some a"] Let_def)
  qed
qed

section \<open>Properties\<close>

text \<open>C19: \<open>list_move_tail\<close> takes an entry off the list it is on and makes it the last entry of
  another list; the order of the remaining entries of both lists is kept.\<close>

theorem list_move_tail_moves:
  assumes "clist h l (xs @ e # ys)" and "clist h m zs"
    and "set (l # xs @ e # ys) \<inter> set (m # zs) = {}"
  shows "clist (list_move_tail e m h) l (xs @ ys) \<and> clist (list_move_tail e m h) m (zs @ [e])"
  unfolding list_move_tail_eq using assms by (rule cl.rep_move_other)

definition two_lists :: lheap where
  "two_lists = fold (\<lambda>(e, l). list_add_tail e l) [(2, 0), (3, 0), (4, 0), (5, 1)]
     (INIT_LIST_HEAD 1 (INIT_LIST_HEAD 0 \<lparr>nxt = (\<lambda>_. 0), prv = (\<lambda>_. 0)\<rparr>))"

lemma two_lists_reps: "clist two_lists 0 [2, 3, 4]" "clist two_lists 1 [5]"
  by (simp_all add: two_lists_def clist_def list_add_tail_def raw_list_add_def INIT_LIST_HEAD_def
      lheap_defs Let_def)

theorem list_move_tail_moves_witness:
  "clist (list_move_tail 3 1 two_lists) 0 [2, 4] \<and> clist (list_move_tail 3 1 two_lists) 1 [5, 3]"
  using list_move_tail_moves [of two_lists 0 "[2]" 3 "[4]" 1 "[5]"] two_lists_reps by simp

text \<open>\<open>list_splice_init\<close> puts all entries of one list, in order, in front of the entries of
  the other, and leaves the first list empty.\<close>

theorem list_splice_init_joins:
  assumes "clist h head xs" and "clist h l ls" and "set (head # xs) \<inter> set (l # ls) = {}"
  shows "clist (list_splice_init l head h) head (ls @ xs)
    \<and> list_empty l (list_splice_init l head h)"
  using clist_list_splice_init [OF assms] clist_empty by blast

theorem list_splice_init_joins_witness:
  "clist (list_splice_init 1 0 two_lists) 0 [5, 2, 3, 4] \<and> list_empty 1 (list_splice_init 1 0 two_lists)"
  using list_splice_init_joins [of two_lists 0 "[2, 3, 4]" 1 "[5]"] two_lists_reps by simp



text \<open>\<open>slist_for_each_safe\<close> terminates and visits every entry of a singly linked list once
  and in order when its body unlinks the entries a predicate selects; the other entries stay
  on the list in their order and the head's \<open>last\<close> pointer is right.\<close>

theorem slist_for_each_safe_unlinking:
  assumes "slist h l xs"
  shows "\<exists>h'. slist_for_each_safe (unlink_if P l) l h = Some (xs, h')
    \<and> slist h' l (filter (\<lambda>a. \<not> P a) xs)"
  using slist_for_each_safe_from_unlink [of h l "[]" xs l P] assms slist_next_of [of h l "[]" xs]
  by (simp add: slist_for_each_safe_def)

definition three_slist :: sheap where
  "three_slist = slist_add_tail 3 0 (slist_add_tail 2 0 (slist_add_head 1 0
     (INIT_SLIST_HEAD 0 \<lparr>snxt = (\<lambda>_. None), slast = (\<lambda>_. 0)\<rparr>)))"

theorem slist_for_each_safe_unlinking_witness:
  "\<exists>h'. slist_for_each_safe (unlink_if (\<lambda>a. a \<ge> 2) 0) 0 three_slist = Some ([1, 2, 3], h')
    \<and> slist h' 0 [1]"
proof -
  have "slist three_slist 0 [1, 2, 3]"
    by (simp add: three_slist_def slist_def slist_add_tail_def slist_add_head_def
        slist_add_after_def INIT_SLIST_HEAD_def sheap_defs Let_def)
  then show ?thesis
    using slist_for_each_safe_unlinking [of three_slist 0 "[1, 2, 3]" "\<lambda>a. a \<ge> 2"] by simp
qed

end
