(* ===== verification/Rbt_Spec.thy ===== *)
theory Rbt_Spec
  imports C_Prelude
begin

text \<open>
  The abstract red-black tree: what \<open>src/src/kernel/rbtree.c\<close> computes, on trees instead of
  pointers. A position in a tree is a subtree together with the path of frames to the root
  (a zipper), which is what the parent pointers of the C code give. \<open>ins_fix\<close> and
  \<open>del_fix\<close> are the recolouring and rotation rules of \<open>rb_insert_color\<close> and
  \<open>__rb_erase_color\<close>, written once for both sides of the tree. The theory \<open>Rbtree\<close> proves
  that the pointer code implements these functions; the components that use the trees
  (objects of the JSON parser) work on them.
\<close>

named_theorems rbt_simps \<open>facts on the colour and height invariants\<close>

section \<open>Trees, sides and paths\<close>

datatype rb_colour = RB_RED | RB_BLACK

datatype 'a rbt = Leaf | Node rb_colour "'a rbt" 'a "'a rbt"

datatype side = Left | Right

fun opp :: "side \<Rightarrow> side" where
  "opp Left = Right"
| "opp Right = Left"

lemma opp_opp [simp]: "opp (opp d) = d"
  by (cases d) auto

lemma opp_neq [simp]: "opp d \<noteq> d" "d \<noteq> opp d"
  by (cases d; simp)+

lemma neq_opp: "d \<noteq> e \<longleftrightarrow> d = opp e"
  by (cases d; cases e) auto

lemma neq_black [simp]: "c \<noteq> RB_BLACK \<longleftrightarrow> c = RB_RED" "c \<noteq> RB_RED \<longleftrightarrow> c = RB_BLACK"
  by (cases c; simp)+

text \<open>A node whose child on side \<open>d\<close> is \<open>t\<close> and whose other child is \<open>s\<close>.\<close>

fun mk :: "side \<Rightarrow> rb_colour \<Rightarrow> 'a rbt \<Rightarrow> 'a \<Rightarrow> 'a rbt \<Rightarrow> 'a rbt" where
  "mk Left c t x s = Node c t x s"
| "mk Right c t x s = Node c s x t"

fun kid :: "side \<Rightarrow> 'a rbt \<Rightarrow> 'a rbt" where
  "kid d Leaf = Leaf"
| "kid Left (Node c l x r) = l"
| "kid Right (Node c l x r) = r"

fun elem :: "'a rbt \<Rightarrow> 'a option" where
  "elem Leaf = None"
| "elem (Node c l x r) = Some x"

fun colour :: "'a rbt \<Rightarrow> rb_colour" where
  "colour Leaf = RB_BLACK"
| "colour (Node c l x r) = c"

fun paint :: "rb_colour \<Rightarrow> 'a rbt \<Rightarrow> 'a rbt" where
  "paint c Leaf = Leaf"
| "paint c (Node _ l x r) = Node c l x r"

fun inorder :: "'a rbt \<Rightarrow> 'a list" where
  "inorder Leaf = []"
| "inorder (Node c l x r) = inorder l @ x # inorder r"

type_synonym 'a frame = "side \<times> rb_colour \<times> 'a \<times> 'a rbt"

fun zip_up :: "'a rbt \<Rightarrow> 'a frame list \<Rightarrow> 'a rbt" where
  "zip_up t [] = t"
| "zip_up t ((d, c, x, s) # path) = zip_up (mk d c t x s) path"

section \<open>Rebalancing\<close>

fun ins_fix :: "'a rbt \<Rightarrow> 'a frame list \<Rightarrow> 'a rbt" where
  "ins_fix (Node c l n r) ((d, RB_RED, p, s) # (e, cg, g, u) # path) =
     (if colour u = RB_RED
      then ins_fix (mk e RB_RED (mk d RB_BLACK (Node c l n r) p s) g (paint RB_BLACK u)) path
      else if d = e
      then zip_up (mk e RB_BLACK (Node c l n r) p (mk e RB_RED s g u)) path
      else zip_up (mk e RB_BLACK (mk d RB_RED (kid e (Node c l n r)) p s) n
                     (mk e RB_RED (kid d (Node c l n r)) g u)) path)"
| "ins_fix t path = zip_up t path"

definition rbt_insert :: "'a \<Rightarrow> 'a frame list \<Rightarrow> 'a rbt" where
  "rbt_insert x path = paint RB_BLACK (ins_fix (Node RB_RED Leaf x Leaf) path)"

text \<open>
  The last step of \<open>__rb_erase_color\<close>: the sibling takes the parent's colour and the parent
  and the far child become black.
\<close>

definition del_final ::
  "side \<Rightarrow> rb_colour \<Rightarrow> 'a rbt \<Rightarrow> 'a \<Rightarrow> rb_colour \<Rightarrow> 'a rbt \<Rightarrow> 'a \<Rightarrow> 'a rbt \<Rightarrow> 'a rbt" where
  "del_final d cp t p cn sn o' sf =
     mk d cp (mk d RB_BLACK t p sn) o' (paint RB_BLACK sf)"

text \<open>The case of a black sibling \<open>o'\<close> with near child \<open>sn\<close> and far child \<open>sf\<close>; \<open>None\<close>
  means that the loop goes on one level up.\<close>

definition del_black ::
  "side \<Rightarrow> rb_colour \<Rightarrow> 'a rbt \<Rightarrow> 'a \<Rightarrow> 'a rbt \<Rightarrow> 'a \<Rightarrow> 'a rbt \<Rightarrow> 'a rbt option" where
  "del_black d cp t p sn o' sf =
     (if colour sn = RB_BLACK \<and> colour sf = RB_BLACK then None
      else if colour sf = RB_BLACK
      then (case sn of
              Leaf \<Rightarrow> None
            | Node _ l n r \<Rightarrow>
                Some (del_final d cp t p RB_BLACK (kid d sn) n
                        (mk d RB_RED (kid (opp d) sn) o' sf)))
      else Some (del_final d cp t p RB_BLACK sn o' sf))"

fun del_fix :: "'a rbt \<Rightarrow> 'a frame list \<Rightarrow> 'a rbt" where
  "del_fix t [] = paint RB_BLACK t"
| "del_fix t ((d, cp, p, s) # path) =
     (if colour t = RB_RED then zip_up (paint RB_BLACK t) ((d, cp, p, s) # path)
      else case s of
        Leaf \<Rightarrow> zip_up t ((d, cp, p, s) # path)
      | Node RB_BLACK sl o' sr \<Rightarrow>
          (case del_black d cp t p (kid d s) o' (kid (opp d) s) of
             None \<Rightarrow> del_fix (mk d cp t p (paint RB_RED s)) path
           | Some u \<Rightarrow> paint RB_BLACK (zip_up u path))
      | Node RB_RED sl o' sr \<Rightarrow>
          (case kid d s of
             Leaf \<Rightarrow> zip_up t ((d, cp, p, s) # path)
           | Node cn nl n nr \<Rightarrow>
               (case del_black d RB_RED t p (kid d (kid d s)) n (kid (opp d) (kid d s)) of
                  None \<Rightarrow> zip_up (mk d RB_BLACK t p (paint RB_RED (kid d s)))
                            ((d, RB_BLACK, o', kid (opp d) s) # path)
                | Some u \<Rightarrow>
                    paint RB_BLACK (zip_up u ((d, RB_BLACK, o', kid (opp d) s) # path)))))"

text \<open>The leftmost node of a nonempty tree, as (colour, element, right child, path to it).\<close>

fun leftmost :: "rb_colour \<Rightarrow> 'a rbt \<Rightarrow> 'a \<Rightarrow> 'a rbt \<Rightarrow> 'a frame list
    \<Rightarrow> rb_colour \<times> 'a \<times> 'a rbt \<times> 'a frame list" where
  "leftmost c Leaf x r path = (c, x, r, path)"
| "leftmost c (Node c' l' x' r') x r path = leftmost c' l' x' r' ((Left, c, x, r) # path)"

definition rbt_unlink :: "rb_colour \<Rightarrow> 'a rbt \<Rightarrow> 'a frame list \<Rightarrow> 'a rbt" where
  "rbt_unlink c child path = (if c = RB_BLACK then del_fix child path else zip_up child path)"

fun rbt_erase :: "'a rbt \<Rightarrow> 'a frame list \<Rightarrow> 'a rbt" where
  "rbt_erase Leaf path = zip_up Leaf path"
| "rbt_erase (Node c Leaf x r) path = rbt_unlink c r path"
| "rbt_erase (Node c l x Leaf) path = rbt_unlink c l path"
| "rbt_erase (Node c l x (Node cr rl y rr)) path =
     (let (cy, z, zr, sub) = leftmost cr rl y rr []
      in rbt_unlink cy zr (sub @ (Right, c, z, l) # path))"

text \<open>The position of the first element, in traversal order, that satisfies a predicate.\<close>

fun find_node :: "('a \<Rightarrow> bool) \<Rightarrow> 'a rbt \<Rightarrow> 'a frame list \<Rightarrow> ('a rbt \<times> 'a frame list) option" where
  "find_node P Leaf path = None"
| "find_node P (Node c l x r) path =
     (if P x then Some (Node c l x r, path)
      else case find_node P l ((Left, c, x, r) # path) of
             Some q \<Rightarrow> Some q
           | None \<Rightarrow> find_node P r ((Right, c, x, l) # path))"

section \<open>Invariants\<close>

fun bheight :: "'a rbt \<Rightarrow> nat" where
  "bheight Leaf = 0"
| "bheight (Node c l x r) = (if c = RB_BLACK then Suc (bheight l) else bheight l)"

fun invh :: "'a rbt \<Rightarrow> bool" where
  "invh Leaf \<longleftrightarrow> True"
| "invh (Node c l x r) \<longleftrightarrow> bheight l = bheight r \<and> invh l \<and> invh r"

fun invc :: "'a rbt \<Rightarrow> bool" where
  "invc Leaf \<longleftrightarrow> True"
| "invc (Node c l x r) \<longleftrightarrow>
     (c = RB_RED \<longrightarrow> colour l = RB_BLACK \<and> colour r = RB_BLACK) \<and> invc l \<and> invc r"

definition rb_tree :: "'a rbt \<Rightarrow> bool" where
  "rb_tree t \<longleftrightarrow> invc t \<and> invh t \<and> colour t = RB_BLACK"

text \<open>A path into which a subtree of black height \<open>n\<close> fits.\<close>

fun path_inv :: "nat \<Rightarrow> 'a frame list \<Rightarrow> bool" where
  "path_inv n [] \<longleftrightarrow> True"
| "path_inv n ((d, c, x, s) # path) \<longleftrightarrow>
     bheight s = n \<and> invc s \<and> invh s
     \<and> (c = RB_RED \<longrightarrow> colour s = RB_BLACK \<and> (case path of [] \<Rightarrow> False | f # _ \<Rightarrow> fst (snd f) = RB_BLACK))
     \<and> path_inv (if c = RB_BLACK then Suc n else n) path"

definition top_black :: "'a frame list \<Rightarrow> bool" where
  "top_black path \<longleftrightarrow> (case path of [] \<Rightarrow> True | f # _ \<Rightarrow> fst (snd f) = RB_BLACK)"

lemma top_black_simps [simp]: "top_black []" "top_black ((d, c, x, s) # path) \<longleftrightarrow> c = RB_BLACK"
  by (simp_all add: top_black_def)

lemma mk_simps [simp]:
  "colour (mk d c t x s) = c"
  "mk d c t x s \<noteq> Leaf"
  "paint c' (mk d c t x s) = mk d c' t x s"
  "kid d (mk d c t x s) = t" "kid (opp d) (mk d c t x s) = s"
  "elem (mk d c t x s) = Some x"
  by (cases d; simp)+

lemma invc_mk [simp]:
  "invc (mk d c t x s) \<longleftrightarrow>
     (c = RB_RED \<longrightarrow> colour t = RB_BLACK \<and> colour s = RB_BLACK) \<and> invc t \<and> invc s"
  by (cases d) auto

lemma invh_mk [simp]: "invh (mk d c t x s) \<longleftrightarrow> bheight t = bheight s \<and> invh t \<and> invh s"
  by (cases d) auto

lemma bheight_mk: "bheight t = bheight s \<Longrightarrow>
    bheight (mk d c t x s) = (if c = RB_BLACK then Suc (bheight t) else bheight t)"
  by (cases d) auto

lemma invh_paint [simp]: "invh (paint c t) = invh t"
  by (cases t) auto

lemma colour_paint [simp]: "colour (paint RB_BLACK t) = RB_BLACK"
  by (cases t) auto

lemma invc_paint_black: "invc t \<Longrightarrow> invc (paint RB_BLACK t)"
  by (cases t) auto

lemma bheight_paint_black: "colour t = RB_RED \<Longrightarrow> bheight (paint RB_BLACK t) = Suc (bheight t)"
  by (cases t) auto

lemma zip_up_append [simp]: "zip_up t (p @ q) = zip_up (zip_up t p) q"
  by (induction t p rule: zip_up.induct) auto

lemma rb_tree_zip_up:
  "path_inv (bheight t) path \<Longrightarrow> invc t \<Longrightarrow> invh t \<Longrightarrow> (colour t = RB_RED \<longrightarrow> top_black path) \<Longrightarrow>
     invc (zip_up t path) \<and> invh (zip_up t path)
     \<and> (path \<noteq> [] \<or> colour t = RB_BLACK \<longrightarrow> colour (zip_up t path) = RB_BLACK)"
proof (induction t path rule: zip_up.induct)
  case (2 t d c x s path)
  let ?m = "mk d c t x s"
  have red: "c = RB_RED \<longrightarrow> path \<noteq> [] \<and> top_black path"
    using "2.prems"(1) by (auto simp: top_black_def split: list.splits)
  have "invc (zip_up ?m path) \<and> invh (zip_up ?m path)
    \<and> (path \<noteq> [] \<or> colour ?m = RB_BLACK \<longrightarrow> colour (zip_up ?m path) = RB_BLACK)"
  proof (rule "2.IH")
    show "path_inv (bheight ?m) path" using "2.prems"(1) by (simp add: bheight_mk)
    show "invc ?m" using "2.prems" by (cases c; cases "colour t") auto
    show "invh ?m" using "2.prems" by simp
    show "colour ?m = RB_RED \<longrightarrow> top_black path" using red by simp
  qed
  moreover have "path \<noteq> [] \<or> colour ?m = RB_BLACK" using red by (cases c) simp_all
  ultimately show ?case by (simp only: zip_up.simps simp_thms)
qed auto

lemma paint_black_zip: 
  "path_inv (bheight t) path \<Longrightarrow> invc t \<Longrightarrow> invh t \<Longrightarrow> (colour t = RB_RED \<longrightarrow> top_black path) \<Longrightarrow>
     rb_tree (paint RB_BLACK (zip_up t path))"
  using rb_tree_zip_up [of t path] by (simp add: rb_tree_def invc_paint_black)

section \<open>Insertion and deletion keep the invariants\<close>

lemma ins_fix_invariant:
  "path_inv (bheight t) path \<Longrightarrow> invc t \<Longrightarrow> invh t \<Longrightarrow> colour t = RB_RED \<Longrightarrow>
     rb_tree (paint RB_BLACK (ins_fix t path))"
proof (induction t path rule: ins_fix.induct)
  case (1 c l n r d p s e cg g u path)
  let ?t = "Node c l n r"
  from "1.prems" have cg: "cg = RB_BLACK" and
    s: "bheight s = bheight ?t" "invc s" "invh s" "colour s = RB_BLACK" and
    u: "bheight u = bheight ?t" "invc u" "invh u" and
    path: "path_inv (Suc (bheight ?t)) path" by auto
  show ?case
  proof (cases "colour u = RB_RED")
    case True
    let ?g = "mk e RB_RED (mk d RB_BLACK ?t p s) g (paint RB_BLACK u)"
    have "bheight (mk d RB_BLACK ?t p s) = Suc (bheight ?t)" using s by (simp add: bheight_mk)
    moreover from True have "bheight (paint RB_BLACK u) = Suc (bheight ?t)"
      using u by (simp add: bheight_paint_black)
    ultimately show ?thesis
      using "1.IH" [OF True] True path "1.prems" s u by (simp add: bheight_mk invc_paint_black)
  next
    case False
    show ?thesis
      using False path "1.prems" s u
      by (cases d; cases e) (auto intro!: paint_black_zip)
  qed
qed (use paint_black_zip [of _ "[]"] in \<open>auto intro!: paint_black_zip simp: top_black_def split: list.splits\<close>)

lemma bheight_kid: "invh (Node c l x r) \<Longrightarrow> bheight (kid d (Node c l x r)) = bheight l"
  by (cases d) auto

text \<open>
  The deletion invariant: the focus is one black node short of what its path expects.
\<close>

lemma del_black_invariant:
  assumes "bheight sn = bheight t" "bheight sf = bheight t" "invh t" "invh sn" "invh sf"
    "invc t" "invc sn" "invc sf" "colour t = RB_BLACK"
    "del_black d cp t p sn o' sf = Some u"
  shows "invc u \<and> invh u \<and> colour u = cp
    \<and> bheight u = (if cp = RB_BLACK then Suc (Suc (bheight t)) else Suc (bheight t))"
proof (cases "colour sf = RB_BLACK")
  case True
  then obtain l n r where sn: "sn = Node RB_RED l n r"
    using assms(10) by (auto simp: del_black_def split: rbt.splits if_splits)
  then have u: "u = del_final d cp t p RB_BLACK (kid d sn) n (mk d RB_RED (kid (opp d) sn) o' sf)"
    using True assms(10) by (simp add: del_black_def)
  show ?thesis
    using assms(1-9) True unfolding u sn by (cases d) (auto simp: del_final_def)
next
  case False
  then have "u = del_final d cp t p RB_BLACK sn o' sf" using assms(10) by (simp add: del_black_def)
  then show ?thesis
    using assms(1-9) False by (simp add: del_final_def bheight_mk bheight_paint_black invc_paint_black)
qed

lemma del_black_None:
  "del_black d cp t p sn o' sf = None \<longleftrightarrow> colour sn = RB_BLACK \<and> colour sf = RB_BLACK"
  by (auto simp: del_black_def split: rbt.splits)

lemma paint_black_id: "colour t = RB_BLACK \<Longrightarrow> paint RB_BLACK t = t"
  by (cases t) auto

lemma del_fix_invariant:
  "path_inv (Suc (bheight t)) path \<Longrightarrow> invc (paint RB_BLACK t) \<Longrightarrow> invh t \<Longrightarrow>
     rb_tree (del_fix t path)"
proof (induction path arbitrary: t)
  case Nil
  then show ?case by (simp add: rb_tree_def)
next
  case (Cons f path)
  obtain d cp p s where f: "f = (d, cp, p, s)" by (cases f) auto
  have s: "bheight s = Suc (bheight t)" "invc s" "invh s" "cp = RB_RED \<longrightarrow> colour s = RB_BLACK"
    and cp: "cp = RB_RED \<longrightarrow> path \<noteq> [] \<and> top_black path"
    and path: "path_inv (if cp = RB_BLACK then Suc (Suc (bheight t)) else Suc (bheight t)) path"
    using Cons.prems(1) f by (auto simp: top_black_def split: list.splits)
  show ?case
  proof (cases "colour t = RB_RED")
    case True
    have "path_inv (bheight (paint RB_BLACK t)) (f # path)"
      using Cons.prems(1) True by (simp add: bheight_paint_black f)
    then show ?thesis
      using rb_tree_zip_up [of "paint RB_BLACK t" "f # path"] True Cons.prems
      by (auto simp: f rb_tree_def)
  next
    case black: False
    then have ct: "invc t" using Cons.prems(2) by (simp add: paint_black_id)
    obtain c sl o' sr where so: "s = Node c sl o' sr" using s(1) by (cases s) auto
    have kids: "bheight (kid d s) = (if c = RB_BLACK then bheight t else Suc (bheight t))"
      "bheight (kid (opp d) s) = (if c = RB_BLACK then bheight t else Suc (bheight t))"
      "invh (kid d s)" "invh (kid (opp d) s)" "invc (kid d s)" "invc (kid (opp d) s)"
      using s by (cases d; auto simp: so split: if_splits)+
    show ?thesis
    proof (cases c)
      case RB_BLACK
      show ?thesis
      proof (cases "del_black d cp t p (kid d s) o' (kid (opp d) s)")
        case None
        then have "colour sl = RB_BLACK \<and> colour sr = RB_BLACK"
          unfolding del_black_None so by (cases d) simp_all
        then have blk: "colour sl = RB_BLACK" "colour sr = RB_BLACK" by simp_all
        let ?m = "mk d cp t p (paint RB_RED s)"
        have "rb_tree (del_fix ?m path)"
        proof (rule Cons.IH)
          show "invc (paint RB_BLACK ?m)" using black blk ct s by (auto simp: so)
          show "invh ?m" using Cons.prems s RB_BLACK by (simp add: so)
          show "path_inv (Suc (bheight ?m)) path"
            using path s RB_BLACK by (cases cp) (simp_all add: bheight_mk so)
        qed
        then show ?thesis using None black RB_BLACK by (simp add: f so)
      next
        case (Some u)
        have u: "invc u" "invh u" "colour u = cp"
          "bheight u = (if cp = RB_BLACK then Suc (Suc (bheight t)) else Suc (bheight t))"
          using del_black_invariant [OF _ _ _ _ _ _ _ _ _ Some] kids RB_BLACK black ct Cons.prems(3) by auto
        have "rb_tree (paint RB_BLACK (zip_up u path))"
          using u path cp by (intro paint_black_zip) auto
        then show ?thesis using Some black RB_BLACK by (simp add: f so)
      qed
    next
      case RB_RED
      have cpb: "cp = RB_BLACK" using s(4) RB_RED by (auto simp: so)
      have kb: "colour (kid d s) = RB_BLACK" "colour (kid (opp d) s) = RB_BLACK"
        using s(2) RB_RED by (cases d; simp add: so)+
      obtain cn nl n nr where sn: "kid d s = Node cn nl n nr"
        using kids(1) RB_RED by (cases "kid d s") auto
      have cn: "cn = RB_BLACK" using kb sn by simp
      let ?path = "(d, RB_BLACK, o', kid (opp d) s) # path"
      have nk: "bheight (kid d (kid d s)) = bheight t" "bheight (kid (opp d) (kid d s)) = bheight t"
        "invh (kid d (kid d s))" "invh (kid (opp d) (kid d s))"
        "invc (kid d (kid d s))" "invc (kid (opp d) (kid d s))"
        using kids RB_RED sn cn by (cases d; simp)+
      have up: "path_inv (Suc (bheight t)) ?path"
        using kids RB_RED path cpb by simp
      show ?thesis
      proof (cases "del_black d RB_RED t p (kid d (kid d s)) n (kid (opp d) (kid d s))")
        case None
        then have "colour nl = RB_BLACK \<and> colour nr = RB_BLACK"
          unfolding del_black_None sn by (cases d) simp_all
        then have blk: "colour nl = RB_BLACK" "colour nr = RB_BLACK" by simp_all
        let ?m = "mk d RB_BLACK t p (paint RB_RED (kid d s))"
        have bn: "bheight nl = bheight t" "bheight nr = bheight t" using nk sn by (cases d; simp)+
        then have bm: "bheight ?m = Suc (bheight t)" using sn by (simp add: bheight_mk)
        have "invc ?m" using kids(5) ct blk sn by simp
        moreover have "invh ?m" using kids(3) Cons.prems(3) bn sn by simp
        ultimately have "rb_tree (zip_up ?m ?path)"
          unfolding rb_tree_def using rb_tree_zip_up [of ?m ?path] up unfolding bm by simp
        then show ?thesis using None black RB_RED sn by (simp add: f so)
      next
        case (Some u)
        have u: "invc u" "invh u" "colour u = RB_RED" "bheight u = Suc (bheight t)"
          using del_black_invariant [OF _ _ _ _ _ _ _ _ _ Some] nk black ct Cons.prems(3) by auto
        have "rb_tree (paint RB_BLACK (zip_up u ?path))"
          using u up by (intro paint_black_zip) auto
        then show ?thesis using Some black RB_RED sn by (simp add: f so)
      qed
    qed
  qed
qed

text \<open>A subtree that fits its path: the whole is a red-black tree.\<close>

definition fits :: "'a rbt \<Rightarrow> 'a frame list \<Rightarrow> bool" where
  "fits t path \<longleftrightarrow> path_inv (bheight t) path \<and> invc t \<and> invh t
     \<and> (colour t = RB_RED \<longrightarrow> path \<noteq> [] \<and> top_black path)"

lemma fits_Nil [simp]: "fits t [] \<longleftrightarrow> rb_tree t"
  by (auto simp: fits_def rb_tree_def)

lemma fits_down: "fits (mk d c t x s) path \<Longrightarrow> fits t ((d, c, y, s) # path)"
  by (cases d; cases path) (auto simp: fits_def top_black_def split: if_splits)

lemma fits_Node:
  "fits (Node c l x r) path \<Longrightarrow> fits l ((Left, c, y, r) # path)"
  "fits (Node c l x r) path \<Longrightarrow> fits r ((Right, c, y, l) # path)"
  using fits_down [of Left c l x r path y] fits_down [of Right c r x l path y] by simp_all

lemma fits_elem: "fits (Node c l x r) path \<longleftrightarrow> fits (Node c l y r) path"
  by (simp add: fits_def)

lemma fits_up: "fits t ((d, c, x, s) # path) \<Longrightarrow> fits (mk d c t x s) path"
  by (cases d; cases path; cases "colour t") (auto simp: fits_def top_black_def split: if_splits)

lemma fits_zip: "fits t path \<longleftrightarrow> rb_tree (zip_up t path)"
proof (induction t path rule: zip_up.induct)
  case (2 t d c x s path)
  then show ?case using fits_up [of t d c x s path] fits_down [of d c t x s path x] by auto
qed simp

lemma rb_tree_insert: "fits Leaf path \<Longrightarrow> rb_tree (rbt_insert x path)"
  unfolding rbt_insert_def by (rule ins_fix_invariant) (simp_all add: fits_def)

lemma rb_tree_unlink: "fits (mk d c Leaf x r) path \<Longrightarrow> rb_tree (rbt_unlink c r path)"
proof (cases c)
  case RB_BLACK
  moreover assume f: "fits (mk d c Leaf x r) path"
  ultimately have "path_inv (Suc (bheight r)) path" "invc r" "invh r"
    by (cases d; simp add: fits_def)+
  with RB_BLACK show ?thesis by (simp add: rbt_unlink_def del_fix_invariant invc_paint_black)
next
  case RB_RED
  moreover assume f: "fits (mk d c Leaf x r) path"
  ultimately have "path_inv (bheight r) path" "invc r" "invh r" "colour r = RB_BLACK" "path \<noteq> []"
    by (cases d; simp add: fits_def)+
  with RB_RED show ?thesis using rb_tree_zip_up [of r path] by (simp add: rbt_unlink_def rb_tree_def)
qed

lemma leftmost_append:
  "leftmost c l x r (p @ q) = (case leftmost c l x r p of (cy, z, zr, sub) \<Rightarrow> (cy, z, zr, sub @ q))"
proof (induction c l x r p rule: leftmost.induct)
  case (2 c c' l' x' r' x r path)
  then show ?case by (simp flip: append_Cons)
qed simp

lemma leftmost_fits:
  "leftmost c l x r path = (cy, z, zr, sub) \<Longrightarrow> fits (Node c l x r) path \<Longrightarrow>
     fits (Node cy Leaf z zr) sub"
  by (induction c l x r path rule: leftmost.induct) (auto dest: fits_Node(1))

lemma rb_tree_erase: "fits t path \<Longrightarrow> t \<noteq> Leaf \<Longrightarrow> rb_tree (rbt_erase t path)"
proof (induction t path rule: rbt_erase.induct)
  case (2 c x r path)
  then show ?case using rb_tree_unlink [of Left c x r path] by simp
next
  case (3 c lc ll lx lr x path)
  then show ?case using rb_tree_unlink [of Right c x "Node lc ll lx lr" path] by simp
next
  case (4 c lc ll lx lr x cr rl y rr path)
  let ?l = "Node lc ll lx lr"
  obtain cy z zr sub where lm: "leftmost cr rl y rr [] = (cy, z, zr, sub)"
    by (cases "leftmost cr rl y rr []") auto
  have "leftmost cr rl y rr ((Right, c, z, ?l) # path) = (cy, z, zr, sub @ (Right, c, z, ?l) # path)"
    using leftmost_append [of cr rl y rr "[]" "(Right, c, z, ?l) # path"] lm by simp
  moreover have "fits (Node cr rl y rr) ((Right, c, z, ?l) # path)"
    using "4.prems"(1) by (rule fits_Node(2))
  ultimately have "fits (Node cy Leaf z zr) (sub @ (Right, c, z, ?l) # path)"
    by (rule leftmost_fits)
  then show ?case using rb_tree_unlink [of Left cy z zr] lm by simp
qed simp

lemma find_node_fits:
  "find_node P t path = Some (u, q) \<Longrightarrow> fits t path \<Longrightarrow> fits u q"
proof (induction P t path rule: find_node.induct)
  case (2 P c l x r path)
  then show ?case
    by (auto split: if_splits option.splits dest: fits_Node(1) [of c l x r path x]
        fits_Node(2) [of c l x r path x])
qed simp

section \<open>The sequence of elements\<close>

fun before :: "'a frame list \<Rightarrow> 'a list" where
  "before [] = []"
| "before ((Left, c, x, s) # path) = before path"
| "before ((Right, c, x, s) # path) = before path @ inorder s @ [x]"

fun after :: "'a frame list \<Rightarrow> 'a list" where
  "after [] = []"
| "after ((Left, c, x, s) # path) = x # inorder s @ after path"
| "after ((Right, c, x, s) # path) = after path"

lemma inorder_paint [simp]: "inorder (paint c t) = inorder t"
  by (cases t) auto

lemma inorder_zip_up [simp]: "inorder (zip_up t path) = before path @ inorder t @ after path"
proof (induction t path rule: zip_up.induct)
  case (2 t d c x s path)
  then show ?case by (cases d) auto
qed simp

lemma inorder_ins_fix [simp]: "inorder (ins_fix t path) = before path @ inorder t @ after path"
proof (induction t path rule: ins_fix.induct)
  case (1 c l n r d p s e cg g u path)
  then show ?case by (cases d; cases e) auto
qed (simp_all only: ins_fix.simps inorder_zip_up)

lemma inorder_insert: "inorder (rbt_insert x path) = before path @ x # after path"
  by (simp add: rbt_insert_def)

lemma inorder_mk:
  "inorder (mk d c t x s) = (case d of Left \<Rightarrow> inorder t @ x # inorder s | Right \<Rightarrow> inorder s @ x # inorder t)"
  by (cases d) auto

lemma inorder_del_black:
  "del_black d cp t p sn o' sf = Some u \<Longrightarrow>
     inorder u = inorder (mk d cp t p (mk d RB_BLACK sn o' sf))"
  by (cases d) (auto simp: del_black_def del_final_def split: if_splits rbt.splits)

lemma mk_kids: "Node c l x r = mk d c (kid d (Node c l x r)) x (kid (opp d) (Node c l x r))"
  by (cases d) auto

lemma inorder_del_fix [simp]: "inorder (del_fix t path) = before path @ inorder t @ after path"
proof (induction path arbitrary: t)
  case (Cons f path)
  obtain d cp p s where f: "f = (d, cp, p, s)" by (cases f) auto
  show ?case
    by (cases d)
      (auto simp: f Cons.IH split: rbt.splits rb_colour.splits option.splits dest!: inorder_del_black)
qed simp

lemma inorder_unlink: "inorder (rbt_unlink c t path) = before path @ inorder t @ after path"
  by (simp add: rbt_unlink_def)

lemma before_append: "before (p @ q) = before q @ before p"
  by (induction p rule: before.induct) auto

lemma after_append: "after (p @ q) = after p @ after q"
  by (induction p rule: after.induct) auto

lemma leftmost_inorder:
  "leftmost c l x r path = (cy, z, zr, sub) \<Longrightarrow>
     before sub @ z # inorder zr @ after sub = before path @ inorder (Node c l x r) @ after path"
  by (induction c l x r path rule: leftmost.induct) auto

lemma leftmost_before: "leftmost c l x r path = (cy, z, zr, sub) \<Longrightarrow> before sub = before path"
  by (induction c l x r path rule: leftmost.induct) auto

lemma inorder_erase:
  "inorder (rbt_erase (Node c l x r) path) = before path @ inorder l @ inorder r @ after path"
proof (cases l)
  case Leaf
  then show ?thesis by (simp add: inorder_unlink)
next
  case l: (Node lc ll lx lr)
  show ?thesis
  proof (cases r)
    case Leaf
    then show ?thesis by (simp add: l inorder_unlink)
  next
    case r: (Node cr rl y rr)
    obtain cy z zr sub where lm: "leftmost cr rl y rr [] = (cy, z, zr, sub)"
      by (cases "leftmost cr rl y rr []") auto
    show ?thesis
      using leftmost_inorder [OF lm] leftmost_before [OF lm] lm
      by (simp add: l r inorder_unlink before_append after_append)
  qed
qed

lemma find_node_inorder:
  "find_node P t path = Some (u, q) \<Longrightarrow>
     \<exists>c l x r. u = Node c l x r \<and> P x \<and> before q @ inorder u @ after q = before path @ inorder t @ after path"
proof (induction P t path rule: find_node.induct)
  case (2 P c l x r path)
  then show ?case by (fastforce split: if_splits option.splits)
qed simp

lemma find_node_zip: "find_node P t path = Some (u, q) \<Longrightarrow> zip_up u q = zip_up t path"
proof (induction P t path rule: find_node.induct)
  case (2 P c l x r path)
  then show ?case by (auto split: if_splits option.splits)
qed simp

lemma find_node_None: "find_node P t path = None \<longleftrightarrow> (\<forall>x \<in> set (inorder t). \<not> P x)"
  by (induction P t path rule: find_node.induct) (auto split: option.splits)

end
