(* ===== verification/Rbtree.thy ===== *)
theory Rbtree
  imports Rbt_Spec "HOL-Library.Monad_Syntax"
begin

text \<open>
  The red-black tree of \<open>src/src/kernel/rbtree.c\<close> and \<open>rbtree.h\<close> on an explicit store of node
  fields. A pointer is an \<open>addr option\<close>, with \<open>None\<close> for NULL; a function that would follow a
  null pointer, or a loop that would not end, returns \<open>None\<close>. The abstraction relations
  \<open>rtree\<close> and \<open>rpath\<close> connect the store to the trees and paths of \<open>Rbt_Spec\<close>, and the
  refinement lemmas show that each operation of the pointer code returns and computes what
  the abstract operation does.
\<close>

section \<open>The store of \<open>rb_node\<close> fields\<close>

record rheap =
  rb_parent :: "addr \<Rightarrow> addr option"
  rb_right :: "addr \<Rightarrow> addr option"
  rb_left :: "addr \<Rightarrow> addr option"
  rb_color :: "addr \<Rightarrow> rb_colour"
  rb_node :: "addr option"

definition set_parent :: "addr \<Rightarrow> addr option \<Rightarrow> rheap \<Rightarrow> rheap" where
  "set_parent a p h = h\<lparr>rb_parent := (rb_parent h)(a := p)\<rparr>"

definition set_right :: "addr \<Rightarrow> addr option \<Rightarrow> rheap \<Rightarrow> rheap" where
  "set_right a p h = h\<lparr>rb_right := (rb_right h)(a := p)\<rparr>"

definition set_left :: "addr \<Rightarrow> addr option \<Rightarrow> rheap \<Rightarrow> rheap" where
  "set_left a p h = h\<lparr>rb_left := (rb_left h)(a := p)\<rparr>"

definition set_color :: "addr \<Rightarrow> rb_colour \<Rightarrow> rheap \<Rightarrow> rheap" where
  "set_color a c h = h\<lparr>rb_color := (rb_color h)(a := c)\<rparr>"

definition set_root :: "addr option \<Rightarrow> rheap \<Rightarrow> rheap" where
  "set_root p h = h\<lparr>rb_node := p\<rparr>"

text \<open>\<open>if (p) p->rb_parent = q;\<close>\<close>

definition set_parent_opt :: "addr option \<Rightarrow> addr option \<Rightarrow> rheap \<Rightarrow> rheap" where
  "set_parent_opt p q h = (case p of None \<Rightarrow> h | Some a \<Rightarrow> set_parent a q h)"

text \<open>\<open>p && p->rb_color == RB_RED\<close>\<close>

definition is_red :: "addr option \<Rightarrow> rheap \<Rightarrow> bool" where
  "is_red p h = (case p of None \<Rightarrow> False | Some a \<Rightarrow> rb_color h a = RB_RED)"

section \<open>Operations\<close>

text \<open>\<open>__rb_rotate_left\<close>.\<close>

definition rb_rotate_left :: "addr \<Rightarrow> rheap \<Rightarrow> rheap option" where
  "rb_rotate_left node h0 =
     (case rb_right h0 node of
        None \<Rightarrow> None
      | Some right \<Rightarrow>
          let h1 = set_right node (rb_left h0 right) h0;
              h2 = set_parent_opt (rb_left h1 right) (Some node) h1;
              h3 = set_left right (Some node) h2;
              h4 = set_parent right (rb_parent h3 node) h3;
              h5 = (case rb_parent h4 node of
                      Some p \<Rightarrow>
                        if Some node = rb_left h4 p then set_left p (Some right) h4
                        else set_right p (Some right) h4
                    | None \<Rightarrow> set_root (Some right) h4)
          in Some (set_parent node (Some right) h5))"

text \<open>\<open>__rb_rotate_right\<close>.\<close>

definition rb_rotate_right :: "addr \<Rightarrow> rheap \<Rightarrow> rheap option" where
  "rb_rotate_right node h0 =
     (case rb_left h0 node of
        None \<Rightarrow> None
      | Some left \<Rightarrow>
          let h1 = set_left node (rb_right h0 left) h0;
              h2 = set_parent_opt (rb_right h1 left) (Some node) h1;
              h3 = set_right left (Some node) h2;
              h4 = set_parent left (rb_parent h3 node) h3;
              h5 = (case rb_parent h4 node of
                      Some p \<Rightarrow>
                        if Some node = rb_right h4 p then set_right p (Some left) h4
                        else set_left p (Some left) h4
                    | None \<Rightarrow> set_root (Some left) h4)
          in Some (set_parent node (Some left) h5))"

text \<open>
  The body of the loop of \<open>rb_insert_color\<close> once \<open>parent\<close> and \<open>gparent\<close> are read: the new
  value of \<open>node\<close> and the new store.
\<close>

definition rb_insert_step :: "addr \<Rightarrow> addr \<Rightarrow> addr \<Rightarrow> rheap \<Rightarrow> (addr \<times> rheap) option" where
  "rb_insert_step node parent gparent h =
     (if Some parent = rb_left h gparent
      then (case rb_right h gparent of
              uncle \<Rightarrow>
                if is_red uncle h
                then Some (gparent,
                       set_color gparent RB_RED (set_color parent RB_BLACK
                         (set_color (the uncle) RB_BLACK h)))
                else do {
                  (parent, node, h) \<leftarrow>
                    (if rb_right h parent = Some node
                     then do { h \<leftarrow> rb_rotate_left parent h; Some (node, parent, h) }
                     else Some (parent, node, h));
                  h \<leftarrow> rb_rotate_right gparent
                         (set_color gparent RB_RED (set_color parent RB_BLACK h));
                  Some (node, h) })
      else (case rb_left h gparent of
              uncle \<Rightarrow>
                if is_red uncle h
                then Some (gparent,
                       set_color gparent RB_RED (set_color parent RB_BLACK
                         (set_color (the uncle) RB_BLACK h)))
                else do {
                  (parent, node, h) \<leftarrow>
                    (if rb_left h parent = Some node
                     then do { h \<leftarrow> rb_rotate_right parent h; Some (node, parent, h) }
                     else Some (parent, node, h));
                  h \<leftarrow> rb_rotate_left gparent
                         (set_color gparent RB_RED (set_color parent RB_BLACK h));
                  Some (node, h) }))"

partial_function (option) rb_insert_loop :: "addr \<Rightarrow> rheap \<Rightarrow> rheap option" where
  "rb_insert_loop node h =
     (case rb_parent h node of
        None \<Rightarrow> Some h
      | Some parent \<Rightarrow>
          if rb_color h parent = RB_RED
          then (case rb_parent h parent of
                  None \<Rightarrow> None
                | Some gparent \<Rightarrow>
                    Option.bind (rb_insert_step node parent gparent h)
                      (\<lambda>(node', h'). rb_insert_loop node' h'))
          else Some h)"

definition rb_insert_color :: "addr \<Rightarrow> rheap \<Rightarrow> rheap option" where
  "rb_insert_color node h =
     do {
       h \<leftarrow> rb_insert_loop node h;
       r \<leftarrow> rb_node h;
       Some (set_color r RB_BLACK h)
     }"

text \<open>\<open>!p || p->rb_color == RB_BLACK\<close>\<close>

definition is_black :: "addr option \<Rightarrow> rheap \<Rightarrow> bool" where
  "is_black p h = (case p of None \<Rightarrow> True | Some a \<Rightarrow> rb_color h a = RB_BLACK)"

definition set_color_opt :: "addr option \<Rightarrow> rb_colour \<Rightarrow> rheap \<Rightarrow> rheap" where
  "set_color_opt p c h = (case p of None \<Rightarrow> h | Some a \<Rightarrow> set_color a c h)"

text \<open>
  One turn of the loop of \<open>__rb_erase_color\<close>, once the side of \<open>node\<close> under \<open>parent\<close> is known.
  \<open>Inl (node, parent, h)\<close>: the loop goes on; \<open>Inr h\<close>: the \<open>break\<close>, after which \<open>node\<close> is the
  root.
\<close>

definition rb_erase_left :: "addr \<Rightarrow> rheap \<Rightarrow> (addr \<times> rheap + rheap) option" where
  "rb_erase_left parent h =
     do {
       other \<leftarrow> rb_right h parent;
       (other, h) \<leftarrow>
         (if rb_color h other = RB_RED
          then do {
            h \<leftarrow> rb_rotate_left parent (set_color parent RB_RED (set_color other RB_BLACK h));
            other \<leftarrow> rb_right h parent;
            Some (other, h) }
          else Some (other, h));
       (if is_black (rb_left h other) h \<and> is_black (rb_right h other) h
        then Some (Inl (parent, set_color other RB_RED h))
        else do {
          (other, h) \<leftarrow>
            (if is_black (rb_right h other) h
             then do {
               h \<leftarrow> rb_rotate_right other
                      (set_color other RB_RED (set_color_opt (rb_left h other) RB_BLACK h));
               other \<leftarrow> rb_right h parent;
               Some (other, h) }
             else Some (other, h));
          h \<leftarrow> rb_rotate_left parent
                 (set_color_opt (rb_right h other) RB_BLACK
                   (set_color parent RB_BLACK (set_color other (rb_color h parent) h)));
          Some (Inr h) })
     }"

definition rb_erase_right :: "addr \<Rightarrow> rheap \<Rightarrow> (addr \<times> rheap + rheap) option" where
  "rb_erase_right parent h =
     do {
       other \<leftarrow> rb_left h parent;
       (other, h) \<leftarrow>
         (if rb_color h other = RB_RED
          then do {
            h \<leftarrow> rb_rotate_right parent (set_color parent RB_RED (set_color other RB_BLACK h));
            other \<leftarrow> rb_left h parent;
            Some (other, h) }
          else Some (other, h));
       (if is_black (rb_left h other) h \<and> is_black (rb_right h other) h
        then Some (Inl (parent, set_color other RB_RED h))
        else do {
          (other, h) \<leftarrow>
            (if is_black (rb_left h other) h
             then do {
               h \<leftarrow> rb_rotate_left other
                      (set_color other RB_RED (set_color_opt (rb_right h other) RB_BLACK h));
               other \<leftarrow> rb_left h parent;
               Some (other, h) }
             else Some (other, h));
          h \<leftarrow> rb_rotate_right parent
                 (set_color_opt (rb_left h other) RB_BLACK
                   (set_color parent RB_BLACK (set_color other (rb_color h parent) h)));
          Some (Inr h) })
     }"

text \<open>\<open>__rb_erase_color\<close>. The loop returns the final \<open>node\<close>, which is then painted black.\<close>

partial_function (option) rb_erase_loop ::
  "addr option \<Rightarrow> addr option \<Rightarrow> rheap \<Rightarrow> (addr option \<times> rheap) option" where
  "rb_erase_loop node parent h =
     (if is_black node h \<and> node \<noteq> rb_node h
      then (case parent of
              None \<Rightarrow> None
            | Some p \<Rightarrow>
                Option.bind (if rb_left h p = node then rb_erase_left p h else rb_erase_right p h)
                  (\<lambda>res. case res of
                     Inl (n, h') \<Rightarrow> rb_erase_loop (Some n) (rb_parent h' n) h'
                   | Inr h' \<Rightarrow> Some (rb_node h', h')))
      else Some (node, h))"

definition rb_erase_color :: "addr option \<Rightarrow> addr option \<Rightarrow> rheap \<Rightarrow> rheap option" where
  "rb_erase_color node parent h =
     do {
       (node, h) \<leftarrow> rb_erase_loop node parent h;
       Some (set_color_opt node RB_BLACK h)
     }"

text \<open>\<open>while (node->rb_left) node = node->rb_left;\<close> and its mirror image.\<close>

partial_function (option) rb_walk_left :: "addr \<Rightarrow> rheap \<Rightarrow> addr option" where
  "rb_walk_left node h =
     (case rb_left h node of None \<Rightarrow> Some node | Some l \<Rightarrow> rb_walk_left l h)"

partial_function (option) rb_walk_right :: "addr \<Rightarrow> rheap \<Rightarrow> addr option" where
  "rb_walk_right node h =
     (case rb_right h node of None \<Rightarrow> Some node | Some r \<Rightarrow> rb_walk_right r h)"

text \<open>\<open>if (parent) { if (parent->rb_left == node) parent->rb_left = child; else parent->rb_right
  = child; } else root->rb_node = child;\<close>\<close>

definition rb_relink :: "addr option \<Rightarrow> addr \<Rightarrow> addr option \<Rightarrow> rheap \<Rightarrow> rheap" where
  "rb_relink parent node child h =
     (case parent of
        Some p \<Rightarrow>
          if rb_left h p = Some node then set_left p child h else set_right p child h
      | None \<Rightarrow> set_root child h)"

text \<open>The part of \<open>rb_erase\<close> for a node with two children: its successor \<open>node\<close>, once taken out,
  gets the fields of \<open>old\<close> and its place under the parent and over the children.\<close>

definition rb_take_over :: "addr \<Rightarrow> addr \<Rightarrow> rheap \<Rightarrow> rheap" where
  "rb_take_over old node h2 =
     (let h3 = set_parent node (rb_parent h2 old) h2;
          h4 = set_color node (rb_color h3 old) h3;
          h5 = set_right node (rb_right h4 old) h4;
          h6 = set_left node (rb_left h5 old) h5;
          h7 = rb_relink (rb_parent h6 old) old (Some node) h6;
          h8 = set_parent_opt (rb_left h7 old) (Some node) h7
      in set_parent_opt (rb_right h8 old) (Some node) h8)"

text \<open>The result is the child, the parent and the colour the end of \<open>rb_erase\<close> works on.\<close>

definition rb_erase_two :: "addr \<Rightarrow> rheap \<Rightarrow> (addr option \<times> addr option \<times> rb_colour \<times> rheap) option" where
  "rb_erase_two old h0 =
     do {
       right \<leftarrow> rb_right h0 old;
       node \<leftarrow> rb_walk_left right h0;
       let child = rb_right h0 node;
           parent = rb_parent h0 node;
           color = rb_color h0 node;
           h1 = set_parent_opt child parent h0;
           h2 = rb_relink parent node child h1;
           parent = (if rb_parent h2 node = Some old then Some node else parent)
       in Some (child, parent, color, rb_take_over old node h2)
     }"

definition rb_erase :: "addr \<Rightarrow> rheap \<Rightarrow> rheap option" where
  "rb_erase node h =
     do {
       (child, parent, color, h) \<leftarrow>
         (if rb_left h node = None \<or> rb_right h node = None
          then let child = (if rb_left h node = None then rb_right h node else rb_left h node);
                   parent = rb_parent h node;
                   color = rb_color h node
               in Some (child, parent, color, rb_relink parent node child (set_parent_opt child parent h))
          else rb_erase_two node h);
       (if color = RB_BLACK then rb_erase_color child parent h else Some h)
     }"

definition rb_first :: "rheap \<Rightarrow> addr option option" where
  "rb_first h =
     (case rb_node h of None \<Rightarrow> Some None | Some n \<Rightarrow> map_option Some (rb_walk_left n h))"

definition rb_last :: "rheap \<Rightarrow> addr option option" where
  "rb_last h =
     (case rb_node h of None \<Rightarrow> Some None | Some n \<Rightarrow> map_option Some (rb_walk_right n h))"

text \<open>\<open>while (node->rb_parent && node == node->rb_parent->rb_right) node = node->rb_parent;
  return node->rb_parent;\<close> and its mirror image.\<close>

partial_function (option) rb_climb_right :: "addr \<Rightarrow> rheap \<Rightarrow> addr option option" where
  "rb_climb_right node h =
     (case rb_parent h node of
        None \<Rightarrow> Some None
      | Some p \<Rightarrow> if rb_right h p = Some node then rb_climb_right p h else Some (Some p))"

partial_function (option) rb_climb_left :: "addr \<Rightarrow> rheap \<Rightarrow> addr option option" where
  "rb_climb_left node h =
     (case rb_parent h node of
        None \<Rightarrow> Some None
      | Some p \<Rightarrow> if rb_left h p = Some node then rb_climb_left p h else Some (Some p))"

definition rb_next :: "addr \<Rightarrow> rheap \<Rightarrow> addr option option" where
  "rb_next node h =
     (case rb_right h node of
        Some r \<Rightarrow> map_option Some (rb_walk_left r h)
      | None \<Rightarrow> rb_climb_right node h)"

definition rb_prev :: "addr \<Rightarrow> rheap \<Rightarrow> addr option option" where
  "rb_prev node h =
     (case rb_left h node of
        Some l \<Rightarrow> map_option Some (rb_walk_right l h)
      | None \<Rightarrow> rb_climb_left node h)"

text \<open>\<open>if (victim == parent->rb_left) ...\<close> has the test of \<open>rb_relink\<close>.\<close>

definition rb_replace_node :: "addr \<Rightarrow> addr \<Rightarrow> rheap \<Rightarrow> rheap" where
  "rb_replace_node victim newnode h =
     (let h1 = rb_relink (rb_parent h victim) victim (Some newnode) h;
          h2 = set_parent_opt (rb_left h1 victim) (Some newnode) h1;
          h3 = set_parent_opt (rb_right h2 victim) (Some newnode) h2
      in set_parent newnode (rb_parent h3 victim)
           (set_right newnode (rb_right h3 victim)
             (set_left newnode (rb_left h3 victim)
               (set_color newnode (rb_color h3 victim) h3))))"

text \<open>\<open>rb_link_node\<close>: the pointer \<open>*link\<close> is the root pointer (\<open>None\<close>) or a child pointer
  of a node.\<close>

definition rb_link_node :: "addr \<Rightarrow> addr option \<Rightarrow> (addr \<times> side) option \<Rightarrow> rheap \<Rightarrow> rheap" where
  "rb_link_node node parent link h =
     (let h1 = set_parent node parent h;
          h2 = set_color node RB_RED h1;
          h3 = set_left node None (set_right node None h2)
      in case link of
           None \<Rightarrow> set_root (Some node) h3
         | Some (p, Left) \<Rightarrow> set_left p (Some node) h3
         | Some (p, Right) \<Rightarrow> set_right p (Some node) h3)"

section \<open>Both sides at once\<close>

definition child :: "side \<Rightarrow> rheap \<Rightarrow> addr \<Rightarrow> addr option" where
  "child d h a = (case d of Left \<Rightarrow> rb_left h a | Right \<Rightarrow> rb_right h a)"

definition set_child :: "side \<Rightarrow> addr \<Rightarrow> addr option \<Rightarrow> rheap \<Rightarrow> rheap" where
  "set_child d a p h = (case d of Left \<Rightarrow> set_left a p h | Right \<Rightarrow> set_right a p h)"

definition rb_rotate :: "side \<Rightarrow> addr \<Rightarrow> rheap \<Rightarrow> rheap option" where
  "rb_rotate d = (case d of Left \<Rightarrow> rb_rotate_left | Right \<Rightarrow> rb_rotate_right)"

lemmas rheap_defs = set_parent_def set_right_def set_left_def set_color_def set_root_def

lemma child_simps [simp]:
  "child Left h a = rb_left h a" "child Right h a = rb_right h a"
  by (simp_all add: child_def)

lemma set_child_simps [simp]:
  "set_child Left a p h = set_left a p h" "set_child Right a p h = set_right a p h"
  by (simp_all add: set_child_def)

lemma parent_upd [simp]:
  "rb_parent (set_parent a p h) = (rb_parent h)(a := p)"
  "rb_parent (set_child d a p h) = rb_parent h"
  "rb_parent (set_left a p h) = rb_parent h"
  "rb_parent (set_right a p h) = rb_parent h"
  "rb_parent (set_color a c h) = rb_parent h"
  "rb_parent (set_root p h) = rb_parent h"
  by (auto simp: rheap_defs set_child_def split: side.splits)

lemma color_upd [simp]:
  "rb_color (set_parent a p h) = rb_color h"
  "rb_color (set_child d a p h) = rb_color h"
  "rb_color (set_left a p h) = rb_color h"
  "rb_color (set_right a p h) = rb_color h"
  "rb_color (set_color a c h) = (rb_color h)(a := c)"
  "rb_color (set_root p h) = rb_color h"
  by (auto simp: rheap_defs set_child_def split: side.splits)

lemma root_upd [simp]:
  "rb_node (set_parent a p h) = rb_node h"
  "rb_node (set_child d a p h) = rb_node h"
  "rb_node (set_left a p h) = rb_node h"
  "rb_node (set_right a p h) = rb_node h"
  "rb_node (set_color a c h) = rb_node h"
  "rb_node (set_root p h) = p"
  by (auto simp: rheap_defs set_child_def split: side.splits)

lemma left_upd [simp]:
  "rb_left (set_parent a p h) = rb_left h"
  "rb_left (set_left a p h) = (rb_left h)(a := p)"
  "rb_left (set_right a p h) = rb_left h"
  "rb_left (set_color a c h) = rb_left h"
  "rb_left (set_root p h) = rb_left h"
  by (auto simp: rheap_defs)

lemma right_upd [simp]:
  "rb_right (set_parent a p h) = rb_right h"
  "rb_right (set_right a p h) = (rb_right h)(a := p)"
  "rb_right (set_left a p h) = rb_right h"
  "rb_right (set_color a c h) = rb_right h"
  "rb_right (set_root p h) = rb_right h"
  by (auto simp: rheap_defs)

lemma child_upd [simp]:
  "child e (set_parent a p h) = child e h"
  "child e (set_child d a p h) = (if d = e then (child e h)(a := p) else child e h)"
  "child e (set_color a c h) = child e h"
  "child e (set_root p h) = child e h"
  by (cases e; cases d; simp add: fun_eq_iff)+

lemma rb_rotate_dir:
  "rb_rotate d node h0 =
     (case child (opp d) h0 node of
        None \<Rightarrow> None
      | Some y \<Rightarrow>
          let h1 = set_child (opp d) node (child d h0 y) h0;
              h2 = set_parent_opt (child d h1 y) (Some node) h1;
              h3 = set_child d y (Some node) h2;
              h4 = set_parent y (rb_parent h3 node) h3;
              h5 = (case rb_parent h4 node of
                      Some p \<Rightarrow>
                        if Some node = child d h4 p then set_child d p (Some y) h4
                        else set_child (opp d) p (Some y) h4
                    | None \<Rightarrow> set_root (Some y) h4)
          in Some (set_parent node (Some y) h5))"
  by (cases d) (simp_all add: rb_rotate_def rb_rotate_left_def rb_rotate_right_def Let_def
      split: option.splits)

section \<open>Abstraction\<close>

fun rtree :: "rheap \<Rightarrow> addr option \<Rightarrow> addr option \<Rightarrow> addr rbt \<Rightarrow> bool" where
  "rtree h par p Leaf \<longleftrightarrow> p = None"
| "rtree h par p (Node c l a r) \<longleftrightarrow>
     p = Some a \<and> rb_parent h a = par \<and> rb_color h a = c
     \<and> rtree h (Some a) (rb_left h a) l \<and> rtree h (Some a) (rb_right h a) r"

fun rpath :: "rheap \<Rightarrow> addr option \<Rightarrow> addr option \<Rightarrow> addr frame list \<Rightarrow> bool" where
  "rpath h par p [] \<longleftrightarrow> par = None \<and> rb_node h = p"
| "rpath h par p ((d, c, a, s) # path) \<longleftrightarrow>
     par = Some a \<and> child d h a = p \<and> rb_color h a = c
     \<and> rtree h (Some a) (child (opp d) h a) s \<and> rpath h (rb_parent h a) (Some a) path"

text \<open>All addresses of a path.\<close>

fun pset :: "addr frame list \<Rightarrow> addr set" where
  "pset [] = {}"
| "pset ((d, c, a, s) # path) = insert a (set (inorder s) \<union> pset path)"

fun pdistinct :: "addr frame list \<Rightarrow> bool" where
  "pdistinct [] \<longleftrightarrow> True"
| "pdistinct ((d, c, a, s) # path) \<longleftrightarrow>
     distinct (inorder s) \<and> pdistinct path \<and> a \<notin> set (inorder s) \<and> a \<notin> pset path
     \<and> set (inorder s) \<inter> pset path = {}"

text \<open>A store in which the subtree \<open>t\<close> hangs at \<open>path\<close>.\<close>

definition zrep :: "rheap \<Rightarrow> addr option \<Rightarrow> addr option \<Rightarrow> addr rbt \<Rightarrow> addr frame list \<Rightarrow> bool" where
  "zrep h par p t path \<longleftrightarrow>
     rtree h par p t \<and> rpath h par p path
     \<and> distinct (inorder t) \<and> pdistinct path \<and> set (inorder t) \<inter> pset path = {}"

definition rep :: "rheap \<Rightarrow> addr rbt \<Rightarrow> bool" where
  "rep h t \<longleftrightarrow> zrep h None (rb_node h) t []"

lemma rtree_mk:
  "rtree h par p (mk d c t a s) \<longleftrightarrow>
     p = Some a \<and> rb_parent h a = par \<and> rb_color h a = c
     \<and> rtree h (Some a) (child d h a) t \<and> rtree h (Some a) (child (opp d) h a) s"
  by (cases d) auto

lemma inorder_mk_set [simp]: "set (inorder (mk d c t a s)) = insert a (set (inorder t) \<union> set (inorder s))"
  by (cases d) auto

lemma distinct_mk [simp]:
  "distinct (inorder (mk d c t a s)) \<longleftrightarrow>
     distinct (inorder t) \<and> distinct (inorder s) \<and> a \<notin> set (inorder t) \<and> a \<notin> set (inorder s)
     \<and> set (inorder t) \<inter> set (inorder s) = {}"
  by (cases d) auto

lemma zrep_up: "zrep h par p t ((d, c, a, s) # path) \<longleftrightarrow>
    (\<exists>q. zrep h q (Some a) (mk d c t a s) path \<and> par = Some a \<and> child d h a = p)"
  by (auto simp: zrep_def rtree_mk)

lemma zrep_zip: "(\<exists>par p. zrep h par p t path) \<longleftrightarrow> rep h (zip_up t path)"
proof (induction t path rule: zip_up.induct)
  case (1 t)
  then show ?case by (auto simp: rep_def zrep_def)
next
  case (2 t d c x s path)
  have "(\<exists>par p. zrep h par p t ((d, c, x, s) # path)) \<longleftrightarrow> (\<exists>q. zrep h q (Some x) (mk d c t x s) path)"
    by (simp add: zrep_up)
  also have "\<dots> \<longleftrightarrow> (\<exists>q p. zrep h q p (mk d c t x s) path)"
    by (auto simp: zrep_def rtree_mk)
  finally show ?case using 2 by simp
qed

lemma rtree_frame:
  assumes "\<And>a. a \<in> set (inorder t) \<Longrightarrow>
     rb_parent h' a = rb_parent h a \<and> rb_left h' a = rb_left h a \<and> rb_right h' a = rb_right h a
     \<and> rb_color h' a = rb_color h a"
  shows "rtree h' par p t \<longleftrightarrow> rtree h par p t"
  using assms by (induction h par p t rule: rtree.induct) auto

lemma rtree_reparent:
  assumes "\<And>a. a \<in> set (inorder t) \<Longrightarrow>
     rb_left h' a = rb_left h a \<and> rb_right h' a = rb_right h a \<and> rb_color h' a = rb_color h a
     \<and> rb_parent h' a = (if p = Some a then par' else rb_parent h a)"
    and "distinct (inorder t)" and "rtree h par p t"
  shows "rtree h' par' p t"
proof (cases t)
  case (Node c l a r)
  have "rtree h' (Some a) (rb_left h a) l \<longleftrightarrow> rtree h (Some a) (rb_left h a) l"
    by (rule rtree_frame) (use assms Node in auto)
  moreover have "rtree h' (Some a) (rb_right h a) r \<longleftrightarrow> rtree h (Some a) (rb_right h a) r"
    by (rule rtree_frame) (use assms Node in auto)
  ultimately show ?thesis using assms Node by auto
qed (use assms in auto)

lemma rpath_frame:
  assumes "\<And>a. a \<in> pset path \<Longrightarrow>
     rb_parent h' a = rb_parent h a \<and> rb_left h' a = rb_left h a \<and> rb_right h' a = rb_right h a
     \<and> rb_color h' a = rb_color h a" and "rb_node h' = rb_node h"
  shows "rpath h' par p path \<longleftrightarrow> rpath h par p path"
  using assms
proof (induction h par p path rule: rpath.induct)
  case (2 h par p d c a s path)
  have "rtree h' (Some a) (child (opp d) h' a) s \<longleftrightarrow> rtree h (Some a) (child (opp d) h a) s"
    using "2.prems" rtree_frame [of s h' h] by (cases d) auto
  then show ?case using 2 by (cases d) auto
qed auto

text \<open>\<open>same h h' a\<close>: the node \<open>a\<close> has the same fields in both stores.\<close>

definition same :: "rheap \<Rightarrow> rheap \<Rightarrow> addr \<Rightarrow> bool" where
  "same h h' a \<longleftrightarrow> rb_parent h' a = rb_parent h a \<and> rb_color h' a = rb_color h a
     \<and> (\<forall>e. child e h' a = child e h a)"

lemma sameI:
  "rb_parent h' a = rb_parent h a \<Longrightarrow> rb_color h' a = rb_color h a \<Longrightarrow>
     child d h' a = child d h a \<Longrightarrow> child (opp d) h' a = child (opp d) h a \<Longrightarrow> same h h' a"
  unfolding same_def by (metis neq_opp)

lemma same_fields:
  "same h h' a \<Longrightarrow> rb_left h' a = rb_left h a \<and> rb_right h' a = rb_right h a
     \<and> rb_color h' a = rb_color h a \<and> rb_parent h' a = rb_parent h a"
  unfolding same_def by (metis child_simps)

lemma rtree_same:
  "(\<And>a. a \<in> set (inorder t) \<Longrightarrow> same h h' a) \<Longrightarrow> rtree h par p t \<Longrightarrow> rtree h' par p t"
proof -
  assume s: "\<And>a. a \<in> set (inorder t) \<Longrightarrow> same h h' a" and r: "rtree h par p t"
  have "rtree h' par p t \<longleftrightarrow> rtree h par p t"
    by (rule rtree_frame) (use s in \<open>metis same_def child_simps\<close>)
  with r show ?thesis by simp
qed

lemma rtree_root_in: "rtree h par (Some a) t \<Longrightarrow> a \<in> set (inorder t)"
  by (cases t) auto

lemma rtree_new_parent:
  assumes r: "rtree h par p t" and d: "distinct (inorder t)"
    and s: "\<And>a. a \<in> set (inorder t) \<Longrightarrow> p \<noteq> Some a \<Longrightarrow> same h h' a"
    and root: "\<And>a. p = Some a \<Longrightarrow> rb_parent h' a = par' \<and> rb_color h' a = rb_color h a
      \<and> (\<forall>e. child e h' a = child e h a)"
  shows "rtree h' par' p t"
proof (rule rtree_reparent [OF _ d r])
  fix a assume a: "a \<in> set (inorder t)"
  show "rb_left h' a = rb_left h a \<and> rb_right h' a = rb_right h a \<and> rb_color h' a = rb_color h a
     \<and> rb_parent h' a = (if p = Some a then par' else rb_parent h a)"
    using same_fields [OF s [OF a]] root [of a] child_simps [of h' a] child_simps [of h a]
    by (cases "p = Some a") simp_all
qed

lemma rpath_same:
  assumes "\<And>a. a \<in> pset path \<Longrightarrow> same h h' a" and "rb_node h' = rb_node h"
    and "rpath h par p path"
  shows "rpath h' par p path"
proof -
  have "rpath h' par p path \<longleftrightarrow> rpath h par p path"
    by (rule rpath_frame) (use assms in \<open>(metis same_def child_simps)+\<close>)
  with assms show ?thesis by simp
qed

text \<open>Redirecting the pointer from a path to its focus, as \<open>rb_relink\<close> and the rotations do.\<close>

lemma rpath_relink:
  assumes r: "rpath h par (Some x) path" and d: "pdistinct path" and x: "x \<notin> pset path"
    and s: "\<And>a e. a \<in> pset path \<Longrightarrow> rb_parent h' a = rb_parent h a \<and> rb_color h' a = rb_color h a
      \<and> child e h' a = (if par = Some a \<and> child e h a = Some x then p' else child e h a)"
    and root: "rb_node h' = (if par = None then p' else rb_node h)"
  shows "rpath h' par p' path"
proof (cases path)
  case Nil
  then show ?thesis using r root by simp
next
  case (Cons f rest)
  obtain e c a sb where f: "f = (e, c, a, sb)" by (cases f) auto
  have par: "par = Some a" and ch: "child e h a = Some x" "rb_color h a = c"
    and sb: "rtree h (Some a) (child (opp e) h a) sb" and rest: "rpath h (rb_parent h a) (Some a) rest"
    using r Cons f by auto
  have nx: "child (opp e) h a \<noteq> Some x"
    using rtree_root_in [of h "Some a" x sb] sb x Cons f by auto
  have a: "a \<in> pset path" "a \<notin> pset rest" "a \<notin> set (inorder sb)" using d Cons f by auto
  have "rtree h' (Some a) (child (opp e) h a) sb"
    by (rule rtree_same [OF _ sb]) (use s a Cons f par in \<open>auto simp: same_def\<close>)
  moreover have "rpath h' (rb_parent h a) (Some a) rest"
    by (rule rpath_same [OF _ _ rest]) (use s a Cons f par root in \<open>auto simp: same_def\<close>)
  moreover have "child e h' a = p'" "child (opp e) h' a = child (opp e) h a"
    "rb_color h' a = c" "rb_parent h' a = rb_parent h a"
    using s [OF a(1), of e] s [OF a(1), of "opp e"] par ch nx by auto
  ultimately show ?thesis using Cons f par by simp
qed

lemma rpath_parent_in: "rpath h (Some q) p path \<Longrightarrow> q \<in> pset path"
  by (cases path) auto

lemma rpath_side:
  assumes "rpath h (Some a) (Some x) path" "x \<notin> pset path"
  shows "child (opp d) h a = Some x \<longleftrightarrow> child d h a \<noteq> Some x"
proof -
  obtain e c s rest where path: "path = (e, c, a, s) # rest" "child e h a = Some x"
    "rtree h (Some a) (child (opp e) h a) s" using assms(1) by (cases path) auto
  then have "child (opp e) h a \<noteq> Some x" using assms(2) rtree_root_in [of h "Some a" x s] by auto
  then show ?thesis using path by (cases "d = e") (auto simp: neq_opp)
qed

lemma set_parent_opt_simps [simp]:
  "rb_parent (set_parent_opt p q h) = (case p of None \<Rightarrow> rb_parent h | Some a \<Rightarrow> (rb_parent h)(a := q))"
  "child e (set_parent_opt p q h) = child e h"
  "rb_left (set_parent_opt p q h) = rb_left h"
  "rb_right (set_parent_opt p q h) = rb_right h"
  "rb_color (set_parent_opt p q h) = rb_color h"
  "rb_node (set_parent_opt p q h) = rb_node h"
  by (auto simp: set_parent_opt_def split: option.splits)

lemma rb_rotate_spec:
  assumes z: "zrep h par (Some x) (mk d cx A x (mk d cy B y C)) path"
  shows "\<exists>h'. rb_rotate d x h = Some h' \<and> zrep h' par (Some y) (mk d cy (mk d cx A x B) y C) path"
proof -
  let ?b = "child d h y"
  have ch: "child (opp d) h x = Some y" "rb_parent h x = par" "rb_parent h y = Some x"
    "rb_color h x = cx" "rb_color h y = cy"
    and A: "rtree h (Some x) (child d h x) A" and B: "rtree h (Some y) ?b B"
    and C: "rtree h (Some y) (child (opp d) h y) C" and path: "rpath h par (Some x) path"
    using z by (auto simp: zrep_def rtree_mk)
  have dist: "distinct (inorder A)" "distinct (inorder B)" "distinct (inorder C)" "x \<noteq> y"
    "x \<notin> set (inorder A)" "x \<notin> set (inorder B)" "x \<notin> set (inorder C)"
    "y \<notin> set (inorder A)" "y \<notin> set (inorder B)" "y \<notin> set (inorder C)"
    "set (inorder A) \<inter> set (inorder B) = {}" "set (inorder A) \<inter> set (inorder C) = {}"
    "set (inorder B) \<inter> set (inorder C) = {}"
    and pd: "pdistinct path" "x \<notin> pset path" "y \<notin> pset path" "set (inorder A) \<inter> pset path = {}"
    "set (inorder B) \<inter> pset path = {}" "set (inorder C) \<inter> pset path = {}"
    using z by (auto simp: zrep_def)
  have b: "?b = Some v \<Longrightarrow> v \<in> set (inorder B)" for v using B rtree_root_in by auto
  have q: "par = Some v \<Longrightarrow> v \<in> pset path" for v using path rpath_parent_in by auto
  obtain h' where h': "rb_rotate d x h = Some h'" using ch(1) by (simp add: rb_rotate_dir Let_def)
  have col: "rb_color h' = rb_color h"
    using h' ch by (auto simp: rb_rotate_dir Let_def split: option.splits)
  have bxy: "?b \<noteq> Some x" "?b \<noteq> Some y" using b dist by auto
  have par': "rb_parent h' a = (if a = x then Some y else if a = y then par
      else if ?b = Some a then Some x else rb_parent h a)" for a
    using h' ch bxy dist(4) by (cases ?b; cases par) (auto simp: rb_rotate_dir Let_def split: if_splits)
  have pxy: "par \<noteq> Some x" "par \<noteq> Some y" using q pd by auto
  have chd: "child d h' a = (if a = y then Some x
      else if par = Some a \<and> child d h a = Some x then Some y else child d h a)" for a
    using h' ch pxy bxy dist(4) by (cases ?b; cases par) (auto simp: rb_rotate_dir Let_def split: if_splits)
  have cho: "child (opp d) h' a = (if a = x then ?b
      else if par = Some a \<and> child d h a \<noteq> Some x then Some y else child (opp d) h a)" for a
    using h' ch pxy bxy dist(4) by (cases ?b; cases par) (auto simp: rb_rotate_dir Let_def split: if_splits)
  have root: "rb_node h' = (if par = None then Some y else rb_node h)"
    using h' ch bxy by (cases ?b; cases par) (auto simp: rb_rotate_dir Let_def split: if_splits)
  have AC: "same h h' a" if "a \<in> set (inorder A) \<union> set (inorder C)" for a
    by (rule sameI [of _ _ _ d])
      (use that dist pd b q in \<open>auto simp: par' col chd cho\<close>)
  have "rtree h' (Some x) (child d h x) A" using AC A by (intro rtree_same [OF _ A]) auto
  moreover have "rtree h' (Some y) (child (opp d) h y) C" using AC by (intro rtree_same [OF _ C]) auto
  moreover have "rtree h' (Some x) ?b B"
  proof (rule rtree_new_parent [OF B dist(2)])
    have e: "child e h' a = child e h a" if "a \<in> set (inorder B)" for a e
      using that dist pd q by (cases "e = d") (auto simp: neq_opp chd cho)
    show "same h h' a" if "a \<in> set (inorder B)" "?b \<noteq> Some a" for a
      using that dist e by (auto simp: same_def par' col)
    show "rb_parent h' a = Some x \<and> rb_color h' a = rb_color h a \<and> (\<forall>e. child e h' a = child e h a)"
      if "?b = Some a" for a
      using that b [of a] dist e by (auto simp: par' col)
  qed
  moreover have "rpath h' par (Some y) path"
  proof (rule rpath_relink [OF path pd(1,2) _ root])
    fix a e assume a: "a \<in> pset path"
    have ab: "a \<noteq> x" "a \<noteq> y" "?b \<noteq> Some a" using a pd b by auto
    show "rb_parent h' a = rb_parent h a \<and> rb_color h' a = rb_color h a
      \<and> child e h' a = (if par = Some a \<and> child e h a = Some x then Some y else child e h a)"
    proof (cases "e = d")
      case True
      then show ?thesis using ab by (simp add: par' col chd)
    next
      case False
      then have e: "e = opp d" by (simp add: neq_opp)
      have "par = Some a \<Longrightarrow> child d h a \<noteq> Some x \<longleftrightarrow> child (opp d) h a = Some x"
        using path pd(2) rpath_side [of h a x path d] by simp
      then show ?thesis using ab by (auto simp: e par' col cho)
    qed
  qed
  moreover have fields: "child d h' x = child d h x" "child (opp d) h' y = child (opp d) h y"
    "child (opp d) h' x = ?b" "child d h' y = Some x" "rb_parent h' x = Some y"
    "rb_parent h' y = par" "rb_color h' x = cx" "rb_color h' y = cy"
    using dist(4) pd(2,3) q ch by (auto simp: chd cho col par')
  ultimately have "rtree h' par (Some y) (mk d cy (mk d cx A x B) y C)" "rpath h' par (Some y) path"
    by (simp_all add: rtree_mk)
  moreover have "distinct (inorder (mk d cy (mk d cx A x B) y C))"
    "set (inorder (mk d cy (mk d cx A x B) y C)) \<inter> pset path = {}"
    using dist pd by (simp_all add: Int_Un_distrib2)
  ultimately show ?thesis using h' pd(1) by (auto simp: zrep_def)
qed

section \<open>Moving the focus and painting\<close>

lemma mk_opp: "mk (opp d) c t x s = mk d c s x t"
  by (cases d) auto

lemma zrep_down: "zrep h q (Some a) (mk d c t a s) path \<Longrightarrow>
    zrep h (Some a) (child d h a) t ((d, c, a, s) # path)"
  by (auto simp: zrep_up)

lemma zrep_upD: "zrep h par p t ((d, c, a, s) # path) \<Longrightarrow>
    zrep h (rb_parent h a) (Some a) (mk d c t a s) path \<and> par = Some a \<and> child d h a = p"
  by (auto simp: zrep_def rtree_mk)

lemma zrep_set_color:
  assumes z: "zrep h par (Some a) t path"
  shows "zrep (set_color a c h) par (Some a) (paint c t) path"
proof (cases t)
  case Leaf
  then show ?thesis using z by (simp add: zrep_def)
next
  case (Node c0 l b r)
  then have b: "b = a" and d: "a \<notin> set (inorder l)" "a \<notin> set (inorder r)" "a \<notin> pset path"
    using z by (auto simp: zrep_def)
  have "rtree (set_color a c h) (Some a) q l = rtree h (Some a) q l" for q
    using d by (intro rtree_frame) auto
  moreover have "rtree (set_color a c h) (Some a) q r = rtree h (Some a) q r" for q
    using d by (intro rtree_frame) auto
  moreover have "rpath (set_color a c h) par (Some a) path = rpath h par (Some a) path"
    using d by (intro rpath_frame) auto
  ultimately show ?thesis using z Node b by (simp add: zrep_def)
qed

lemma zrep_set_color_kid:
  assumes z: "zrep h q (Some a) (mk d c t a s) path" and b: "child d h a = Some b"
  shows "zrep (set_color b c' h) q (Some a) (mk d c (paint c' t) a s) path"
proof -
  have z': "zrep (set_color b c' h) (Some a) (Some b) (paint c' t) ((d, c, a, s) # path)"
    using zrep_set_color zrep_down [OF z] b by simp
  have "rb_parent (set_color b c' h) a = q" using z by (simp add: zrep_def rtree_mk)
  then show ?thesis using zrep_upD [OF z'] by (simp only:)
qed

lemma zrep_node: "zrep h q p (mk d c t a s) path \<Longrightarrow>
    p = Some a \<and> rb_parent h a = q \<and> rb_color h a = c"
  by (simp add: zrep_def rtree_mk)

lemma zrep_kid_root: "zrep h q p (mk d c (mk e c' t b s') a s) path \<Longrightarrow>
    child d h a = Some b \<and> rb_parent h b = Some a \<and> rb_color h b = c'"
  by (simp add: zrep_def rtree_mk)

lemma zrep_is_red: "zrep h q (Some a) (mk d c t a s) path \<Longrightarrow>
    is_red (child d h a) h \<longleftrightarrow> colour t = RB_RED"
  by (cases t) (auto simp: zrep_def rtree_mk is_red_def)

lemma zrep_is_black: "zrep h q (Some a) (mk d c t a s) path \<Longrightarrow>
    is_black (child d h a) h \<longleftrightarrow> colour t = RB_BLACK"
  by (cases t) (auto simp: zrep_def rtree_mk is_black_def)

lemma zrep_rep: "zrep h par p t path \<Longrightarrow> rep h (zip_up t path)"
  using zrep_zip by blast

section \<open>Insertion\<close>

text \<open>The loop body with both sides of the code in one equation.\<close>

lemma rb_insert_step_dir:
  assumes "child e h g = Some p" "child (opp e) h g \<noteq> Some p"
  shows "rb_insert_step n p g h =
     (if is_red (child (opp e) h g) h
      then Some (g, set_color g RB_RED (set_color p RB_BLACK
                      (set_color (the (child (opp e) h g)) RB_BLACK h)))
      else do {
        (p, n, h) \<leftarrow>
          (if child (opp e) h p = Some n
           then do { h \<leftarrow> rb_rotate e p h; Some (n, p, h) }
           else Some (p, n, h));
        h \<leftarrow> rb_rotate (opp e) g (set_color g RB_RED (set_color p RB_BLACK h));
        Some (n, h) })"
  using assms by (cases e) (auto simp: rb_insert_step_def rb_rotate_def)

lemma zrep_kid_distinct:
  "zrep h q (Some g) (mk e c t g u) path \<Longrightarrow> child e h g = Some p \<Longrightarrow> child (opp e) h g \<noteq> Some p"
  using rtree_root_in by (fastforce simp: zrep_def rtree_mk)

lemma zrep_par: "zrep h par p t path \<Longrightarrow> zrep h' par' p' t' path \<Longrightarrow> par = par'"
  by (cases path) (auto simp: zrep_def)

lemma ins_step_red:
  assumes z: "zrep h q (Some g) (mk e cg (mk d cp t p s) g u) path" and u: "colour u = RB_RED"
  shows "\<exists>h'. rb_insert_step n p g h = Some (g, h')
     \<and> zrep h' q (Some g) (mk e RB_RED (mk d RB_BLACK t p s) g (paint RB_BLACK u)) path"
proof -
  have p: "child e h g = Some p" using zrep_kid_root [OF z] by simp
  have red: "is_red (child (opp e) h g) h" using zrep_is_red [of h q g "opp e" cg u] z u mk_opp by metis
  then obtain b where b: "child (opp e) h g = Some b" by (auto simp: is_red_def split: option.splits)
  have step: "rb_insert_step n p g h =
      Some (g, set_color g RB_RED (set_color p RB_BLACK (set_color b RB_BLACK h)))"
    using rb_insert_step_dir [OF p zrep_kid_distinct [OF z p]] red b by simp
  have "zrep (set_color b RB_BLACK h) q (Some g) (mk e cg (mk d cp t p s) g (paint RB_BLACK u)) path"
    using zrep_set_color_kid [of h q g "opp e" cg u] z b by (simp add: mk_opp)
  then have "zrep (set_color p RB_BLACK (set_color b RB_BLACK h)) q (Some g)
      (mk e cg (mk d RB_BLACK t p s) g (paint RB_BLACK u)) path"
    using zrep_set_color_kid [of "set_color b RB_BLACK h" q g e cg "mk d cp t p s"] p by simp
  then show ?thesis
    using step zrep_set_color
      [of "set_color p RB_BLACK (set_color b RB_BLACK h)" q g "mk e cg (mk d RB_BLACK t p s) g (paint RB_BLACK u)"]
    by simp
qed

text \<open>The last rotation of the loop: painted \<open>p\<close> black and \<open>g\<close> red, rotate \<open>g\<close> away.\<close>

lemma ins_rotate:
  assumes z: "zrep h q (Some g) (mk e cg (mk e cp t p s) g u) path"
  shows "\<exists>h'. rb_rotate (opp e) g (set_color g RB_RED (set_color p RB_BLACK h)) = Some h'
     \<and> zrep h' q (Some p) (mk e RB_BLACK t p (mk e RB_RED s g u)) path"
proof -
  have p: "child e h g = Some p" using zrep_kid_root [OF z] by simp
  have "zrep (set_color p RB_BLACK h) q (Some g) (mk e cg (mk e RB_BLACK t p s) g u) path"
    using zrep_set_color_kid [OF z p, of RB_BLACK] by simp
  then have "zrep (set_color g RB_RED (set_color p RB_BLACK h)) q (Some g)
      (mk e RB_RED (mk e RB_BLACK t p s) g u) path"
    using zrep_set_color [of "set_color p RB_BLACK h" q g "mk e cg (mk e RB_BLACK t p s) g u"] by simp
  then show ?thesis
    using rb_rotate_spec [of _ q g "opp e" RB_RED u RB_BLACK s p t path] by (simp add: mk_opp)
qed

lemma ins_step_outer:
  assumes z: "zrep h q (Some g) (mk e cg (mk e cp t p s) g u) path" and u: "colour u = RB_BLACK"
    and n: "child e h p = Some n"
  shows "\<exists>h'. rb_insert_step n p g h = Some (n, h')
     \<and> zrep h' q (Some p) (mk e RB_BLACK t p (mk e RB_RED s g u)) path"
proof -
  have p: "child e h g = Some p" using zrep_kid_root [OF z] by simp
  have "\<not> is_red (child (opp e) h g) h" using zrep_is_red [of h q g "opp e" cg u] z u mk_opp
    by (metis rb_colour.distinct(1))
  moreover have "child (opp e) h p \<noteq> Some n"
    using zrep_down [OF z] zrep_kid_distinct [OF _ n] p by (simp only:) blast
  ultimately show ?thesis
    using rb_insert_step_dir [OF p zrep_kid_distinct [OF z p]] ins_rotate [OF z] by auto
qed

lemma ins_step_inner:
  assumes z: "zrep h q (Some g) (mk e cg (mk (opp e) cp (mk e c l n r) p s) g u) path"
    and u: "colour u = RB_BLACK"
  shows "\<exists>h'. rb_insert_step n p g h = Some (p, h')
     \<and> zrep h' q (Some n) (mk e RB_BLACK (mk e cp s p l) n (mk e RB_RED r g u)) path"
proof -
  have p: "child e h g = Some p" using zrep_kid_root [OF z] by simp
  have z1: "zrep h (Some g) (Some p) (mk e cp s p (mk e c l n r)) ((e, cg, g, u) # path)"
    using zrep_down [OF z] p by (simp add: mk_opp)
  have n: "child (opp e) h p = Some n" using zrep_kid_root [of h _ _ "opp e"] z1 mk_opp by metis
  have red: "\<not> is_red (child (opp e) h g) h" using zrep_is_red [of h q g "opp e" cg u] z u mk_opp
    by (metis rb_colour.distinct(1))
  obtain h1 where h1: "rb_rotate e p h = Some h1"
    and z2: "zrep h1 (Some g) (Some n) (mk e c (mk e cp s p l) n r) ((e, cg, g, u) # path)"
    using rb_rotate_spec [OF z1] by blast
  have z3: "zrep h1 (rb_parent h1 g) (Some g) (mk e cg (mk e c (mk e cp s p l) n r) g u) path"
    using zrep_upD [OF z2] by simp
  have "rb_parent h1 g = q" using zrep_par [OF z3 z] .
  then obtain h2 where "rb_rotate (opp e) g (set_color g RB_RED (set_color n RB_BLACK h1)) = Some h2"
    "zrep h2 q (Some n) (mk e RB_BLACK (mk e cp s p l) n (mk e RB_RED r g u)) path"
    using ins_rotate [OF z3] by auto
  then show ?thesis
    using rb_insert_step_dir [OF p zrep_kid_distinct [OF z p]] red n h1 by auto
qed

definition root_black :: "'a frame list \<Rightarrow> bool" where
  "root_black path \<longleftrightarrow> (path \<noteq> [] \<longrightarrow> fst (snd (last path)) = RB_BLACK)"

lemma rb_insert_loop_stop:
  assumes "zrep h par (Some n) t path" "top_black path"
  shows "rb_insert_loop n h = Some h"
  using assms by (subst rb_insert_loop.simps, cases t; cases path) (auto simp: zrep_def)

lemma rb_insert_loop_turn:
  assumes "zrep h par (Some n) t ((d, RB_RED, p, s) # (e, cg, g, u) # path)"
  shows "rb_insert_loop n h = Option.bind (rb_insert_step n p g h) (\<lambda>(n, h). rb_insert_loop n h)"
proof -
  have "rb_parent h n = Some p" "rb_parent h p = Some g" "rb_color h p = RB_RED"
    using assms by (cases t; auto simp: zrep_def)+
  then show ?thesis by (subst rb_insert_loop.simps) simp
qed

theorem rb_insert_loop_refines:
  "zrep h par (Some n) (Node c l n r) path \<Longrightarrow> root_black path \<Longrightarrow>
     \<exists>h'. rb_insert_loop n h = Some h' \<and> rep h' (ins_fix (Node c l n r) path)"
proof (induction "Node c l n r" path arbitrary: h par c l n r rule: ins_fix.induct)
  case (1 c l n r d p s e cg g u path)
  let ?t = "Node c l n r"
  have z1: "zrep h (rb_parent h p) (Some p) (mk d RB_RED ?t p s) ((e, cg, g, u) # path)"
    and n: "child d h p = Some n" using zrep_upD [OF "1.prems"(1)] by simp_all
  have z: "zrep h (rb_parent h g) (Some g) (mk e cg (mk d RB_RED ?t p s) g u) path"
    using zrep_upD [OF z1] by simp
  have rb: "root_black path" using "1.prems"(2) by (auto simp: root_black_def split: if_splits)
  note turn = rb_insert_loop_turn [OF "1.prems"(1)]
  consider "colour u = RB_RED" | "colour u = RB_BLACK" "d = e" | "colour u = RB_BLACK" "d = opp e"
    by (cases "colour u"; cases d; cases e) auto
  then show ?case
  proof cases
    case 1
    let ?m = "mk e RB_RED (mk d RB_BLACK ?t p s) g (paint RB_BLACK u)"
    obtain h' where h': "rb_insert_step n p g h = Some (g, h')" "zrep h' (rb_parent h g) (Some g) ?m path"
      using ins_step_red [OF z 1] by blast
    obtain l' r' where m: "?m = Node RB_RED l' g r'" by (cases e) auto
    have "\<exists>h''. rb_insert_loop g h' = Some h'' \<and> rep h'' (ins_fix ?m path)"
      using "1.hyps" [OF 1 m, of h' "rb_parent h g"] h'(2) rb by (simp add: m)
    then show ?thesis using turn h'(1) 1 by simp
  next
    case 2
    then obtain h' where h': "rb_insert_step n p g h = Some (n, h')"
      and z': "zrep h' (rb_parent h g) (Some p) (mk e RB_BLACK ?t p (mk e RB_RED s g u)) path"
      using ins_step_outer [OF z [unfolded 2]] n by blast
    have "child e h' p = Some n" using z' by (simp add: zrep_def rtree_mk)
    then have "rb_insert_loop n h' = Some h'"
      using rb_insert_loop_stop zrep_down [OF z'] by fastforce
    then show ?thesis using turn 2 h' zrep_rep [OF z'] by simp
  next
    case 3
    let ?l = "kid e ?t" and ?r = "kid d ?t"
    have t: "?t = mk e c ?l n ?r" using 3(2) by (cases e) auto
    obtain h' where h': "rb_insert_step n p g h = Some (p, h')"
      and z': "zrep h' (rb_parent h g) (Some n) (mk e RB_BLACK (mk e RB_RED s p ?l) n (mk e RB_RED ?r g u)) path"
      using ins_step_inner [of h _ g e cg RB_RED c ?l n ?r p s u path] z t 3 by metis
    have "child e h' n = Some p" using z' by (simp add: zrep_def rtree_mk)
    then have "rb_insert_loop p h' = Some h'"
      using rb_insert_loop_stop zrep_down [OF z'] by fastforce
    then show ?thesis using turn 3 h' zrep_rep [OF z'] by (simp add: mk_opp)
  qed
qed (frule zrep_rep; drule rb_insert_loop_stop; auto simp: root_black_def)+

lemma fits_root_black: "fits t path \<Longrightarrow> root_black path"
proof (induction path arbitrary: t)
  case (Cons f path)
  obtain d c x s where f: "f = (d, c, x, s)" by (cases f) auto
  have "root_black path" using Cons.IH fits_up Cons.prems f by metis
  moreover have "path = [] \<Longrightarrow> c = RB_BLACK" using Cons.prems f by (auto simp: fits_def)
  ultimately show ?case by (auto simp: f root_black_def)
qed (simp add: root_black_def)

text \<open>The position the search loop before \<open>rb_link_node\<close> ends in: the parent and the pointer
  to overwrite.\<close>

definition link_of :: "addr frame list \<Rightarrow> (addr \<times> side) option" where
  "link_of path = (case path of [] \<Rightarrow> None | (d, c, a, s) # _ \<Rightarrow> Some (a, d))"

lemma rb_link_node_spec:
  assumes z: "zrep h par None Leaf path" and a: "a \<notin> pset path"
  shows "zrep (rb_link_node a par (link_of path) h) par (Some a) (Node RB_RED Leaf a Leaf) path"
proof (cases path)
  case Nil
  then show ?thesis using z by (simp add: zrep_def rb_link_node_def link_of_def Let_def)
next
  case (Cons f rest)
  obtain d c p s where f: "f = (d, c, p, s)" by (cases f) auto
  define h' where "h' = rb_link_node a par (link_of path) h"
  have h': "h' = set_child d p (Some a) (set_left a None (set_right a None
      (set_color a RB_RED (set_parent a par h))))"
    using Cons f by (cases d) (auto simp: h'_def rb_link_node_def link_of_def Let_def)
  have ap: "a \<noteq> p" "p \<notin> set (inorder s)" "p \<notin> pset rest" "a \<notin> set (inorder s)" "a \<notin> pset rest"
    using z a Cons f by (auto simp: zrep_def)
  have fields: "rb_parent h' = (rb_parent h)(a := par)" "rb_color h' = (rb_color h)(a := RB_RED)"
    "rb_left h' a = None" "rb_right h' a = None" "child d h' p = Some a" "rb_node h' = rb_node h"
    "child (opp d) h' p = child (opp d) h p"
    and oth: "\<And>b. b \<noteq> a \<Longrightarrow> b \<noteq> p \<Longrightarrow> rb_left h' b = rb_left h b \<and> rb_right h' b = rb_right h b"
    unfolding h' using ap by (cases d; auto)+
  have "rtree h' (Some p) q s = rtree h (Some p) q s" for q
    using ap oth by (intro rtree_frame) (auto simp: fields)
  moreover have "rpath h' q r rest = rpath h q r rest" for q r
    using ap oth by (intro rpath_frame) (auto simp: fields)
  ultimately have "zrep h' par (Some a) (Node RB_RED Leaf a Leaf) path"
    using z a ap Cons f by (auto simp: zrep_def fields)
  then show ?thesis by (simp add: h'_def)
qed

lemma rep_paint_root:
  assumes "rep h t" "t \<noteq> Leaf"
  shows "\<exists>r. rb_node h = Some r \<and> rep (set_color r RB_BLACK h) (paint RB_BLACK t)"
proof -
  obtain r where r: "rb_node h = Some r" using assms by (cases t) (auto simp: rep_def zrep_def)
  then show ?thesis using zrep_set_color [of h None r t "[]"] assms by (simp add: rep_def)
qed

lemma rb_insert_refines:
  assumes z: "zrep h par None Leaf path" and a: "a \<notin> pset path" and f: "root_black path"
  shows "\<exists>h'. rb_insert_color a (rb_link_node a par (link_of path) h) = Some h'
     \<and> rep h' (rbt_insert a path)"
proof -
  obtain h' where h': "rb_insert_loop a (rb_link_node a par (link_of path) h) = Some h'"
    "rep h' (ins_fix (Node RB_RED Leaf a Leaf) path)"
    using rb_insert_loop_refines [OF rb_link_node_spec [OF z a] f] by blast
  have "inorder (ins_fix (Node RB_RED Leaf a Leaf) path) \<noteq> []" by simp
  then have "ins_fix (Node RB_RED Leaf a Leaf) path \<noteq> Leaf" by fastforce
  then show ?thesis using h' rep_paint_root by (fastforce simp: rb_insert_color_def rbt_insert_def)
qed

lemma pset_inorder: "pset path = set (before path) \<union> set (after path)"
proof (induction path)
  case (Cons f path)
  obtain d c x s where "f = (d, c, x, s)" by (cases f) auto
  then show ?case using Cons by (cases d) auto
qed simp

lemma rep_leaf_position:
  assumes "rep h (zip_up Leaf path)"
  shows "zrep h (map_option fst (link_of path)) None Leaf path"
proof -
  obtain par p where z: "zrep h par p Leaf path" using assms zrep_zip by blast
  then have "p = None" "par = map_option fst (link_of path)"
    by (cases path; auto simp: zrep_def link_of_def)+
  with z show ?thesis by simp
qed

section \<open>Deletion\<close>

text \<open>One turn of the loop of \<open>__rb_erase_color\<close> for both sides, in two parts: the treatment of a
  red sibling, and the rest.\<close>

definition rb_erase_rest :: "side \<Rightarrow> addr \<Rightarrow> addr \<Rightarrow> rheap \<Rightarrow> (addr \<times> rheap + rheap) option" where
  "rb_erase_rest d parent other h =
     (if is_black (child d h other) h \<and> is_black (child (opp d) h other) h
      then Some (Inl (parent, set_color other RB_RED h))
      else do {
        (other, h) \<leftarrow>
          (if is_black (child (opp d) h other) h
           then do {
             h \<leftarrow> rb_rotate (opp d) other
                    (set_color other RB_RED (set_color_opt (child d h other) RB_BLACK h));
             other \<leftarrow> child (opp d) h parent;
             Some (other, h) }
           else Some (other, h));
        h \<leftarrow> rb_rotate d parent
               (set_color_opt (child (opp d) h other) RB_BLACK
                 (set_color parent RB_BLACK (set_color other (rb_color h parent) h)));
        Some (Inr h) })"

definition rb_erase_side :: "side \<Rightarrow> addr \<Rightarrow> rheap \<Rightarrow> (addr \<times> rheap + rheap) option" where
  "rb_erase_side d parent h =
     do {
       other \<leftarrow> child (opp d) h parent;
       (other, h) \<leftarrow>
         (if rb_color h other = RB_RED
          then do {
            h \<leftarrow> rb_rotate d parent (set_color parent RB_RED (set_color other RB_BLACK h));
            other \<leftarrow> child (opp d) h parent;
            Some (other, h) }
          else Some (other, h));
       rb_erase_rest d parent other h
     }"

lemma rb_erase_side_simps:
  "rb_erase_side Left = rb_erase_left" "rb_erase_side Right = rb_erase_right"
  by (auto simp: fun_eq_iff rb_erase_side_def rb_erase_rest_def rb_erase_left_def rb_erase_right_def
      rb_rotate_def conj_commute intro!: Option.bind_cong)

lemma zrep_set_color_opt_kid:
  assumes z: "zrep h q (Some a) (mk d c t a s) path"
  shows "zrep (set_color_opt (child d h a) c' h) q (Some a) (mk d c (paint c' t) a s) path"
proof (cases "child d h a")
  case None
  then have "t = Leaf" using z by (cases t) (auto simp: zrep_def rtree_mk)
  then show ?thesis using None z by (simp add: set_color_opt_def)
next
  case (Some b)
  then show ?thesis using zrep_set_color_kid [OF z] by (simp add: set_color_opt_def)
qed

text \<open>An operation below the focus: descend, transform, come back.\<close>

lemma zrep_under:
  assumes z: "zrep h q (Some a) (mk d c t a s) path"
    and step: "\<And>b. child d h a = b \<Longrightarrow> zrep h (Some a) b t ((d, c, a, s) # path) \<Longrightarrow>
      zrep h' (Some a) b' t' ((d, c, a, s) # path)"
  shows "zrep h' q (Some a) (mk d c t' a s) path \<and> child d h' a = b'"
proof -
  have z': "zrep h' (Some a) b' t' ((d, c, a, s) # path)" using step zrep_down [OF z] by simp
  have "rb_parent h' a = q" using zrep_upD [OF z'] zrep_par [OF _ z] by blast
  then show ?thesis using zrep_upD [OF z'] by simp
qed

lemma set_color_opt_simps [simp]:
  "rb_parent (set_color_opt p c h) = rb_parent h"
  "child e (set_color_opt p c h) = child e h"
  "rb_left (set_color_opt p c h) = rb_left h"
  "rb_right (set_color_opt p c h) = rb_right h"
  "rb_node (set_color_opt p c h) = rb_node h"
  by (simp_all add: set_color_opt_def split: option.split)

text \<open>The final rotation.\<close>

lemma erase_final:
  assumes z: "zrep h q (Some p) (mk d cp t p (mk d co sn o' sf)) path"
  shows "\<exists>h'. rb_rotate d p (set_color_opt (child (opp d) h o') RB_BLACK
             (set_color p RB_BLACK (set_color o' (rb_color h p) h))) = Some h'
     \<and> zrep h' q (Some o') (del_final d cp t p co sn o' sf) path"
proof -
  let ?h1 = "set_color o' (rb_color h p) h"
  let ?h2 = "set_color p RB_BLACK ?h1"
  let ?h3 = "set_color_opt (child (opp d) h o') RB_BLACK ?h2"
  have cp: "rb_color h p = cp" using zrep_node [OF z] by simp
  have o': "child (opp d) h p = Some o'" using z by (simp add: zrep_def rtree_mk)
  have "zrep ?h1 q (Some p) (mk d cp t p (mk d cp sn o' sf)) path"
    using zrep_set_color_kid [of h q p "opp d" cp "mk d co sn o' sf" t path o' cp] z o' by (simp add: mk_opp cp)
  then have z2: "zrep ?h2 q (Some p) (mk (opp d) RB_BLACK (mk (opp d) cp sf o' sn) p t) path"
    using zrep_set_color [of ?h1 q p "mk d cp t p (mk d cp sn o' sf)"] by (simp add: mk_opp)
  have "zrep ?h3 q (Some p) (mk (opp d) RB_BLACK (mk (opp d) cp (paint RB_BLACK sf) o' sn) p t) path
     \<and> child (opp d) ?h3 p = Some o'"
  proof (rule zrep_under [OF z2])
    fix b assume "child (opp d) ?h2 p = b"
      "zrep ?h2 (Some p) b (mk (opp d) cp sf o' sn) ((opp d, RB_BLACK, p, t) # path)"
    then show "zrep ?h3 (Some p) (Some o') (mk (opp d) cp (paint RB_BLACK sf) o' sn)
      ((opp d, RB_BLACK, p, t) # path)"
      using zrep_set_color_opt_kid [of ?h2 _ o' "opp d"] o' by simp
  qed
  then have "zrep ?h3 q (Some p) (mk d RB_BLACK t p (mk d cp sn o' (paint RB_BLACK sf))) path"
    by (simp add: mk_opp)
  from rb_rotate_spec [OF this] show ?thesis by (simp add: del_final_def)
qed

lemma zrep_side_black:
  assumes z: "zrep h q (Some p) (mk d cp t p (mk d co sn o' sf)) path"
  shows "child (opp d) h p = Some o'" "rb_color h o' = co"
    "is_black (child d h o') h \<longleftrightarrow> colour sn = RB_BLACK"
    "is_black (child (opp d) h o') h \<longleftrightarrow> colour sf = RB_BLACK"
proof -
  show o': "child (opp d) h p = Some o'" "rb_color h o' = co" using z by (simp_all add: zrep_def rtree_mk)
  have "zrep h (Some p) (Some o') (mk d co sn o' sf) ((opp d, cp, p, t) # path)"
    using zrep_down [of h q p "opp d" cp "mk d co sn o' sf" t path] z o' by (simp add: mk_opp)
  then show "is_black (child d h o') h \<longleftrightarrow> colour sn = RB_BLACK"
    "is_black (child (opp d) h o') h \<longleftrightarrow> colour sf = RB_BLACK"
    using zrep_is_black [of h "Some p" o' d co sn sf] zrep_is_black [of h "Some p" o' "opp d" co sf sn]
    by (simp_all add: mk_opp)
qed

lemma erase_rest_None:
  assumes z: "zrep h q (Some p) (mk d cp t p (mk d co sn o' sf)) path"
    and c: "colour sn = RB_BLACK" "colour sf = RB_BLACK"
  shows "rb_erase_rest d p o' h = Some (Inl (p, set_color o' RB_RED h))
     \<and> zrep (set_color o' RB_RED h) q (Some p) (mk d cp t p (mk d RB_RED sn o' sf)) path"
  using zrep_side_black [OF z] c z
    zrep_set_color_kid [of h q p "opp d" cp "mk d co sn o' sf" t path o' RB_RED]
  by (simp add: rb_erase_rest_def mk_opp)

lemma erase_rest_near:
  assumes z: "zrep h q (Some p) (mk d cp t p (mk d co (mk d c l n r) o' sf)) path"
  shows "\<exists>h'. rb_rotate (opp d) o' (set_color o' RB_RED (set_color_opt (child d h o') RB_BLACK h)) = Some h'
     \<and> zrep h' q (Some p) (mk d cp t p (mk d RB_BLACK l n (mk d RB_RED r o' sf))) path"
proof -
  let ?h1 = "set_color_opt (child d h o') RB_BLACK h"
  let ?h2 = "set_color o' RB_RED ?h1"
  let ?path = "(opp d, cp, p, t) # path"
  have z0: "zrep h (Some p) (Some o') (mk d co (mk d c l n r) o' sf) ?path"
    using zrep_down [of h q p "opp d"] zrep_side_black(1) [OF z] z by (simp add: mk_opp)
  then have "zrep ?h1 (Some p) (Some o') (mk d co (mk d RB_BLACK l n r) o' sf) ?path"
    using zrep_set_color_opt_kid [OF z0, of RB_BLACK] by simp
  then have "zrep ?h2 (Some p) (Some o') (mk d RB_RED (mk d RB_BLACK l n r) o' sf) ?path"
    using zrep_set_color [of ?h1 "Some p" o' "mk d co (mk d RB_BLACK l n r) o' sf"] by simp
  then obtain h' where h': "rb_rotate (opp d) o' ?h2 = Some h'"
    and z': "zrep h' (Some p) (Some n) (mk d RB_BLACK l n (mk d RB_RED r o' sf)) ?path"
    using rb_rotate_spec [of ?h2 "Some p" o' "opp d" RB_RED sf RB_BLACK r n l ?path] by (auto simp: mk_opp)
  have "zrep h' q (Some p) (mk (opp d) cp (mk d RB_BLACK l n (mk d RB_RED r o' sf)) p t) path"
    using zrep_upD [OF z'] zrep_par [OF _ z] by metis
  with h' show ?thesis by (simp add: mk_opp)
qed

lemma erase_rest_Some:
  assumes z: "zrep h q (Some p) (mk d cp t p (mk d co sn o' sf)) path"
    and u: "del_black d cp t p sn o' sf = Some u"
  shows "\<exists>h'. rb_erase_rest d p o' h = Some (Inr h') \<and> rep h' (zip_up u path)"
proof (cases "colour sf")
  case RB_RED
  then have "u = del_final d cp t p co sn o' sf" using u by (auto simp: del_black_def del_final_def)
  then show ?thesis using erase_final [OF z] zrep_side_black [OF z] RB_RED zrep_rep
    by (fastforce simp: rb_erase_rest_def)
next
  case RB_BLACK
  then obtain c l n r where sn: "sn = Node c l n r" and c: "c = RB_RED"
    and u: "u = del_final d cp t p RB_BLACK (kid d sn) n (mk d RB_RED (kid (opp d) sn) o' sf)"
    using u by (auto simp: del_black_def split: if_splits rbt.splits)
  have z1: "zrep h q (Some p) (mk d cp t p (mk d co (mk d c (kid d sn) n (kid (opp d) sn)) o' sf)) path"
    using z sn mk_kids by metis
  obtain h1 where h1: "rb_rotate (opp d) o' (set_color o' RB_RED (set_color_opt (child d h o') RB_BLACK h)) = Some h1"
    and z2: "zrep h1 q (Some p) (mk d cp t p (mk d RB_BLACK (kid d sn) n (mk d RB_RED (kid (opp d) sn) o' sf))) path"
    using erase_rest_near [OF z1] by blast
  show ?thesis using erase_final [OF z2] zrep_side_black [OF z] zrep_side_black(1) [OF z2] RB_BLACK sn c h1 zrep_rep
    by (fastforce simp: rb_erase_rest_def u)
qed

lemma erase_red_sibling:
  assumes z: "zrep h q (Some p) (mk d cp t p (mk d RB_RED (mk d cn nl n nr) o' sf)) path"
  shows "\<exists>h'. rb_erase_side d p h = rb_erase_rest d p n h'
     \<and> zrep h' (Some o') (Some p) (mk d RB_RED t p (mk d cn nl n nr)) ((d, RB_BLACK, o', sf) # path)"
proof -
  let ?s = "mk d cn nl n nr" and ?h1 = "set_color o' RB_BLACK h"
  have o': "child (opp d) h p = Some o'" "rb_color h o' = RB_RED" using zrep_side_black [OF z] by auto
  have "zrep ?h1 q (Some p) (mk d cp t p (mk d RB_BLACK ?s o' sf)) path"
    using zrep_set_color_kid [of h q p "opp d" cp "mk d RB_RED ?s o' sf" t path o' RB_BLACK] z o'
    by (simp add: mk_opp)
  then have "zrep (set_color p RB_RED ?h1) q (Some p) (mk d RB_RED t p (mk d RB_BLACK ?s o' sf)) path"
    using zrep_set_color [of ?h1 q p "mk d cp t p (mk d RB_BLACK ?s o' sf)"] by simp
  then obtain h' where h': "rb_rotate d p (set_color p RB_RED ?h1) = Some h'"
    and z': "zrep h' q (Some o') (mk d RB_BLACK (mk d RB_RED t p ?s) o' sf) path"
    using rb_rotate_spec by blast
  have "child d h' o' = Some p" using zrep_kid_root [OF z'] by simp
  then have z2: "zrep h' (Some o') (Some p) (mk d RB_RED t p ?s) ((d, RB_BLACK, o', sf) # path)"
    using zrep_down [OF z'] by simp
  then have "child (opp d) h' p = Some n" using zrep_side_black by blast
  then show ?thesis using z2 h' o' by (auto simp: rb_erase_side_def)
qed

lemma zrep_set_color_opt:
  "zrep h par n t path \<Longrightarrow> zrep (set_color_opt n c h) par n (paint c t) path"
  using zrep_set_color [of h par _ t path c] by (cases n; cases t) (auto simp: set_color_opt_def zrep_def)

lemma rep_set_color_opt: "rep h t \<Longrightarrow> rep (set_color_opt (rb_node h) c h) (paint c t)"
  unfolding rep_def using zrep_set_color_opt by fastforce

lemma zrep_focus_black: "zrep h par n t path \<Longrightarrow> is_black n h \<longleftrightarrow> colour t = RB_BLACK"
  by (cases t) (auto simp: zrep_def is_black_def)

lemma rpath_root: "rpath h par n path \<Longrightarrow> path \<noteq> [] \<Longrightarrow> \<exists>r \<in> pset path. rb_node h = Some r"
proof (induction h par n path rule: rpath.induct)
  case (2 h par p d c a s path)
  then show ?case by (cases path) auto
qed simp

lemma zrep_not_root: "zrep h par n t path \<Longrightarrow> path \<noteq> [] \<Longrightarrow> n \<noteq> rb_node h"
  using rpath_root [of h par n path] by (cases t) (auto simp: zrep_def)

lemma erase_stop:
  assumes z: "zrep h par n t path" and s: "colour t = RB_RED \<or> path = []"
  shows "\<exists>h'. rb_erase_color n par h = Some h' \<and> rep h' (zip_up (paint RB_BLACK t) path)"
proof -
  have "is_black n h \<and> n \<noteq> rb_node h \<longleftrightarrow> False"
    using s z zrep_focus_black [OF z] by (auto simp: zrep_def)
  then have "rb_erase_loop n par h = Some (n, h)" by (subst rb_erase_loop.simps) argo
  then show ?thesis using zrep_rep [OF zrep_set_color_opt [OF z, of RB_BLACK]]
    by (simp add: rb_erase_color_def)
qed

lemma erase_turn:
  assumes z: "zrep h par n t ((d, cp, p, s) # path)" and t: "colour t = RB_BLACK" and s: "s \<noteq> Leaf"
  shows "rb_erase_color n par h = Option.bind (rb_erase_side d p h)
     (\<lambda>res. case res of Inl (n', h') \<Rightarrow> rb_erase_color (Some n') (rb_parent h' n') h'
        | Inr h' \<Rightarrow> Some (set_color_opt (rb_node h') RB_BLACK h'))"
proof -
  have zp: "zrep h (rb_parent h p) (Some p) (mk d cp t p s) path" "par = Some p" "child d h p = n"
    using zrep_upD [OF z] by auto
  obtain b where b: "child (opp d) h p = Some b" using zp(1) s by (cases s) (auto simp: zrep_def rtree_mk)
  have "n \<noteq> Some b" using zrep_kid_distinct [OF zp(1)] zp(3) b by auto
  then have "(if rb_left h p = n then rb_erase_left p h else rb_erase_right p h) = rb_erase_side d p h"
    using zp(3) b by (cases d) (auto simp: rb_erase_side_simps)
  moreover have "is_black n h \<and> n \<noteq> rb_node h" using zrep_focus_black [OF z] t zrep_not_root [OF z] by simp
  ultimately show ?thesis
    unfolding rb_erase_color_def by (subst rb_erase_loop.simps)
      (auto simp: zp(2) intro!: Option.bind_cong split: sum.splits)
qed

lemma del_fix_push:
  assumes "path_inv (Suc (bheight t)) ((d, cp, p, mk d RB_BLACK sn o' sf) # path)"
    and "colour sn = RB_BLACK" "colour sf = RB_BLACK" "colour t = RB_BLACK" "invc t" "invh t"
  shows "path_inv (Suc (bheight (mk d cp t p (mk d RB_RED sn o' sf)))) path"
    "invc (paint RB_BLACK (mk d cp t p (mk d RB_RED sn o' sf)))" "invh (mk d cp t p (mk d RB_RED sn o' sf))"
proof -
  have "bheight sn = bheight t" "bheight sf = bheight t" "invh sn" "invh sf" "invc sn" "invc sf"
    and p: "path_inv (if cp = RB_BLACK then Suc (Suc (bheight t)) else Suc (bheight t)) path"
    using assms(1) by (cases d; simp)+
  then have b: "bheight t = bheight (mk d RB_RED sn o' sf)" and r: "invc sn" "invc sf" "invh sn" "invh sf"
    "bheight sn = bheight sf" by (simp_all add: bheight_mk)
  show "invh (mk d cp t p (mk d RB_RED sn o' sf))" using b r assms by simp
  show "path_inv (Suc (bheight (mk d cp t p (mk d RB_RED sn o' sf)))) path"
    using p by (cases cp) (simp_all add: bheight_mk [OF b])
  show "invc (paint RB_BLACK (mk d cp t p (mk d RB_RED sn o' sf)))" using assms r by simp
qed

lemma rbt_side_cases:
  assumes "s \<noteq> Leaf" obtains c sn x sf where "s = mk d c sn x sf"
  using assms mk_kids [of _ _ _ _ d] by (metis rbt.exhaust)

lemma del_fix_black:
  assumes "colour t = RB_BLACK"
  shows "del_fix t ((d, cp, p, mk d RB_BLACK sn o' sf) # path) =
     (case del_black d cp t p sn o' sf of
        None \<Rightarrow> del_fix (mk d cp t p (mk d RB_RED sn o' sf)) path
      | Some u \<Rightarrow> paint RB_BLACK (zip_up u path))"
  using assms by (cases d) (auto split: option.splits)

lemma del_fix_red:
  assumes "colour t = RB_BLACK"
  shows "del_fix t ((d, cp, p, mk d RB_RED (mk d cn nl n nr) o' sf) # path) =
     (case del_black d RB_RED t p nl n nr of
        None \<Rightarrow> zip_up (mk d RB_BLACK t p (mk d RB_RED nl n nr)) ((d, RB_BLACK, o', sf) # path)
      | Some u \<Rightarrow> paint RB_BLACK (zip_up u ((d, RB_BLACK, o', sf) # path)))"
  using assms by (cases d) (auto split: option.splits)

lemma erase_color_red_sibling:
  assumes z: "zrep h par n t ((d, cp, p, mk d RB_RED (mk d cn nl m nr) o' sf) # path)"
    and t: "colour t = RB_BLACK"
  shows "\<exists>h'. rb_erase_color n par h = Some h'
     \<and> rep h' (del_fix t ((d, cp, p, mk d RB_RED (mk d cn nl m nr) o' sf) # path))"
proof -
  let ?path = "(d, RB_BLACK, o', sf) # path"
  note turn = erase_turn [OF z t mk_simps(2)]
  have zp: "zrep h (rb_parent h p) (Some p) (mk d cp t p (mk d RB_RED (mk d cn nl m nr) o' sf)) path"
    using zrep_upD [OF z] by simp
  obtain h1 where h1: "rb_erase_side d p h = rb_erase_rest d p m h1"
    and z1: "zrep h1 (Some o') (Some p) (mk d RB_RED t p (mk d cn nl m nr)) ?path"
    using erase_red_sibling [OF zp] by blast
  show ?thesis
  proof (cases "del_black d RB_RED t p nl m nr")
    case None
    then have b: "colour nl = RB_BLACK" "colour nr = RB_BLACK" by (simp_all add: del_black_None)
    let ?m = "mk d RB_RED t p (mk d RB_RED nl m nr)"
    obtain h2 where h2: "rb_erase_rest d p m h1 = Some (Inl (p, h2))" and z2: "zrep h2 (Some o') (Some p) ?m ?path"
      using erase_rest_None [OF z1 b] by blast
    have "rb_parent h2 p = Some o'" using zrep_node [OF z2] by simp
    then show ?thesis using erase_stop [OF z2] turn h1 h2 None del_fix_red [OF t] by simp
  next
    case (Some u)
    then obtain h2 where "rb_erase_rest d p m h1 = Some (Inr h2)" "rep h2 (zip_up u ?path)"
      using erase_rest_Some [OF z1] by blast
    then show ?thesis using turn h1 Some del_fix_red [OF t] rep_set_color_opt by simp
  qed
qed

theorem rb_erase_color_refines:
  "zrep h par n t path \<Longrightarrow> path_inv (Suc (bheight t)) path \<Longrightarrow> invh t \<Longrightarrow> invc (paint RB_BLACK t) \<Longrightarrow>
     \<exists>h'. rb_erase_color n par h = Some h' \<and> rep h' (del_fix t path)"
proof (induction path arbitrary: h par n t)
  case Nil
  then show ?case using erase_stop by fastforce
next
  case (Cons f path)
  obtain d cp p s where f: "f = (d, cp, p, s)" by (cases f) auto
  have bs: "bheight s = Suc (bheight t)" "invh s" "invc s" using Cons.prems(2) f by auto
  then obtain co sn o' sf where s: "s = mk d co sn o' sf" using rbt_side_cases [of s d] by fastforce
  note z = Cons.prems(1) [unfolded f s]
  consider "colour t = RB_RED" | "colour t = RB_BLACK" "co = RB_RED" | "colour t = RB_BLACK" "co = RB_BLACK"
    by (cases "colour t"; cases co) auto
  then show ?case
  proof cases
    case 1
    then show ?thesis using erase_stop [OF z] f s by simp
  next
    case 2
    then have "sn \<noteq> Leaf" using bs s by (cases d) auto
    then obtain cn nl m nr where "sn = mk d cn nl m nr" using rbt_side_cases by metis
    then show ?thesis using erase_color_red_sibling 2 z f s by simp
  next
    case 3
    have ic: "invc t" using Cons.prems(4) 3 by (cases t) auto
    note turn = erase_turn [OF z 3(1) mk_simps(2)]
    have zp: "zrep h (rb_parent h p) (Some p) (mk d cp t p (mk d co sn o' sf)) path"
      using zrep_upD [OF z] by simp
    have side: "rb_erase_side d p h = rb_erase_rest d p o' h"
      using zrep_side_black [OF zp] 3 by (simp add: rb_erase_side_def)
    show ?thesis
    proof (cases "del_black d cp t p sn o' sf")
      case None
      then have b: "colour sn = RB_BLACK" "colour sf = RB_BLACK" by (simp_all add: del_black_None)
      let ?m = "mk d cp t p (mk d RB_RED sn o' sf)"
      obtain h1 where h1: "rb_erase_rest d p o' h = Some (Inl (p, h1))"
        and z1: "zrep h1 (rb_parent h p) (Some p) ?m path"
        using erase_rest_None [OF zp b] by blast
      have p: "rb_parent h1 p = rb_parent h p" using zrep_node [OF z1] by simp
      have "path_inv (Suc (bheight t)) ((d, cp, p, mk d RB_BLACK sn o' sf) # path)"
        using Cons.prems(2) f s 3 by simp
      note push = del_fix_push [OF this b 3(1) ic Cons.prems(3)]
      show ?thesis using Cons.IH [OF z1 push(1) push(3) push(2)] turn side h1 p None del_fix_black [OF 3(1)] f s 3
        by simp
    next
      case (Some u)
      then obtain h1 where "rb_erase_rest d p o' h = Some (Inr h1)" "rep h1 (zip_up u path)"
        using erase_rest_Some [OF zp] by blast
      then show ?thesis using turn side Some del_fix_black [OF 3(1)] rep_set_color_opt f s 3 by simp
    qed
  qed
qed

text \<open>Taking out a node with at most one child.\<close>

lemma rtree_elem: "rtree h par p t \<Longrightarrow> p = elem t"
  by (cases t) auto

lemma elem_in: "elem t = Some a \<Longrightarrow> a \<in> set (inorder t)"
  by (cases t) auto

lemma rb_relink_fields:
  assumes "\<And>a. par = Some a \<Longrightarrow> rb_left h a = Some x \<longleftrightarrow> rb_right h a \<noteq> Some x"
  shows "rb_parent (rb_relink par x p h) = rb_parent h" "rb_color (rb_relink par x p h) = rb_color h"
    "child e (rb_relink par x p h) a = (if par = Some a \<and> child e h a = Some x then p else child e h a)"
    "rb_node (rb_relink par x p h) = (if par = None then p else rb_node h)"
  using assms by (cases par; cases e; auto simp: rb_relink_def)+

lemma zrep_side:
  assumes "zrep h par (Some x) t path" "t \<noteq> Leaf" "par = Some a"
  shows "rb_left h a = Some x \<longleftrightarrow> rb_right h a \<noteq> Some x"
proof -
  have "x \<notin> pset path" using assms by (cases t) (auto simp: zrep_def)
  then show ?thesis using rpath_side [of h a x path Right] assms by (auto simp: zrep_def)
qed

lemma rb_unlink_spec:
  assumes z: "zrep h par (Some x) (mk d c Leaf x r) path"
  shows "zrep (rb_relink par x (child (opp d) h x) (set_parent_opt (child (opp d) h x) par h)) par
     (child (opp d) h x) r path"
proof -
  let ?b = "child (opp d) h x"
  define h1 where "h1 = set_parent_opt ?b par h"
  define h2 where "h2 = rb_relink par x ?b h1"
  have r: "rtree h (Some x) ?b r" and path: "rpath h par (Some x) path"
    and dist: "distinct (inorder r)" "x \<notin> set (inorder r)" "x \<notin> pset path" "pdistinct path"
    "set (inorder r) \<inter> pset path = {}" using z by (auto simp: zrep_def rtree_mk)
  have b: "?b = Some a \<Longrightarrow> a \<in> set (inorder r)" for a using r rtree_root_in by metis
  have q: "par = Some a \<Longrightarrow> a \<in> pset path" for a using path rpath_parent_in by auto
  have h1: "rb_parent h1 a = (if ?b = Some a then par else rb_parent h a)" "rb_color h1 = rb_color h"
    "child e h1 = child e h" "rb_node h1 = rb_node h" for a e
    by (auto simp: h1_def split: option.splits)
  have "par = Some a \<Longrightarrow> rb_left h1 a = Some x \<longleftrightarrow> rb_right h1 a \<noteq> Some x" for a
    using zrep_side [OF z] h1(3) [of Left] h1(3) [of Right] by (simp add: fun_eq_iff)
  then have h2: "rb_parent h2 = rb_parent h1" "rb_color h2 = rb_color h1"
    "child e h2 a = (if par = Some a \<and> child e h1 a = Some x then ?b else child e h1 a)"
    "rb_node h2 = (if par = None then ?b else rb_node h1)" for a e
    unfolding h2_def by (rule rb_relink_fields; blast)+
  have "rtree h2 par ?b r"
  proof (rule rtree_new_parent [OF r dist(1)])
    fix a assume a: "a \<in> set (inorder r)"
    then have "par \<noteq> Some a" using q dist by auto
    then show "?b \<noteq> Some a \<Longrightarrow> same h h2 a" by (auto simp: same_def h2 h1)
  next
    fix a assume a: "?b = Some a"
    then have "par \<noteq> Some a" using q b dist by auto
    then show "rb_parent h2 a = par \<and> rb_color h2 a = rb_color h a \<and> (\<forall>e. child e h2 a = child e h a)"
      using a by (auto simp: h2 h1)
  qed
  moreover have "rpath h2 par ?b path"
  proof (rule rpath_relink [OF path dist(4,3)])
    fix a e assume "a \<in> pset path"
    then have "?b \<noteq> Some a" using b dist by auto
    then show "rb_parent h2 a = rb_parent h a \<and> rb_color h2 a = rb_color h a \<and> child e h2 a =
      (if par = Some a \<and> child e h a = Some x then ?b else child e h a)" by (auto simp: h2 h1)
  qed (auto simp: h2 h1)
  ultimately show ?thesis using dist by (simp add: zrep_def h2_def h1_def)
qed

text \<open>Putting a node that is not in the tree in the place of another one.\<close>

definition takes_place :: "addr \<Rightarrow> addr \<Rightarrow> rheap \<Rightarrow> rheap \<Rightarrow> bool" where
  "takes_place old n h h' \<longleftrightarrow>
     rb_parent h' n = rb_parent h old \<and> rb_color h' n = rb_color h old
     \<and> (\<forall>e. child e h' n = child e h old)
     \<and> rb_node h' = (if rb_parent h old = None then Some n else rb_node h)
     \<and> (\<forall>a. a \<noteq> n \<longrightarrow> rb_color h' a = rb_color h a
         \<and> rb_parent h' a = (if \<exists>e. child e h old = Some a then Some n else rb_parent h a)
         \<and> (\<forall>e. child e h' a = (if rb_parent h old = Some a \<and> child e h a = Some old then Some n else child e h a)))"

lemma takes_placeD:
  assumes "takes_place old n h h'"
  shows "rb_parent h' n = rb_parent h old" "rb_color h' n = rb_color h old" "child e h' n = child e h old"
    "rb_node h' = (if rb_parent h old = None then Some n else rb_node h)"
    "a \<noteq> n \<Longrightarrow> rb_color h' a = rb_color h a"
    "a \<noteq> n \<Longrightarrow> rb_parent h' a = (if \<exists>e. child e h old = Some a then Some n else rb_parent h a)"
    "a \<noteq> n \<Longrightarrow> child e h' a = (if rb_parent h old = Some a \<and> child e h a = Some old then Some n else child e h a)"
  using assms unfolding takes_place_def by blast+

lemma takes_place_subtree:
  assumes f: "takes_place old n h h'" and t: "rtree h (Some old) (child d h old) t" and d: "distinct (inorder t)"
    and out: "n \<notin> set (inorder t)" "\<And>a. rb_parent h old = Some a \<Longrightarrow> a \<notin> set (inorder t)"
    "\<And>a. child (opp d) h old = Some a \<Longrightarrow> a \<notin> set (inorder t)"
  shows "rtree h' (Some n) (child d h old) t"
proof (rule rtree_new_parent [OF t d])
  have k: "(\<exists>e. child e h old = Some a) \<longleftrightarrow> child d h old = Some a \<or> child (opp d) h old = Some a" for a
    using neq_opp by metis
  fix a
  show "same h h' a" if a: "a \<in> set (inorder t)" "child d h old \<noteq> Some a"
  proof -
    have "a \<noteq> n" "rb_parent h old \<noteq> Some a" "\<not> (\<exists>e. child e h old = Some a)" using out a k by auto
    then show ?thesis using takes_placeD(5-7) [OF f, of a] unfolding same_def by simp
  qed
  show "rb_parent h' a = Some n \<and> rb_color h' a = rb_color h a \<and> (\<forall>e. child e h' a = child e h a)"
    if a: "child d h old = Some a"
  proof -
    have "a \<in> set (inorder t)" using rtree_root_in t a by simp
    then have "a \<noteq> n" "rb_parent h old \<noteq> Some a" "\<exists>e. child e h old = Some a" using out a by auto
    then show ?thesis using takes_placeD(5-7) [OF f, of a] by simp
  qed
qed

lemma zrep_takes_place:
  assumes z: "zrep h par (Some old) (Node c l old r) path"
    and n: "n \<notin> set (inorder (Node c l old r))" "n \<notin> pset path" and f: "takes_place old n h h'"
  shows "zrep h' par (Some n) (Node c l n r) path"
proof -
  have par: "rb_parent h old = par" "rb_color h old = c" and l: "rtree h (Some old) (child Left h old) l"
    and r: "rtree h (Some old) (child Right h old) r" and path: "rpath h par (Some old) path"
    and dist: "distinct (inorder l)" "distinct (inorder r)" "old \<notin> set (inorder l)" "old \<notin> set (inorder r)"
      "set (inorder l) \<inter> set (inorder r) = {}" "old \<notin> pset path" "pdistinct path"
      "set (inorder l) \<inter> pset path = {}" "set (inorder r) \<inter> pset path = {}"
    using z by (auto simp: zrep_def)
  have q: "par = Some a \<Longrightarrow> a \<in> pset path" for a using path rpath_parent_in by auto
  have kids: "child Left h old = Some a \<Longrightarrow> a \<in> set (inorder l)" "child Right h old = Some a \<Longrightarrow> a \<in> set (inorder r)"
    for a using l r rtree_root_in by metis+
  have "rtree h' (Some n) (child Left h old) l"
    by (rule takes_place_subtree [OF f l]) (use n dist q par kids in auto)
  moreover have "rtree h' (Some n) (child Right h old) r"
    by (rule takes_place_subtree [OF f r]) (use n dist q par kids in auto)
  moreover have "rpath h' par (Some n) path"
  proof (rule rpath_relink [OF path dist(7,6)])
    fix a e assume a: "a \<in> pset path"
    then have "a \<noteq> n" "child e h old \<noteq> Some a" for e using n kids dist by (auto, cases e, auto)
    then show "rb_parent h' a = rb_parent h a \<and> rb_color h' a = rb_color h a \<and> child e h' a =
      (if par = Some a \<and> child e h a = Some old then Some n else child e h a)"
      using takes_placeD(5-7) [OF f, of a] par by auto
  qed (use takes_placeD(4) [OF f] par in auto)
  moreover have "rb_left h' n = rb_left h old" "rb_right h' n = rb_right h old"
    using takes_placeD(3) [OF f, of Left] takes_placeD(3) [OF f, of Right] by simp_all
  ultimately show ?thesis using dist n takes_placeD(1,2) [OF f] par by (auto simp: zrep_def)
qed

lemma takes_place_intro:
  assumes z: "zrep h par (Some old) (Node c l old r) path"
    and n: "n \<notin> set (inorder (Node c l old r))" "n \<notin> pset path"
    and p: "\<And>a. rb_parent h' a = (if a = n then par
      else if rb_left h old = Some a \<or> rb_right h old = Some a then Some n else rb_parent h a)"
    and c: "\<And>a. rb_color h' a = (if a = n then rb_color h old else rb_color h a)"
    and k: "\<And>a e. child e h' a = (if a = n then child e h old
      else if par = Some a \<and> child e h a = Some old then Some n else child e h a)"
    and r: "rb_node h' = (if par = None then Some n else rb_node h)"
  shows "takes_place old n h h'"
proof -
  have "(\<exists>e. child e h old = Some a) \<longleftrightarrow> rb_left h old = Some a \<or> rb_right h old = Some a" for a
    by (metis child_simps side.exhaust)
  moreover have "rb_parent h old = par" using z by (simp add: zrep_def)
  ultimately show ?thesis by (simp add: takes_place_def p c k r)
qed

lemma zrep_replace_facts:
  assumes z: "zrep h par (Some old) (Node c l old r) path"
    and n: "n \<notin> set (inorder (Node c l old r))" "n \<notin> pset path"
  shows "rb_parent h old = par" "par \<noteq> Some old" "par \<noteq> Some n" "n \<noteq> old"
    "rb_left h old \<noteq> Some n" "rb_right h old \<noteq> Some n"
    "par = Some a \<Longrightarrow> rb_left h a = Some old \<longleftrightarrow> rb_right h a \<noteq> Some old"
proof -
  have q: "par = Some a \<Longrightarrow> a \<in> pset path" for a using z rpath_parent_in by (auto simp: zrep_def)
  show "rb_parent h old = par" "par \<noteq> Some old" "par \<noteq> Some n" "n \<noteq> old" using z n q by (auto simp: zrep_def)
  show "rb_left h old \<noteq> Some n" "rb_right h old \<noteq> Some n"
    using z n rtree_root_in [of h "Some old" n] by (auto simp: zrep_def)
  show "par = Some a \<Longrightarrow> rb_left h a = Some old \<longleftrightarrow> rb_right h a \<noteq> Some old"
    using zrep_side [OF z] by simp
qed

lemma rb_take_over_place:
  assumes z: "zrep h par (Some old) (Node c l old r) path"
    and n: "n \<notin> set (inorder (Node c l old r))" "n \<notin> pset path"
  shows "takes_place old n h (rb_take_over old n h)"
proof -
  note f = zrep_replace_facts [OF z n]
  define h6 where "h6 = set_left n (rb_left h old) (set_right n (rb_right h old)
    (set_color n (rb_color h old) (set_parent n par h)))"
  define h7 where "h7 = rb_relink par old (Some n) h6"
  have h6: "child e h6 a = (if a = n then child e h old else child e h a)"
    "rb_parent h6 = (rb_parent h)(n := par)" "rb_color h6 = (rb_color h)(n := rb_color h old)"
    "rb_node h6 = rb_node h" for a e by (cases e; auto simp: h6_def)+
  have "par = Some a \<Longrightarrow> rb_left h6 a = Some old \<longleftrightarrow> rb_right h6 a \<noteq> Some old" for a
    using f(3) f(7) [of a] h6(1) [of Left a] h6(1) [of Right a] by auto
  then have h7: "rb_parent h7 = rb_parent h6" "rb_color h7 = rb_color h6"
    "child e h7 a = (if par = Some a \<and> child e h6 a = Some old then Some n else child e h6 a)"
    "rb_node h7 = (if par = None then Some n else rb_node h6)" for a e
    unfolding h7_def by (rule rb_relink_fields; blast)+
  have kids: "rb_left h7 old = rb_left h old" "rb_right h7 old = rb_right h old"
    using h7(3) [of Left old] h7(3) [of Right old] h6(1) [of Left old] h6(1) [of Right old] f by auto
  have "rb_take_over old n h = set_parent_opt (rb_right h old) (Some n) (set_parent_opt (rb_left h old) (Some n) h7)"
    using f kids by (simp add: rb_take_over_def Let_def flip: h6_def h7_def)
  then show ?thesis
    by (intro takes_place_intro [OF z n]) (use f h6 h7 in \<open>auto split: option.splits\<close>)
qed

lemma rb_replace_node_place:
  assumes z: "zrep h par (Some old) (Node c l old r) path"
    and n: "n \<notin> set (inorder (Node c l old r))" "n \<notin> pset path"
  shows "takes_place old n h (rb_replace_node old n h)"
proof -
  note f = zrep_replace_facts [OF z n]
  define h1 where "h1 = rb_relink par old (Some n) h"
  have h1: "rb_parent h1 = rb_parent h" "rb_color h1 = rb_color h"
    "child e h1 a = (if par = Some a \<and> child e h a = Some old then Some n else child e h a)"
    "rb_node h1 = (if par = None then Some n else rb_node h)" for a e
    unfolding h1_def by (rule rb_relink_fields; use f(7) in blast)+
  have kids: "rb_left h1 old = rb_left h old" "rb_right h1 old = rb_right h old"
    using h1(3) [of Left old] h1(3) [of Right old] f by auto
  have ne: "rb_left h old \<noteq> Some old" "rb_right h old \<noteq> Some old"
    using z rtree_root_in [of h "Some old" old] by (auto simp: zrep_def)
  define h3 where "h3 = set_parent_opt (rb_right h old) (Some n) (set_parent_opt (rb_left h old) (Some n) h1)"
  have h3: "rb_parent h3 a = (if rb_left h old = Some a \<or> rb_right h old = Some a then Some n else rb_parent h a)"
    "child e h3 = child e h1" "rb_color h3 = rb_color h1" "rb_node h3 = rb_node h1" for a e
    by (auto simp: h3_def h1 split: option.splits)
  have old: "rb_parent h3 old = par" "rb_left h3 old = rb_left h old" "rb_right h3 old = rb_right h old"
    "rb_color h3 old = rb_color h old" using ne h3 f kids h1 by (auto simp: h3_def)
  have r: "rb_replace_node old n h = set_parent n par (set_right n (rb_right h old)
      (set_left n (rb_left h old) (set_color n (rb_color h old) h3)))"
    using f(1) kids old by (simp add: rb_replace_node_def Let_def h1(2) del: set_parent_opt_simps(1) flip: h1_def h3_def)
  have "child e (rb_replace_node old n h) a = (if a = n then child e h old else child e h1 a)" for e a
    using h3(2) [of e] by (cases e) (auto simp: r h3_def)
  then show ?thesis
    by (intro takes_place_intro [OF z n]) (use f h1 h3 in \<open>auto simp: r\<close>)
qed

lemma rb_walk_left_spec:
  "zrep h par (Some x) (Node c l x r) path \<Longrightarrow> leftmost c l x r path = (cy, z, zr, sub) \<Longrightarrow>
     rb_walk_left x h = Some z \<and> (\<exists>q. zrep h q (Some z) (Node cy Leaf z zr) sub)"
proof (induction c l x r path arbitrary: par rule: leftmost.induct)
  case (1 c x r path)
  then show ?case by (subst rb_walk_left.simps) (auto simp: zrep_def)
next
  case (2 c c' l' x' r' x r path)
  have z': "zrep h (Some x) (Some x') (Node c' l' x' r') ((Left, c, x, r) # path)"
    using zrep_down [of h par x Left c "Node c' l' x' r'" r path] "2.prems"(1) by (auto simp: zrep_def)
  have "rb_left h x = Some x'" using "2.prems"(1) by (simp add: zrep_def)
  then show ?case using "2.IH" [OF z'] "2.prems"(2) by (subst rb_walk_left.simps) simp
qed

lemma zrep_append:
  "zrep h par p t (sub @ path) \<Longrightarrow> \<exists>q p'. zrep h q p' (zip_up t sub) path"
proof (induction t sub arbitrary: par p rule: zip_up.induct)
  case (2 t d c x s sub)
  then show ?case using zrep_upD [of h par p t d c x s "sub @ path"] by fastforce
qed auto

lemma zrep_descend:
  "zrep h par p (zip_up t sub) path \<Longrightarrow>
     zrep h (if sub = [] then par else Some (fst (snd (snd (hd sub))))) (elem t) t (sub @ path)"
proof (induction t sub arbitrary: par p rule: zip_up.induct)
  case (1 t)
  then show ?case using rtree_elem by (auto simp: zrep_def)
next
  case (2 t d c x s sub)
  let ?q = "if sub = [] then par else Some (fst (snd (snd (hd sub))))"
  have z: "zrep h ?q (Some x) (mk d c t x s) (sub @ path)" using 2 by simp
  have "child d h x = elem t" using z rtree_elem by (auto simp: zrep_def rtree_mk)
  then show ?case using zrep_down [OF z] by simp
qed

lemma zrep_head: "zrep h q p t path \<Longrightarrow> q = (case path of [] \<Rightarrow> None | f # _ \<Rightarrow> Some (fst (snd (snd f))))"
  by (cases path) (auto simp: zrep_def)

lemma fits_unlink:
  "fits (mk d c Leaf x r) path \<Longrightarrow> invh r \<and> invc r \<and> (c = RB_BLACK \<longrightarrow> path_inv (Suc (bheight r)) path)"
  by (cases d) (auto simp: fits_def)

lemma erase_end:
  assumes "zrep h par n r path" "fits (mk d c Leaf x r) path"
  shows "\<exists>h'. (if c = RB_BLACK then rb_erase_color n par h else Some h) = Some h' \<and> rep h' (rbt_unlink c r path)"
  using fits_unlink [OF assms(2)] rb_erase_color_refines [OF assms(1)] zrep_rep [OF assms(1)]
  by (auto simp: rbt_unlink_def invc_paint_black)

lemma rb_erase_one:
  assumes z: "zrep h par (Some x) (mk d c Leaf x r) path" and f: "fits (mk d c Leaf x r) path"
  shows "\<exists>h'. rb_erase x h = Some h' \<and> rep h' (rbt_unlink c r path)"
proof -
  let ?b = "child (opp d) h x"
  have "child d h x = None" "rb_parent h x = par" "rb_color h x = c" using z by (auto simp: zrep_def rtree_mk)
  then have "rb_left h x = None \<or> rb_right h x = None"
    "(if rb_left h x = None then rb_right h x else rb_left h x) = ?b" by (cases d; auto)+
  then have "rb_erase x h = (if c = RB_BLACK
      then rb_erase_color ?b par (rb_relink par x ?b (set_parent_opt ?b par h))
      else Some (rb_relink par x ?b (set_parent_opt ?b par h)))"
    unfolding rb_erase_def using \<open>rb_parent h x = par\<close> \<open>rb_color h x = c\<close> by (simp add: Let_def)
  then show ?thesis using erase_end [OF rb_unlink_spec [OF z] f] by simp
qed

lemma rb_erase_two_spec:
  assumes z: "zrep h par (Some old) (Node c l old (Node cr rl y rr)) path"
    and lm: "leftmost cr rl y rr [] = (cy, s, sr, sub)"
  shows "\<exists>q h'. rb_erase_two old h = Some (elem sr, q, cy, h')
     \<and> zrep h' q (elem sr) sr (sub @ (Right, c, s, l) # path)"
proof -
  let ?path = "(Right, c, old, l) # path"
  have right: "rb_right h old = Some y" using z by (simp add: zrep_def)
  have z1: "zrep h (Some old) (Some y) (Node cr rl y rr) ?path"
    using zrep_down [of h par old Right c "Node cr rl y rr" l path] z right by simp
  have "leftmost cr rl y rr ?path = (cy, s, sr, sub @ ?path)" using leftmost_append [of cr rl y rr "[]" ?path] lm by simp
  then obtain q where walk: "rb_walk_left y h = Some s" and z2: "zrep h q (Some s) (Node cy Leaf s sr) (sub @ ?path)"
    using rb_walk_left_spec [OF z1] by blast
  have s: "rb_parent h s = q" "rb_color h s = cy" "rb_right h s = elem sr" "s \<notin> set (inorder sr)" "s \<notin> pset (sub @ ?path)"
    using z2 rtree_elem by (auto simp: zrep_def)
  define h2 where "h2 = rb_relink q s (elem sr) (set_parent_opt (elem sr) q h)"
  have z3: "zrep h2 q (elem sr) sr (sub @ ?path)"
    using rb_unlink_spec [of h q s Left cy sr] z2 s by (simp add: h2_def)
  then obtain q' where z4: "zrep h2 q' (Some old) (Node c l old (zip_up sr sub)) path"
    using zrep_append [of h2 q "elem sr" sr "sub @ [(Right, c, old, l)]" path] by (auto simp: zrep_def)
  have ps: "s \<notin> set (inorder (Node c l old (zip_up sr sub)))" "s \<notin> pset path"
    using s(4,5) by (auto simp: pset_inorder before_append after_append)
  have z5: "zrep (rb_take_over old s h2) q' (Some s) (Node c l s (zip_up sr sub)) path"
    by (rule zrep_takes_place [OF z4 ps rb_take_over_place [OF z4 ps]])
  have q: "q = (if sub = [] then Some old else Some (fst (snd (snd (hd sub)))))"
    using zrep_head [OF z3] by (cases sub) auto
  have no: "sub \<noteq> [] \<Longrightarrow> fst (snd (snd (hd sub))) \<noteq> old"
    using z3 by (cases sub) (auto simp: zrep_def pset_inorder before_append after_append)
  have qo: "q = Some old \<longleftrightarrow> sub = []" using q no by auto
  have "rb_parent h2 s = q"
    using s elem_in [of sr s] by (auto simp: h2_def rb_relink_def split: option.splits)
  then have two: "rb_erase_two old h =
      Some (elem sr, if sub = [] then Some s else q, cy, rb_take_over old s h2)"
    using qo s right walk by (simp add: rb_erase_two_def Let_def flip: h2_def)
  have "zrep (rb_take_over old s h2) (if sub = [] then Some s else q) (elem sr) sr (sub @ (Right, c, s, l) # path)"
    using zrep_descend [of _ q' "Some s" sr "sub @ [(Right, c, s, l)]" path] z5 q by (auto simp: hd_append)
  with two show ?thesis by blast
qed

lemma rb_erase_refines:
  assumes z: "zrep h par (Some x) t path" and f: "fits t path"
  shows "\<exists>h'. rb_erase x h = Some h' \<and> rep h' (rbt_erase t path)"
  using assms
proof (induction t path rule: rbt_erase.induct)
  case (1 path)
  then show ?case by (simp add: zrep_def)
next
  case (2 c x' r path)
  then have "x' = x" by (simp add: zrep_def)
  then show ?case using rb_erase_one [of h par x Left c r path] 2 by simp
next
  case (3 c lc ll lx lr x' path)
  then have "x' = x" by (simp add: zrep_def)
  then show ?case using rb_erase_one [of h par x Right c "Node lc ll lx lr" path] 3 by simp
next
  case (4 c lc ll lx lr x' cr rl y rr path)
  let ?l = "Node lc ll lx lr"
  obtain cy s sr sub where lm: "leftmost cr rl y rr [] = (cy, s, sr, sub)" by (cases "leftmost cr rl y rr []") auto
  have x: "x' = x" "rb_left h x = Some lx" "rb_right h x = Some y" using "4.prems"(1) by (simp_all add: zrep_def)
  then obtain q h' where h': "rb_erase_two x h = Some (elem sr, q, cy, h')"
    "zrep h' q (elem sr) sr (sub @ (Right, c, s, ?l) # path)"
    using rb_erase_two_spec lm "4.prems"(1) by blast
  have "fits (Node cr rl y rr) ((Right, c, s, ?l) # path)" using "4.prems"(2) by (rule fits_Node(2))
  moreover have "leftmost cr rl y rr ((Right, c, s, ?l) # path) = (cy, s, sr, sub @ (Right, c, s, ?l) # path)"
    using leftmost_append [of cr rl y rr "[]"] lm by simp
  ultimately have "fits (mk Left cy Leaf s sr) (sub @ (Right, c, s, ?l) # path)"
    using leftmost_fits by fastforce
  from erase_end [OF h'(2) this] show ?case using h'(1) x lm by (simp add: rb_erase_def)
qed

section \<open>Traversal\<close>

definition head_opt :: "'a list \<Rightarrow> 'a option" where
  "head_opt xs = (case xs of [] \<Rightarrow> None | x # _ \<Rightarrow> Some x)"

definition last_opt :: "'a list \<Rightarrow> 'a option" where
  "last_opt xs = (if xs = [] then None else Some (last xs))"

lemma head_opt_simps [simp]: "head_opt [] = None" "head_opt (x # xs) = Some x"
  "head_opt (xs @ x # ys) = Some (hd (xs @ [x]))"
  by (cases xs; simp add: head_opt_def)+

lemma last_opt_simps [simp]: "last_opt [] = None" "last_opt (xs @ [x]) = Some x"
  "last_opt (xs @ x # ys) = Some (last (x # ys))"
  by (auto simp: last_opt_def)

lemma rb_walk_left_hd: "rtree h par (Some a) t \<Longrightarrow> rb_walk_left a h = Some (hd (inorder t))"
proof (induction t arbitrary: par a)
  case (Node c l x r)
  then show ?case by (subst rb_walk_left.simps) (cases l; auto simp: hd_append)
qed simp

lemma rb_walk_right_last: "rtree h par (Some a) t \<Longrightarrow> rb_walk_right a h = Some (last (inorder t))"
proof (induction t arbitrary: par a)
  case (Node c l x r)
  then show ?case by (subst rb_walk_right.simps) (cases r; auto)
qed simp

lemma rb_climb_right_spec:
  "zrep h par (Some n) t path \<Longrightarrow> rb_climb_right n h = Some (head_opt (after path))"
proof (induction path arbitrary: par n t)
  case Nil
  then show ?case by (subst rb_climb_right.simps) (cases t; auto simp: zrep_def)
next
  case (Cons f path)
  obtain d c a s where f: "f = (d, c, a, s)" by (cases f) auto
  note up = zrep_upD [OF Cons.prems [unfolded f]]
  have n: "rb_parent h n = Some a" using Cons.prems f by (cases t) (auto simp: zrep_def)
  show ?case
  proof (cases d)
    case Left
    then have "rb_right h a \<noteq> Some n" using zrep_kid_distinct [of h _ a d c t s path n] up by auto
    then show ?thesis using n Left f by (subst rb_climb_right.simps) simp
  next
    case Right
    then show ?thesis using n up f Cons.IH by (subst rb_climb_right.simps) auto
  qed
qed

lemma rb_climb_left_spec:
  "zrep h par (Some n) t path \<Longrightarrow> rb_climb_left n h = Some (last_opt (before path))"
proof (induction path arbitrary: par n t)
  case Nil
  then show ?case by (subst rb_climb_left.simps) (cases t; auto simp: zrep_def)
next
  case (Cons f path)
  obtain d c a s where f: "f = (d, c, a, s)" by (cases f) auto
  note up = zrep_upD [OF Cons.prems [unfolded f]]
  have n: "rb_parent h n = Some a" using Cons.prems f by (cases t) (auto simp: zrep_def)
  show ?case
  proof (cases d)
    case Right
    then have "rb_left h a \<noteq> Some n" using zrep_kid_distinct [of h _ a d c t s path n] up by auto
    then show ?thesis using n Right f by (subst rb_climb_left.simps) (simp add: last_opt_def)
  next
    case Left
    then show ?thesis using n up f Cons.IH by (subst rb_climb_left.simps) auto
  qed
qed

lemma rb_next_spec:
  assumes "zrep h par (Some x) (Node c l x r) path"
  shows "rb_next x h = Some (head_opt (inorder r @ after path))"
proof (cases r)
  case Leaf
  then show ?thesis using assms rb_climb_right_spec [OF assms] by (auto simp: rb_next_def zrep_def)
next
  case (Node cr rl y rr)
  then show ?thesis using assms rb_walk_left_hd [of h "Some x" y r]
    by (auto simp: rb_next_def zrep_def hd_append)
qed

lemma rb_prev_spec:
  assumes "zrep h par (Some x) (Node c l x r) path"
  shows "rb_prev x h = Some (last_opt (before path @ inorder l))"
proof (cases l)
  case Leaf
  then show ?thesis using assms rb_climb_left_spec [OF assms] by (auto simp: rb_prev_def zrep_def)
next
  case (Node cr rl y rr)
  then show ?thesis using assms rb_walk_right_last [of h "Some x" y l]
    by (auto simp: rb_prev_def zrep_def last_opt_def)
qed

text \<open>Every element of a represented tree has a position.\<close>

lemma rep_position:
  assumes r: "rep h t" and x: "inorder t = xs @ x # ys"
  obtains c l r path par where "t = zip_up (Node c l x r) path" "zrep h par (Some x) (Node c l x r) path"
    "xs = before path @ inorder l" "ys = inorder r @ after path" "x \<notin> set xs" "x \<notin> set ys"
proof -
  obtain u q where f: "find_node (\<lambda>y. y = x) t [] = Some (u, q)"
    using find_node_None [of "\<lambda>y. y = x" t "[]"] x by fastforce
  have t: "t = zip_up u q" using find_node_zip [OF f] by simp
  obtain c l r where u: "u = Node c l x r" and i: "before q @ inorder u @ after q = inorder t"
    using find_node_inorder [OF f] by auto
  obtain par p where z: "zrep h par p u q" using r t zrep_zip by blast
  have d: "distinct (inorder t)" using r by (simp add: rep_def zrep_def)
  then have "xs = before q @ inorder l \<and> ys = inorder r @ after q"
    using i u x append_Cons_eq_iff [of x xs ys "before q @ inorder l" "inorder r @ after q"] by auto
  then show ?thesis using that [of c l r q par] z t u d x by (auto simp: zrep_def)
qed

section \<open>The operations on whole trees\<close>

lemma rb_insert_whole:
  assumes "rep h (zip_up Leaf path)" and "rb_tree (zip_up Leaf path)"
    and "a \<notin> set (inorder (zip_up Leaf path))"
  shows "\<exists>h' t'. rb_insert_color a (rb_link_node a (map_option fst (link_of path)) (link_of path) h) = Some h'
     \<and> rep h' t' \<and> rb_tree t' \<and> inorder t' = before path @ a # after path"
proof -
  have f: "fits Leaf path" using assms(2) fits_zip by blast
  have "a \<notin> pset path" using assms(3) by (auto simp: pset_inorder)
  then obtain h' where "rb_insert_color a (rb_link_node a (map_option fst (link_of path)) (link_of path) h) = Some h'"
    "rep h' (rbt_insert a path)"
    using rb_insert_refines [OF rep_leaf_position [OF assms(1)] _ fits_root_black [OF f]] by blast
  then show ?thesis using rb_tree_insert [OF f]
    by (intro exI [of _ h'] exI [of _ "rbt_insert a path"]) (simp add: inorder_insert)
qed

lemma rb_erase_whole:
  assumes "rep h t" and "rb_tree t" and "inorder t = xs @ x # ys"
  shows "\<exists>h' t'. rb_erase x h = Some h' \<and> rep h' t' \<and> rb_tree t' \<and> inorder t' = xs @ ys"
proof -
  obtain c l r path par where p: "t = zip_up (Node c l x r) path" "zrep h par (Some x) (Node c l x r) path"
    "xs = before path @ inorder l" "ys = inorder r @ after path"
    using rep_position [OF assms(1,3)] by metis
  have f: "fits (Node c l x r) path" using assms(2) p(1) fits_zip by blast
  then have "rb_tree (rbt_erase (Node c l x r) path)" by (rule rb_tree_erase) simp
  moreover obtain h' where "rb_erase x h = Some h'" "rep h' (rbt_erase (Node c l x r) path)"
    using rb_erase_refines [OF p(2) f] by blast
  ultimately show ?thesis using inorder_erase [of c l x r path] p by fastforce
qed

lemma rb_traversal_whole:
  assumes "rep h t" and "inorder t = xs @ x # ys"
  shows "rb_next x h = Some (head_opt ys) \<and> rb_prev x h = Some (last_opt xs)
     \<and> rb_first h = Some (Some (hd (xs @ [x]))) \<and> rb_last h = Some (Some (last (x # ys)))"
proof -
  obtain c l r path par where p: "zrep h par (Some x) (Node c l x r) path"
    "xs = before path @ inorder l" "ys = inorder r @ after path"
    using rep_position [OF assms] by metis
  obtain a where a: "rb_node h = Some a" and t: "rtree h None (Some a) t"
    using assms by (cases t) (auto simp: rep_def zrep_def)
  show ?thesis
    using rb_next_spec [OF p(1)] rb_prev_spec [OF p(1)] p(2,3) a rb_walk_left_hd [OF t] rb_walk_right_last [OF t]
      assms(2) by (simp add: rb_first_def rb_last_def hd_append)
qed

lemma rb_replace_node_whole:
  assumes "rep h t" and "rb_tree t" and "inorder t = xs @ x # ys" and "n \<notin> set (inorder t)"
  shows "\<exists>t'. rep (rb_replace_node x n h) t' \<and> rb_tree t' \<and> inorder t' = xs @ n # ys"
proof -
  obtain c l r path par where p: "t = zip_up (Node c l x r) path" "zrep h par (Some x) (Node c l x r) path"
    "xs = before path @ inorder l" "ys = inorder r @ after path"
    using rep_position [OF assms(1,3)] by metis
  have n: "n \<notin> set (inorder (Node c l x r))" "n \<notin> pset path"
    using assms(4) p(1) by (auto simp: pset_inorder)
  have "rep (rb_replace_node x n h) (zip_up (Node c l n r) path)"
    using zrep_takes_place [OF p(2) n rb_replace_node_place [OF p(2) n]] zrep_rep by blast
  moreover have "rb_tree (zip_up (Node c l n r) path)"
    using assms(2) p(1) fits_zip fits_elem by metis
  ultimately show ?thesis using p by (intro exI [of _ "zip_up (Node c l n r) path"]) simp
qed

text \<open>C1: Inserting a node, at any empty position of a red-black tree, by \<open>rb_link_node\<close> and
  \<open>rb_insert_color\<close> returns; the new store holds a red-black tree again, with the node between the
  elements before and after that position.\<close>

theorem rb_insert_correct:
  assumes "rep h (zip_up Leaf path)" and "rb_tree (zip_up Leaf path)"
    and "a \<notin> set (inorder (zip_up Leaf path))"
  shows "\<exists>h' t'. rb_insert_color a (rb_link_node a (map_option fst (link_of path)) (link_of path) h) = Some h'
     \<and> rep h' t' \<and> rb_tree t' \<and> inorder t' = before path @ a # after path"
  using assms by (rule rb_insert_whole)

text \<open>A tree of three nodes: a black root \<open>2\<close> with the red children \<open>1\<close> and \<open>3\<close>.\<close>

definition rb_example :: rheap where
  "rb_example = \<lparr>rb_parent = (\<lambda>a. if a = 2 then None else Some 2),
     rb_right = (\<lambda>a. if a = 2 then Some 3 else None), rb_left = (\<lambda>a. if a = 2 then Some 1 else None),
     rb_color = (\<lambda>a. if a = 2 then RB_BLACK else RB_RED), rb_node = Some 2\<rparr>"

definition rb_example_tree :: "addr rbt" where
  "rb_example_tree = Node RB_BLACK (Node RB_RED Leaf 1 Leaf) 2 (Node RB_RED Leaf 3 Leaf)"

lemma rb_example_rep: "rep rb_example rb_example_tree" "rb_tree rb_example_tree"
  "inorder rb_example_tree = [1, 2, 3]"
  by (simp_all add: rep_def zrep_def rb_example_def rb_example_tree_def rb_tree_def)

theorem rb_insert_correct_witness:
  "\<exists>h' t'. rb_insert_color 7 (rb_link_node 7 (Some 3) (Some (3, Left)) rb_example) = Some h'
     \<and> rep h' t' \<and> rb_tree t' \<and> inorder t' = [1, 2, 7, 3]"
proof -
  let ?path = "[(Left, RB_RED, 3, Leaf), (Right, RB_BLACK, 2, Node RB_RED Leaf 1 Leaf)]"
  have "zip_up Leaf ?path = rb_example_tree" by (simp add: rb_example_tree_def)
  then show ?thesis
    using rb_insert_correct [of rb_example ?path 7] rb_example_rep by (simp add: link_of_def)
qed

text \<open>C2: \<open>rb_erase\<close> of a node of a red-black tree returns; the new store holds a red-black tree with
  exactly this node taken out of the sequence.\<close>

theorem rb_erase_correct:
  assumes "rep h t" and "rb_tree t" and "inorder t = xs @ x # ys"
  shows "\<exists>h' t'. rb_erase x h = Some h' \<and> rep h' t' \<and> rb_tree t' \<and> inorder t' = xs @ ys"
  using assms by (rule rb_erase_whole)

theorem rb_erase_correct_witness:
  "\<exists>h' t'. rb_erase 2 rb_example = Some h' \<and> rep h' t' \<and> rb_tree t' \<and> inorder t' = [1, 3]"
  using rb_erase_correct [of rb_example rb_example_tree "[1]" 2 "[3]"] rb_example_rep by simp

text \<open>C20: \<open>rb_next\<close> and \<open>rb_prev\<close> of a node return its neighbours in the sequence, or null at the ends;
  \<open>rb_first\<close> and \<open>rb_last\<close> return the ends.\<close>

theorem rb_traversal_correct:
  assumes "rep h t" and "inorder t = xs @ x # ys"
  shows "rb_next x h = Some (head_opt ys) \<and> rb_prev x h = Some (last_opt xs)
     \<and> rb_first h = Some (Some (hd (xs @ [x]))) \<and> rb_last h = Some (Some (last (x # ys)))"
  using assms by (rule rb_traversal_whole)

theorem rb_traversal_correct_witness:
  "rb_next 2 rb_example = Some (Some 3) \<and> rb_prev 2 rb_example = Some (Some 1)
     \<and> rb_first rb_example = Some (Some 1) \<and> rb_last rb_example = Some (Some 3)"
  using rb_traversal_correct [of rb_example rb_example_tree "[1]" 2 "[3]"] rb_example_rep
  by (simp add: last_opt_def)

text \<open>\<open>rb_replace_node\<close> puts a new node exactly in the place of the victim and keeps the tree.\<close>

theorem rb_replace_node_correct:
  assumes "rep h t" and "rb_tree t" and "inorder t = xs @ x # ys" and "n \<notin> set (inorder t)"
  shows "\<exists>t'. rep (rb_replace_node x n h) t' \<and> rb_tree t' \<and> inorder t' = xs @ n # ys"
  using assms by (rule rb_replace_node_whole)

theorem rb_replace_node_correct_witness:
  "\<exists>t'. rep (rb_replace_node 2 9 rb_example) t' \<and> rb_tree t' \<and> inorder t' = [1, 9, 3]"
  using rb_replace_node_correct [of rb_example rb_example_tree "[1]" 2 "[3]" 9] rb_example_rep by simp

end
