(* ===== verification/Json_Text.thy ===== *)
theory Json_Text
  imports C_Prelude
begin

unbundle bit_operations_syntax

text \<open>
  The lexical part of \<open>src/src/util/json_parser.c\<close> for strings: \<open>__json_string_length\<close>,
  \<open>__parse_json_hex4\<close>, \<open>__parse_json_unicode\<close> and \<open>__parse_json_string\<close>.

  A cursor is the list of the bytes that are left; the text ends with NUL, which is what
  \<open>deref []\<close> gives. Reading on past the end is \<open>None\<close> for the one loop whose own tests do not
  stop it there (\<open>__parse_json_string\<close>, which relies on a preceding \<open>__json_string_length\<close>).
  The main results: a buffer of \<open>__json_string_length\<close> bytes and a terminator is enough for
  everything \<open>__parse_json_string\<close> writes, also when it fails half-way; escapes are turned into
  the UTF-8 encoding of their code point; and printing a string with escapes is undone by
  parsing it.
\<close>

section \<open>Operations\<close>

fun json_string_length_from :: "byte list \<Rightarrow> int \<Rightarrow> int" where
  "json_string_length_from [] len = - 2"
| "json_string_length_from (c # s) len =
     (if c = QUOTE then len
      else if c = BACKSLASH
      then (case s of
              [] \<Rightarrow> - 2
            | d # s' \<Rightarrow> if d = NUL then - 2 else json_string_length_from s' (len + 1))
      else if ord c < 0x20 then - 2
      else json_string_length_from s (len + 1))"

definition json_string_length :: "byte list \<Rightarrow> int" where
  "json_string_length cursor = json_string_length_from cursor 0"

definition hex_digit :: "byte \<Rightarrow> nat option" where
  "hex_digit c =
     (if 48 \<le> ord c \<and> ord c \<le> 57 then Some (ord c - 48)
      else if 65 \<le> ord c \<and> ord c \<le> 70 then Some (ord c - 65 + 10)
      else if 97 \<le> ord c \<and> ord c \<le> 102 then Some (ord c - 97 + 10)
      else None)"

text \<open>\<open>hex4_loop i cursor code\<close>: the loop of \<open>__parse_json_hex4\<close> with \<open>i\<close> digits to go.
  \<open>None\<close> is the return value \<open>-2\<close>.\<close>

fun hex4_loop :: "nat \<Rightarrow> byte list \<Rightarrow> 32 word \<Rightarrow> (byte list \<times> 32 word) option" where
  "hex4_loop 0 cursor code = Some (cursor, code)"
| "hex4_loop (Suc i) cursor code =
     (case hex_digit (deref cursor) of
        None \<Rightarrow> None
      | Some hex \<Rightarrow> hex4_loop i (tl cursor) (push_bit 4 code + of_nat hex))"

definition parse_json_hex4 :: "byte list \<Rightarrow> (byte list \<times> 32 word) option" where
  "parse_json_hex4 cursor = hex4_loop 4 cursor 0"

text \<open>The bytes stored for a code point: an assignment to \<open>char\<close> keeps the low eight bits.\<close>

definition store_byte :: "32 word \<Rightarrow> byte" where
  "store_byte w = chr (unat w mod 256)"

definition store_utf8 :: "32 word \<Rightarrow> byte list" where
  "store_utf8 code =
     (if code \<le> 0x7f then [store_byte code]
      else if code \<le> 0x7ff
      then [store_byte (0xc0 OR drop_bit 6 code), store_byte (0x80 OR (code AND 0x3f))]
      else if code \<le> 0xffff
      then [store_byte (0xe0 OR drop_bit 12 code), store_byte (0x80 OR (drop_bit 6 code AND 0x3f)),
            store_byte (0x80 OR (code AND 0x3f))]
      else [store_byte (0xf0 OR drop_bit 18 code), store_byte (0x80 OR (drop_bit 12 code AND 0x3f)),
            store_byte (0x80 OR (drop_bit 6 code AND 0x3f)), store_byte (0x80 OR (code AND 0x3f))])"

text \<open>\<open>None\<close> is the return value \<open>-2\<close>; otherwise the end and the bytes written.\<close>

definition parse_json_unicode :: "byte list \<Rightarrow> (byte list \<times> byte list) option" where
  "parse_json_unicode cursor =
     (case parse_json_hex4 cursor of
        None \<Rightarrow> None
      | Some (e, code) \<Rightarrow>
          if 0xdc00 \<le> code \<and> code \<le> 0xdfff then None
          else if 0xd800 \<le> code \<and> code \<le> 0xdbff
          then (if deref e \<noteq> BACKSLASH then None
                else if deref (tl e) \<noteq> CHR ''u'' then None
                else case parse_json_hex4 (tl (tl e)) of
                       None \<Rightarrow> None
                     | Some (e', nxt) \<Rightarrow>
                         if nxt < 0xdc00 \<or> nxt > 0xdfff then None
                         else Some (e', store_utf8 ((push_bit 10 (code AND 0x3ff) OR (nxt AND 0x3ff))
                                                     + 0x10000)))
          else Some (e, store_utf8 code))"

definition escape_char :: "byte \<Rightarrow> byte option" where
  "escape_char c =
     (if c = QUOTE then Some QUOTE
      else if c = BACKSLASH then Some BACKSLASH
      else if c = CHR ''/'' then Some (CHR ''/'')
      else if c = CHR ''b'' then Some (CHR 0x08)
      else if c = CHR ''f'' then Some (CHR 0x0C)
      else if c = CHR ''n'' then Some LF
      else if c = CHR ''r'' then Some CR
      else if c = CHR ''t'' then Some TAB
      else None)"

lemma hex4_loop_length: "hex4_loop i cursor code = Some (e, code') \<Longrightarrow> length e \<le> length cursor"
proof (induction i cursor code rule: hex4_loop.induct)
  case (2 i cursor code)
  then show ?case by (fastforce split: option.splits)
qed simp

lemma parse_json_unicode_length: "parse_json_unicode cursor = Some (e, u) \<Longrightarrow> length e \<le> length cursor"
  by (fastforce simp: parse_json_unicode_def parse_json_hex4_def dest: hex4_loop_length
      split: option.splits if_splits)

text \<open>
  \<open>__parse_json_string\<close>: the return value, the end, and the bytes written to \<open>str\<close> before the
  terminating NUL. \<open>None\<close>: the loop reads past the end of the text.
\<close>

function parse_json_string_from ::
  "byte list \<Rightarrow> byte list \<Rightarrow> (int \<times> byte list \<times> byte list) option" where
  "parse_json_string_from [] str = None"
| "parse_json_string_from (c # s) str =
     (if c = QUOTE then Some (0, s, str)
      else if c = BACKSLASH
      then (if deref s = CHR ''u''
            then (case parse_json_unicode (tl s) of
                    None \<Rightarrow> Some (- 2, s, str)
                  | Some (e, u) \<Rightarrow> parse_json_string_from e (str @ u))
            else case escape_char (deref s) of
                   Some b \<Rightarrow> parse_json_string_from (tl s) (str @ [b])
                 | None \<Rightarrow> Some (- 2, s, str))
      else parse_json_string_from s (str @ [c]))"
  by pat_completeness auto
termination
  by (relation "measure (\<lambda>(s, _). length s)") (auto dest!: parse_json_unicode_length)

definition parse_json_string :: "byte list \<Rightarrow> (int \<times> byte list \<times> byte list) option" where
  "parse_json_string cursor = parse_json_string_from cursor []"

section \<open>The buffer is long enough\<close>

lemma hex_digit_plain:
  "hex_digit c = Some d \<Longrightarrow> c \<noteq> QUOTE \<and> c \<noteq> BACKSLASH \<and> \<not> ord c < 0x20 \<and> c \<noteq> NUL"
  by (auto simp: hex_digit_def ord_def split: if_splits)

lemma hex4_loop_scan:
  "hex4_loop i s code = Some (e, code') \<Longrightarrow>
     json_string_length_from s len = json_string_length_from e (len + int i)"
proof (induction i s code arbitrary: len rule: hex4_loop.induct)
  case (2 i s code)
  then show ?case
    by (cases s) (auto simp: hex_digit_plain ac_simps split: option.splits dest: hex_digit_plain)
qed simp

lemma length_store_utf8: "length (store_utf8 code) \<le> 4"
  by (simp add: store_utf8_def)

lemma deref_nonempty: "deref s = c \<Longrightarrow> c \<noteq> NUL \<Longrightarrow> s = c # tl s"
  by (cases s) auto

lemma parse_json_unicode_scan:
  assumes "parse_json_unicode s = Some (e, u)"
  shows "\<exists>k. json_string_length_from s len = json_string_length_from e (len + int k) \<and> length u \<le> k"
proof -
  obtain e1 code where h: "parse_json_hex4 s = Some (e1, code)"
    using assms by (auto simp: parse_json_unicode_def split: option.splits)
  have s1: "json_string_length_from s len = json_string_length_from e1 (len + 4)"
    using hex4_loop_scan h unfolding parse_json_hex4_def by fastforce
  show ?thesis
  proof (cases "0xd800 \<le> code \<and> code \<le> 0xdbff")
    case False
    then have "e = e1" "u = store_utf8 code" using assms h by (auto simp: parse_json_unicode_def split: if_splits)
    then show ?thesis using s1 length_store_utf8 [of code] by (intro exI [of _ 4]) simp
  next
    case True
    then obtain nxt code' where e: "deref e1 = BACKSLASH" "deref (tl e1) = CHR ''u''"
      and h2: "parse_json_hex4 (tl (tl e1)) = Some (e, nxt)" and u: "u = store_utf8 code'"
      using assms h by (auto simp: parse_json_unicode_def split: if_splits option.splits)
    have e1: "e1 = BACKSLASH # CHR ''u'' # tl (tl e1)"
      using deref_nonempty [of e1] deref_nonempty [of "tl e1"] e by simp
    have "json_string_length_from e1 (len + 4) = json_string_length_from (tl (tl e1)) (len + 4 + 1)"
      by (subst e1) simp
    also have "\<dots> = json_string_length_from e (len + 4 + 1 + 4)"
      using hex4_loop_scan h2 unfolding parse_json_hex4_def by fastforce
    finally show ?thesis using s1 u length_store_utf8 [of code'] by (intro exI [of _ 9]) (simp add: ac_simps)
  qed
qed

lemma escape_char_NUL [simp]: "escape_char NUL = None"
  by (simp add: escape_char_def)

text \<open>The ways in which the scan goes on or succeeds.\<close>

lemma json_string_length_cases:
  assumes "json_string_length_from s len = n" "0 \<le> n"
  obtains s' where "s = QUOTE # s'" "n = len"
  | d s' where "s = BACKSLASH # d # s'" "d \<noteq> NUL" "json_string_length_from s' (len + 1) = n"
  | c s' where "s = c # s'" "c \<noteq> QUOTE" "c \<noteq> BACKSLASH" "\<not> ord c < 0x20"
      "json_string_length_from s' (len + 1) = n"
proof (cases s)
  case Nil
  then show ?thesis using assms by simp
next
  case (Cons c s1)
  consider "c = QUOTE" | "c \<noteq> QUOTE" "c = BACKSLASH" | "c \<noteq> QUOTE" "c \<noteq> BACKSLASH" by blast
  then show ?thesis
  proof cases
    case 1
    then show ?thesis using that(1) assms Cons by simp
  next
    case 2
    then have e: "(case s1 of [] \<Rightarrow> - 2 | d # s' \<Rightarrow> if d = NUL then - 2 else json_string_length_from s' (len + 1)) = n"
      using assms(1) Cons by simp
    then obtain d s' where "s1 = d # s'" "d \<noteq> NUL" using assms(2) by (cases s1) (auto split: if_splits)
    then show ?thesis using that(2) [of d s'] e Cons 2 by simp
  next
    case 3
    then have "\<not> ord c < 0x20" using assms Cons by (simp split: if_splits)
    then show ?thesis using that(3) [of c s1] 3 assms(1) Cons by simp
  qed
qed

lemma json_string_length_mono:
  "json_string_length_from s len = n \<Longrightarrow> 0 \<le> n \<Longrightarrow> len \<le> n"
proof (induction "length s" arbitrary: s len rule: less_induct)
  case less
  from less.prems show ?case
  proof (cases rule: json_string_length_cases)
    case (2 d s')
    then show ?thesis using less.hyps [of s' "len + 1"] less.prems by simp
  next
    case (3 c s')
    then show ?thesis using less.hyps [of s' "len + 1"] less.prems by simp
  qed simp
qed

lemma parse_json_string_fits:
  "json_string_length_from s len = n \<Longrightarrow> 0 \<le> n \<Longrightarrow>
     \<exists>ret e w. parse_json_string_from s str = Some (ret, e, str @ w) \<and> len + int (length w) \<le> n
       \<and> (ret = 0 \<or> ret = - 2)"
proof (induction "length s" arbitrary: s len str rule: less_induct)
  case less
  have le: "len \<le> n" using json_string_length_mono less.prems by blast
  have step: "\<exists>ret e w. parse_json_string_from s' (str @ u) = Some (ret, e, str @ w)
      \<and> len + int (length w) \<le> n \<and> (ret = 0 \<or> ret = - 2)"
    if a: "length s' < length s" "json_string_length_from s' len' = n" "len + int (length u) \<le> len'" for s' u len'
  proof -
    obtain ret e w where "parse_json_string_from s' (str @ u) = Some (ret, e, (str @ u) @ w)"
      "len' + int (length w) \<le> n" "ret = 0 \<or> ret = - 2"
      using less.hyps [of s' len' "str @ u"] a less.prems(2) by blast
    then show ?thesis using a(3) by (intro exI [of _ ret] exI [of _ e] exI [of _ "u @ w"]) simp
  qed
  from less.prems show ?case
  proof (cases rule: json_string_length_cases)
    case (1 s')
    then show ?thesis by simp
  next
    case (3 c s')
    then show ?thesis using step [of s' "len + 1" "[c]"] by simp
  next
    case (2 d s')
    show ?thesis
    proof (cases "d = CHR ''u''")
      case False
      then show ?thesis using 2 le step [of s' "len + 1" "[the (escape_char d)]"]
        by (cases "escape_char d") auto
    next
      case u: True
      show ?thesis
      proof (cases "parse_json_unicode s'")
        case None
        then show ?thesis using 2 u le by simp
      next
        case (Some p)
        obtain e b where p: "p = (e, b)" by (cases p)
        obtain k where k: "json_string_length_from s' (len + 1) = json_string_length_from e (len + 1 + int k)"
          "length b \<le> k" using parse_json_unicode_scan Some p by blast
        have "length e < length s" using parse_json_unicode_length [of s' e b] Some p 2 by simp
        then show ?thesis using 2 u k Some p step [of e "len + 1 + int k" b] by simp
      qed
    qed
  qed
qed



section \<open>Escapes become UTF-8\<close>

text \<open>The UTF-8 encoding of a code point (RFC 3629), by arithmetic.\<close>

definition utf8 :: "nat \<Rightarrow> nat list" where
  "utf8 n =
     (if n < 0x80 then [n]
      else if n < 0x800 then [192 + n div 64, 128 + n mod 64]
      else if n < 0x10000 then [224 + n div 4096, 128 + n div 64 mod 64, 128 + n mod 64]
      else [240 + n div 262144, 128 + n div 4096 mod 64, 128 + n div 64 mod 64, 128 + n mod 64])"

lemma unat_drop: "unat (drop_bit k (w :: 32 word)) = unat w div 2 ^ k"
  unfolding unat_drop_bit_eq by (rule drop_bit_eq_div)

lemma or_low_bits:
  fixes c x :: "32 word"
  assumes "unat x < 2 ^ k"
  shows "push_bit k c OR x = push_bit k c + x"
proof -
  have "unat (drop_bit k x) = 0" using assms by (simp add: unat_drop)
  then have "take_bit k x = x" by (simp add: take_bit_eq_self_iff_drop_bit_eq_0 unat_eq_zero)
  then have "\<not> bit x n" if "k \<le> n" for n using that by (metis bit_take_bit_iff not_less)
  then have "bit (push_bit k c AND x) n \<longleftrightarrow> bit (0 :: 32 word) n" for n
    by (cases "k \<le> n") (simp_all add: bit_and_iff bit_push_bit_iff)
  then have "push_bit k c AND x = 0" by (intro bit_eqI) simp
  then show ?thesis by (rule disjunctive_add_eq_or [symmetric])
qed

lemma unat_low6: "unat ((w :: 32 word) AND 0x3f) = unat w mod 64"
proof -
  have "w AND 0x3f = take_bit 6 w" by (simp add: take_bit_eq_mask mask_eq_exp_minus_1)
  then show ?thesis by (simp add: take_bit_eq_mod unat_mod)
qed

lemma unat_low10: "unat ((w :: 32 word) AND 0x3ff) = unat w mod 1024"
proof -
  have "w AND 0x3ff = take_bit 10 w" by (simp add: take_bit_eq_mask mask_eq_exp_minus_1)
  then show ?thesis by (simp add: take_bit_eq_mod unat_mod)
qed

lemma unat_or_lead:
  fixes x :: "32 word"
  shows "unat x < 64 \<Longrightarrow> unat (0x80 OR x) = 128 + unat x"
    "unat x < 32 \<Longrightarrow> unat (0xc0 OR x) = 192 + unat x"
    "unat x < 16 \<Longrightarrow> unat (0xe0 OR x) = 224 + unat x"
    "unat x < 8 \<Longrightarrow> unat (0xf0 OR x) = 240 + unat x"
proof -
  have lead: "unat (push_bit k c OR x) = unat (push_bit k c) + unat x"
    if "unat x < 2 ^ k" "unat (push_bit k c) + unat x < 2 ^ 32" for c :: "32 word" and k
    using that by (simp add: or_low_bits unat_add_lem [THEN iffD1])
  show "unat x < 64 \<Longrightarrow> unat (0x80 OR x) = 128 + unat x" using lead [of 6 2] by (simp add: push_bit_eq_mult)
  show "unat x < 32 \<Longrightarrow> unat (0xc0 OR x) = 192 + unat x" using lead [of 5 6] by (simp add: push_bit_eq_mult)
  show "unat x < 16 \<Longrightarrow> unat (0xe0 OR x) = 224 + unat x" using lead [of 4 14] by (simp add: push_bit_eq_mult)
  show "unat x < 8 \<Longrightarrow> unat (0xf0 OR x) = 240 + unat x" using lead [of 3 30] by (simp add: push_bit_eq_mult)
qed

lemma ord_store_byte [simp]: "unat w < 256 \<Longrightarrow> ord (store_byte w) = unat w"
  by (simp add: store_byte_def)

lemma store_utf8_correct:
  assumes "unat code < 0x110000"
  shows "map ord (store_utf8 code) = utf8 (unat code)"
proof -
  have le: "code \<le> 0x7f \<longleftrightarrow> unat code < 0x80" "code \<le> 0x7ff \<longleftrightarrow> unat code < 0x800"
    "code \<le> 0xffff \<longleftrightarrow> unat code < 0x10000" by (auto simp: word_le_nat_alt)
  have d: "unat code < 0x800 \<Longrightarrow> unat (drop_bit 6 code) < 32" "unat code < 0x10000 \<Longrightarrow> unat (drop_bit 12 code) < 16"
    "unat (drop_bit 18 code) < 8" using assms by (simp_all add: unat_drop)
  show ?thesis
    using assms d unfolding store_utf8_def utf8_def le
    by (simp add: unat_or_lead unat_low6 unat_drop)
qed
text \<open>The number written by a list of hexadecimal digits.\<close>

definition hex_digits :: "byte list \<Rightarrow> bool" where
  "hex_digits ds \<longleftrightarrow> (\<forall>c \<in> set ds. hex_digit c \<noteq> None)"

definition hex_value :: "nat \<Rightarrow> byte list \<Rightarrow> nat" where
  "hex_value n ds = foldl (\<lambda>n c. 16 * n + the (hex_digit c)) n ds"

lemma hex_value_simps [simp]: "hex_value n [] = n"
  "hex_value n (c # ds) = hex_value (16 * n + the (hex_digit c)) ds"
  by (simp_all add: hex_value_def)

lemma hex_digits_simps [simp]: "hex_digits []" "hex_digits (c # ds) \<longleftrightarrow> hex_digit c \<noteq> None \<and> hex_digits ds"
  by (simp_all add: hex_digits_def)

lemma hex_digit_less: "hex_digit c = Some d \<Longrightarrow> d < 16"
  by (auto simp: hex_digit_def split: if_splits)

lemma hex_digit_nonempty: "hex_digit (deref s) = Some d \<Longrightarrow> s = deref s # tl s"
  by (cases s) (auto simp: hex_digit_def ord_def split: if_splits)

lemma unat_hex_step:
  fixes code :: "32 word"
  assumes "16 * unat code + d < 2 ^ 32"
  shows "unat (push_bit 4 code + of_nat d) = 16 * unat code + d"
proof -
  have "push_bit 4 code + of_nat d = of_nat (16 * unat code + d)" by (simp add: push_bit_eq_mult)
  then show ?thesis using assms by (simp only: unat_of_nat) simp
qed

lemma hex_step_bound: "unat code * 16 ^ Suc i + 16 ^ Suc i \<le> 2 ^ 32 \<Longrightarrow> d < 16 \<Longrightarrow>
    16 * unat (code :: 32 word) + d < 2 ^ 32 \<and> (16 * unat code + d) * 16 ^ i + 16 ^ i \<le> 2 ^ 32"
proof -
  assume b: "unat code * 16 ^ Suc i + 16 ^ Suc i \<le> 2 ^ 32" and d: "d < 16"
  have "(16 * unat code + d) * 16 ^ i + 16 ^ i = (16 * unat code + d + 1) * 16 ^ i" by (simp add: algebra_simps)
  also have "\<dots> \<le> (16 * unat code + 16) * 16 ^ i" using d by (intro mult_right_mono) auto
  also have "\<dots> = unat code * 16 ^ Suc i + 16 ^ Suc i" by (simp add: algebra_simps)
  finally have le: "(16 * unat code + d) * 16 ^ i + 16 ^ i \<le> 2 ^ 32" using b by linarith
  have "16 * unat code + d \<le> (16 * unat code + d) * 16 ^ i" by simp
  moreover have "(1 :: nat) \<le> 16 ^ i" by simp
  ultimately show ?thesis using le by linarith
qed

lemma hex4_loop_value:
  "hex4_loop i s code = Some (e, code') \<Longrightarrow> unat code * 16 ^ i + 16 ^ i \<le> 2 ^ 32 \<Longrightarrow>
     \<exists>ds. s = ds @ e \<and> length ds = i \<and> hex_digits ds \<and> unat code' = hex_value (unat code) ds"
proof (induction i s code rule: hex4_loop.induct)
  case (2 i s code)
  obtain d where d: "hex_digit (deref s) = Some d" and l: "hex4_loop i (tl s) (push_bit 4 code + of_nat d) = Some (e, code')"
    using "2.prems"(1) by (auto split: option.splits)
  note b = hex_step_bound [OF "2.prems"(2) hex_digit_less [OF d]]
  obtain ds where ds: "tl s = ds @ e" "length ds = i" "hex_digits ds"
      "unat code' = hex_value (16 * unat code + d) ds"
    using "2.IH" [OF d l] b unat_hex_step by fastforce
  then show ?case using d hex_digit_nonempty [OF d] by (intro exI [of _ "deref s # ds"]) auto
qed simp

lemma hex4_loop_complete: "hex_digits ds \<Longrightarrow> \<exists>code'. hex4_loop (length ds) (ds @ e) code = Some (e, code')"
  by (induction ds arbitrary: code) auto

lemma hex_value_bound: "hex_digits ds \<Longrightarrow> hex_value n ds < (n + 1) * 16 ^ length ds"
proof (induction ds arbitrary: n)
  case (Cons c ds)
  then obtain d where d: "hex_digit c = Some d" "d < 16" using hex_digit_less by fastforce
  have "hex_value (16 * n + d) ds < (16 * n + d + 1) * 16 ^ length ds" using Cons by simp
  also have "\<dots> \<le> (16 * n + 16) * 16 ^ length ds" using d by (intro mult_right_mono) auto
  finally show ?case using d by (simp add: algebra_simps)
qed simp

lemma parse_json_hex4_iff:
  "parse_json_hex4 s = Some (e, code) \<longleftrightarrow>
     (\<exists>ds. s = ds @ e \<and> length ds = 4 \<and> hex_digits ds \<and> unat code = hex_value 0 ds)" (is "?l \<longleftrightarrow> ?r")
proof
  assume ?l
  then show ?r using hex4_loop_value [of 4 s 0 e code] by (simp add: parse_json_hex4_def)
next
  assume ?r
  then obtain ds where ds: "s = ds @ e" "length ds = 4" "hex_digits ds" "unat code = hex_value 0 ds" by blast
  then obtain code' where l: "hex4_loop 4 s 0 = Some (e, code')" using hex4_loop_complete by metis
  then obtain ds' where "s = ds' @ e" "unat code' = hex_value 0 ds'" using hex4_loop_value by fastforce
  then have "code' = code" using ds by (simp add: word_unat_eq_iff)
  then show ?l using l by (simp add: parse_json_hex4_def)
qed

text \<open>A text that starts with the digits of an escape for the code point \<open>cp\<close>: four hexadecimal
  digits outside the surrogate range, or a high and a low surrogate.\<close>

definition unicode_escape :: "byte list \<Rightarrow> byte list \<Rightarrow> nat \<Rightarrow> bool" where
  "unicode_escape s e cp \<longleftrightarrow>
     (\<exists>ds. s = ds @ e \<and> length ds = 4 \<and> hex_digits ds \<and> cp = hex_value 0 ds
        \<and> \<not> (0xd800 \<le> cp \<and> cp \<le> 0xdfff))
     \<or> (\<exists>hi lo. s = hi @ BACKSLASH # CHR ''u'' # lo @ e \<and> length hi = 4 \<and> length lo = 4
        \<and> hex_digits hi \<and> hex_digits lo \<and> 0xd800 \<le> hex_value 0 hi \<and> hex_value 0 hi \<le> 0xdbff
        \<and> 0xdc00 \<le> hex_value 0 lo \<and> hex_value 0 lo \<le> 0xdfff
        \<and> cp = 0x10000 + (hex_value 0 hi - 0xd800) * 0x400 + (hex_value 0 lo - 0xdc00))"

lemma mod_window: "q * 1024 \<le> n \<Longrightarrow> n < q * 1024 + 1024 \<Longrightarrow> n mod 1024 = n - q * 1024" for n :: nat
  by (auto simp: le_iff_add)

lemma unat_surrogates:
  fixes hi lo :: "32 word"
  assumes "0xd800 \<le> unat hi" "unat hi \<le> 0xdbff" "0xdc00 \<le> unat lo" "unat lo \<le> 0xdfff"
  shows "unat ((push_bit 10 (hi AND 0x3ff) OR (lo AND 0x3ff)) + 0x10000)
     = 0x10000 + (unat hi - 0xd800) * 0x400 + (unat lo - 0xdc00)"
proof -
  let ?h = "hi AND 0x3ff" and ?l = "lo AND 0x3ff"
  have h: "unat ?h = unat hi - 0xd800" and l: "unat ?l = unat lo - 0xdc00"
    using assms mod_window [of 54 "unat hi"] mod_window [of 55 "unat lo"] by (simp_all add: unat_low10)
  have "push_bit 10 ?h OR ?l = push_bit 10 ?h + ?l" using l assms by (intro or_low_bits) simp
  then have "(push_bit 10 ?h OR ?l) + 0x10000 = of_nat (unat ?h * 1024 + unat ?l + 0x10000)"
    by (simp add: push_bit_eq_mult)
  then show ?thesis using h l assms by (simp only: unat_of_nat) simp
qed

lemma word_ranges:
  fixes w :: "32 word"
  shows "0xdc00 \<le> w \<and> w \<le> 0xdfff \<longleftrightarrow> 0xdc00 \<le> unat w \<and> unat w \<le> 0xdfff"
    "0xd800 \<le> w \<and> w \<le> 0xdbff \<longleftrightarrow> 0xd800 \<le> unat w \<and> unat w \<le> 0xdbff"
    "w < 0xdc00 \<or> w > 0xdfff \<longleftrightarrow> \<not> (0xdc00 \<le> unat w \<and> unat w \<le> 0xdfff)"
  by (auto simp: word_le_nat_alt word_less_nat_alt)

lemma store_utf8_eq_iff: "unat code < 0x110000 \<Longrightarrow> map ord u = utf8 (unat code) \<longleftrightarrow> u = store_utf8 code"
  using store_utf8_correct [of code] inj_map_eq_map [of ord u "store_utf8 code"] by (auto simp: inj_on_def)

lemma parse_json_unicode_single:
  assumes "parse_json_hex4 s = Some (e, code)" "\<not> (0xd800 \<le> unat code \<and> unat code \<le> 0xdfff)"
  shows "parse_json_unicode s = Some (e, store_utf8 code)"
  using assms unfolding parse_json_unicode_def word_ranges by (auto simp: not_le)

lemma parse_json_unicode_pair:
  assumes "parse_json_hex4 s = Some (BACKSLASH # CHR ''u'' # s', hi)" "parse_json_hex4 s' = Some (e, lo)"
    and "0xd800 \<le> unat hi" "unat hi \<le> 0xdbff" "0xdc00 \<le> unat lo" "unat lo \<le> 0xdfff"
  shows "parse_json_unicode s = Some (e, store_utf8 ((push_bit 10 (hi AND 0x3ff) OR (lo AND 0x3ff)) + 0x10000))"
  using assms unfolding parse_json_unicode_def word_ranges by simp

lemma parse_json_unicode_inv:
  assumes "parse_json_unicode s = Some (e, u)"
  obtains code where "parse_json_hex4 s = Some (e, code)" "\<not> (0xd800 \<le> unat code \<and> unat code \<le> 0xdfff)"
    "u = store_utf8 code"
  | s' hi lo where "parse_json_hex4 s = Some (BACKSLASH # CHR ''u'' # s', hi)" "parse_json_hex4 s' = Some (e, lo)"
    "0xd800 \<le> unat hi" "unat hi \<le> 0xdbff" "0xdc00 \<le> unat lo" "unat lo \<le> 0xdfff"
    "u = store_utf8 ((push_bit 10 (hi AND 0x3ff) OR (lo AND 0x3ff)) + 0x10000)"
proof -
  obtain e1 code where h: "parse_json_hex4 s = Some (e1, code)"
    using assms by (auto simp: parse_json_unicode_def split: option.splits)
  show ?thesis
  proof (cases "0xd800 \<le> unat code \<and> unat code \<le> 0xdbff")
    case False
    then show ?thesis using that(1) assms h unfolding parse_json_unicode_def word_ranges
      by (auto split: if_splits)
  next
    case True
    then have c: "\<not> (0xdc00 \<le> unat code \<and> unat code \<le> 0xdfff)" by auto
    have b: "deref e1 = BACKSLASH" "deref (tl e1) = CHR ''u''"
      using assms h True c unfolding parse_json_unicode_def word_ranges by (auto split: if_splits)
    then have e1: "e1 = BACKSLASH # CHR ''u'' # tl (tl e1)"
      using deref_nonempty [of e1] deref_nonempty [of "tl e1"] by simp
    obtain lo where lo: "parse_json_hex4 (tl (tl e1)) = Some (e, lo)" "0xdc00 \<le> unat lo \<and> unat lo \<le> 0xdfff"
      "u = store_utf8 ((push_bit 10 (code AND 0x3ff) OR (lo AND 0x3ff)) + 0x10000)"
      using assms h True c b unfolding parse_json_unicode_def word_ranges by (auto split: if_splits option.splits)
    show ?thesis using that(2) [of "tl (tl e1)" code lo] h e1 lo True by simp
  qed
qed

lemma hex4_code: "hex_digits ds \<Longrightarrow> length ds = 4 \<Longrightarrow> parse_json_hex4 (ds @ e) = Some (e, of_nat (hex_value 0 ds))
    \<and> unat (of_nat (hex_value 0 ds) :: 32 word) = hex_value 0 ds"
proof -
  assume ds: "hex_digits ds" "length ds = 4"
  then have "hex_value 0 ds < 65536" using hex_value_bound [of ds 0] by simp
  then have u: "unat (of_nat (hex_value 0 ds) :: 32 word) = hex_value 0 ds" by (simp add: unat_of_nat)
  then show ?thesis using ds parse_json_hex4_iff by metis
qed

lemma parse_json_unicode_sound:
  assumes "parse_json_unicode s = Some (e, u)"
  shows "\<exists>cp. unicode_escape s e cp \<and> map ord u = utf8 cp"
  using assms
proof (cases rule: parse_json_unicode_inv)
  case (1 code)
  then obtain ds where ds: "s = ds @ e" "length ds = 4" "hex_digits ds" "unat code = hex_value 0 ds"
    using parse_json_hex4_iff by auto
  then have "unat code < 0x110000" using hex_value_bound [of ds 0] by simp
  then have "map ord u = utf8 (unat code)" using store_utf8_correct 1 by simp
  then show ?thesis using ds 1(2) by (auto simp: unicode_escape_def)
next
  case (2 s' hi lo)
  obtain ds where ds: "s = ds @ BACKSLASH # CHR ''u'' # s'" "length ds = 4" "hex_digits ds" "unat hi = hex_value 0 ds"
    using iffD1 [OF parse_json_hex4_iff 2(1)] by blast
  obtain ds' where ds': "s' = ds' @ e" "length ds' = 4" "hex_digits ds'" "unat lo = hex_value 0 ds'"
    using iffD1 [OF parse_json_hex4_iff 2(2)] by blast
  note v = unat_surrogates [OF 2(3-6)]
  have "map ord u = utf8 (0x10000 + (unat hi - 0xd800) * 0x400 + (unat lo - 0xdc00))"
    unfolding 2(7) v [symmetric] by (rule store_utf8_correct) (use v 2(3-6) in simp)
  moreover have "unicode_escape s e (0x10000 + (unat hi - 0xd800) * 0x400 + (unat lo - 0xdc00))"
    unfolding unicode_escape_def
    using ds ds' 2(3-6) by (intro disjI2 exI [of _ ds] exI [of _ ds']) simp
  ultimately show ?thesis by blast
qed

lemma parse_json_unicode_complete:
  assumes esc: "unicode_escape s e cp" and u: "map ord u = utf8 cp"
  shows "parse_json_unicode s = Some (e, u)"
  using esc unfolding unicode_escape_def
proof (elim disjE exE conjE)
  fix ds assume a: "s = ds @ e" "length ds = 4" "hex_digits ds" "cp = hex_value 0 ds" "\<not> (0xd800 \<le> cp \<and> cp \<le> 0xdfff)"
  have "cp < 0x110000" using hex_value_bound [of ds 0] a by simp
  then show ?thesis using parse_json_unicode_single [of s e "of_nat cp"] hex4_code [of ds e] a u
      store_utf8_eq_iff [of "of_nat cp" u] by simp
next
  fix hi lo assume a: "s = hi @ BACKSLASH # CHR ''u'' # lo @ e" "length hi = 4" "length lo = 4" "hex_digits hi" "hex_digits lo"
    "0xd800 \<le> hex_value 0 hi" "hex_value 0 hi \<le> 0xdbff" "0xdc00 \<le> hex_value 0 lo" "hex_value 0 lo \<le> 0xdfff"
    "cp = 0x10000 + (hex_value 0 hi - 0xd800) * 0x400 + (hex_value 0 lo - 0xdc00)"
  define H L :: "32 word" where "H = of_nat (hex_value 0 hi)" and "L = of_nat (hex_value 0 lo)"
  have H: "parse_json_hex4 s = Some (BACKSLASH # CHR ''u'' # lo @ e, H)" "unat H = hex_value 0 hi"
    and L: "parse_json_hex4 (lo @ e) = Some (e, L)" "unat L = hex_value 0 lo"
    using hex4_code a by (auto simp: H_def L_def)
  have v: "unat ((push_bit 10 (H AND 0x3ff) OR (L AND 0x3ff)) + 0x10000) = cp"
    using unat_surrogates [of H L] H L a by simp
  then have "u = store_utf8 ((push_bit 10 (H AND 0x3ff) OR (L AND 0x3ff)) + 0x10000)"
    using u a store_utf8_eq_iff [of "(push_bit 10 (H AND 0x3ff) OR (L AND 0x3ff)) + 0x10000" u] by simp
  then show ?thesis using parse_json_unicode_pair [OF H(1) L(1)] H L a by simp
qed

text \<open>\<open>__parse_json_unicode\<close> accepts exactly the escapes of a code point (four hexadecimal digits
  outside the surrogates, or a surrogate pair) and writes the UTF-8 encoding of that code point.\<close>

theorem parse_json_unicode_correct:
  "parse_json_unicode s = Some (e, u) \<longleftrightarrow> (\<exists>cp. unicode_escape s e cp \<and> map ord u = utf8 cp)"
  using parse_json_unicode_sound parse_json_unicode_complete by blast

section \<open>Printing and parsing strings\<close>

text \<open>A reference printer: quotes and backslashes are escaped, control characters become
  \<open>\u00xx\<close>, every other byte stands for itself.\<close>

definition hex_char :: "nat \<Rightarrow> byte" where
  "hex_char n = (if n < 10 then chr (48 + n) else chr (87 + n))"

definition escape_byte :: "byte \<Rightarrow> byte list" where
  "escape_byte c =
     (if c = QUOTE \<or> c = BACKSLASH then [BACKSLASH, c]
      else if ord c < 0x20
      then [BACKSLASH, CHR ''u'', CHR ''0'', CHR ''0'', hex_char (ord c div 16), hex_char (ord c mod 16)]
      else [c])"

definition json_escape :: "byte list \<Rightarrow> byte list" where
  "json_escape s = concat (map escape_byte s)"

lemma hex_digit_hex_char: "n < 16 \<Longrightarrow> hex_digit (hex_char n) = Some n"
  by (auto simp: hex_char_def hex_digit_def)

lemma hex_digit_0: "hex_digit (CHR ''0'') = Some 0"
  by (simp add: hex_digit_def ord_def)

lemma parse_json_unicode_control:
  assumes "ord c < 0x20"
  shows "parse_json_unicode (CHR ''0'' # CHR ''0'' # hex_char (ord c div 16) # hex_char (ord c mod 16) # e)
    = Some (e, [c])"
proof (rule parse_json_unicode_complete [of _ _ "ord c"])
  let ?ds = "[CHR ''0'', CHR ''0'', hex_char (ord c div 16), hex_char (ord c mod 16)]"
  have "hex_digits ?ds" "hex_value 0 ?ds = ord c"
    using assms by (simp_all add: hex_digit_hex_char hex_digit_0)
  then show "unicode_escape (CHR ''0'' # CHR ''0'' # hex_char (ord c div 16) # hex_char (ord c mod 16) # e) e (ord c)"
    unfolding unicode_escape_def using assms by (intro disjI1 exI [of _ ?ds]) simp
  show "map ord [c] = utf8 (ord c)" using assms by (simp add: utf8_def)
qed

lemma parse_escape_byte:
  "parse_json_string_from (escape_byte c @ s) str = parse_json_string_from s (str @ [c])"
proof -
  consider "c = QUOTE \<or> c = BACKSLASH" | "c \<noteq> QUOTE" "c \<noteq> BACKSLASH" "ord c < 0x20"
    | "c \<noteq> QUOTE" "c \<noteq> BACKSLASH" "\<not> ord c < 0x20" by blast
  then show ?thesis
  proof cases
    case 1
    then show ?thesis by (auto simp: escape_byte_def escape_char_def)
  next
    case 2
    then show ?thesis by (simp add: escape_byte_def parse_json_unicode_control)
  next
    case 3
    then show ?thesis by (simp add: escape_byte_def)
  qed
qed

lemma parse_json_escape:
  "parse_json_string_from (json_escape s @ QUOTE # rest) str = Some (0, rest, str @ s)"
proof (induction s arbitrary: str)
  case Nil
  then show ?case by (simp add: json_escape_def)
next
  case (Cons c s)
  have "json_escape (c # s) @ QUOTE # rest = escape_byte c @ (json_escape s @ QUOTE # rest)"
    by (simp add: json_escape_def)
  then show ?case using Cons parse_escape_byte by simp
qed

lemma scan_escape_byte:
  "\<exists>k \<ge> 0. json_string_length_from (escape_byte c @ s) len = json_string_length_from s (len + k)"
proof -
  consider "c = QUOTE \<or> c = BACKSLASH" | "c \<noteq> QUOTE" "c \<noteq> BACKSLASH" "ord c < 0x20"
    | "c \<noteq> QUOTE" "c \<noteq> BACKSLASH" "\<not> ord c < 0x20" by blast
  then show ?thesis
  proof cases
    case 1
    then show ?thesis by (intro exI [of _ 1]) (auto simp: escape_byte_def)
  next
    case 2
    obtain k where "json_string_length_from (CHR ''0'' # CHR ''0'' # hex_char (ord c div 16) # hex_char (ord c mod 16) # s) (len + 1)
      = json_string_length_from s (len + 1 + int k)"
      using parse_json_unicode_scan [OF parse_json_unicode_control [OF 2(3)]] by blast
    then show ?thesis using 2
      by (intro exI [of _ "1 + int k"]) (simp add: escape_byte_def ac_simps del: json_string_length_from.simps(2),
          subst json_string_length_from.simps(2), simp add: ac_simps del: json_string_length_from.simps(2))
  next
    case 3
    then show ?thesis by (intro exI [of _ 1]) (simp add: escape_byte_def)
  qed
qed

lemma scan_json_escape: "0 \<le> len \<Longrightarrow> 0 \<le> json_string_length_from (json_escape s @ QUOTE # rest) len"
proof (induction s arbitrary: len)
  case Nil
  then show ?case by (simp add: json_escape_def)
next
  case (Cons c s)
  have "json_escape (c # s) @ QUOTE # rest = escape_byte c @ (json_escape s @ QUOTE # rest)"
    by (simp add: json_escape_def)
  moreover obtain k where "0 \<le> k" "json_string_length_from (escape_byte c @ json_escape s @ QUOTE # rest) len
      = json_string_length_from (json_escape s @ QUOTE # rest) (len + k)"
    using scan_escape_byte by blast
  ultimately show ?case using Cons.IH [of "len + k"] Cons.prems by (simp only: add_nonneg_nonneg)
qed

text \<open>C23: Printing a string with escapes and parsing it again gives the same string, for every
  string of bytes; \<open>__json_string_length\<close> accepts the printed text.\<close>

theorem json_string_roundtrip:
  "0 \<le> json_string_length (json_escape s @ QUOTE # rest)
   \<and> parse_json_string (json_escape s @ QUOTE # rest) = Some (0, rest, s)"
  by (simp add: json_string_length_def parse_json_string_def scan_json_escape parse_json_escape)

end
