(* ===== verification/Blocks.thy ===== *)
theory Blocks
  imports C_Prelude "HOL-Library.Multiset"
begin

text \<open>
  Ownership of heap blocks. An operation is described by the blocks it allocates (\<open>grows\<close>) and
  releases (\<open>shrinks\<close>), a caller by the blocks it holds (\<open>holds\<close>); the lemmas compose these
  descriptions along a sequence of calls of \<open>malloc\<close> and \<open>free\<close>. They are shared by the JSON
  values, the HTTP parser and the URI parser, as are the strings that have a block of their own
  (\<open>strdup\<close>, \<open>realloc\<close>, \<open>free\<close> of a pointer that may be NULL).
\<close>

section \<open>Allocating and releasing\<close>

text \<open>\<open>grows h h' A\<close>: from \<open>h\<close> to \<open>h'\<close> the blocks \<open>A\<close> have been allocated and are still live; nothing
  else has changed, and nothing was freed twice.\<close>

definition grows :: "heap_st \<Rightarrow> heap_st \<Rightarrow> addr list \<Rightarrow> bool" where
  "grows h h' A \<longleftrightarrow> distinct A \<and> set A \<subseteq> {brk h..<brk h'} \<and> brk h \<le> brk h'
     \<and> live h' = live h \<union> set A \<and> bad_free h' = bad_free h"

lemma grows_refl [simp]: "grows h h []"
  by (simp add: grows_def)

lemma grows_trans: "grows h h1 A \<Longrightarrow> grows h1 h2 B \<Longrightarrow> grows h h2 (A @ B)"
  by (fastforce simp: grows_def)

lemma grows_perm: "grows h h' A \<Longrightarrow> mset A = mset B \<Longrightarrow> grows h h' B"
  unfolding grows_def by (metis mset_eq_imp_distinct_iff set_mset_mset)

lemma grows_malloc_Some: "malloc h = (Some a, h') \<Longrightarrow> grows h h' [a]"
  by (frule malloc_Some) (auto simp: grows_def)

lemma grows_malloc_None: "malloc h = (None, h') \<Longrightarrow> grows h h' []"
  by (frule malloc_None) (auto simp: grows_def)

lemma grows_heap_ok: "heap_ok h \<Longrightarrow> grows h h' A \<Longrightarrow> heap_ok h'"
  by (fastforce simp: heap_ok_def grows_def)

lemma heap_ok_disjoint: "heap_ok h \<Longrightarrow> grows h h' A \<Longrightarrow> set A \<inter> live h = {}"
  by (fastforce simp: heap_ok_def grows_def)

text \<open>Freeing blocks: \<open>shrinks h h' A\<close> is what the release of the blocks \<open>A\<close> does.\<close>

definition shrinks :: "heap_st \<Rightarrow> heap_st \<Rightarrow> addr list \<Rightarrow> bool" where
  "shrinks h h' A \<longleftrightarrow> brk h' = brk h \<and> live h' = live h - set A \<and> outcomes h' = outcomes h
     \<and> (distinct A \<and> set A \<subseteq> live h \<longrightarrow> bad_free h' = bad_free h)"

lemma shrinks_refl [simp]: "shrinks h h []"
  by (simp add: shrinks_def)

lemma shrinks_free [simp]: "shrinks h (free a h) [a]"
  by (auto simp: shrinks_def free_def)

lemma shrinks_trans: "shrinks h h1 A \<Longrightarrow> shrinks h1 h2 B \<Longrightarrow> shrinks h h2 (A @ B)"
  by (fastforce simp: shrinks_def)

lemma shrinks_swap: "shrinks h h1 (A @ [a]) \<Longrightarrow> shrinks h h1 (a # A)"
  by (auto simp: shrinks_def)

lemma shrinks_free_after: "shrinks h h1 A \<Longrightarrow> shrinks h (free a h1) (a # A)"
  using shrinks_swap shrinks_trans shrinks_free by blast

lemma grows_shrinks:
  assumes "heap_ok h" "grows h h1 (A @ B)" "shrinks h1 h2 B"
  shows "grows h h2 A"
proof -
  have "set (A @ B) \<inter> live h = {}" using heap_ok_disjoint [OF assms(1,2)] .
  then show ?thesis using assms(2,3) by (auto simp: grows_def shrinks_def)
qed

section \<open>Blocks held by a caller\<close>

text \<open>\<open>holds h R A\<close>: the live blocks of \<open>h\<close> are the list \<open>A\<close>, without duplicates, and the others \<open>R\<close>.\<close>

definition holds :: "heap_st \<Rightarrow> addr set \<Rightarrow> addr list \<Rightarrow> bool" where
  "holds h R A \<longleftrightarrow> heap_ok h \<and> distinct A \<and> R \<inter> set A = {} \<and> live h = R \<union> set A"

lemma holds_malloc: "holds h R A \<Longrightarrow> malloc h = (Some a, h') \<Longrightarrow> holds h' R (a # A)"
  by (frule malloc_Some) (auto simp: holds_def heap_ok_def less_Suc_eq)

lemma holds_malloc_None: "holds h R A \<Longrightarrow> malloc h = (None, h') \<Longrightarrow> holds h' R A"
  by (frule malloc_None) (auto simp: holds_def heap_ok_def)

lemma holds_free: "holds h R (a # A) \<Longrightarrow> holds (free a h) R A"
  by (auto simp: holds_def heap_ok_def)

lemma holds_perm: "holds h R A \<Longrightarrow> mset A = mset B \<Longrightarrow> holds h R B"
  unfolding holds_def by (metis mset_eq_imp_distinct_iff set_mset_mset)

lemma holds_grows: "holds h R A \<Longrightarrow> grows h h' B \<Longrightarrow> holds h' R (B @ A)"
  by (auto simp: holds_def grows_def heap_ok_def; force)

lemma holds_shrinks: "holds h R (B @ A) \<Longrightarrow> shrinks h h' B \<Longrightarrow> holds h' R A"
  by (auto simp: holds_def shrinks_def heap_ok_def)

section \<open>Strings in blocks\<close>

text \<open>A pointer to a string of its own block: the block and the bytes before the NUL, or NULL.\<close>

type_synonym c_string = "(addr \<times> byte list) option"

definition free_opt :: "addr option \<Rightarrow> heap_st \<Rightarrow> heap_st" where
  "free_opt p h = (case p of None \<Rightarrow> h | Some a \<Rightarrow> free a h)"

definition strdup :: "byte list \<Rightarrow> heap_st \<Rightarrow> c_string \<times> heap_st" where
  "strdup s h = (case malloc h of (None, h) \<Rightarrow> (None, h) | (Some a, h) \<Rightarrow> (Some (a, cstr s), h))"

definition free_string :: "c_string \<Rightarrow> heap_st \<Rightarrow> heap_st" where
  "free_string s h = free_opt (map_option fst s) h"

text \<open>\<open>realloc\<close>: the old block is released when there is a new one; the bytes move along.\<close>

definition realloc :: "addr option \<Rightarrow> heap_st \<Rightarrow> addr option \<times> heap_st" where
  "realloc p h = (case malloc h of (None, h) \<Rightarrow> (None, h) | (Some a, h) \<Rightarrow> (Some a, free_opt p h))"

definition opt_list :: "'a option \<Rightarrow> 'a list" where
  "opt_list p = (case p of None \<Rightarrow> [] | Some a \<Rightarrow> [a])"

definition str_owned :: "c_string \<Rightarrow> addr list" where
  "str_owned s = opt_list (map_option fst s)"

lemma holds_free_opt: "holds h R (opt_list p @ A) \<Longrightarrow> holds (free_opt p h) R A"
  by (cases p) (auto simp: opt_list_def free_opt_def intro: holds_free)

lemma holds_free_string: "holds h R (str_owned s @ A) \<Longrightarrow> holds (free_string s h) R A"
  by (simp add: str_owned_def free_string_def holds_free_opt)

lemma strdup_cases:
  obtains h' where "strdup s h = (None, h')" "malloc h = (None, h')"
  | a h' where "strdup s h = (Some (a, cstr s), h')" "malloc h = (Some a, h')"
  by (cases "malloc h"; cases "fst (malloc h)") (auto simp: strdup_def)

lemma holds_strdup: "holds h R A \<Longrightarrow> strdup s h = (p, h') \<Longrightarrow> holds h' R (str_owned p @ A)"
  by (cases rule: strdup_cases [of s h])
    (auto simp: str_owned_def opt_list_def intro: holds_malloc holds_malloc_None)

lemma outcomes_free [simp]: "outcomes (free a h) = outcomes h"
  by (simp add: free_def)

lemma outcomes_free_opt [simp]: "outcomes (free_opt p h) = outcomes h" "outcomes (free_string s h) = outcomes h"
  by (auto simp: free_string_def free_opt_def split: option.split)

section \<open>An empty heap\<close>

definition empty_heap :: "bool list \<Rightarrow> heap_st" where
  "empty_heap fails = \<lparr>outcomes = fails, brk = 0, live = {}, bad_free = False\<rparr>"

lemma empty_heap_ok [simp]: "heap_ok (empty_heap fails)"
  by (simp add: heap_ok_def empty_heap_def)

end
