(* ===== verification/Json_Value.thy ===== *)
theory Json_Value
  imports Json_Text Json_Number Rbt_Spec Blocks
begin

text \<open>
  The values of \<open>src/src/util/json_parser.c\<close>: the structures \<open>__json_value\<close>, \<open>__json_object\<close>,
  \<open>__json_array\<close>, \<open>__json_member\<close> and \<open>__json_element\<close>, the index of an object
  (\<open>__insert_json_member\<close>, \<open>json_object_find\<close>), and the release of a value
  (\<open>__destroy_json_value\<close>).

  A string buffer, a member and an element are blocks of the heap and carry their address. The
  doubly linked list of an object or an array is the list of its entries (the theory \<open>Clist\<close>
  proves this for the pointer code); the red-black tree that indexes the members holds the name
  and the address of each member (the theory \<open>Rbtree\<close> proves that the pointer code computes
  \<open>rbt_insert\<close> and \<open>rbt_erase\<close>). The invariant \<open>json_ok\<close> says that the tree of every object is a
  red-black tree, ordered by \<open>strcmp\<close>, with exactly the members of the list, and that the size
  fields are right; \<open>owned\<close> is the list of the blocks of a value.
\<close>

section \<open>Data\<close>

type_synonym json_index = "(byte list \<times> addr) rbt"

text \<open>\<open>JOther t\<close> is a value whose \<open>type\<close> field holds another number; \<open>json_value_create\<close> makes
  them.\<close>

datatype json_value =
    JString addr "byte list"
  | JNumber double
  | JObject "json_member list" json_index int
  | JArray "json_element list" int
  | JTrue
  | JFalse
  | JNull
  | JOther int
and json_member = Member addr "byte list" json_value
and json_element = Element addr json_value

fun member_addr :: "json_member \<Rightarrow> addr" where
  "member_addr (Member a name v) = a"

fun member_name :: "json_member \<Rightarrow> byte list" where
  "member_name (Member a name v) = name"

fun member_value :: "json_member \<Rightarrow> json_value" where
  "member_value (Member a name v) = v"

fun element_addr :: "json_element \<Rightarrow> addr" where
  "element_addr (Element a v) = a"

fun element_value :: "json_element \<Rightarrow> json_value" where
  "element_value (Element a v) = v"

text \<open>The list and the tree of an object, before its size is set.\<close>

type_synonym json_entries = "json_member list \<times> json_index"

section \<open>Lists of entries\<close>

text \<open>
  A position for \<open>list_add\<close>: \<open>&obj->head\<close>, \<open>obj->head.prev\<close>, an entry, or the predecessor of an
  entry. An entry that is not in the list is outside the contract of the callers.
\<close>

datatype list_pos = At_Head | At_Tail | After addr | Before addr

fun list_insert :: "('a \<Rightarrow> addr) \<Rightarrow> list_pos \<Rightarrow> 'a \<Rightarrow> 'a list \<Rightarrow> 'a list" where
  "list_insert key At_Head x xs = x # xs"
| "list_insert key At_Tail x xs = xs @ [x]"
| "list_insert key (After a) x xs =
     (case dropWhile (\<lambda>y. key y \<noteq> a) xs of
        [] \<Rightarrow> xs
      | y # ys \<Rightarrow> takeWhile (\<lambda>y. key y \<noteq> a) xs @ y # x # ys)"
| "list_insert key (Before a) x xs =
     (case dropWhile (\<lambda>y. key y \<noteq> a) xs of
        [] \<Rightarrow> xs
      | y # ys \<Rightarrow> takeWhile (\<lambda>y. key y \<noteq> a) xs @ x # y # ys)"

section \<open>The index of an object\<close>

text \<open>The descent of \<open>__insert_json_member\<close>: left when the new name is smaller, else right.\<close>

fun search_path :: "byte list \<Rightarrow> json_index \<Rightarrow> (byte list \<times> addr) frame list
    \<Rightarrow> (byte list \<times> addr) frame list" where
  "search_path name Leaf path = path"
| "search_path name (Node c l e r) path =
     (if strcmp name (fst e) < 0 then search_path name l ((Left, c, e, r) # path)
      else search_path name r ((Right, c, e, l) # path))"

definition insert_json_member :: "json_member \<Rightarrow> list_pos \<Rightarrow> json_entries \<Rightarrow> json_entries" where
  "insert_json_member memb pos obj =
     (list_insert member_addr pos memb (fst obj),
      rbt_insert (member_name memb, member_addr memb) (search_path (member_name memb) (snd obj) []))"

text \<open>\<open>json_object_find\<close>: the address of the member whose value is returned.\<close>

fun index_find :: "byte list \<Rightarrow> json_index \<Rightarrow> addr option" where
  "index_find name Leaf = None"
| "index_find name (Node c l e r) =
     (let n = strcmp name (fst e)
      in if n < 0 then index_find name l
         else if n > 0 then index_find name r
         else Some (snd e))"

section \<open>Release\<close>

primrec destroy_json_value :: "json_value \<Rightarrow> heap_st \<Rightarrow> heap_st"
  and destroy_json_members :: "json_member list \<Rightarrow> heap_st \<Rightarrow> heap_st"
  and destroy_json_elements :: "json_element list \<Rightarrow> heap_st \<Rightarrow> heap_st"
  and destroy_json_member :: "json_member \<Rightarrow> heap_st \<Rightarrow> heap_st"
  and destroy_json_element :: "json_element \<Rightarrow> heap_st \<Rightarrow> heap_st"
where
  "destroy_json_value (JString a s) h = free a h"
| "destroy_json_value (JNumber d) h = h"
| "destroy_json_value (JObject ms t n) h = destroy_json_members ms h"
| "destroy_json_value (JArray es n) h = destroy_json_elements es h"
| "destroy_json_value JTrue h = h"
| "destroy_json_value JFalse h = h"
| "destroy_json_value JNull h = h"
| "destroy_json_value (JOther t) h = h"
| "destroy_json_members [] h = h"
| "destroy_json_members (m # ms) h = destroy_json_members ms (destroy_json_member m h)"
| "destroy_json_elements [] h = h"
| "destroy_json_elements (e # es) h = destroy_json_elements es (destroy_json_element e h)"
| "destroy_json_member (Member a name v) h = free a (destroy_json_value v h)"
| "destroy_json_element (Element a v) h = free a (destroy_json_value v h)"

text \<open>The blocks of a value.\<close>

primrec owned :: "json_value \<Rightarrow> addr list"
  and owned_members :: "json_member list \<Rightarrow> addr list"
  and owned_elements :: "json_element list \<Rightarrow> addr list"
  and owned_member :: "json_member \<Rightarrow> addr list"
  and owned_element :: "json_element \<Rightarrow> addr list"
where
  "owned (JString a s) = [a]"
| "owned (JNumber d) = []"
| "owned (JObject ms t n) = owned_members ms"
| "owned (JArray es n) = owned_elements es"
| "owned JTrue = []"
| "owned JFalse = []"
| "owned JNull = []"
| "owned (JOther t) = []"
| "owned_members [] = []"
| "owned_members (m # ms) = owned_member m @ owned_members ms"
| "owned_elements [] = []"
| "owned_elements (e # es) = owned_element e @ owned_elements es"
| "owned_member (Member a name v) = a # owned v"
| "owned_element (Element a v) = a # owned v"

text \<open>The invariant of the index of an object.\<close>

definition index_ok :: "json_member list \<Rightarrow> json_index \<Rightarrow> bool" where
  "index_ok ms t \<longleftrightarrow> rb_tree t
     \<and> sorted_wrt (\<lambda>x y. strcmp (fst x) (fst y) \<le> 0) (inorder t)
     \<and> mset (inorder t) = mset (map (\<lambda>m. (member_name m, member_addr m)) ms)"

primrec json_ok :: "json_value \<Rightarrow> bool"
  and members_ok :: "json_member list \<Rightarrow> bool"
  and elements_ok :: "json_element list \<Rightarrow> bool"
  and member_ok :: "json_member \<Rightarrow> bool"
  and element_ok :: "json_element \<Rightarrow> bool"
where
  "json_ok (JString a s) \<longleftrightarrow> True"
| "json_ok (JNumber d) \<longleftrightarrow> True"
| "json_ok (JObject ms t n) \<longleftrightarrow> members_ok ms \<and> index_ok ms t \<and> n = int (length ms)"
| "json_ok (JArray es n) \<longleftrightarrow> elements_ok es \<and> n = int (length es)"
| "json_ok JTrue \<longleftrightarrow> True"
| "json_ok JFalse \<longleftrightarrow> True"
| "json_ok JNull \<longleftrightarrow> True"
| "json_ok (JOther t) \<longleftrightarrow> True"
| "members_ok [] \<longleftrightarrow> True"
| "members_ok (m # ms) \<longleftrightarrow> member_ok m \<and> members_ok ms"
| "elements_ok [] \<longleftrightarrow> True"
| "elements_ok (e # es) \<longleftrightarrow> element_ok e \<and> elements_ok es"
| "member_ok (Member a name v) \<longleftrightarrow> json_ok v"
| "element_ok (Element a v) \<longleftrightarrow> json_ok v"

section \<open>Inserting into the index\<close>

lemma search_path_zip: "zip_up Leaf (search_path name t path) = zip_up t path"
  by (induction name t path rule: search_path.induct) auto

lemma strcmp_le_trans: "strcmp s t \<le> 0 \<Longrightarrow> strcmp t u \<le> 0 \<Longrightarrow> strcmp s u \<le> 0"
proof -
  assume a: "strcmp s t \<le> 0" "strcmp t u \<le> 0"
  have *: "strcmp x y \<le> 0 \<longleftrightarrow> strcmp x y < 0 \<or> cstr x = cstr y" for x y using strcmp_eq_0 [of x y] by linarith
  show ?thesis using a strcmp_trans [of s t u] unfolding * by (auto simp: strcmp_def)
qed

lemma strcmp_lt_le: "\<not> strcmp s t < 0 \<longleftrightarrow> strcmp t s \<le> 0"
  using strcmp_antisym [of s t] by linarith

lemma strcmp_lt_le_trans: "strcmp s t < 0 \<Longrightarrow> strcmp t u \<le> 0 \<Longrightarrow> strcmp s u < 0"
  using strcmp_le_trans [of t u s] strcmp_lt_le [of s u] strcmp_lt_le [of s t] by blast

text \<open>Everything left of the position is not greater than the new name, everything right of it is
  greater.\<close>

lemma search_path_order:
  assumes "sorted_wrt (\<lambda>x y. strcmp (fst x) (fst y) \<le> 0) (inorder t)"
    and "\<forall>x \<in> set (before path). strcmp (fst x) name \<le> 0" "\<forall>x \<in> set (after path). strcmp name (fst x) < 0"
  shows "(\<forall>x \<in> set (before (search_path name t path)). strcmp (fst x) name \<le> 0)
     \<and> (\<forall>x \<in> set (after (search_path name t path)). strcmp name (fst x) < 0)"
  using assms
proof (induction name t path rule: search_path.induct)
  case (2 name c l e r path)
  have s: "sorted_wrt (\<lambda>x y. strcmp (fst x) (fst y) \<le> 0) (inorder l)"
    "sorted_wrt (\<lambda>x y. strcmp (fst x) (fst y) \<le> 0) (inorder r)"
    "\<forall>x \<in> set (inorder l). strcmp (fst x) (fst e) \<le> 0" "\<forall>x \<in> set (inorder r). strcmp (fst e) (fst x) \<le> 0"
    using "2.prems"(1) by (auto simp: sorted_wrt_append)
  show ?case
  proof (cases "strcmp name (fst e) < 0")
    case True
    have b: "\<forall>x \<in> set (before ((Left, c, e, r) # path)). strcmp (fst x) name \<le> 0" using "2.prems"(2) by simp
    have a: "\<forall>x \<in> set (after ((Left, c, e, r) # path)). strcmp name (fst x) < 0"
      using True s(4) "2.prems"(3) strcmp_lt_le_trans [OF True] by auto
    have eq: "search_path name (Node c l e r) path = search_path name l ((Left, c, e, r) # path)" using True by simp
    show ?thesis unfolding eq by (rule "2.IH"(1) [OF True s(1) b a])
  next
    case False
    then have "strcmp (fst e) name \<le> 0" by (simp add: strcmp_lt_le)
    then have b: "\<forall>x \<in> set (before ((Right, c, e, l) # path)). strcmp (fst x) name \<le> 0"
      using s(3) "2.prems"(2) strcmp_le_trans by auto
    have a: "\<forall>x \<in> set (after ((Right, c, e, l) # path)). strcmp name (fst x) < 0" using "2.prems"(3) by simp
    have eq: "search_path name (Node c l e r) path = search_path name r ((Right, c, e, l) # path)" using False by simp
    show ?thesis unfolding eq by (rule "2.IH"(2) [OF False s(2) b a])
  qed
qed simp

lemma rbt_insert_ordered:
  fixes name :: "byte list" and a :: addr
  assumes "rb_tree t" and s: "sorted_wrt (\<lambda>x y. strcmp (fst x) (fst y) \<le> 0) (inorder t)"
  defines "t' \<equiv> rbt_insert (name, a) (search_path name t [])"
  shows "rb_tree t'" "sorted_wrt (\<lambda>x y. strcmp (fst x) (fst y) \<le> 0) (inorder t')"
    "mset (inorder t') = add_mset (name, a) (mset (inorder t))"
proof -
  let ?p = "search_path name t []"
  have z: "zip_up Leaf ?p = t" using search_path_zip [of name t "[]"] by simp
  then have t: "inorder t = before ?p @ after ?p" using inorder_zip_up [of Leaf ?p] by simp
  have t': "inorder t' = before ?p @ (name, a) # after ?p" by (simp add: t'_def inorder_insert)
  show "rb_tree t'" unfolding t'_def by (rule rb_tree_insert) (use assms(1) z fits_zip in metis)
  show "mset (inorder t') = add_mset (name, a) (mset (inorder t))" by (simp add: t t')
  have "(\<forall>x \<in> set (before ?p). strcmp (fst x) name \<le> 0) \<and> (\<forall>x \<in> set (after ?p). strcmp name (fst x) < 0)"
    by (rule search_path_order [OF s]) simp_all
  then show "sorted_wrt (\<lambda>x y. strcmp (fst x) (fst y) \<le> 0) (inorder t')"
    using s unfolding t t' by (fastforce simp: sorted_wrt_append)
qed

text \<open>A position of a list.\<close>

fun pos_ok :: "('a \<Rightarrow> addr) \<Rightarrow> list_pos \<Rightarrow> 'a list \<Rightarrow> bool" where
  "pos_ok key (After a) xs \<longleftrightarrow> a \<in> key ` set xs"
| "pos_ok key (Before a) xs \<longleftrightarrow> a \<in> key ` set xs"
| "pos_ok key _ xs \<longleftrightarrow> True"

lemma dropWhile_found:
  assumes "a \<in> key ` set xs"
  obtains ys y zs where "xs = ys @ y # zs" "key y = a" "a \<notin> key ` set ys"
    "dropWhile (\<lambda>y. key y \<noteq> a) xs = y # zs" "takeWhile (\<lambda>y. key y \<noteq> a) xs = ys"
proof -
  let ?P = "\<lambda>y. key y \<noteq> a"
  obtain y zs where d: "dropWhile ?P xs = y # zs"
    using assms by (cases "dropWhile ?P xs") (auto simp: dropWhile_eq_Nil_conv)
  have "key y = a" using hd_dropWhile [of ?P xs] d by auto
  moreover have "xs = takeWhile ?P xs @ y # zs" using d takeWhile_dropWhile_id [of ?P xs] by simp
  moreover have "a \<notin> key ` set (takeWhile ?P xs)" by (auto dest: set_takeWhileD)
  ultimately show ?thesis using that d by blast
qed

lemma mset_list_insert: "pos_ok key pos xs \<Longrightarrow> mset (list_insert key pos x xs) = add_mset x (mset xs)"
proof -
  have "mset (list_insert key (After a) x xs) = add_mset x (mset xs)"
    "mset (list_insert key (Before a) x xs) = add_mset x (mset xs)" if a: "a \<in> key ` set xs" for a
    using a by (rule dropWhile_found; simp)+
  then show "pos_ok key pos xs \<Longrightarrow> ?thesis" by (cases pos) auto
qed

lemma insert_json_member_ok:
  assumes "index_ok ms t" and "pos_ok member_addr pos ms"
    and "insert_json_member m pos (ms, t) = (ms', t')"
  shows "index_ok ms' t' \<and> mset ms' = add_mset m (mset ms)"
  using assms rbt_insert_ordered [of t "member_name m" "member_addr m"] mset_list_insert [OF assms(2), of m]
  by (auto simp: index_ok_def insert_json_member_def)

section \<open>Lookup\<close>

lemma index_find_Some:
  "index_find name t = Some a \<Longrightarrow> \<exists>n. (n, a) \<in> set (inorder t) \<and> cstr n = cstr name"
proof (induction t)
  case (Node c l e r)
  then show ?case using strcmp_eq_0 [of name "fst e"]
    by (cases e) (auto simp: Let_def split: if_splits)
qed simp

lemma index_find_None:
  "sorted_wrt (\<lambda>x y. strcmp (fst x) (fst y) \<le> 0) (inorder t) \<Longrightarrow> index_find name t = None \<Longrightarrow>
     x \<in> set (inorder t) \<Longrightarrow> cstr (fst x) \<noteq> cstr name"
proof (induction t)
  case (Node c l e r)
  have s: "sorted_wrt (\<lambda>x y. strcmp (fst x) (fst y) \<le> 0) (inorder l)"
    "sorted_wrt (\<lambda>x y. strcmp (fst x) (fst y) \<le> 0) (inorder r)"
    "\<forall>x \<in> set (inorder l). strcmp (fst x) (fst e) \<le> 0" "\<forall>x \<in> set (inorder r). strcmp (fst e) (fst x) \<le> 0"
    using Node.prems(1) by (auto simp: sorted_wrt_append)
  have ne: "strcmp name z < 0 \<or> \<not> strcmp name z \<le> 0 \<Longrightarrow> cstr z \<noteq> cstr name" for z
    by (auto simp: strcmp_def)
  consider "strcmp name (fst e) < 0" | "strcmp name (fst e) > 0"
    using Node.prems(2) by (cases "strcmp name (fst e) < 0"; cases "strcmp name (fst e) > 0") (auto simp: Let_def)
  then show ?case
  proof cases
    case 1
    then have "\<forall>x \<in> insert e (set (inorder r)). strcmp name (fst x) < 0" using s(4) strcmp_lt_le_trans by auto
    then have "\<forall>x \<in> insert e (set (inorder r)). cstr (fst x) \<noteq> cstr name" using ne by blast
    moreover have "index_find name l = None" using Node.prems(2) 1 by (simp add: Let_def)
    ultimately show ?thesis using Node.IH(1) [OF s(1)] Node.prems(3) by auto
  next
    case 2
    then have "strcmp (fst e) name < 0" using strcmp_antisym by blast
    then have "\<forall>x \<in> insert e (set (inorder l)). \<not> strcmp name (fst x) \<le> 0"
      using s(3) strcmp_le_trans [of name] strcmp_lt_le by (metis insert_iff 2 not_less)
    then have "\<forall>x \<in> insert e (set (inorder l)). cstr (fst x) \<noteq> cstr name" using ne by blast
    moreover have "index_find name r = None" using Node.prems(2) 2 by (simp add: Let_def)
    ultimately show ?thesis using Node.IH(2) [OF s(2)] Node.prems(3) by auto
  qed
qed simp

section \<open>What a release frees\<close>

lemma destroy_shrinks:
  "shrinks h (destroy_json_value v h) (owned v)"
  "shrinks h (destroy_json_members ms h) (owned_members ms)"
  "shrinks h (destroy_json_elements es h) (owned_elements es)"
  "shrinks h (destroy_json_member m h) (owned_member m)"
  "shrinks h (destroy_json_element e h) (owned_element e)"
proof (induction v and ms and es and m and e arbitrary: h and h and h and h and h
    rule: destroy_json_value.induct destroy_json_members.induct destroy_json_elements.induct
      destroy_json_member.induct destroy_json_element.induct)
qed (auto intro: shrinks_trans shrinks_free_after)

end
