(* ===== verification/Json_Parse.thy ===== *)
theory Json_Parse
  imports Json_Value
begin

text \<open>
  The recursive parser of \<open>src/src/util/json_parser.c\<close>: \<open>__parse_json_value\<close> with its objects
  and arrays, and \<open>json_value_parse\<close>. The heap is threaded through every call, so that each
  \<open>malloc\<close> may fail and each error path frees what it has allocated.

  The recursion of the C code is bounded by the text; here it is bounded by a fuel argument, and
  \<open>None\<close> stands for running out of fuel, for reading past the end of the text and for reading
  outside the table of powers of ten. \<open>parse_json_value_total\<close> shows that twice the length of the
  text plus one is always enough fuel, so \<open>json_value_parse\<close>, which uses that much, is total.

  The results: a parse that fails leaves the heap as it was and a parse that succeeds has
  allocated exactly the blocks of its result, for every pattern of allocation failures; its
  result satisfies \<open>json_ok\<close> and is at most 1024 levels deep.
\<close>

section \<open>Operations\<close>

definition JSON_DEPTH_LIMIT :: nat where
  "JSON_DEPTH_LIMIT = 1024"

text \<open>The result of a parser: a negative return value, or a result and the end of the text read.\<close>

type_synonym 'a parsed = "((int + 'a \<times> byte list) \<times> heap_st) option"

text \<open>The case of a string in \<open>__parse_json_value\<close>.\<close>

definition parse_json_string_value :: "byte list \<Rightarrow> heap_st \<Rightarrow> json_value parsed" where
  "parse_json_string_value cursor h =
     (let ret = json_string_length cursor
      in if ret < 0 then Some (Inl ret, h)
         else case malloc h of
                (None, h) \<Rightarrow> Some (Inl (- 1), h)
              | (Some a, h) \<Rightarrow>
                  (case parse_json_string cursor of
                     None \<Rightarrow> None
                   | Some (ret, e, str) \<Rightarrow>
                       if ret < 0 then Some (Inl ret, free a h)
                       else Some (Inr (JString a str, e), h)))"

text \<open>\<open>__parse_json_member\<close>; \<open>value_at\<close> is \<open>__parse_json_value\<close> at the depth of the members.\<close>

definition parse_json_member ::
  "(byte list \<Rightarrow> heap_st \<Rightarrow> json_value parsed) \<Rightarrow> byte list \<Rightarrow> addr \<Rightarrow> heap_st \<Rightarrow> json_member parsed" where
  "parse_json_member value_at cursor a h =
     (case parse_json_string cursor of
        None \<Rightarrow> None
      | Some (ret, cursor, name) \<Rightarrow>
          if ret < 0 then Some (Inl ret, h)
          else let cursor = skip_space cursor
               in if deref cursor \<noteq> CHR '':'' then Some (Inl (- 2), h)
                  else case value_at (skip_space (tl cursor)) h of
                         None \<Rightarrow> None
                       | Some (Inl ret, h) \<Rightarrow> Some (Inl ret, h)
                       | Some (Inr (v, cursor), h) \<Rightarrow> Some (Inr (Member a name v, cursor), h))"

text \<open>What \<open>__parse_json_members\<close> and \<open>__parse_json_elements\<close> return: the return value (the number
  of entries, or negative), the end, and the entries read so far.\<close>

type_synonym 'a entries_parsed = "(int \<times> byte list \<times> 'a \<times> heap_st) option"

text \<open>\<open>__parse_json_members\<close> up to its loop, and \<open>__parse_json_object\<close>; \<open>loop\<close> is the loop at the
  depth of the members.\<close>

definition parse_json_members ::
  "(byte list \<Rightarrow> json_entries \<Rightarrow> heap_st \<Rightarrow> json_entries entries_parsed)
     \<Rightarrow> byte list \<Rightarrow> json_entries \<Rightarrow> heap_st \<Rightarrow> json_entries entries_parsed" where
  "parse_json_members loop cursor obj h =
     (let cursor = skip_space cursor
      in if deref cursor = CHR ''}'' then Some (0, tl cursor, obj, h) else loop cursor obj h)"

definition parse_json_object ::
  "(byte list \<Rightarrow> json_entries \<Rightarrow> heap_st \<Rightarrow> json_entries entries_parsed)
     \<Rightarrow> byte list \<Rightarrow> nat \<Rightarrow> heap_st \<Rightarrow> json_value parsed" where
  "parse_json_object loop cursor depth h =
     (if depth = JSON_DEPTH_LIMIT then Some (Inl (- 3), h)
      else case parse_json_members loop cursor ([], Leaf) h of
             None \<Rightarrow> None
           | Some (ret, e, (ms, t), h) \<Rightarrow>
               if ret < 0 then Some (Inl ret, destroy_json_members ms h)
               else Some (Inr (JObject ms t ret, e), h))"

definition parse_json_elements ::
  "(byte list \<Rightarrow> json_element list \<Rightarrow> heap_st \<Rightarrow> json_element list entries_parsed)
     \<Rightarrow> byte list \<Rightarrow> json_element list \<Rightarrow> heap_st \<Rightarrow> json_element list entries_parsed" where
  "parse_json_elements loop cursor arr h =
     (let cursor = skip_space cursor
      in if deref cursor = CHR '']'' then Some (0, tl cursor, arr, h) else loop cursor arr h)"

definition parse_json_array ::
  "(byte list \<Rightarrow> json_element list \<Rightarrow> heap_st \<Rightarrow> json_element list entries_parsed)
     \<Rightarrow> byte list \<Rightarrow> nat \<Rightarrow> heap_st \<Rightarrow> json_value parsed" where
  "parse_json_array loop cursor depth h =
     (if depth = JSON_DEPTH_LIMIT then Some (Inl (- 3), h)
      else case parse_json_elements loop cursor [] h of
             None \<Rightarrow> None
           | Some (ret, e, es, h) \<Rightarrow>
               if ret < 0 then Some (Inl ret, destroy_json_elements es h)
               else Some (Inr (JArray es ret, e), h))"

definition parse_json_literal :: "string \<Rightarrow> json_value \<Rightarrow> byte list \<Rightarrow> heap_st \<Rightarrow> json_value parsed" where
  "parse_json_literal word v cursor h =
     (if \<not> strncmp_eq cursor word (length word) then Some (Inl (- 2), h)
      else Some (Inr (v, drop (length word) cursor), h))"

fun parse_json_value :: "nat \<Rightarrow> byte list \<Rightarrow> nat \<Rightarrow> heap_st \<Rightarrow> json_value parsed"
  and members_loop :: "nat \<Rightarrow> nat \<Rightarrow> int \<Rightarrow> byte list \<Rightarrow> json_entries \<Rightarrow> heap_st \<Rightarrow> json_entries entries_parsed"
  and elements_loop :: "nat \<Rightarrow> nat \<Rightarrow> int \<Rightarrow> byte list \<Rightarrow> json_element list \<Rightarrow> heap_st
    \<Rightarrow> json_element list entries_parsed"
where
  "parse_json_value 0 cursor depth h = None"
| "parse_json_value (Suc fuel) cursor depth h =
     (let c = deref cursor
      in if c = QUOTE then parse_json_string_value (tl cursor) h
         else if c = CHR ''-'' \<or> isdigit c
         then (case parse_json_number cursor of
                 None \<Rightarrow> None
               | Some (Inl ret) \<Rightarrow> Some (Inl ret, h)
               | Some (Inr (e, num)) \<Rightarrow> Some (Inr (JNumber num, e), h))
         else if c = CHR ''{'' then parse_json_object (members_loop fuel (depth + 1) 0) (tl cursor) depth h
         else if c = CHR ''['' then parse_json_array (elements_loop fuel (depth + 1) 0) (tl cursor) depth h
         else if c = CHR ''t'' then parse_json_literal ''true'' JTrue cursor h
         else if c = CHR ''f'' then parse_json_literal ''false'' JFalse cursor h
         else if c = CHR ''n'' then parse_json_literal ''null'' JNull cursor h
         else Some (Inl (- 2), h))"
| "members_loop 0 depth cnt cursor obj h = None"
| "members_loop (Suc fuel) depth cnt cursor obj h =
     (if deref cursor \<noteq> QUOTE then Some (- 2, cursor, obj, h)
      else let ret = json_string_length (tl cursor)
           in if ret < 0 then Some (ret, cursor, obj, h)
              else case malloc h of
                     (None, h) \<Rightarrow> Some (- 1, cursor, obj, h)
                   | (Some a, h) \<Rightarrow>
                       (case parse_json_member (\<lambda>cursor h. parse_json_value fuel cursor depth h) (tl cursor) a h of
                          None \<Rightarrow> None
                        | Some (Inl ret, h) \<Rightarrow> Some (ret, cursor, obj, free a h)
                        | Some (Inr (memb, cursor), h) \<Rightarrow>
                            let obj = insert_json_member memb At_Tail obj;
                                cursor = skip_space cursor
                            in if deref cursor = CHR '',''
                               then members_loop fuel depth (cnt + 1) (skip_space (tl cursor)) obj h
                               else if deref cursor = CHR ''}'' then Some (cnt + 1, tl cursor, obj, h)
                               else Some (- 2, cursor, obj, h)))"
| "elements_loop 0 depth cnt cursor arr h = None"
| "elements_loop (Suc fuel) depth cnt cursor arr h =
     (case malloc h of
        (None, h) \<Rightarrow> Some (- 1, cursor, arr, h)
      | (Some a, h) \<Rightarrow>
          (case parse_json_value fuel cursor depth h of
             None \<Rightarrow> None
           | Some (Inl ret, h) \<Rightarrow> Some (ret, cursor, arr, free a h)
           | Some (Inr (v, cursor), h) \<Rightarrow>
               let arr = arr @ [Element a v];
                   cursor = skip_space cursor
               in if deref cursor = CHR '',''
                  then elements_loop fuel depth (cnt + 1) (skip_space (tl cursor)) arr h
                  else if deref cursor = CHR '']'' then Some (cnt + 1, tl cursor, arr, h)
                  else Some (- 2, cursor, arr, h)))"

text \<open>\<open>json_value_parse\<close>: the address of the value and the value, or \<open>NULL\<close>.\<close>

definition json_value_parse :: "byte list \<Rightarrow> heap_st \<Rightarrow> ((addr \<times> json_value) option \<times> heap_st) option" where
  "json_value_parse cursor h =
     (case malloc h of
        (None, h) \<Rightarrow> Some (None, h)
      | (Some val, h) \<Rightarrow>
          let cursor = skip_space cursor
          in case parse_json_value (2 * length cursor + 1) cursor 0 h of
               None \<Rightarrow> None
             | Some (Inl ret, h) \<Rightarrow> Some (None, free val h)
             | Some (Inr (v, cursor), h) \<Rightarrow>
                 if deref (skip_space cursor) = NUL then Some (Some (val, v), h)
                 else Some (None, free val (destroy_json_value v h)))"

section \<open>Depth\<close>

primrec json_depth :: "json_value \<Rightarrow> nat"
  and members_depth :: "json_member list \<Rightarrow> nat"
  and elements_depth :: "json_element list \<Rightarrow> nat"
  and member_depth :: "json_member \<Rightarrow> nat"
  and element_depth :: "json_element \<Rightarrow> nat"
where
  "json_depth (JString a s) = 0"
| "json_depth (JNumber d) = 0"
| "json_depth (JObject ms t n) = Suc (members_depth ms)"
| "json_depth (JArray es n) = Suc (elements_depth es)"
| "json_depth JTrue = 0"
| "json_depth JFalse = 0"
| "json_depth JNull = 0"
| "json_depth (JOther t) = 0"
| "members_depth [] = 0"
| "members_depth (m # ms) = max (member_depth m) (members_depth ms)"
| "elements_depth [] = 0"
| "elements_depth (e # es) = max (element_depth e) (elements_depth es)"
| "member_depth (Member a name v) = json_depth v"
| "element_depth (Element a v) = json_depth v"

section \<open>The parser is total, safe and correct\<close>

text \<open>The contract of \<open>__parse_json_value\<close>.\<close>

definition value_result :: "byte list \<Rightarrow> nat \<Rightarrow> heap_st \<Rightarrow> json_value parsed \<Rightarrow> bool" where
  "value_result cursor depth h r \<longleftrightarrow>
     (case r of
        None \<Rightarrow> False
      | Some (Inl ret, h') \<Rightarrow> ret < 0 \<and> grows h h' []
      | Some (Inr (v, e), h') \<Rightarrow>
          grows h h' (owned v) \<and> json_ok v \<and> json_depth v + depth \<le> JSON_DEPTH_LIMIT
          \<and> length e < length cursor)"

text \<open>The contracts of the two loops; \<open>h0\<close> is the heap at the start of the object or array.\<close>

definition members_result :: "byte list \<Rightarrow> nat \<Rightarrow> heap_st \<Rightarrow> json_entries entries_parsed \<Rightarrow> bool" where
  "members_result cursor depth h0 r \<longleftrightarrow>
     (case r of
        None \<Rightarrow> False
      | Some (ret, e, (ms, t), h') \<Rightarrow>
          grows h0 h' (owned_members ms)
          \<and> (0 \<le> ret \<longrightarrow> ret = int (length ms) \<and> members_ok ms \<and> index_ok ms t
               \<and> members_depth ms + depth \<le> JSON_DEPTH_LIMIT \<and> length e < length cursor))"

definition elements_result :: "byte list \<Rightarrow> nat \<Rightarrow> heap_st \<Rightarrow> json_element list entries_parsed \<Rightarrow> bool" where
  "elements_result cursor depth h0 r \<longleftrightarrow>
     (case r of
        None \<Rightarrow> False
      | Some (ret, e, es, h') \<Rightarrow>
          grows h0 h' (owned_elements es)
          \<and> (0 \<le> ret \<longrightarrow> ret = int (length es) \<and> elements_ok es
               \<and> elements_depth es + depth \<le> JSON_DEPTH_LIMIT \<and> length e < length cursor))"

lemma value_result_Inl: "value_result cursor depth h (Some (Inl ret, h')) \<longleftrightarrow> ret < 0 \<and> grows h h' []"
  by (simp add: value_result_def)

lemma value_result_Inr:
  "value_result cursor depth h (Some (Inr (v, e), h')) \<longleftrightarrow> grows h h' (owned v) \<and> json_ok v
     \<and> json_depth v + depth \<le> JSON_DEPTH_LIMIT \<and> length e < length cursor"
  by (simp add: value_result_def)

lemma value_resultE:
  assumes "value_result cursor depth h r"
  obtains ret h' where "r = Some (Inl ret, h')" "ret < 0" "grows h h' []"
  | v e h' where "r = Some (Inr (v, e), h')" "grows h h' (owned v)" "json_ok v"
      "json_depth v + depth \<le> JSON_DEPTH_LIMIT" "length e < length cursor"
  using assms by (cases r; cases "fst (the r)") (auto simp: value_result_def)

lemma parse_json_string_shorter:
  "parse_json_string_from s str = Some (ret, e, w) \<Longrightarrow> ret = 0 \<Longrightarrow> length e < length s"
proof (induction s str rule: parse_json_string_from.induct)
  case (2 c s str)
  then show ?case
    by (fastforce split: if_splits option.splits dest!: parse_json_unicode_length)
qed simp

lemma parse_json_string_cases:
  assumes "0 \<le> json_string_length s"
  obtains e str where "parse_json_string s = Some (0, e, str)" "length e < length s"
  | e str where "parse_json_string s = Some (- 2, e, str)"
proof -
  obtain ret e w where p: "parse_json_string s = Some (ret, e, w)" "ret = 0 \<or> ret = - 2"
    using parse_json_string_fits [of s 0 "json_string_length s" "[]"] assms
    by (auto simp: json_string_length_def parse_json_string_def)
  then show ?thesis using that parse_json_string_shorter [of s "[]" ret e w]
    by (auto simp: parse_json_string_def)
qed

lemma string_value_result: 
  assumes "heap_ok h" "depth \<le> JSON_DEPTH_LIMIT"
  shows "value_result (c # s) depth h (parse_json_string_value s h)"
proof -
  consider "json_string_length s < 0" | h1 where "0 \<le> json_string_length s" "malloc h = (None, h1)"
    | a h1 where "0 \<le> json_string_length s" "malloc h = (Some a, h1)" by (metis not_less option.exhaust surj_pair)
  then show ?thesis
  proof cases
    case 1
    then show ?thesis by (simp add: parse_json_string_value_def value_result_def)
  next
    case (2 h1)
    then show ?thesis by (simp add: parse_json_string_value_def value_result_def grows_malloc_None)
  next
    case (3 a h1)
    have g: "grows h h1 [a]" using grows_malloc_Some 3 by blast
    have f: "grows h (free a h1) []"
      using grows_shrinks [OF assms(1), of h1 "[]" "[a]" "free a h1"] g by simp
    from 3(1) show ?thesis
      by (rule parse_json_string_cases) (use 3 g f assms in \<open>auto simp: parse_json_string_value_def value_result_def\<close>)
  qed
qed

lemma number_value_result:
  assumes "parse_json_number s = r" "depth \<le> JSON_DEPTH_LIMIT"
  shows "value_result s depth h (case r of None \<Rightarrow> None | Some (Inl ret) \<Rightarrow> Some (Inl ret, h)
     | Some (Inr (e, num)) \<Rightarrow> Some (Inr (JNumber num, e), h))"
proof (cases "scan_json_number s")
  case None
  then show ?thesis using assms by (auto simp: parse_json_number_def value_result_def)
next
  case (Some p)
  obtain e fraction expo where p: "p = (e, fraction, expo)" by (cases p)
  have "evaluate_json_number s fraction expo \<noteq> None"
    using json_number_range [of s e fraction expo] Some p by (metis prod_cases3)
  then show ?thesis using Some p assms scan_json_number_bounds(5) [of s e fraction expo]
    by (auto simp: parse_json_number_def value_result_def)
qed

lemma literal_value_result:
  assumes "deref s \<noteq> NUL" "word \<noteq> []" "json_ok v" "owned v = []" "json_depth v = 0" "depth \<le> JSON_DEPTH_LIMIT"
  shows "value_result s depth h (parse_json_literal word v s h)"
  using assms by (cases s) (auto simp: parse_json_literal_def value_result_def)

lemma owned_members_append [simp]: "owned_members (ms @ ns) = owned_members ms @ owned_members ns"
  by (induction ms) auto

lemma owned_elements_append [simp]: "owned_elements (es @ fs) = owned_elements es @ owned_elements fs"
  by (induction es) auto

lemma members_ok_append [simp]: "members_ok (ms @ ns) \<longleftrightarrow> members_ok ms \<and> members_ok ns"
  by (induction ms) auto

lemma elements_ok_append [simp]: "elements_ok (es @ fs) \<longleftrightarrow> elements_ok es \<and> elements_ok fs"
  by (induction es) auto

lemma members_depth_append [simp]: "members_depth (ms @ ns) = max (members_depth ms) (members_depth ns)"
  by (induction ms) auto

lemma elements_depth_append [simp]: "elements_depth (es @ fs) = max (elements_depth es) (elements_depth fs)"
  by (induction es) auto

lemma index_ok_empty [simp]: "index_ok [] Leaf"
  by (simp add: index_ok_def rb_tree_def)

lemma length_tl_skip: "deref s \<noteq> NUL \<Longrightarrow> length (skip_space (tl s)) < length s"
  by (cases s) (auto intro: le_less_trans [OF length_skip_space])

lemma length_skip_less: "length s < n \<Longrightarrow> length (skip_space s) < n"
  by (rule le_less_trans [OF length_skip_space])

text \<open>One member: what \<open>__parse_json_member\<close> does, given the contract of \<open>__parse_json_value\<close>.\<close>

lemma member_result:
  assumes len: "0 \<le> json_string_length s" and h: "heap_ok h"
    and V: "\<And>s'. length s' < length s \<Longrightarrow> value_result s' depth h (value_at s' h)"
  obtains ret h' where "parse_json_member value_at s a h = Some (Inl ret, h')" "ret < 0" "grows h h' []"
  | name v e h' where "parse_json_member value_at s a h = Some (Inr (Member a name v, e), h')"
      "grows h h' (owned v)" "json_ok v" "json_depth v + depth \<le> JSON_DEPTH_LIMIT" "length e < length s"
proof -
  from len show ?thesis
  proof (rule parse_json_string_cases)
    fix e str assume "parse_json_string s = Some (- 2, e, str)"
    then show ?thesis using that(1) [of "- 2" h] by (simp add: parse_json_member_def)
  next
    fix e name assume p: "parse_json_string s = Some (0, e, name)" and l: "length e < length s"
    define c where "c = skip_space e"
    show ?thesis
    proof (cases "deref c = CHR '':''")
      case False
      then show ?thesis using that(1) [of "- 2" h] p by (simp add: parse_json_member_def c_def)
    next
      case True
      then have lc: "length (skip_space (tl c)) < length s"
        using length_tl_skip [of c] length_skip_less [OF l] by (auto simp: c_def)
      from V [OF this] show ?thesis
      proof (cases rule: value_resultE)
        case (1 ret h')
        then show ?thesis using that(1) [of ret h'] p True by (simp add: parse_json_member_def c_def)
      next
        case (2 v e' h')
        then show ?thesis using that(2) [of name v e' h'] p True lc by (simp add: parse_json_member_def c_def)
      qed
    qed
  qed
qed

text \<open>The state of the loop of \<open>__parse_json_members\<close>.\<close>

definition members_inv :: "nat \<Rightarrow> heap_st \<Rightarrow> int \<Rightarrow> json_entries \<Rightarrow> heap_st \<Rightarrow> bool" where
  "members_inv depth h0 cnt obj h \<longleftrightarrow> heap_ok h0 \<and> grows h0 h (owned_members (fst obj))
     \<and> cnt = int (length (fst obj)) \<and> members_ok (fst obj) \<and> index_ok (fst obj) (snd obj)
     \<and> members_depth (fst obj) + depth \<le> JSON_DEPTH_LIMIT"

lemma members_inv_heap_ok: "members_inv depth h0 cnt obj h \<Longrightarrow> heap_ok h"
  using grows_heap_ok by (auto simp: members_inv_def)

lemma members_inv_insert:
  assumes inv: "members_inv depth h0 cnt obj h" and m: "malloc h = (Some a, h1)"
    and v: "grows h1 h2 (owned v)" "json_ok v" "json_depth v + depth \<le> JSON_DEPTH_LIMIT"
  shows "members_inv depth h0 (cnt + 1) (insert_json_member (Member a name v) At_Tail obj) h2"
proof -
  obtain ms t where obj: "obj = (ms, t)" by (cases obj)
  obtain t' where ins: "insert_json_member (Member a name v) At_Tail (ms, t) = (ms @ [Member a name v], t')"
    by (simp add: insert_json_member_def)
  have "index_ok (ms @ [Member a name v]) t'"
    using insert_json_member_ok [of ms t At_Tail "Member a name v"] inv ins by (simp add: members_inv_def obj)
  moreover have "grows h0 h2 ((owned_members ms @ [a]) @ owned v)"
    using inv grows_trans [OF grows_trans [OF _ grows_malloc_Some [OF m]] v(1), of h0 "owned_members ms"]
    by (simp add: members_inv_def obj)
  ultimately show ?thesis using inv v by (simp add: members_inv_def ins obj max_def)
qed

lemma members_inv_error:
  assumes inv: "members_inv depth h0 cnt obj h" and g: "grows h h' []" and "ret < 0"
  shows "members_result cursor depth h0 (Some (ret, e, obj, h'))"
proof -
  obtain ms t where obj: "obj = (ms, t)" by (cases obj)
  have "grows h0 h' (owned_members ms @ [])" using inv g grows_trans unfolding members_inv_def obj by fastforce
  then show ?thesis using assms(3) by (simp add: members_result_def obj)
qed

lemma members_result_mono:
  "members_result s depth h0 r \<Longrightarrow> length s \<le> length s' \<Longrightarrow> members_result s' depth h0 r"
  by (auto simp: members_result_def split: option.splits)

lemma members_loop_step:
  assumes V: "\<And>s d h. 2 * length s < fuel \<Longrightarrow> heap_ok h \<Longrightarrow> d \<le> JSON_DEPTH_LIMIT \<Longrightarrow>
      value_result s d h (parse_json_value fuel s d h)"
    and L: "\<And>s cnt obj h. 2 * length s < fuel \<Longrightarrow> members_inv depth h0 cnt obj h \<Longrightarrow>
      members_result s depth h0 (members_loop fuel depth cnt s obj h)"
    and f: "2 * length cursor < Suc fuel" and inv: "members_inv depth h0 cnt obj h" and d: "depth \<le> JSON_DEPTH_LIMIT"
  shows "members_result cursor depth h0 (members_loop (Suc fuel) depth cnt cursor obj h)"
proof -
  note hok = members_inv_heap_ok [OF inv]
  let ?s = "tl cursor"
  consider "deref cursor \<noteq> QUOTE" | "deref cursor = QUOTE" "json_string_length ?s < 0"
    | h1 where "deref cursor = QUOTE" "0 \<le> json_string_length ?s" "malloc h = (None, h1)"
    | a h1 where "deref cursor = QUOTE" "0 \<le> json_string_length ?s" "malloc h = (Some a, h1)"
    by (metis not_less option.exhaust surj_pair)
  then show ?thesis
  proof cases
    case 1
    then show ?thesis using members_inv_error [OF inv grows_refl, of "- 2"] by simp
  next
    case 2
    then show ?thesis using members_inv_error [OF inv grows_refl] by simp
  next
    case (3 h1)
    then show ?thesis using members_inv_error [OF inv grows_malloc_None, of h1 "- 1"] by simp
  next
    case (4 a h1)
    have g: "grows h h1 [a]" using grows_malloc_Some 4 by blast
    have hok1: "heap_ok h1" using grows_heap_ok [OF hok g] .
    have lc: "length cursor = Suc (length ?s)" using 4(1) by (cases cursor) auto
    have V': "value_result s' depth h1 (parse_json_value fuel s' depth h1)" if "length s' < length ?s" for s'
      by (rule V [OF _ hok1 d]) (use that f lc in linarith)
    let ?m = "parse_json_member (\<lambda>cursor h. parse_json_value fuel cursor depth h) ?s a h1"
    from 4(2) hok1 V' show ?thesis
    proof (rule member_result)
      fix ret h' assume m: "?m = Some (Inl ret, h')" "ret < 0" "grows h1 h' []"
      have "grows h (free a h') []"
        using grows_shrinks [OF hok, of h' "[]" "[a]" "free a h'"] grows_trans [OF g m(3)] by simp
      from members_inv_error [OF inv this m(2)] show ?thesis using 4 m by simp
    next
      fix name v e h' assume m: "?m = Some (Inr (Member a name v, e), h')" "grows h1 h' (owned v)" "json_ok v"
        "json_depth v + depth \<le> JSON_DEPTH_LIMIT" "length e < length ?s"
      define c where "c = skip_space e"
      define obj' where "obj' = insert_json_member (Member a name v) At_Tail obj"
      have inv': "members_inv depth h0 (cnt + 1) obj' h'"
        unfolding obj'_def by (rule members_inv_insert [OF inv 4(3) m(2-4)])
      have lc': "length c < length cursor" using length_skip_less [OF m(5)] lc unfolding c_def by linarith
      have eq: "members_loop (Suc fuel) depth cnt cursor obj h =
          (if deref c = CHR '','' then members_loop fuel depth (cnt + 1) (skip_space (tl c)) obj' h'
           else if deref c = CHR ''}'' then Some (cnt + 1, tl c, obj', h') else Some (- 2, c, obj', h'))"
        using 4 m(1) by (simp add: Let_def c_def obj'_def)
      consider "deref c = CHR '',''" | "deref c \<noteq> CHR '',''" "deref c = CHR ''}''"
        | "deref c \<noteq> CHR '',''" "deref c \<noteq> CHR ''}''" by blast
      then show ?thesis
      proof cases
        case 1
        then have "length (skip_space (tl c)) < length c" by (intro length_tl_skip) simp
        then have r: "members_result (skip_space (tl c)) depth h0
            (members_loop fuel depth (cnt + 1) (skip_space (tl c)) obj' h')"
          by (intro L [OF _ inv']) (use lc' f in linarith)
        show ?thesis using members_result_mono [OF r, of cursor] eq 1 lc' \<open>length (skip_space (tl c)) < length c\<close> by simp
      next
        case 2
        then show ?thesis using eq inv' lc' by (cases obj') (auto simp: members_result_def members_inv_def)
      next
        case 3
        then show ?thesis using eq members_inv_error [OF inv' grows_refl, of "- 2"] by simp
      qed
    qed
  qed
qed

definition elements_inv :: "nat \<Rightarrow> heap_st \<Rightarrow> int \<Rightarrow> json_element list \<Rightarrow> heap_st \<Rightarrow> bool" where
  "elements_inv depth h0 cnt es h \<longleftrightarrow> heap_ok h0 \<and> grows h0 h (owned_elements es)
     \<and> cnt = int (length es) \<and> elements_ok es \<and> elements_depth es + depth \<le> JSON_DEPTH_LIMIT"

lemma elements_inv_heap_ok: "elements_inv depth h0 cnt es h \<Longrightarrow> heap_ok h"
  using grows_heap_ok by (auto simp: elements_inv_def)

lemma elements_inv_insert:
  assumes inv: "elements_inv depth h0 cnt es h" and m: "malloc h = (Some a, h1)"
    and v: "grows h1 h2 (owned v)" "json_ok v" "json_depth v + depth \<le> JSON_DEPTH_LIMIT"
  shows "elements_inv depth h0 (cnt + 1) (es @ [Element a v]) h2"
  using inv v grows_trans [OF grows_trans [OF _ grows_malloc_Some [OF m]] v(1), of h0 "owned_elements es"]
  by (simp add: elements_inv_def max_def)

lemma elements_inv_error:
  assumes inv: "elements_inv depth h0 cnt es h" and g: "grows h h' []" and "ret < 0"
  shows "elements_result cursor depth h0 (Some (ret, e, es, h'))"
  using inv assms(3) grows_trans [OF _ g, of h0 "owned_elements es"]
  by (simp add: elements_result_def elements_inv_def)

lemma elements_result_mono:
  "elements_result s depth h0 r \<Longrightarrow> length s \<le> length s' \<Longrightarrow> elements_result s' depth h0 r"
  by (auto simp: elements_result_def split: option.splits)

lemma elements_loop_step:
  assumes V: "\<And>s d h. 2 * length s < fuel \<Longrightarrow> heap_ok h \<Longrightarrow> d \<le> JSON_DEPTH_LIMIT \<Longrightarrow>
      value_result s d h (parse_json_value fuel s d h)"
    and L: "\<And>s cnt es h. 2 * length s + 1 < fuel \<Longrightarrow> elements_inv depth h0 cnt es h \<Longrightarrow>
      elements_result s depth h0 (elements_loop fuel depth cnt s es h)"
    and f: "2 * length cursor + 1 < Suc fuel" and inv: "elements_inv depth h0 cnt es h" and d: "depth \<le> JSON_DEPTH_LIMIT"
  shows "elements_result cursor depth h0 (elements_loop (Suc fuel) depth cnt cursor es h)"
proof -
  note hok = elements_inv_heap_ok [OF inv]
  obtain p h1 where m: "malloc h = (p, h1)" by fastforce
  show ?thesis
  proof (cases p)
    case None
    then show ?thesis using m elements_inv_error [OF inv grows_malloc_None, of h1 "- 1"] by simp
  next
    case (Some a)
    then have g: "grows h h1 [a]" using grows_malloc_Some m by blast
    have hok1: "heap_ok h1" using grows_heap_ok [OF hok g] .
    have "value_result cursor depth h1 (parse_json_value fuel cursor depth h1)"
      by (rule V [OF _ hok1 d]) (use f in simp)
    then show ?thesis
    proof (cases rule: value_resultE)
      case (1 ret h')
      have "grows h (free a h') []"
        using grows_shrinks [OF hok, of h' "[]" "[a]" "free a h'"] grows_trans [OF g 1(3)] by simp
      from elements_inv_error [OF inv this 1(2)] show ?thesis using m Some 1 by simp
    next
      case (2 v e h')
      define c where "c = skip_space e"
      have inv': "elements_inv depth h0 (cnt + 1) (es @ [Element a v]) h'"
        by (rule elements_inv_insert [OF inv _ 2(2-4)]) (use m Some in simp)
      have lc: "length c < length cursor" using length_skip_less [OF 2(5)] by (simp add: c_def)
      have eq: "elements_loop (Suc fuel) depth cnt cursor es h =
          (if deref c = CHR '','' then elements_loop fuel depth (cnt + 1) (skip_space (tl c)) (es @ [Element a v]) h'
           else if deref c = CHR '']'' then Some (cnt + 1, tl c, es @ [Element a v], h')
           else Some (- 2, c, es @ [Element a v], h'))"
        using m Some 2(1) by (simp add: Let_def c_def)
      consider "deref c = CHR '',''" | "deref c \<noteq> CHR '',''" "deref c = CHR '']''"
        | "deref c \<noteq> CHR '',''" "deref c \<noteq> CHR '']''" by blast
      then show ?thesis
      proof cases
        case 1
        then have l: "length (skip_space (tl c)) < length c" by (intro length_tl_skip) simp
        then have r: "elements_result (skip_space (tl c)) depth h0
            (elements_loop fuel depth (cnt + 1) (skip_space (tl c)) (es @ [Element a v]) h')"
          by (intro L [OF _ inv']) (use lc f in linarith)
        show ?thesis using elements_result_mono [OF r, of cursor] eq 1 lc l by simp
      next
        case 2
        then show ?thesis using eq inv' lc by (auto simp: elements_result_def elements_inv_def)
      next
        case 3
        then show ?thesis using eq elements_inv_error [OF inv' grows_refl, of "- 2"] by simp
      qed
    qed
  qed
qed

lemma object_result:
  assumes h: "heap_ok h" and d: "depth \<le> JSON_DEPTH_LIMIT" and s: "deref s \<noteq> NUL"
    and L: "\<And>s'. depth < JSON_DEPTH_LIMIT \<Longrightarrow> length s' < length s \<Longrightarrow> members_inv (depth + 1) h 0 ([], Leaf) h \<Longrightarrow>
      members_result s' (depth + 1) h (loop s' ([], Leaf) h)"
  shows "value_result s depth h (parse_json_object loop (tl s) depth h)"
proof (cases "depth = JSON_DEPTH_LIMIT")
  case True
  then show ?thesis by (simp add: parse_json_object_def value_result_def)
next
  case False
  then have d': "depth + 1 \<le> JSON_DEPTH_LIMIT" using d by simp
  then have inv: "members_inv (depth + 1) h 0 ([], Leaf) h" using h by (simp add: members_inv_def)
  let ?c = "skip_space (tl s)"
  have lc: "length ?c < length s" by (rule length_tl_skip [OF s])
  have "members_result s (depth + 1) h (parse_json_members loop (tl s) ([], Leaf) h)"
  proof (cases "deref ?c = CHR ''}''")
    case True
    then show ?thesis using lc d' by (simp add: parse_json_members_def members_result_def)
  next
    case False
    then show ?thesis using L [of ?c] lc inv d' members_result_mono [of ?c "depth + 1" h _ s]
      by (simp add: parse_json_members_def)
  qed
  then obtain ret e ms t h' where p: "parse_json_members loop (tl s) ([], Leaf) h = Some (ret, e, (ms, t), h')"
    and g: "grows h h' (owned_members ms)" and r: "0 \<le> ret \<longrightarrow> ret = int (length ms) \<and> members_ok ms \<and> index_ok ms t
      \<and> members_depth ms + (depth + 1) \<le> JSON_DEPTH_LIMIT \<and> length e < length s"
    by (auto simp: members_result_def split: option.splits)
  have "grows h (destroy_json_members ms h') []"
    using grows_shrinks [OF h, of h' "[]"] g destroy_shrinks(2) by simp
  then show ?thesis using p g r False by (auto simp: parse_json_object_def value_result_def)
qed

lemma array_result:
  assumes h: "heap_ok h" and d: "depth \<le> JSON_DEPTH_LIMIT" and s: "deref s \<noteq> NUL"
    and L: "\<And>s'. depth < JSON_DEPTH_LIMIT \<Longrightarrow> length s' < length s \<Longrightarrow> elements_inv (depth + 1) h 0 [] h \<Longrightarrow>
      elements_result s' (depth + 1) h (loop s' [] h)"
  shows "value_result s depth h (parse_json_array loop (tl s) depth h)"
proof (cases "depth = JSON_DEPTH_LIMIT")
  case True
  then show ?thesis by (simp add: parse_json_array_def value_result_def)
next
  case False
  then have d': "depth + 1 \<le> JSON_DEPTH_LIMIT" using d by simp
  then have inv: "elements_inv (depth + 1) h 0 [] h" using h by (simp add: elements_inv_def)
  let ?c = "skip_space (tl s)"
  have lc: "length ?c < length s" by (rule length_tl_skip [OF s])
  have "elements_result s (depth + 1) h (parse_json_elements loop (tl s) [] h)"
  proof (cases "deref ?c = CHR '']''")
    case True
    then show ?thesis using lc d' by (simp add: parse_json_elements_def elements_result_def)
  next
    case False
    then show ?thesis using L [of ?c] lc inv d' elements_result_mono [of ?c "depth + 1" h _ s]
      by (simp add: parse_json_elements_def)
  qed
  then obtain ret e es h' where p: "parse_json_elements loop (tl s) [] h = Some (ret, e, es, h')"
    and g: "grows h h' (owned_elements es)" and r: "0 \<le> ret \<longrightarrow> ret = int (length es) \<and> elements_ok es
      \<and> elements_depth es + (depth + 1) \<le> JSON_DEPTH_LIMIT \<and> length e < length s"
    by (auto simp: elements_result_def split: option.splits)
  have "grows h (destroy_json_elements es h') []"
    using grows_shrinks [OF h, of h' "[]"] g destroy_shrinks(3) by simp
  then show ?thesis using p g r False by (auto simp: parse_json_array_def value_result_def)
qed

lemma value_step:
  assumes h: "heap_ok h" and d: "depth \<le> JSON_DEPTH_LIMIT" and f: "2 * length s < Suc fuel"
    and M: "\<And>s' cnt obj h. 2 * length s' < fuel \<Longrightarrow> depth + 1 \<le> JSON_DEPTH_LIMIT \<Longrightarrow> members_inv (depth + 1) h0 cnt obj h \<Longrightarrow>
      members_result s' (depth + 1) h0 (members_loop fuel (depth + 1) cnt s' obj h)"
    and E: "\<And>s' cnt es h. 2 * length s' + 1 < fuel \<Longrightarrow> depth + 1 \<le> JSON_DEPTH_LIMIT \<Longrightarrow> elements_inv (depth + 1) h0 cnt es h \<Longrightarrow>
      elements_result s' (depth + 1) h0 (elements_loop fuel (depth + 1) cnt s' es h)"
    and h0: "h0 = h"
  shows "value_result s depth h (parse_json_value (Suc fuel) s depth h)"
proof -
  let ?c = "deref s"
  consider "?c = QUOTE" | "?c \<noteq> QUOTE" "?c = CHR ''-'' \<or> isdigit ?c"
    | "?c \<noteq> QUOTE" "\<not> (?c = CHR ''-'' \<or> isdigit ?c)" "?c = CHR ''{''"
    | "?c \<noteq> QUOTE" "\<not> (?c = CHR ''-'' \<or> isdigit ?c)" "?c \<noteq> CHR ''{''" "?c = CHR ''[''"
    | "?c \<noteq> QUOTE" "\<not> (?c = CHR ''-'' \<or> isdigit ?c)" "?c \<noteq> CHR ''{''" "?c \<noteq> CHR ''[''"
    by blast
  then show ?thesis
  proof cases
    case 1
    then obtain s' where "s = QUOTE # s'" by (cases s) auto
    then show ?thesis using string_value_result [OF h d] by (simp add: Let_def)
  next
    case 2
    then show ?thesis using number_value_result [OF _ d, of s "parse_json_number s" h] by (simp add: Let_def)
  next
    case 3
    have "value_result s depth h (parse_json_object (members_loop fuel (depth + 1) 0) (tl s) depth h)"
      by (rule object_result [OF h d]) (use 3 M h0 f in auto)
    then show ?thesis using 3 by (simp add: Let_def)
  next
    case 4
    have "value_result s depth h (parse_json_array (elements_loop fuel (depth + 1) 0) (tl s) depth h)"
      by (rule array_result [OF h d]) (use 4 E h0 f in auto)
    then show ?thesis using 4 by (simp add: Let_def)
  next
    case 5
    have lit: "value_result s depth h (parse_json_literal w v s h)"
      if "?c \<noteq> NUL" "w \<noteq> []" "v = JTrue \<or> v = JFalse \<or> v = JNull" for w v
      using literal_value_result [OF that(1,2) _ _ _ d, of v] that(3) by auto
    show ?thesis using 5 lit by (auto simp: Let_def value_result_Inl)
  qed
qed

lemma parse_correct:
  "(\<forall>s depth h. 2 * length s < fuel \<longrightarrow> heap_ok h \<longrightarrow> depth \<le> JSON_DEPTH_LIMIT \<longrightarrow>
      value_result s depth h (parse_json_value fuel s depth h))
   \<and> (\<forall>s depth h0 cnt obj h. 2 * length s < fuel \<longrightarrow> depth \<le> JSON_DEPTH_LIMIT \<longrightarrow> members_inv depth h0 cnt obj h \<longrightarrow>
      members_result s depth h0 (members_loop fuel depth cnt s obj h))
   \<and> (\<forall>s depth h0 cnt es h. 2 * length s + 1 < fuel \<longrightarrow> depth \<le> JSON_DEPTH_LIMIT \<longrightarrow> elements_inv depth h0 cnt es h \<longrightarrow>
      elements_result s depth h0 (elements_loop fuel depth cnt s es h))"
proof (induction fuel)
  case (Suc fuel)
  show ?case
  proof (intro conjI allI impI)
    show "value_result s depth h (parse_json_value (Suc fuel) s depth h)"
      if "2 * length s < Suc fuel" "heap_ok h" "depth \<le> JSON_DEPTH_LIMIT" for s depth h
      by (rule value_step [OF that(2,3,1) _ _ refl]) (use Suc in auto)
    show "members_result s depth h0 (members_loop (Suc fuel) depth cnt s obj h)"
      if "2 * length s < Suc fuel" "depth \<le> JSON_DEPTH_LIMIT" "members_inv depth h0 cnt obj h" for s depth h0 cnt obj h
      by (rule members_loop_step [OF _ _ that(1,3,2)]) (use Suc that(2) in auto)
    show "elements_result s depth h0 (elements_loop (Suc fuel) depth cnt s es h)"
      if "2 * length s + 1 < Suc fuel" "depth \<le> JSON_DEPTH_LIMIT" "elements_inv depth h0 cnt es h" for s depth h0 cnt es h
      by (rule elements_loop_step [OF _ _ that(1,3,2)]) (use Suc that(2) in auto)
  qed
qed simp

lemma parse_json_value_total:
  "heap_ok h \<Longrightarrow> depth \<le> JSON_DEPTH_LIMIT \<Longrightarrow> 2 * length s < fuel \<Longrightarrow>
     value_result s depth h (parse_json_value fuel s depth h)"
  using parse_correct by blast

lemma json_value_parse_spec:
  assumes "heap_ok h"
  obtains h' where "json_value_parse json h = Some (None, h')" "grows h h' []"
  | val v h' where "json_value_parse json h = Some (Some (val, v), h')" "grows h h' (val # owned v)"
      "json_ok v" "json_depth v \<le> JSON_DEPTH_LIMIT"
proof -
  obtain p h1 where m: "malloc h = (p, h1)" by fastforce
  show ?thesis
  proof (cases p)
    case None
    then show ?thesis using that(1) [of h1] m grows_malloc_None by (simp add: json_value_parse_def)
  next
    case (Some val)
    then have g: "grows h h1 [val]" using grows_malloc_Some m by blast
    let ?s = "skip_space json"
    have "value_result ?s 0 h1 (parse_json_value (2 * length ?s + 1) ?s 0 h1)"
      by (rule parse_json_value_total [OF grows_heap_ok [OF assms g]]) auto
    then show ?thesis
    proof (cases rule: value_resultE)
      case (1 ret h2)
      have "grows h (free val h2) []"
        using grows_shrinks [OF assms, of h2 "[]" "[val]" "free val h2"] grows_trans [OF g 1(3)] by simp
      then show ?thesis using that(1) [of "free val h2"] m Some 1 by (simp add: json_value_parse_def Let_def del: parse_json_value.simps)
    next
      case (2 v e h2)
      have g2: "grows h h2 (val # owned v)" using grows_trans [OF g 2(2)] by simp
      show ?thesis
      proof (cases "deref (skip_space e) = NUL")
        case True
        then show ?thesis using that(2) [of val v h2] m Some 2 g2 by (simp add: json_value_parse_def Let_def del: parse_json_value.simps)
      next
        case False
        have "grows h (free val (destroy_json_value v h2)) []"
          using grows_shrinks [OF assms, of h2 "[]"] g2 shrinks_free_after [OF destroy_shrinks(1)] by simp
        then show ?thesis using that(1) [of "free val (destroy_json_value v h2)"] m Some 2 False
          by (simp add: json_value_parse_def Let_def del: parse_json_value.simps)
      qed
    qed
  qed
qed

text \<open>C7: \<open>json_value_parse\<close> always returns, for every text and every pattern of allocation
  failures, without a double free. When it returns \<open>NULL\<close> nothing is leaked: the live blocks
  are those of before. When it returns a value, exactly the blocks of this value are new,
  and \<open>json_value_destroy\<close> of it gives the heap back as it was.\<close>

theorem json_value_parse_no_leak:
  assumes "heap_ok h"
  shows "\<exists>r h'. json_value_parse json h = Some (r, h') \<and> \<not> bad_free h' \<and>
     (case r of
        None \<Rightarrow> live h' = live h
      | Some (val, v) \<Rightarrow> live h' = live h \<union> set (val # owned v) \<and> live h \<inter> set (val # owned v) = {}
          \<and> live (free val (destroy_json_value v h')) = live h
          \<and> \<not> bad_free (free val (destroy_json_value v h')))"
  using assms
proof (rule json_value_parse_spec [of h json])
  fix h' assume "json_value_parse json h = Some (None, h')" "grows h h' []"
  then show ?thesis using assms by (auto simp: grows_def heap_ok_def)
next
  fix val v h'
  assume p: "json_value_parse json h = Some (Some (val, v), h')" and g: "grows h h' (val # owned v)"
  have "grows h (free val (destroy_json_value v h')) []"
    using grows_shrinks [OF assms, of h' "[]"] g shrinks_free_after [OF destroy_shrinks(1)] by simp
  moreover have "set (val # owned v) \<inter> live h = {}" by (rule heap_ok_disjoint [OF assms g])
  ultimately show ?thesis using p g assms
    by (intro exI [of _ "Some (val, v)"] exI [of _ h']) (auto simp: grows_def heap_ok_def)
qed

theorem json_value_parse_no_leak_witness:
  "heap_ok (empty_heap [True, True, False])
   \<and> (\<exists>r h'. json_value_parse ''[1,2]'' (empty_heap [True, True, False]) = Some (r, h') \<and> \<not> bad_free h')"
  using json_value_parse_no_leak [of "empty_heap [True, True, False]" "''[1,2]''"] by auto

text \<open>C22: A value that \<open>json_value_parse\<close> returns is well formed: the tree of every object in it is
  a red-black tree in the order of \<open>strcmp\<close> over exactly the members of the list, the sizes are
  right, and the nesting is at most \<open>JSON_DEPTH_LIMIT\<close> levels deep.\<close>

theorem json_value_parse_ok:
  assumes "heap_ok h" and "json_value_parse json h = Some (Some (val, v), h')"
  shows "json_ok v \<and> json_depth v \<le> 1024"
  using assms(1) by (rule json_value_parse_spec [of h json]) (use assms in \<open>auto simp: JSON_DEPTH_LIMIT_def\<close>)

theorem json_value_parse_ok_witness:
  "\<exists>h'. json_value_parse ''[]'' (empty_heap []) = Some (Some (0, JArray [] 0), h')
     \<and> json_ok (JArray [] 0) \<and> json_depth (JArray [] 0) \<le> 1024"
proof -
  have "\<exists>h'. json_value_parse ''[]'' (empty_heap []) = Some (Some (0, JArray [] 0), h')"
    by (simp add: json_value_parse_def malloc_def empty_heap_def parse_json_array_def parse_json_elements_def
        JSON_DEPTH_LIMIT_def isspace_def isdigit_def ord_def numeral_eq_Suc)
  then show ?thesis using json_value_parse_ok [OF empty_heap_ok] by blast
qed

end
