(* ===== verification/Json_Api.thy ===== *)
theory Json_Api
  imports Json_Parse
begin

text \<open>
  The rest of \<open>src/src/util/json_parser.c\<close>: creation, copying, release and access of values
  (\<open>json_value_create\<close>, \<open>json_value_copy\<close>, \<open>json_value_destroy\<close>, ...), and the operations on
  objects and arrays (\<open>json_object_append\<close>, \<open>json_object_insert_after\<close>, \<open>json_object_remove\<close>,
  iteration, and so on). A pointer to a value inside an object or array is the address of its
  member or element, which is what \<open>list_entry\<close> computes from it.

  The results: insertion and removal keep the invariant of objects, put the entry where the
  caller asks and take exactly that entry out, lookup finds what was inserted, and every
  failed call leaves the object and the heap as they were; a copy has the contents of its
  source and its own blocks.
\<close>

section \<open>Creation and release\<close>

text \<open>\<open>__move_json_value\<close>: the lists change their heads, the entries stay.\<close>

fun move_json_value :: "json_value \<Rightarrow> json_value" where
  "move_json_value (JString a s) = JString a s"
| "move_json_value (JNumber d) = JNumber d"
| "move_json_value (JObject ms t n) = JObject ([] @ ms) t n"
| "move_json_value (JArray es n) = JArray ([] @ es) n"
| "move_json_value JTrue = JTrue"
| "move_json_value JFalse = JFalse"
| "move_json_value JNull = JNull"
| "move_json_value (JOther t) = JOther t"

text \<open>The \<open>type\<close> argument of the variadic functions with the argument it announces: type 0 with a
  value to move, at the given address; a string; a number; the other types.\<close>

datatype json_arg =
    Arg_Value addr json_value
  | Arg_String "byte list"
  | Arg_Number double
  | Arg_Object
  | Arg_Array
  | Arg_Type int

fun typed_value :: "int \<Rightarrow> json_value" where
  "typed_value t = (if t = 5 then JTrue else if t = 6 then JFalse else if t = 7 then JNull else JOther t)"

text \<open>\<open>__set_json_value\<close>; \<open>None\<close> is the return value \<open>-1\<close>.\<close>

fun set_json_value :: "json_arg \<Rightarrow> heap_st \<Rightarrow> json_value option \<times> heap_st" where
  "set_json_value (Arg_Value src v) h = (Some (move_json_value v), free src h)"
| "set_json_value (Arg_String str) h =
     (case malloc h of
        (None, h) \<Rightarrow> (None, h)
      | (Some a, h) \<Rightarrow> (Some (JString a (cstr str)), h))"
| "set_json_value (Arg_Number d) h = (Some (JNumber d), h)"
| "set_json_value Arg_Object h = (Some (JObject [] Leaf 0), h)"
| "set_json_value Arg_Array h = (Some (JArray [] 0), h)"
| "set_json_value (Arg_Type t) h = (Some (typed_value t), h)"

definition json_value_create :: "json_arg \<Rightarrow> heap_st \<Rightarrow> (addr \<times> json_value) option \<times> heap_st" where
  "json_value_create arg h =
     (case malloc h of
        (None, h) \<Rightarrow> (None, h)
      | (Some val, h) \<Rightarrow>
          (case set_json_value arg h of
             (None, h) \<Rightarrow> (None, free val h)
           | (Some v, h) \<Rightarrow> (Some (val, v), h)))"

definition json_value_destroy :: "addr \<times> json_value \<Rightarrow> heap_st \<Rightarrow> heap_st" where
  "json_value_destroy val h = free (fst val) (destroy_json_value (snd val) h)"

section \<open>Copying\<close>

text \<open>\<open>__copy_json_value\<close>, \<open>__copy_json_members\<close> and \<open>__copy_json_elements\<close>. The loops return
  whether they have copied everything, the entries of the copy, and the heap; what the C functions
  return is then the size field of the source, which the caller tests.\<close>

primrec copy_json_value :: "json_value \<Rightarrow> heap_st \<Rightarrow> json_value option \<times> heap_st"
  and copy_json_members :: "json_member list \<Rightarrow> json_entries \<Rightarrow> heap_st \<Rightarrow> bool \<times> json_entries \<times> heap_st"
  and copy_json_elements :: "json_element list \<Rightarrow> json_element list \<Rightarrow> heap_st \<Rightarrow> bool \<times> json_element list \<times> heap_st"
  and copy_json_member :: "json_member \<Rightarrow> heap_st \<Rightarrow> json_member option \<times> heap_st"
  and copy_json_element :: "json_element \<Rightarrow> heap_st \<Rightarrow> json_element option \<times> heap_st"
where
  "copy_json_value (JString a s) h =
     (case malloc h of
        (None, h) \<Rightarrow> (None, h)
      | (Some a', h) \<Rightarrow> (Some (JString a' (cstr s)), h))"
| "copy_json_value (JNumber d) h = (Some (JNumber d), h)"
| "copy_json_value (JObject ms t n) h =
     (case copy_json_members ms ([], Leaf) h of
        (False, (ms', t'), h) \<Rightarrow> (None, destroy_json_members ms' h)
      | (True, (ms', t'), h) \<Rightarrow>
          if n < 0 then (None, destroy_json_members ms' h) else (Some (JObject ms' t' n), h))"
| "copy_json_value (JArray es n) h =
     (case copy_json_elements es [] h of
        (False, es', h) \<Rightarrow> (None, destroy_json_elements es' h)
      | (True, es', h) \<Rightarrow>
          if n < 0 then (None, destroy_json_elements es' h) else (Some (JArray es' n), h))"
| "copy_json_value JTrue h = (Some JTrue, h)"
| "copy_json_value JFalse h = (Some JFalse, h)"
| "copy_json_value JNull h = (Some JNull, h)"
| "copy_json_value (JOther t) h = (Some (JOther t), h)"
| "copy_json_members [] dest h = (True, dest, h)"
| "copy_json_members (m # ms) dest h =
     (case copy_json_member m h of
        (None, h) \<Rightarrow> (False, dest, h)
      | (Some memb, h) \<Rightarrow> copy_json_members ms (insert_json_member memb At_Tail dest) h)"
| "copy_json_elements [] dest h = (True, dest, h)"
| "copy_json_elements (e # es) dest h =
     (case copy_json_element e h of
        (None, h) \<Rightarrow> (False, dest, h)
      | (Some ele, h) \<Rightarrow> copy_json_elements es (dest @ [ele]) h)"
| "copy_json_member (Member a name v) h =
     (case malloc h of
        (None, h) \<Rightarrow> (None, h)
      | (Some a', h) \<Rightarrow>
          (case copy_json_value v h of
             (None, h) \<Rightarrow> (None, free a' h)
           | (Some v', h) \<Rightarrow> (Some (Member a' (cstr name) v'), h)))"
| "copy_json_element (Element a v) h =
     (case malloc h of
        (None, h) \<Rightarrow> (None, h)
      | (Some a', h) \<Rightarrow>
          (case copy_json_value v h of
             (None, h) \<Rightarrow> (None, free a' h)
           | (Some v', h) \<Rightarrow> (Some (Element a' v'), h)))"

definition json_value_copy :: "json_value \<Rightarrow> heap_st \<Rightarrow> (addr \<times> json_value) option \<times> heap_st" where
  "json_value_copy val h =
     (case malloc h of
        (None, h) \<Rightarrow> (None, h)
      | (Some copy, h) \<Rightarrow>
          (case copy_json_value val h of
             (None, h) \<Rightarrow> (None, free copy h)
           | (Some v, h) \<Rightarrow> (Some (copy, v), h)))"

section \<open>Access\<close>

fun json_value_type :: "json_value \<Rightarrow> int" where
  "json_value_type (JString a s) = 1"
| "json_value_type (JNumber d) = 2"
| "json_value_type (JObject ms t n) = 3"
| "json_value_type (JArray es n) = 4"
| "json_value_type JTrue = 5"
| "json_value_type JFalse = 6"
| "json_value_type JNull = 7"
| "json_value_type (JOther t) = t"

fun json_value_string :: "json_value \<Rightarrow> byte list option" where
  "json_value_string (JString a s) = Some s"
| "json_value_string _ = None"

fun json_value_number :: "json_value \<Rightarrow> double" where
  "json_value_number (JNumber d) = d"
| "json_value_number _ = NaN"

type_synonym json_object = "json_member list \<times> json_index \<times> int"
type_synonym json_array = "json_element list \<times> int"

fun json_value_object :: "json_value \<Rightarrow> json_object option" where
  "json_value_object (JObject ms t n) = Some (ms, t, n)"
| "json_value_object _ = None"

fun json_value_array :: "json_value \<Rightarrow> json_array option" where
  "json_value_array (JArray es n) = Some (es, n)"
| "json_value_array _ = None"

section \<open>Objects\<close>

fun json_object_find :: "byte list \<Rightarrow> json_object \<Rightarrow> addr option" where
  "json_object_find name (ms, t, n) = index_find name t"

fun json_object_size :: "json_object \<Rightarrow> int" where
  "json_object_size (ms, t, n) = n"

text \<open>The entry after and before a position; \<open>None\<close> is the head of the list, before the first and
  after the last entry.\<close>

fun list_next :: "('a \<Rightarrow> addr) \<Rightarrow> addr option \<Rightarrow> 'a list \<Rightarrow> addr option" where
  "list_next key None xs = (case xs of [] \<Rightarrow> None | x # _ \<Rightarrow> Some (key x))"
| "list_next key (Some a) xs =
     (case dropWhile (\<lambda>x. key x \<noteq> a) xs of x # y # _ \<Rightarrow> Some (key y) | _ \<Rightarrow> None)"

definition list_prev :: "('a \<Rightarrow> addr) \<Rightarrow> addr option \<Rightarrow> 'a list \<Rightarrow> addr option" where
  "list_prev key pos xs = list_next key pos (rev xs)"

definition json_object_next_name :: "addr option \<Rightarrow> json_object \<Rightarrow> addr option" where
  "json_object_next_name name obj = list_next member_addr name (fst obj)"

definition json_object_next_value :: "addr option \<Rightarrow> json_object \<Rightarrow> addr option" where
  "json_object_next_value val obj = list_next member_addr val (fst obj)"

definition json_object_prev_name :: "addr option \<Rightarrow> json_object \<Rightarrow> addr option" where
  "json_object_prev_name name obj = list_prev member_addr name (fst obj)"

definition json_object_prev_value :: "addr option \<Rightarrow> json_object \<Rightarrow> addr option" where
  "json_object_prev_value val obj = list_prev member_addr val (fst obj)"

text \<open>\<open>__json_object_insert\<close>: the address of the new member, or \<open>NULL\<close>.\<close>

fun json_object_insert :: "byte list \<Rightarrow> json_arg \<Rightarrow> list_pos \<Rightarrow> json_object \<Rightarrow> heap_st
    \<Rightarrow> addr option \<times> json_object \<times> heap_st" where
  "json_object_insert name arg pos (ms, t, n) h =
     (case malloc h of
        (None, h) \<Rightarrow> (None, (ms, t, n), h)
      | (Some a, h) \<Rightarrow>
          (case set_json_value arg h of
             (None, h) \<Rightarrow> (None, (ms, t, n), free a h)
           | (Some v, h) \<Rightarrow>
               let (ms', t') = insert_json_member (Member a (cstr name) v) pos (ms, t)
               in (Some a, (ms', t', n + 1), h)))"

definition json_object_append :: "json_object \<Rightarrow> byte list \<Rightarrow> json_arg \<Rightarrow> heap_st
    \<Rightarrow> addr option \<times> json_object \<times> heap_st" where
  "json_object_append obj name arg h = json_object_insert name arg At_Tail obj h"

definition json_object_insert_after :: "addr option \<Rightarrow> json_object \<Rightarrow> byte list \<Rightarrow> json_arg \<Rightarrow> heap_st
    \<Rightarrow> addr option \<times> json_object \<times> heap_st" where
  "json_object_insert_after val obj name arg h =
     json_object_insert name arg (case val of None \<Rightarrow> At_Head | Some a \<Rightarrow> After a) obj h"

definition json_object_insert_before :: "addr option \<Rightarrow> json_object \<Rightarrow> byte list \<Rightarrow> json_arg \<Rightarrow> heap_st
    \<Rightarrow> addr option \<times> json_object \<times> heap_st" where
  "json_object_insert_before val obj name arg h =
     json_object_insert name arg (case val of None \<Rightarrow> At_Tail | Some a \<Rightarrow> Before a) obj h"

text \<open>\<open>rb_erase\<close> of the node of a member.\<close>

definition index_erase :: "addr \<Rightarrow> json_index \<Rightarrow> json_index" where
  "index_erase a t =
     (case find_node (\<lambda>e. snd e = a) t [] of
        None \<Rightarrow> t
      | Some (u, path) \<Rightarrow> rbt_erase u path)"

text \<open>\<open>json_object_remove\<close> of the member at address \<open>a\<close>; a value that is not in the object is outside
  its contract.\<close>

fun json_object_remove :: "addr \<Rightarrow> json_object \<Rightarrow> heap_st
    \<Rightarrow> (addr \<times> json_value) option \<times> json_object \<times> heap_st" where
  "json_object_remove a (ms, t, n) h =
     (case find (\<lambda>m. member_addr m = a) ms of
        None \<Rightarrow> (None, (ms, t, n), h)
      | Some memb \<Rightarrow>
          (case malloc h of
             (None, h) \<Rightarrow> (None, (ms, t, n), h)
           | (Some val, h) \<Rightarrow>
               (Some (val, move_json_value (member_value memb)),
                (remove1 memb ms, index_erase a t, n - 1), free a h)))"

section \<open>Arrays\<close>

fun json_array_size :: "json_array \<Rightarrow> int" where
  "json_array_size (es, n) = n"

definition json_array_next_value :: "addr option \<Rightarrow> json_array \<Rightarrow> addr option" where
  "json_array_next_value val arr = list_next element_addr val (fst arr)"

definition json_array_prev_value :: "addr option \<Rightarrow> json_array \<Rightarrow> addr option" where
  "json_array_prev_value val arr = list_prev element_addr val (fst arr)"

fun json_array_insert :: "json_arg \<Rightarrow> list_pos \<Rightarrow> json_array \<Rightarrow> heap_st
    \<Rightarrow> addr option \<times> json_array \<times> heap_st" where
  "json_array_insert arg pos (es, n) h =
     (case malloc h of
        (None, h) \<Rightarrow> (None, (es, n), h)
      | (Some a, h) \<Rightarrow>
          (case set_json_value arg h of
             (None, h) \<Rightarrow> (None, (es, n), free a h)
           | (Some v, h) \<Rightarrow> (Some a, (list_insert element_addr pos (Element a v) es, n + 1), h)))"

definition json_array_append :: "json_array \<Rightarrow> json_arg \<Rightarrow> heap_st \<Rightarrow> addr option \<times> json_array \<times> heap_st" where
  "json_array_append arr arg h = json_array_insert arg At_Tail arr h"

definition json_array_insert_after :: "addr option \<Rightarrow> json_array \<Rightarrow> json_arg \<Rightarrow> heap_st
    \<Rightarrow> addr option \<times> json_array \<times> heap_st" where
  "json_array_insert_after val arr arg h =
     json_array_insert arg (case val of None \<Rightarrow> At_Head | Some a \<Rightarrow> After a) arr h"

definition json_array_insert_before :: "addr option \<Rightarrow> json_array \<Rightarrow> json_arg \<Rightarrow> heap_st
    \<Rightarrow> addr option \<times> json_array \<times> heap_st" where
  "json_array_insert_before val arr arg h =
     json_array_insert arg (case val of None \<Rightarrow> At_Tail | Some a \<Rightarrow> Before a) arr h"

fun json_array_remove :: "addr \<Rightarrow> json_array \<Rightarrow> heap_st
    \<Rightarrow> (addr \<times> json_value) option \<times> json_array \<times> heap_st" where
  "json_array_remove a (es, n) h =
     (case find (\<lambda>e. element_addr e = a) es of
        None \<Rightarrow> (None, (es, n), h)
      | Some ele \<Rightarrow>
          (case malloc h of
             (None, h) \<Rightarrow> (None, (es, n), h)
           | (Some val, h) \<Rightarrow>
               (Some (val, move_json_value (element_value ele)), (remove1 ele es, n - 1), free a h)))"

section \<open>Iteration\<close>

text \<open>The loops of \<open>json_object_for_each\<close>, \<open>json_array_for_each\<close> and their \<open>_prev\<close> forms, with the
  entries they visit; \<open>None\<close> is a loop that does not end.\<close>

partial_function (option) for_each_from :: "(addr option \<Rightarrow> addr option) \<Rightarrow> addr option \<Rightarrow> addr list option" where
  [code]: "for_each_from step pos =
     (case step pos of
        None \<Rightarrow> Some []
      | Some a \<Rightarrow> Option.bind (for_each_from step (Some a)) (\<lambda>rest. Some (a # rest)))"

definition json_object_for_each :: "json_object \<Rightarrow> addr list option" where
  "json_object_for_each obj = for_each_from (\<lambda>val. json_object_next_value val obj) None"

definition json_object_for_each_prev :: "json_object \<Rightarrow> addr list option" where
  "json_object_for_each_prev obj = for_each_from (\<lambda>val. json_object_prev_value val obj) None"

definition json_array_for_each :: "json_array \<Rightarrow> addr list option" where
  "json_array_for_each arr = for_each_from (\<lambda>val. json_array_next_value val arr) None"

definition json_array_for_each_prev :: "json_array \<Rightarrow> addr list option" where
  "json_array_for_each_prev arr = for_each_from (\<lambda>val. json_array_prev_value val arr) None"

section \<open>Blocks of the entries\<close>

lemma mset_owned: 
  "mset (owned_members ms) = (\<Sum>m\<in>#mset ms. mset (owned_member m))"
  "mset (owned_elements es) = (\<Sum>e\<in>#mset es. mset (owned_element e))"
  by (induction ms, auto) (induction es, auto)

lemma members_ok_iff: "members_ok ms \<longleftrightarrow> (\<forall>m \<in># mset ms. json_ok (member_value m))"
  by (induction ms) (auto, (metis json_member.exhaust member_ok.simps member_value.simps)+)

lemma elements_ok_iff: "elements_ok es \<longleftrightarrow> (\<forall>e \<in># mset es. json_ok (element_value e))"
  by (induction es) (auto, (metis json_element.exhaust element_ok.simps element_value.simps)+)

section \<open>Arguments\<close>

fun arg_owned :: "json_arg \<Rightarrow> addr list" where
  "arg_owned (Arg_Value src v) = src # owned v"
| "arg_owned _ = []"

fun arg_ok :: "json_arg \<Rightarrow> bool" where
  "arg_ok (Arg_Value src v) \<longleftrightarrow> json_ok v"
| "arg_ok _ \<longleftrightarrow> True"

text \<open>The value that an argument describes.\<close>

fun arg_value :: "json_arg \<Rightarrow> json_value \<Rightarrow> bool" where
  "arg_value (Arg_Value src v) w \<longleftrightarrow> w = v"
| "arg_value (Arg_String str) w \<longleftrightarrow> json_value_string w = Some (cstr str)"
| "arg_value (Arg_Number d) w \<longleftrightarrow> w = JNumber d"
| "arg_value Arg_Object w \<longleftrightarrow> w = JObject [] Leaf 0"
| "arg_value Arg_Array w \<longleftrightarrow> w = JArray [] 0"
| "arg_value (Arg_Type t) w \<longleftrightarrow> w = typed_value t"

lemma move_json_value_id [simp]: "move_json_value v = v"
  by (cases v) simp_all

lemma set_json_value_None: "holds h R A \<Longrightarrow> set_json_value arg h = (None, h') \<Longrightarrow> holds h' R A"
  by (cases arg) (auto split: prod.splits option.splits intro: holds_malloc_None)

lemma set_json_value_Some:
  assumes "holds h R (arg_owned arg @ A)" "arg_ok arg" "set_json_value arg h = (Some v, h')"
  shows "holds h' R (owned v @ A) \<and> json_ok v \<and> arg_value arg v"
  using assms by (cases arg)
    (auto split: prod.splits option.splits intro: holds_malloc holds_free simp: index_ok_def rb_tree_def)

section \<open>Creation\<close>

text \<open>\<open>json_value_create\<close> returns the value its arguments describe, and the caller holds exactly its
  blocks; when it returns \<open>NULL\<close> the blocks are those held before, the argument included. Then
  \<open>json_value_destroy\<close> gives every block of a created value back.\<close>

theorem json_value_create_destroy:
  assumes "arg_ok arg" "holds h R (arg_owned arg)" "json_value_create arg h = (r, h')"
  shows "case r of
     None \<Rightarrow> holds h' R (arg_owned arg)
   | Some (val, v) \<Rightarrow> arg_value arg v \<and> json_ok v \<and> holds h' R (val # owned v)
       \<and> holds (json_value_destroy (val, v) h') R []"
proof -
  have d: "holds (json_value_destroy (val, v) h') R []" if a: "holds h' R (val # owned v)" for val v
  proof -
    have "holds h' R (owned v @ [val])" using a by (rule holds_perm) simp
    then show ?thesis using holds_free holds_shrinks destroy_shrinks(1) by (fastforce simp: json_value_destroy_def)
  qed
  obtain m h1 where m: "malloc h = (m, h1)" by force
  show ?thesis
  proof (cases m)
    case None
    then show ?thesis using assms m by (auto simp: json_value_create_def intro: holds_malloc_None)
  next
    case (Some val)
    have h1: "holds h1 R (val # arg_owned arg)" using holds_malloc assms(2) m Some by blast
    obtain w h2 where w: "set_json_value arg h1 = (w, h2)" by force
    show ?thesis
    proof (cases w)
      case None
      have "holds h2 R (val # arg_owned arg)" by (rule set_json_value_None [OF h1]) (use w None in simp)
      then show ?thesis using assms(3) m Some w None by (auto simp: json_value_create_def intro: holds_free)
    next
      case v: (Some v)
      have "holds h1 R (arg_owned arg @ [val])" using h1 by (rule holds_perm) simp
      then have "holds h2 R (owned v @ [val]) \<and> json_ok v \<and> arg_value arg v"
        using set_json_value_Some assms(1) w v by blast
      moreover from this have "holds h2 R (val # owned v)" by (auto elim: holds_perm)
      moreover have "r = Some (val, v)" "h' = h2" using assms(3) m Some w v by (auto simp: json_value_create_def)
      ultimately show ?thesis using d by simp
    qed
  qed
qed

theorem json_value_create_destroy_witness:
  "\<exists>h'. json_value_create (Arg_String ''a'') (empty_heap []) = (Some (0, JString 1 ''a''), h')
     \<and> holds h' {} [0, 1] \<and> holds (json_value_destroy (0, JString 1 ''a'') h') {} []"
proof -
  obtain h' where h': "json_value_create (Arg_String ''a'') (empty_heap []) = (Some (0, JString 1 ''a''), h')"
    by (simp add: json_value_create_def malloc_def empty_heap_def cstr_def)
  have "holds (empty_heap []) {} (arg_owned (Arg_String ''a''))" by (simp add: holds_def) (simp add: empty_heap_def)
  from json_value_create_destroy [OF _ this h'] h' show ?thesis by simp
qed

section \<open>Insertion into an object\<close>

lemma owned_list_insert:
  "pos_ok member_addr pos ms \<Longrightarrow>
     mset (owned_members (list_insert member_addr pos m ms)) = mset (owned_member m @ owned_members ms)"
  "pos_ok element_addr pos es \<Longrightarrow>
     mset (owned_elements (list_insert element_addr pos e es)) = mset (owned_element e @ owned_elements es)"
  by (simp_all add: mset_owned mset_list_insert)

lemma object_insert_ok:
  assumes ok: "json_ok (JObject ms t n)" and pos: "pos_ok member_addr pos ms" and "json_ok v"
    and i: "insert_json_member (Member a name v) pos (ms, t) = (ms', t')"
  shows "json_ok (JObject ms' t' (n + 1))"
    and "ms' = list_insert member_addr pos (Member a name v) ms"
    and "index_find name t' \<noteq> None"
proof -
  have r: "index_ok ms' t'" "mset ms' = add_mset (Member a name v) (mset ms)"
    using insert_json_member_ok [OF _ pos i] ok by auto
  moreover have "length ms' = Suc (length ms)" using r(2) by (metis size_add_mset size_mset)
  ultimately show "json_ok (JObject ms' t' (n + 1))" using ok assms(3) by (auto simp: members_ok_iff)
  show "ms' = list_insert member_addr pos (Member a name v) ms" using i by (simp add: insert_json_member_def)
  have "Member a name v \<in> set ms'" using r(2) by (metis set_mset_mset union_single_eq_member)
  then have "(name, a) \<in> set (inorder t')"
    using r(1) unfolding index_ok_def by (metis (mono_tags, lifting) image_eqI list.set_map member_addr.simps
        member_name.simps set_mset_mset)
  then show "index_find name t' \<noteq> None" using index_find_None [of t' name "(name, a)"] r(1) by (auto simp: index_ok_def)
qed

lemma json_object_insert_cases:
  assumes "json_object_insert name arg pos (ms, t, n) h = (r, obj', h')"
  obtains "malloc h = (None, h')" "r = None" "obj' = (ms, t, n)"
  | a h1 h2 where "malloc h = (Some a, h1)" "set_json_value arg h1 = (None, h2)" "h' = free a h2"
      "r = None" "obj' = (ms, t, n)"
  | a h1 v ms' t' where "malloc h = (Some a, h1)" "set_json_value arg h1 = (Some v, h')"
      "insert_json_member (Member a (cstr name) v) pos (ms, t) = (ms', t')" "r = Some a" "obj' = (ms', t', n + 1)"
  using assms by (auto split: prod.splits option.splits)

text \<open>C18: \<open>json_object_append\<close>, \<open>json_object_insert_after\<close> and \<open>json_object_insert_before\<close>, which are
  \<open>__json_object_insert\<close> at a position: on success the object has one more member, at that position,
  with the name and the value of the arguments; its index is a red-black tree again, ordered and
  complete, its size field is right, the name is found, and the object owns all blocks. When an
  allocation fails the object and the set of blocks are as before.\<close>

theorem json_object_insert_correct:
  assumes ok: "json_ok (JObject ms t n)" and pos: "pos_ok member_addr pos ms" and arg: "arg_ok arg"
    and h: "holds h R (arg_owned arg @ owned (JObject ms t n))"
    and call: "json_object_insert name arg pos (ms, t, n) h = (r, (ms', t', n'), h')"
  shows "case r of
     None \<Rightarrow> (ms', t', n') = (ms, t, n) \<and> holds h' R (arg_owned arg @ owned (JObject ms t n))
   | Some a \<Rightarrow> json_ok (JObject ms' t' n') \<and> holds h' R (owned (JObject ms' t' n'))
       \<and> (\<exists>v. arg_value arg v \<and> ms' = list_insert member_addr pos (Member a (cstr name) v) ms)
       \<and> json_object_find name (ms', t', n') \<noteq> None"
  using call
proof (cases rule: json_object_insert_cases)
  case 1
  then show ?thesis using h by (auto intro: holds_malloc_None)
next
  case (2 a h1 h2)
  have "holds h1 R (a # arg_owned arg @ owned (JObject ms t n))" using holds_malloc [OF h 2(1)] .
  then have "holds h2 R (a # arg_owned arg @ owned (JObject ms t n))" using set_json_value_None 2(2) by blast
  then show ?thesis using 2 by (auto intro: holds_free)
next
  case (3 a h1 v ms1 t1)
  have "holds h1 R (a # arg_owned arg @ owned (JObject ms t n))" using holds_malloc [OF h 3(1)] .
  then have "holds h1 R (arg_owned arg @ a # owned (JObject ms t n))" by (rule holds_perm) simp
  from set_json_value_Some [OF this arg 3(2)]
  have v: "holds h' R (owned v @ a # owned (JObject ms t n))" "json_ok v" "arg_value arg v" by auto
  note i = object_insert_ok [OF ok pos v(2) 3(3)]
  have "holds h' R (owned_members ms1)"
    using v(1) by (rule holds_perm) (simp add: i(2) owned_list_insert(1) [OF pos])
  moreover have "index_find name t1 = index_find (cstr name) t1"
    by (induction t1) (auto simp: strcmp_def Let_def)
  ultimately show ?thesis using 3(4,5) i v(3) by auto
qed

theorem json_object_insert_correct_witness:
  "\<exists>r ms' t' n' h'. json_object_insert ''k'' Arg_Array At_Tail ([], Leaf, 0) (empty_heap []) = (r, (ms', t', n'), h')
     \<and> ms' = [Member 0 ''k'' (JArray [] 0)] \<and> json_ok (JObject ms' t' n')"
proof -
  obtain r ms' t' n' h' where
    i: "json_object_insert ''k'' Arg_Array At_Tail ([], Leaf, 0) (empty_heap []) = (r, (ms', t', n'), h')"
    by (metis surj_pair)
  then have "ms' = [Member 0 ''k'' (JArray [] 0)]" "r = Some 0"
    by (auto simp: malloc_def empty_heap_def cstr_def insert_json_member_def)
  then show ?thesis using json_object_insert_correct [OF _ _ _ _ i, of "{}"] i
    by (auto simp: index_ok_def rb_tree_def holds_def) (auto simp: empty_heap_def)
qed

section \<open>Removal and lookup\<close>

lemma index_erase_ok:
  assumes "rb_tree t" "(name, a) \<in> set (inorder t)" "distinct (map snd (inorder t))"
  shows "rb_tree (index_erase a t)"
    and "\<exists>xs ys. inorder t = xs @ (name, a) # ys \<and> inorder (index_erase a t) = xs @ ys"
proof -
  obtain u q where f: "find_node (\<lambda>e. snd e = a) t [] = Some (u, q)"
    using find_node_None [of "\<lambda>e. snd e = a" t "[]"] assms(2) by (cases "find_node (\<lambda>e. snd e = a) t []") auto
  from find_node_inorder [OF f] obtain c l x r where u: "u = Node c l x r" "snd x = a"
    and i: "before q @ inorder u @ after q = inorder t" by auto
  have "fits t []" using assms(1) by (metis fits_zip zip_up.simps(1))
  then show "rb_tree (index_erase a t)"
    using find_node_fits [OF f] rb_tree_erase [of u q] u f by (simp add: index_erase_def)
  have t: "inorder t = (before q @ inorder l) @ x # (inorder r @ after q)" using i u by simp
  then have "x \<in> set (inorder t)" by simp
  then have "x = (name, a)" using assms(2,3) u(2) by (metis distinct_map inj_on_def snd_conv)
  moreover have "inorder (index_erase a t) = (before q @ inorder l) @ (inorder r @ after q)"
    using f u inorder_erase by (simp add: index_erase_def)
  ultimately show "\<exists>xs ys. inorder t = xs @ (name, a) # ys \<and> inorder (index_erase a t) = xs @ ys"
    using t by blast
qed

lemma distinct_member_addr: "distinct (owned_members ms) \<Longrightarrow> distinct (map member_addr ms)"
proof (induction ms)
  case (Cons m ms)
  have "member_addr ` set ms \<subseteq> set (owned_members ms)" for ms
    by (induction ms) (auto, metis json_member.exhaust list.set_intros(1) member_addr.simps owned_member.simps)
  then show ?case using Cons by (cases m) auto
qed simp

lemma distinct_element_addr: "distinct (owned_elements es) \<Longrightarrow> distinct (map element_addr es)"
proof (induction es)
  case (Cons e es)
  have "element_addr ` set es \<subseteq> set (owned_elements es)" for es
    by (induction es) (auto, metis json_element.exhaust list.set_intros(1) element_addr.simps owned_element.simps)
  then show ?case using Cons by (cases e) auto
qed simp

lemma find_key:
  assumes "a \<in> key ` set xs"
  obtains ys x zs where "xs = ys @ x # zs" "key x = a" "find (\<lambda>x. key x = a) xs = Some x" "remove1 x xs = ys @ zs"
proof -
  from dropWhile_found [OF assms] obtain ys x zs where x: "xs = ys @ x # zs" "key x = a" "a \<notin> key ` set ys"
    by metis
  have "key z \<noteq> a" if z: "z \<in> set ys" for z using x(3) z by blast
  then have "find (\<lambda>x. key x = a) ys = None" by (simp add: find_None_iff)
  then have "find (\<lambda>x. key x = a) xs = Some x" using x by (induction ys arbitrary: xs) auto
  moreover have "remove1 x xs = ys @ zs" using x by (auto simp: remove1_append)
  ultimately show ?thesis using that x by blast
qed

lemma object_remove_ok:
  assumes ok: "json_ok (JObject (xs @ Member a name v # ys) t n)"
    and d: "distinct (map member_addr (xs @ Member a name v # ys))"
  shows "json_ok (JObject (xs @ ys) (index_erase a t) (n - 1))" "json_ok v"
proof -
  let ?ms = "xs @ Member a name v # ys" and ?f = "\<lambda>m. (member_name m, member_addr m)"
  have ix: "index_ok ?ms t" using ok by simp
  then have m: "mset (inorder t) = mset (map ?f ?ms)" by (simp add: index_ok_def)
  have "(name, a) \<in> set (map ?f ?ms)" by simp
  then have el: "(name, a) \<in> set (inorder t)" using m by (metis set_mset_mset)
  have "mset (map snd (inorder t)) = mset (map member_addr ?ms)"
    using arg_cong [OF m, of "image_mset snd"] by (simp add: multiset.map_comp comp_def)
  then have di: "distinct (map snd (inorder t))" using d mset_eq_imp_distinct_iff by blast
  have rb: "rb_tree t" using ix by (simp add: index_ok_def)
  obtain us vs where e: "inorder t = us @ (name, a) # vs" "inorder (index_erase a t) = us @ vs"
    using index_erase_ok(2) [OF rb el di] by blast
  have "index_ok (xs @ ys) (index_erase a t)" unfolding index_ok_def
  proof (intro conjI)
    show "rb_tree (index_erase a t)" by (rule index_erase_ok(1) [OF rb el di])
    show "sorted_wrt (\<lambda>x y. strcmp (fst x) (fst y) \<le> 0) (inorder (index_erase a t))"
      using ix unfolding index_ok_def e by (auto simp: sorted_wrt_append)
    show "mset (inorder (index_erase a t)) = mset (map ?f (xs @ ys))" using m unfolding e by simp
  qed
  then show "json_ok (JObject (xs @ ys) (index_erase a t) (n - 1))" "json_ok v" using ok by (auto simp: members_ok_iff)
qed

text \<open>C26: \<open>json_object_remove\<close> of a member: the object loses exactly this member, the others keep their
  order, and its index and size are right again; the caller gets the value, with its blocks and a new
  block for the value itself, and the block of the member is freed. When the allocation of the new
  block fails nothing changes.\<close>

theorem json_object_remove_correct:
  assumes ok: "json_ok (JObject ms t n)" and a: "a \<in> member_addr ` set ms"
    and h: "holds h R (owned (JObject ms t n))"
    and call: "json_object_remove a (ms, t, n) h = (r, (ms', t', n'), h')"
  shows "case r of
     None \<Rightarrow> (ms', t', n') = (ms, t, n) \<and> holds h' R (owned (JObject ms t n))
   | Some (val, v) \<Rightarrow> (\<exists>xs name ys. ms = xs @ Member a name v # ys \<and> ms' = xs @ ys)
       \<and> json_ok (JObject ms' t' n') \<and> json_ok v \<and> holds h' R (val # owned v @ owned (JObject ms' t' n'))"
proof -
  obtain xs m ys where m: "ms = xs @ m # ys" "member_addr m = a" "find (\<lambda>m. member_addr m = a) ms = Some m"
    "remove1 m ms = xs @ ys" using find_key [OF a] by metis
  obtain name v where mv: "m = Member a name v" using m(2) by (cases m) auto
  obtain p h1 where p: "malloc h = (p, h1)" by force
  show ?thesis
  proof (cases p)
    case None
    then show ?thesis using call p m h by (auto intro: holds_malloc_None)
  next
    case (Some val)
    have r: "r = Some (val, v)" "ms' = xs @ ys" "t' = index_erase a t" "n' = n - 1" "h' = free a h1"
      using call p Some m mv by auto
    have "distinct (map member_addr ms)" using h distinct_member_addr by (simp add: holds_def)
    then have ok': "json_ok (JObject ms' t' n')" "json_ok v"
      using object_remove_ok [of xs a name v ys t n] ok unfolding r(2-4) m(1) mv by blast+
    have "holds h1 R (val # owned_members ms)" using holds_malloc [OF h] p Some by simp
    then have "holds h1 R (a # val # owned v @ owned_members (xs @ ys))"
      by (rule holds_perm) (simp add: m(1) mv mset_owned)
    then have "holds h' R (val # owned v @ owned_members ms')" unfolding r by (rule holds_free)
    then show ?thesis using ok' r(1,2) m(1) mv by auto
  qed
qed

theorem json_object_remove_correct_witness:
  "\<exists>r ms' t' n' h'. json_object_remove 0 ([Member 0 ''k'' JNull], Node RB_BLACK Leaf (''k'', 0) Leaf, 1)
       \<lparr>outcomes = [], brk = 1, live = {0}, bad_free = False\<rparr> = (r, (ms', t', n'), h')
     \<and> r = Some (1, JNull) \<and> holds h' {} [1]"
proof -
  let ?h = "\<lparr>outcomes = [], brk = 1, live = {0}, bad_free = False\<rparr>"
  let ?ms = "[Member 0 ''k'' JNull]" and ?t = "Node RB_BLACK Leaf (''k'', 0) Leaf"
  obtain r ms' t' n' h' where i: "json_object_remove 0 (?ms, ?t, 1) ?h = (r, (ms', t', n'), h')" by (metis surj_pair)
  then have r: "r = Some (1, JNull)" "ms' = []" by (auto simp: malloc_def)
  have "case r of
     None \<Rightarrow> (ms', t', n') = (?ms, ?t, 1) \<and> holds h' {} (owned (JObject ?ms ?t 1))
   | Some (val, v) \<Rightarrow> (\<exists>xs name ys. ?ms = xs @ Member 0 name v # ys \<and> ms' = xs @ ys)
       \<and> json_ok (JObject ms' t' n') \<and> json_ok v \<and> holds h' {} (val # owned v @ owned (JObject ms' t' n'))"
    by (rule json_object_remove_correct [OF _ _ _ i])
      (simp_all add: index_ok_def rb_tree_def holds_def heap_ok_def)
  then show ?thesis using r i by simp
qed

text \<open>C27: \<open>json_object_find\<close> returns a member whose name is equal, as a C string, to the name asked for,
  and returns \<open>NULL\<close> only when the object has no such member.\<close>

theorem json_object_find_correct:
  assumes "json_ok (JObject ms t n)"
  shows "case json_object_find name (ms, t, n) of
     None \<Rightarrow> \<forall>m \<in> set ms. cstr (member_name m) \<noteq> cstr name
   | Some a \<Rightarrow> \<exists>m \<in> set ms. member_addr m = a \<and> cstr (member_name m) = cstr name"
proof -
  let ?f = "\<lambda>m. (member_name m, member_addr m)"
  have ix: "sorted_wrt (\<lambda>x y. strcmp (fst x) (fst y) \<le> 0) (inorder t)" "mset (inorder t) = mset (map ?f ms)"
    using assms by (auto simp: index_ok_def)
  have s: "set (inorder t) = ?f ` set ms" using ix(2) by (metis list.set_map set_mset_mset)
  show ?thesis
  proof (cases "index_find name t")
    case None
    have "cstr (member_name m) \<noteq> cstr name" if m: "m \<in> set ms" for m
      using index_find_None [OF ix(1) None, of "?f m"] m s by simp
    then show ?thesis using None by simp
  next
    case (Some a)
    then show ?thesis using index_find_Some [of name t a] s by auto
  qed
qed

theorem json_object_find_correct_witness:
  "json_object_find ''k'' ([Member 0 ''k'' JNull], Node RB_BLACK Leaf (''k'', 0) Leaf, 1) = Some 0
   \<and> json_object_find ''l'' ([Member 0 ''k'' JNull], Node RB_BLACK Leaf (''k'', 0) Leaf, 1) = None
   \<and> cstr ''k'' \<noteq> cstr ''l''"
proof -
  have ok: "json_ok (JObject [Member 0 ''k'' JNull] (Node RB_BLACK Leaf (''k'', 0) Leaf) 1)"
    by (simp add: index_ok_def rb_tree_def)
  have f: "json_object_find ''k'' ([Member 0 ''k'' JNull], Node RB_BLACK Leaf (''k'', 0) Leaf, 1) = Some 0"
    "json_object_find ''l'' ([Member 0 ''k'' JNull], Node RB_BLACK Leaf (''k'', 0) Leaf, 1) = None"
    by code_simp+
  show ?thesis using json_object_find_correct [OF ok, of "''l''"] f by simp
qed

section \<open>Positions and iteration\<close>

lemma list_next_after:
  assumes "distinct (map key (xs @ x # ys))"
  shows "list_next key (Some (key x)) (xs @ x # ys) = (case ys of [] \<Rightarrow> None | y # _ \<Rightarrow> Some (key y))"
proof -
  have "dropWhile (\<lambda>y. key y \<noteq> key x) (xs @ x # ys) = x # ys"
    using assms by (induction xs) auto
  then show ?thesis by (simp split: list.split)
qed

lemma for_each_from_list:
  "distinct (map key (xs @ x # ys)) \<Longrightarrow>
     for_each_from (\<lambda>p. list_next key p (xs @ x # ys)) (Some (key x)) = Some (map key ys)"
proof (induction ys arbitrary: xs x)
  case Nil
  then show ?case using list_next_after [of key xs x "[]"] by (subst for_each_from.simps) (simp del: list_next.simps)
next
  case (Cons y ys)
  then show ?case using Cons.IH [of "xs @ [x]" y] list_next_after [OF Cons.prems]
    by (subst for_each_from.simps) (simp del: list_next.simps)
qed

lemma for_each_list: "distinct (map key xs) \<Longrightarrow> for_each_from (\<lambda>p. list_next key p xs) None = Some (map key xs)"
  using for_each_from_list [of key "[]"] by (cases xs) (simp_all add: for_each_from.simps [of _ None])

lemma for_each_list_prev:
  "distinct (map key xs) \<Longrightarrow> for_each_from (\<lambda>p. list_prev key p xs) None = Some (rev (map key xs))"
  using for_each_list [of key "rev xs"] by (simp add: list_prev_def flip: rev_map)

text \<open>the iteration macros end, and visit every member of an object and every element of an array
  once, in order or in the reverse order; the name and the value of an iteration step belong to the
  same member.\<close>

theorem json_for_each_visits_all:
  assumes "distinct (owned (JObject ms t n))" "distinct (owned (JArray es k))"
  shows "json_object_for_each (ms, t, n) = Some (map member_addr ms)
    \<and> json_object_for_each_prev (ms, t, n) = Some (rev (map member_addr ms))
    \<and> json_array_for_each (es, k) = Some (map element_addr es)
    \<and> json_array_for_each_prev (es, k) = Some (rev (map element_addr es))
    \<and> json_object_next_name p (ms, t, n) = json_object_next_value p (ms, t, n)
    \<and> json_object_prev_name p (ms, t, n) = json_object_prev_value p (ms, t, n)"
  using assms distinct_member_addr [of ms] distinct_element_addr [of es]
  by (simp_all add: json_object_for_each_def json_object_for_each_prev_def json_array_for_each_def
      json_array_for_each_prev_def json_object_next_value_def json_object_prev_value_def
      json_array_next_value_def json_array_prev_value_def json_object_next_name_def json_object_prev_name_def
      for_each_list for_each_list_prev)

theorem json_for_each_visits_all_witness:
  "json_object_for_each ([Member 3 ''k'' JNull, Member 1 ''l'' (JString 2 ''x'')], Leaf, 2) = Some [3, 1]
   \<and> json_array_for_each_prev ([Element 5 JTrue, Element 4 JNull], 2) = Some [4, 5]"
  using json_for_each_visits_all [of "[Member 3 ''k'' JNull, Member 1 ''l'' (JString 2 ''x'')]" Leaf 2 "[]" 0]
    json_for_each_visits_all [of "[]" Leaf 0 "[Element 5 JTrue, Element 4 JNull]" 2]
  by simp

lemma list_insert_at:
  assumes "distinct (map key (xs @ y # ys))"
  shows "list_insert key (After (key y)) x (xs @ y # ys) = xs @ y # x # ys"
    and "list_insert key (Before (key y)) x (xs @ y # ys) = xs @ x # y # ys"
proof -
  have "dropWhile (\<lambda>z. key z \<noteq> key y) (xs @ y # ys) = y # ys \<and> takeWhile (\<lambda>z. key z \<noteq> key y) (xs @ y # ys) = xs"
    using assms by (induction xs) auto
  then show "list_insert key (After (key y)) x (xs @ y # ys) = xs @ y # x # ys"
    "list_insert key (Before (key y)) x (xs @ y # ys) = xs @ x # y # ys" by simp_all
qed

text \<open>the position of an insertion: \<open>json_object_insert_after\<close> and \<open>json_object_insert_before\<close> put the
  new member directly after and directly before the given one; without one, at the beginning and at
  the end; \<open>json_object_append\<close> puts it at the end.\<close>

theorem json_object_insert_position:
  assumes d: "distinct (map member_addr (xs @ m # ys))"
  shows "(case json_object_insert_after (Some (member_addr m)) (xs @ m # ys, t, n) name arg h of
       (Some a, (ms', _), _) \<Rightarrow> \<exists>v. ms' = xs @ m # Member a (cstr name) v # ys
     | (None, obj', _) \<Rightarrow> obj' = (xs @ m # ys, t, n))
   \<and> (case json_object_insert_before (Some (member_addr m)) (xs @ m # ys, t, n) name arg h of
       (Some a, (ms', _), _) \<Rightarrow> \<exists>v. ms' = xs @ Member a (cstr name) v # m # ys
     | (None, obj', _) \<Rightarrow> obj' = (xs @ m # ys, t, n))
   \<and> (case json_object_insert_after None (ms, t, n) name arg h of
       (Some a, (ms', _), _) \<Rightarrow> \<exists>v. ms' = Member a (cstr name) v # ms
     | (None, obj', _) \<Rightarrow> obj' = (ms, t, n))
   \<and> (case json_object_append (ms, t, n) name arg h of
       (Some a, (ms', _), _) \<Rightarrow> \<exists>v. ms' = ms @ [Member a (cstr name) v]
     | (None, obj', _) \<Rightarrow> obj' = (ms, t, n))
   \<and> json_object_insert_before None obj name arg h = json_object_append obj name arg h"
proof -
  have *: "case json_object_insert name arg pos (ms, t, n) h of
      (Some a, (ms', _), _) \<Rightarrow> \<exists>v. ms' = list_insert member_addr pos (Member a (cstr name) v) ms
    | (None, obj', _) \<Rightarrow> obj' = (ms, t, n)" for pos ms
    by (auto simp: insert_json_member_def split: prod.splits option.splits)
  show ?thesis
    using * [of "xs @ m # ys" "After (member_addr m)"] * [of "xs @ m # ys" "Before (member_addr m)"]
      * [of ms At_Head] * [of ms At_Tail]
    unfolding json_object_insert_after_def json_object_insert_before_def json_object_append_def
      list_insert_at [OF d] list_insert.simps(1,2) option.case by blast
qed

theorem json_object_insert_position_witness:
  "\<exists>t' h' v. json_object_insert_after (Some 7) ([Member 7 ''k'' JNull, Member 8 ''m'' JNull], Leaf, 2) ''l''
     (Arg_Type 5) (empty_heap []) = (Some 0, ([Member 7 ''k'' JNull, Member 0 ''l'' v, Member 8 ''m'' JNull], t'), h')"
proof -
  let ?c = "json_object_insert_after (Some 7) ([Member 7 ''k'' JNull, Member 8 ''m'' JNull], Leaf, 2) ''l''
     (Arg_Type 5) (empty_heap [])"
  obtain r ms' t' h' where c: "?c = (r, (ms', t'), h')" by (metis surj_pair)
  have "fst ?c = Some 0" by (simp add: json_object_insert_after_def malloc_def empty_heap_def split: prod.split)
  then have "?c = (Some 0, (ms', t'), h')" using c by simp
  then show ?thesis
    using json_object_insert_position [of "[]" "Member 7 ''k'' JNull" "[Member 8 ''m'' JNull]" Leaf 2 "''l''"
        "Arg_Type 5" "empty_heap []"] by (simp add: cstr_def)
qed

section \<open>Arrays\<close>

lemma json_array_insert_holds:
  assumes ok: "json_ok (JArray es n)" and pos: "pos_ok element_addr pos es" and arg: "arg_ok arg"
    and h: "holds h R (arg_owned arg @ owned (JArray es n))"
  shows "case json_array_insert arg pos (es, n) h of
     (None, (es', n'), h') \<Rightarrow> (es', n') = (es, n) \<and> holds h' R (arg_owned arg @ owned (JArray es n))
   | (Some b, (es', n'), h') \<Rightarrow> json_ok (JArray es' n') \<and> holds h' R (owned (JArray es' n'))
       \<and> (\<exists>v. arg_value arg v \<and> es' = list_insert element_addr pos (Element b v) es)"
proof -
  obtain p h1 where p: "malloc h = (p, h1)" by force
  show ?thesis
  proof (cases p)
    case None
    then show ?thesis using p h by (auto intro: holds_malloc_None)
  next
    case (Some b)
    have h1: "holds h1 R (b # arg_owned arg @ owned (JArray es n))" using holds_malloc [OF h] p Some by blast
    obtain w h2 where w: "set_json_value arg h1 = (w, h2)" by force
    show ?thesis
    proof (cases w)
      case None
      have "holds h2 R (b # arg_owned arg @ owned (JArray es n))" using set_json_value_None [OF h1] w None by simp
      then show ?thesis using p Some w None by (auto intro: holds_free)
    next
      case v: (Some v)
      have "holds h1 R (arg_owned arg @ b # owned (JArray es n))" using h1 by (rule holds_perm) simp
      from set_json_value_Some [OF this arg] w v
      have v': "holds h2 R (owned v @ b # owned (JArray es n))" "json_ok v" "arg_value arg v" by auto
      let ?es = "list_insert element_addr pos (Element b v) es"
      have "holds h2 R (owned_elements ?es)"
        using v'(1) by (rule holds_perm) (simp add: owned_list_insert(2) [OF pos])
      moreover have m: "mset ?es = add_mset (Element b v) (mset es)" by (rule mset_list_insert [OF pos])
      moreover from m have "length ?es = Suc (length es)" by (metis size_add_mset size_mset)
      moreover have "elements_ok ?es" using ok v'(2) unfolding elements_ok_iff m by (auto simp: elements_ok_iff)
      ultimately show ?thesis using ok p Some w v v'(2,3) by auto
    qed
  qed
qed

lemma json_array_remove_holds:
  assumes ok: "json_ok (JArray es n)" and a: "a \<in> element_addr ` set es"
    and h: "holds h R (owned (JArray es n))"
  shows "case json_array_remove a (es, n) h of
     (None, (es', n'), h') \<Rightarrow> (es', n') = (es, n) \<and> holds h' R (owned (JArray es n))
   | (Some (val, v), (es', n'), h') \<Rightarrow> (\<exists>xs ys. es = xs @ Element a v # ys \<and> es' = xs @ ys)
       \<and> json_ok (JArray es' n') \<and> json_ok v \<and> holds h' R (val # owned v @ owned (JArray es' n'))"
proof -
  obtain xs e ys where e: "es = xs @ e # ys" "element_addr e = a" "find (\<lambda>e. element_addr e = a) es = Some e"
    "remove1 e es = xs @ ys" using find_key [OF a] by metis
  obtain v where ev: "e = Element a v" using e(2) by (cases e) auto
  obtain p h1 where p: "malloc h = (p, h1)" by force
  show ?thesis
  proof (cases p)
    case None
    then show ?thesis using p e h by (auto intro: holds_malloc_None)
  next
    case (Some val)
    have "holds h1 R (val # owned_elements es)" using holds_malloc [OF h] p Some by simp
    then have "holds h1 R (a # val # owned v @ owned_elements (xs @ ys))"
      by (rule holds_perm) (simp add: e(1) ev mset_owned)
    then have "holds (free a h1) R (val # owned v @ owned_elements (xs @ ys))" by (rule holds_free)
    then show ?thesis using p Some e ev ok by (auto simp: elements_ok_iff)
  qed
qed

text \<open>insertion into an array, at any position: on success the array has one more element, at that
  position, with the value of the arguments, its size field is right and it owns all blocks; when an
  allocation fails nothing changes. \<open>json_array_remove\<close> takes exactly the given element out and hands
  its value to the caller.\<close>

theorem json_array_update_correct:
  assumes "json_ok (JArray es n)" "arg_ok arg" "pos_ok element_addr pos es" "a \<in> element_addr ` set es"
    "holds h R (arg_owned arg @ owned (JArray es n))" "holds h1 R (owned (JArray es n))"
  shows "(case json_array_insert arg pos (es, n) h of
     (None, (es', n'), h') \<Rightarrow> (es', n') = (es, n) \<and> holds h' R (arg_owned arg @ owned (JArray es n))
   | (Some b, (es', n'), h') \<Rightarrow> json_ok (JArray es' n') \<and> holds h' R (owned (JArray es' n'))
       \<and> (\<exists>v. arg_value arg v \<and> es' = list_insert element_addr pos (Element b v) es))
   \<and> (case json_array_remove a (es, n) h1 of
     (None, (es', n'), h') \<Rightarrow> (es', n') = (es, n) \<and> holds h' R (owned (JArray es n))
   | (Some (val, v), (es', n'), h') \<Rightarrow> (\<exists>xs ys. es = xs @ Element a v # ys \<and> es' = xs @ ys)
       \<and> json_ok (JArray es' n') \<and> json_ok v \<and> holds h' R (val # owned v @ owned (JArray es' n')))"
  using json_array_insert_holds [OF assms(1,3,2,5)] json_array_remove_holds [OF assms(1,4,6)] by (rule conjI)

theorem json_array_update_correct_witness:
  "\<exists>h'. json_array_insert Arg_Array At_Head ([Element 0 JNull], 1) \<lparr>outcomes = [], brk = 1, live = {0}, bad_free = False\<rparr>
      = (Some 1, ([Element 1 (JArray [] 0), Element 0 JNull], 2), h') \<and> holds h' {} [1, 0]"
proof -
  let ?h = "\<lparr>outcomes = [], brk = 1, live = {0}, bad_free = False\<rparr>"
  obtain h' where h': "json_array_insert Arg_Array At_Head ([Element 0 JNull], 1) ?h
      = (Some 1, ([Element 1 (JArray [] 0), Element 0 JNull], 2), h')" by (simp add: malloc_def)
  have h: "holds ?h {} (owned (JArray [Element 0 JNull] 1))" by (simp add: holds_def heap_ok_def)
  then have "holds ?h {} (arg_owned Arg_Array @ owned (JArray [Element 0 JNull] 1))" by simp
  from json_array_update_correct [OF _ _ _ _ this h, of At_Head 0] h' show ?thesis by simp
qed

section \<open>Copies\<close>

text \<open>The contents of a value: what a user of the interface reads from it. Names and strings are
  read as C strings.\<close>

datatype json_doc =
    DString "byte list"
  | DNumber double
  | DObject "(byte list \<times> json_doc) list"
  | DArray "json_doc list"
  | DTrue
  | DFalse
  | DNull
  | DOther int

primrec content :: "json_value \<Rightarrow> json_doc"
  and content_members :: "json_member list \<Rightarrow> (byte list \<times> json_doc) list"
  and content_elements :: "json_element list \<Rightarrow> json_doc list"
  and content_member :: "json_member \<Rightarrow> byte list \<times> json_doc"
  and content_element :: "json_element \<Rightarrow> json_doc"
where
  "content (JString a s) = DString (cstr s)"
| "content (JNumber d) = DNumber d"
| "content (JObject ms t n) = DObject (content_members ms)"
| "content (JArray es n) = DArray (content_elements es)"
| "content JTrue = DTrue"
| "content JFalse = DFalse"
| "content JNull = DNull"
| "content (JOther t) = DOther t"
| "content_members [] = []"
| "content_members (m # ms) = content_member m # content_members ms"
| "content_elements [] = []"
| "content_elements (e # es) = content_element e # content_elements es"
| "content_member (Member a name v) = (cstr name, content v)"
| "content_element (Element a v) = content v"

lemma content_members_append: "content_members (ms @ ms') = content_members ms @ content_members ms'"
  by (induction ms) auto

lemma content_elements_append: "content_elements (es @ es') = content_elements es @ content_elements es'"
  by (induction es) auto

text \<open>What a copy of a value, a member or an element is, and what the loops have done when they stop.\<close>

definition copied :: "('a \<Rightarrow> addr list) \<Rightarrow> ('a \<Rightarrow> bool) \<Rightarrow> ('a \<Rightarrow> 'b) \<Rightarrow> 'a \<Rightarrow> heap_st \<Rightarrow> 'a option \<times> heap_st \<Rightarrow> bool" where
  "copied own ok con v h r \<longleftrightarrow>
     (case r of
        (None, h') \<Rightarrow> grows h h' []
      | (Some v', h') \<Rightarrow> grows h h' (own v') \<and> ok v' \<and> con v' = con v)"

definition copied_members :: "json_member list \<Rightarrow> bool" where
  "copied_members ms \<longleftrightarrow> (\<forall>h0 h ms0 t0. heap_ok h0 \<and> grows h0 h (owned_members ms0) \<and> members_ok ms0 \<and> index_ok ms0 t0 \<longrightarrow>
     (case copy_json_members ms (ms0, t0) h of
        (b, (ms', t'), h') \<Rightarrow> grows h0 h' (owned_members ms')
          \<and> (b \<longrightarrow> members_ok ms' \<and> index_ok ms' t' \<and> content_members ms' = content_members ms0 @ content_members ms)))"

definition copied_elements :: "json_element list \<Rightarrow> bool" where
  "copied_elements es \<longleftrightarrow> (\<forall>h0 h es0. heap_ok h0 \<and> grows h0 h (owned_elements es0) \<and> elements_ok es0 \<longrightarrow>
     (case copy_json_elements es es0 h of
        (b, es', h') \<Rightarrow> grows h0 h' (owned_elements es')
          \<and> (b \<longrightarrow> elements_ok es' \<and> content_elements es' = content_elements es0 @ content_elements es)))"

lemma copied_malloc:
  assumes "heap_ok h" "malloc h = (Some a, h1)" "copied owned json_ok content v h1 r"
  obtains h' where "r = (None, h')" "grows h (free a h') []"
  | v' h' where "r = (Some v', h')" "grows h h' (a # owned v')" "json_ok v'" "content v' = content v"
proof -
  have g: "grows h h1 [a]" using assms(2) by (rule grows_malloc_Some)
  obtain w h' where r: "r = (w, h')" by force
  show ?thesis
  proof (cases w)
    case None
    then have "grows h1 h' []" using assms(3) r by (simp add: copied_def)
    then have "grows h h' ([] @ [a])" using grows_trans [OF g] by simp
    then have "grows h (free a h') []" by (rule grows_shrinks [OF assms(1) _ shrinks_free])
    then show ?thesis using that(1) r None by blast
  next
    case (Some v')
    then have "grows h1 h' (owned v')" "json_ok v'" "content v' = content v" using assms(3) r by (auto simp: copied_def)
    then show ?thesis using that(2) grows_trans [OF g] r Some by fastforce
  qed
qed

lemma copy_member_ok:
  assumes "heap_ok h" "\<And>h. heap_ok h \<Longrightarrow> copied owned json_ok content v h (copy_json_value v h)"
  shows "copied owned_member member_ok content_member (Member a name v) h (copy_json_member (Member a name v) h)"
proof -
  obtain p h1 where p: "malloc h = (p, h1)" by force
  show ?thesis
  proof (cases p)
    case None
    then show ?thesis using p by (simp add: copied_def grows_malloc_None)
  next
    case (Some a')
    have "copied owned json_ok content v h1 (copy_json_value v h1)"
      using assms p heap_ok_malloc by blast
    with assms(1) p [unfolded Some] show ?thesis
      by (cases rule: copied_malloc) (simp_all add: copied_def p Some)
  qed
qed

lemma copy_element_ok:
  assumes "heap_ok h" "\<And>h. heap_ok h \<Longrightarrow> copied owned json_ok content v h (copy_json_value v h)"
  shows "copied owned_element element_ok content_element (Element a v) h (copy_json_element (Element a v) h)"
proof -
  obtain p h1 where p: "malloc h = (p, h1)" by force
  show ?thesis
  proof (cases p)
    case None
    then show ?thesis using p by (simp add: copied_def grows_malloc_None)
  next
    case (Some a')
    have "copied owned json_ok content v h1 (copy_json_value v h1)"
      using assms p heap_ok_malloc by blast
    with assms(1) p [unfolded Some] show ?thesis
      by (cases rule: copied_malloc) (simp_all add: copied_def p Some)
  qed
qed

lemma copied_members_Cons:
  assumes m: "\<And>h. heap_ok h \<Longrightarrow> copied owned_member member_ok content_member m h (copy_json_member m h)"
    and ms: "copied_members ms"
  shows "copied_members (m # ms)"
  unfolding copied_members_def
proof (intro allI impI, elim conjE)
  fix h0 h ms0 t0
  assume a: "heap_ok h0" "grows h0 h (owned_members ms0)" "members_ok ms0" "index_ok ms0 t0"
  then have c: "copied owned_member member_ok content_member m h (copy_json_member m h)" using m grows_heap_ok by blast
  obtain w h1 where w: "copy_json_member m h = (w, h1)" by force
  show "case copy_json_members (m # ms) (ms0, t0) h of
        (b, (ms', t'), h') \<Rightarrow> grows h0 h' (owned_members ms')
          \<and> (b \<longrightarrow> members_ok ms' \<and> index_ok ms' t' \<and> content_members ms' = content_members ms0 @ content_members (m # ms))"
  proof (cases w)
    case None
    then have "grows h h1 []" using c w by (simp add: copied_def)
    then have "grows h0 h1 (owned_members ms0)" using grows_trans [OF a(2)] by fastforce
    then show ?thesis using w None by simp
  next
    case (Some m')
    have m': "grows h h1 (owned_member m')" "member_ok m'" "content_member m' = content_member m"
      using c w Some by (auto simp: copied_def)
    obtain t1 where t1: "insert_json_member m' At_Tail (ms0, t0) = (ms0 @ [m'], t1)" by (simp add: insert_json_member_def)
    have "grows h0 h1 (owned_members (ms0 @ [m']))" using grows_trans [OF a(2) m'(1)] by simp
    moreover have "members_ok (ms0 @ [m'])" using a(3) m'(2) by (induction ms0) auto
    moreover have "index_ok (ms0 @ [m']) t1" using insert_json_member_ok [OF a(4) _ t1] by simp
    ultimately have "case copy_json_members ms (ms0 @ [m'], t1) h1 of
        (b, (ms', t'), h') \<Rightarrow> grows h0 h' (owned_members ms')
          \<and> (b \<longrightarrow> members_ok ms' \<and> index_ok ms' t' \<and> content_members ms' = content_members (ms0 @ [m']) @ content_members ms)"
      using ms [unfolded copied_members_def, rule_format, of h0 h1 "ms0 @ [m']" t1] a(1) by simp
    then show ?thesis using w Some t1 m'(3) by (simp add: content_members_append case_prod_unfold)
  qed
qed

lemma copied_elements_Cons:
  assumes e: "\<And>h. heap_ok h \<Longrightarrow> copied owned_element element_ok content_element e h (copy_json_element e h)"
    and es: "copied_elements es"
  shows "copied_elements (e # es)"
  unfolding copied_elements_def
proof (intro allI impI, elim conjE)
  fix h0 h es0
  assume a: "heap_ok h0" "grows h0 h (owned_elements es0)" "elements_ok es0"
  then have c: "copied owned_element element_ok content_element e h (copy_json_element e h)" using e grows_heap_ok by blast
  obtain w h1 where w: "copy_json_element e h = (w, h1)" by force
  show "case copy_json_elements (e # es) es0 h of
        (b, es', h') \<Rightarrow> grows h0 h' (owned_elements es')
          \<and> (b \<longrightarrow> elements_ok es' \<and> content_elements es' = content_elements es0 @ content_elements (e # es))"
  proof (cases w)
    case None
    then have "grows h h1 []" using c w by (simp add: copied_def)
    then have "grows h0 h1 (owned_elements es0)" using grows_trans [OF a(2)] by fastforce
    then show ?thesis using w None by simp
  next
    case (Some e')
    have e': "grows h h1 (owned_element e')" "element_ok e'" "content_element e' = content_element e"
      using c w Some by (auto simp: copied_def)
    have "grows h0 h1 (owned_elements (es0 @ [e']))" using grows_trans [OF a(2) e'(1)] by simp
    moreover have "elements_ok (es0 @ [e'])" using a(3) e'(2) by (induction es0) auto
    ultimately have "case copy_json_elements es (es0 @ [e']) h1 of
        (b, es', h') \<Rightarrow> grows h0 h' (owned_elements es')
          \<and> (b \<longrightarrow> elements_ok es' \<and> content_elements es' = content_elements (es0 @ [e']) @ content_elements es)"
      using es [unfolded copied_elements_def, rule_format, of h0 h1 "es0 @ [e']"] a(1) by simp
    then show ?thesis using w Some e'(3) by (simp add: content_elements_append case_prod_unfold)
  qed
qed

lemma length_content [simp]:
  "length (content_members ms) = length ms" "length (content_elements es) = length es"
proof -
  show "length (content_members ms) = length ms" by (induction ms) auto
  show "length (content_elements es) = length es" by (induction es) auto
qed

lemma copied_object:
  assumes "copied_members ms" "heap_ok h" "n = int (length ms)"
  shows "copied owned json_ok content (JObject ms t n) h (copy_json_value (JObject ms t n) h)"
proof -
  obtain b ms' t' h' where c: "copy_json_members ms ([], Leaf) h = (b, (ms', t'), h')" by (metis surj_pair)
  have "index_ok [] Leaf" by (simp add: index_ok_def rb_tree_def)
  then have r: "grows h h' (owned_members ms')"
    "b \<Longrightarrow> members_ok ms' \<and> index_ok ms' t' \<and> content_members ms' = content_members ms"
    using assms(1) c unfolding copied_members_def
    by (fastforce dest!: spec [of _ h] spec [of _ h] spec [of _ "[]"] spec [of _ Leaf] simp: assms(2))+
  then have "b \<Longrightarrow> length ms' = length ms" using length_content(1) by metis
  moreover have "grows h (destroy_json_members ms' h') []"
    using grows_shrinks [OF assms(2), of h' "[]"] r(1) destroy_shrinks(2) by simp
  ultimately show ?thesis using r assms(3) c by (cases b) (simp_all add: copied_def)
qed

lemma copied_array:
  assumes "copied_elements es" "heap_ok h" "n = int (length es)"
  shows "copied owned json_ok content (JArray es n) h (copy_json_value (JArray es n) h)"
proof -
  obtain b es' h' where c: "copy_json_elements es [] h = (b, es', h')" by (metis surj_pair)
  then have r: "grows h h' (owned_elements es')"
    "b \<Longrightarrow> elements_ok es' \<and> content_elements es' = content_elements es"
    using assms(1) unfolding copied_elements_def
    by (fastforce dest!: spec [of _ h] spec [of _ h] spec [of _ "[]"] simp: assms(2))+
  then have "b \<Longrightarrow> length es' = length es" using length_content(2) by metis
  moreover have "grows h (destroy_json_elements es' h') []"
    using grows_shrinks [OF assms(2), of h' "[]"] r(1) destroy_shrinks(3) by simp
  ultimately show ?thesis using r assms(3) c by (cases b) (simp_all add: copied_def)
qed

lemma copied_string: "copied owned json_ok content (JString a s) h (copy_json_value (JString a s) h)"
  by (cases "malloc h"; cases "fst (malloc h)") (simp_all add: copied_def grows_malloc_None grows_malloc_Some)

lemma copy_json_value_copied:
  "json_ok v \<Longrightarrow> heap_ok h \<Longrightarrow> copied owned json_ok content v h (copy_json_value v h)"
  "members_ok ms \<Longrightarrow> copied_members ms"
  "elements_ok es \<Longrightarrow> copied_elements es"
  "member_ok m \<Longrightarrow> heap_ok h \<Longrightarrow> copied owned_member member_ok content_member m h (copy_json_member m h)"
  "element_ok e \<Longrightarrow> heap_ok h \<Longrightarrow> copied owned_element element_ok content_element e h (copy_json_element e h)"
proof (induction v and ms and es and m and e arbitrary: h and and and h and h
    rule: copy_json_value.induct copy_json_members.induct copy_json_elements.induct
      copy_json_member.induct copy_json_element.induct)
  case (JString a s)
  show ?case by (rule copied_string)
next
  case (JObject ms t n)
  then show ?case by (simp only: json_ok.simps copied_object)
next
  case (JArray es n)
  then show ?case by (simp only: json_ok.simps copied_array)
next
  case (Cons_json_member m ms)
  then show ?case using copied_members_Cons by simp
next
  case (Cons_json_element e es)
  then show ?case using copied_elements_Cons by simp
next
  case (Member a name v)
  then show ?case using copy_member_ok by simp
next
  case (Element a v)
  then show ?case using copy_element_ok by simp
qed (simp_all add: copied_def copied_members_def copied_elements_def)

text \<open>C28: \<open>json_value_copy\<close> returns a value with the same contents, names and strings read as C strings, in
  blocks of its own, and that is well formed as its source; the caller holds exactly the new blocks.
  Whatever allocation fails, a copy that returns \<open>NULL\<close> leaves the set of blocks as it was.\<close>

theorem json_value_copy_correct:
  assumes "json_ok v" "heap_ok h" "json_value_copy v h = (r, h')"
  shows "case r of
     None \<Rightarrow> live h' = live h \<and> \<not> bad_free h'
   | Some (c, v') \<Rightarrow> content v' = content v \<and> json_ok v' \<and> distinct (c # owned v')
       \<and> live h' = live h \<union> set (c # owned v') \<and> set (c # owned v') \<inter> live h = {} \<and> \<not> bad_free h'"
proof -
  obtain p h1 where p: "malloc h = (p, h1)" by force
  have hok: "heap_ok h1" "\<not> bad_free h" using heap_ok_malloc [OF assms(2) p] assms(2) by (auto simp: heap_ok_def)
  show ?thesis
  proof (cases p)
    case None
    then show ?thesis using assms(3) p hok(2) malloc_None [of h h1] by (auto simp: json_value_copy_def)
  next
    case (Some c)
    have "copied owned json_ok content v h1 (copy_json_value v h1)" by (rule copy_json_value_copied(1) [OF assms(1) hok(1)])
    with assms(2) p [unfolded Some] show ?thesis
    proof (cases rule: copied_malloc)
      case (1 h2)
      then have "r = None" "grows h h' []" using assms(3) p Some by (auto simp: json_value_copy_def)
      then show ?thesis using hok(2) by (simp add: grows_def)
    next
      case (2 v' h2)
      then have r: "r = Some (c, v')" "h' = h2" using assms(3) p Some by (auto simp: json_value_copy_def)
      then show ?thesis using 2 hok(2) heap_ok_disjoint [OF assms(2) 2(2)] by (auto simp: grows_def)
    qed
  qed
qed

theorem json_value_copy_correct_witness:
  "\<exists>h'. json_value_copy (JArray [Element 0 JTrue] 1) \<lparr>outcomes = [], brk = 1, live = {0}, bad_free = False\<rparr>
     = (Some (1, JArray [Element 2 JTrue] 1), h') \<and> live h' = {0, 1, 2}"
proof -
  let ?v = "JArray [Element 0 JTrue] 1" and ?h = "\<lparr>outcomes = [], brk = 1, live = {0}, bad_free = False\<rparr>"
  obtain h' where h': "json_value_copy ?v ?h = (Some (1, JArray [Element 2 JTrue] 1), h')"
    by (simp add: json_value_copy_def malloc_def)
  show ?thesis using json_value_copy_correct [OF _ _ h'] h' by (auto simp: heap_ok_def)
qed

end
