(* ===== verification/Json_Print.thy ===== *)
theory Json_Print
  imports Json_Api
begin

text \<open>
  The parser of \<open>src/src/util/json_parser.c\<close> against a printer. A document is a tree of strings,
  decimal numbers, objects, arrays and literals; it is printed with any white space between its
  tokens. The result is that \<open>json_value_parse\<close> accepts every printed document that is at most
  1024 levels deep and returns a value with the contents of the document: the strings, the members
  in order, and for each number the double nearest to its exact decimal value.
\<close>

section \<open>Documents\<close>

datatype json_tree =
    TString "byte list"
  | TNumber bool "byte list" "byte list"
  | TObject "(byte list \<times> json_tree) list"
  | TArray "json_tree list"
  | TTrue
  | TFalse
  | TNull

text \<open>\<open>TNumber neg ds fs\<close> is a decimal number: its sign, the digits before the point, and the digits
  after the point if there is one.\<close>

definition print_number :: "bool \<Rightarrow> byte list \<Rightarrow> byte list \<Rightarrow> byte list" where
  "print_number neg ds fs = (if neg then ''-'' else []) @ ds @ (if fs = [] then [] else CHR ''.'' # fs)"

definition print_string :: "byte list \<Rightarrow> byte list" where
  "print_string s = QUOTE # json_escape s @ [QUOTE]"

text \<open>The entries of an object or array, with the separator and the closing bracket.\<close>

fun print_list :: "byte list \<Rightarrow> byte \<Rightarrow> byte list list \<Rightarrow> byte list" where
  "print_list ws close [] = [close]"
| "print_list ws close [e] = e @ ws @ [close]"
| "print_list ws close (e # es) = e @ ws @ CHR '','' # ws @ print_list ws close es"

fun print_member :: "byte list \<Rightarrow> byte list \<times> byte list \<Rightarrow> byte list" where
  "print_member ws (name, v) = print_string name @ ws @ CHR '':'' # ws @ v"

primrec print_json :: "byte list \<Rightarrow> json_tree \<Rightarrow> byte list" where
  "print_json ws (TString s) = print_string s"
| "print_json ws (TNumber neg ds fs) = print_number neg ds fs"
| "print_json ws (TObject ms) =
     CHR ''{'' # ws @ print_list ws (CHR ''}'') (map (print_member ws) (map (map_prod id (print_json ws)) ms))"
| "print_json ws (TArray es) = CHR ''['' # ws @ print_list ws (CHR '']'') (map (print_json ws) es)"
| "print_json ws TTrue = ''true''"
| "print_json ws TFalse = ''false''"
| "print_json ws TNull = ''null''"

text \<open>The contents of a document.\<close>

definition decimal :: "bool \<Rightarrow> byte list \<Rightarrow> byte list \<Rightarrow> double" where
  "decimal neg ds fs = round_pos neg (of_int (dec_value 0 (ds @ fs)) * 10 powi (- int (length fs)))"

primrec doc_of :: "json_tree \<Rightarrow> json_doc" where
  "doc_of (TString s) = DString (cstr s)"
| "doc_of (TNumber neg ds fs) = DNumber (decimal neg ds fs)"
| "doc_of (TObject ms) = DObject (map (map_prod cstr id) (map (map_prod id doc_of) ms))"
| "doc_of (TArray es) = DArray (map doc_of es)"
| "doc_of TTrue = DTrue"
| "doc_of TFalse = DFalse"
| "doc_of TNull = DNull"

text \<open>Numbers of at most fifteen digits, without superfluous leading zeros.\<close>

definition number_ok :: "byte list \<Rightarrow> byte list \<Rightarrow> bool" where
  "number_ok ds fs \<longleftrightarrow> dec_digits ds \<and> ds \<noteq> [] \<and> (hd ds = CHR ''0'' \<longrightarrow> ds = ''0'') \<and> dec_digits fs
     \<and> length ds + length fs \<le> 15"

primrec tree_ok :: "json_tree \<Rightarrow> bool" where
  "tree_ok (TString s) \<longleftrightarrow> True"
| "tree_ok (TNumber neg ds fs) \<longleftrightarrow> number_ok ds fs"
| "tree_ok (TObject ms) \<longleftrightarrow> list_all snd (map (map_prod id tree_ok) ms)"
| "tree_ok (TArray es) \<longleftrightarrow> list_all id (map tree_ok es)"
| "tree_ok TTrue \<longleftrightarrow> True"
| "tree_ok TFalse \<longleftrightarrow> True"
| "tree_ok TNull \<longleftrightarrow> True"

primrec tree_depth :: "json_tree \<Rightarrow> nat" where
  "tree_depth (TString s) = 0"
| "tree_depth (TNumber neg ds fs) = 0"
| "tree_depth (TObject ms) = Suc (foldr max (map snd (map (map_prod id tree_depth) ms)) 0)"
| "tree_depth (TArray es) = Suc (foldr max (map tree_depth es) 0)"
| "tree_depth TTrue = 0"
| "tree_depth TFalse = 0"
| "tree_depth TNull = 0"

section \<open>Tokens\<close>

text \<open>What may follow a value.\<close>

definition value_end :: "byte list \<Rightarrow> bool" where
  "value_end r \<longleftrightarrow> \<not> isdigit (deref r) \<and> deref r \<noteq> CHR ''.'' \<and> deref r \<noteq> CHR ''E'' \<and> deref r \<noteq> CHR ''e''"

definition spaces :: "byte list \<Rightarrow> bool" where
  "spaces ws \<longleftrightarrow> list_all isspace ws"

lemma skip_digits_all: "dec_digits ds \<Longrightarrow> \<not> isdigit (deref r) \<Longrightarrow> skip_digits (ds @ r) = r"
  by (induction ds) (auto, cases r, auto)

lemma isdigit_neq: "isdigit c \<Longrightarrow> c \<noteq> CHR ''-'' \<and> c \<noteq> QUOTE \<and> c \<noteq> CHR ''{'' \<and> c \<noteq> CHR ''['' \<and> c \<noteq> CHR ''t''
    \<and> c \<noteq> CHR ''f'' \<and> c \<noteq> CHR ''n'' \<and> \<not> isspace c"
  by (auto simp: isdigit_def isspace_def ord_def)

lemma scan_number:
  assumes n: "number_ok ds fs" and r: "value_end r"
  shows "scan_json_number (print_number neg ds fs @ r) = Some (r, if fs = [] then [] else fs @ r, 0)"
proof -
  obtain d ds' where d: "ds = d # ds'" "isdigit d" "dec_digits ds'" using n by (cases ds) (auto simp: number_ok_def)
  let ?p = "if fs = [] then [] else CHR ''.'' # fs"
  have nd: "\<not> isdigit (deref (?p @ r))" using r by (auto simp: value_end_def isdigit_def ord_def)
  have sk: "skip_digits (ds' @ ?p @ r) = ?p @ r" by (rule skip_digits_all [OF d(3) nd])
  have z: "d = CHR ''0'' \<Longrightarrow> ds' = []" using n d by (auto simp: number_ok_def)
  have fr: "parse_fraction (?p @ r) = Some (r, if fs = [] then [] else fs @ r)"
  proof (cases fs)
    case Nil
    then show ?thesis using r by (simp add: parse_fraction_def value_end_def)
  next
    case (Cons f fs')
    then show ?thesis using n r skip_digits_all [of fs' r]
      by (simp add: parse_fraction_def number_ok_def value_end_def)
  qed
  have len: "length (print_number neg ds fs @ r) - length r \<le> 1000000"
    using n by (simp add: print_number_def number_ok_def)
  have "(if deref (print_number neg ds fs @ r) = CHR ''-'' then tl (print_number neg ds fs @ r)
      else print_number neg ds fs @ r) = d # ds' @ ?p @ r"
    using isdigit_neq [OF d(2)] d(1) by (cases neg) (simp_all add: print_number_def)
  then show ?thesis using d(2) z sk fr r nd len
    by (auto simp: scan_json_number_def Let_def value_end_def)
qed

lemma parse_number:
  assumes n: "number_ok ds fs" and r: "value_end r"
  shows "parse_json_number (print_number neg ds fs @ r) = Some (Inr (r, decimal neg ds fs))"
proof -
  let ?r1 = "(if fs = [] then [] else CHR ''.'' # fs) @ r" and ?f = "if fs = [] then [] else fs @ r"
  have r1: "\<not> isdigit (deref ?r1)" using r by (auto simp: value_end_def isdigit_def ord_def)
  obtain r' where f: "?f = fs @ r'" "\<not> isdigit (deref r')" using r by (cases fs) (auto simp: value_end_def)
  have "evaluate_json_number ((if neg then ''-'' else []) @ ds @ ?r1) (fs @ r') 0 = Some (decimal neg ds fs)"
    using evaluate_decimal [of ds ?r1 fs r' 0 neg] n r1 f(2) by (simp add: number_ok_def decimal_def)
  then show ?thesis using scan_number [OF assms] f(1)
    by (simp add: parse_json_number_def print_number_def)
qed

lemma skip_spaces: "spaces ws \<Longrightarrow> skip_space (ws @ s) = skip_space s"
  by (induction ws) (auto simp: spaces_def)

lemma spaces_value_end: "spaces ws \<Longrightarrow> c = CHR '','' \<or> c = CHR ''}'' \<or> c = CHR '']'' \<Longrightarrow> value_end (ws @ c # s)"
  by (cases ws) (auto simp: value_end_def spaces_def isdigit_def isspace_def ord_def)

text \<open>An allocation that cannot fail.\<close>

lemma malloc_ok:
  assumes "outcomes h = []"
  obtains a h' where "malloc h = (Some a, h')" "outcomes h' = []"
  using assms by (simp add: malloc_def)

lemma parse_string:
  "0 \<le> json_string_length (json_escape s @ QUOTE # r)"
  "parse_json_string (json_escape s @ QUOTE # r) = Some (0, r, s)"
  by (simp_all add: json_string_length_def parse_json_string_def scan_json_escape parse_json_escape)

lemma print_start: "tree_ok t \<Longrightarrow> \<exists>c s. print_json ws t = c # s \<and> \<not> isspace c \<and> c \<noteq> CHR '']'' \<and> c \<noteq> CHR ''}''"
proof (cases t)
  case (TNumber neg ds fs)
  assume "tree_ok t"
  then obtain d ds' where "ds = d # ds'" "isdigit d" using TNumber by (cases ds) (auto simp: number_ok_def)
  then show ?thesis using TNumber by (cases neg) (auto simp: print_number_def isspace_def isdigit_def ord_def)
qed (auto simp: print_string_def isspace_def ord_def)

section \<open>The round trip\<close>

text \<open>The parser reads \<open>s\<close>, followed by \<open>r\<close>, as a value with the contents \<open>doc\<close>.\<close>

definition parses :: "nat \<Rightarrow> byte list \<Rightarrow> nat \<Rightarrow> byte list \<Rightarrow> json_doc \<Rightarrow> bool" where
  "parses fuel s depth r doc \<longleftrightarrow> (\<forall>h. outcomes h = [] \<longrightarrow>
     (\<exists>v h'. parse_json_value fuel (s @ r) depth h = Some (Inr (v, r), h') \<and> content v = doc \<and> outcomes h' = []))"

text \<open>The induction hypothesis for a tree.\<close>

definition reads :: "byte list \<Rightarrow> json_tree \<Rightarrow> bool" where
  "reads ws t \<longleftrightarrow> (\<forall>fuel depth r. value_end r \<and> 2 * length (print_json ws t @ r) < fuel
     \<and> depth + tree_depth t \<le> JSON_DEPTH_LIMIT \<longrightarrow> parses fuel (print_json ws t) depth r (doc_of t))"

lemma readsD:
  assumes "reads ws t" "value_end r" "2 * length (print_json ws t @ r) < fuel" "depth + tree_depth t \<le> JSON_DEPTH_LIMIT"
    "outcomes h = []"
  obtains v h' where "parse_json_value fuel (print_json ws t @ r) depth h = Some (Inr (v, r), h')"
    "content v = doc_of t" "outcomes h' = []"
  using assms unfolding reads_def parses_def by blast

lemma elements_loop_reads:
  assumes "spaces ws" "es \<noteq> []" "\<forall>t \<in> set es. reads ws t \<and> tree_ok t \<and> depth + tree_depth t \<le> JSON_DEPTH_LIMIT"
    "2 * length (print_list ws (CHR '']'') (map (print_json ws) es) @ r) + 1 < fuel" "outcomes h = []"
  shows "\<exists>es' h'. elements_loop fuel depth cnt (print_list ws (CHR '']'') (map (print_json ws) es) @ r) arr h
      = Some (cnt + int (length es), r, arr @ es', h') \<and> content_elements es' = map doc_of es \<and> outcomes h' = []"
  using assms(2-)
proof (induction es arbitrary: fuel cnt arr h)
  case (Cons t es)
  obtain f where f: "fuel = Suc f" using Cons.prems by (cases fuel) auto
  obtain a h1 where m: "malloc h = (Some a, h1)" "outcomes h1 = []" using malloc_ok Cons.prems(4) by blast
  have t: "reads ws t" "tree_ok t" "depth + tree_depth t \<le> JSON_DEPTH_LIMIT" using Cons.prems by auto
  show ?case
  proof (cases es)
    case Nil
    have "value_end (ws @ CHR '']'' # r)" using spaces_value_end assms(1) by blast
    from readsD [OF t(1) this _ t(3) m(2), of f] Cons.prems f Nil obtain v h2 where
      "parse_json_value f (print_json ws t @ ws @ CHR '']'' # r) depth h1 = Some (Inr (v, ws @ CHR '']'' # r), h2)"
      "content v = doc_of t" "outcomes h2 = []" by auto
    then show ?thesis using f m Nil assms(1) skip_spaces
      by (intro exI [of _ "[Element a v]"] exI [of _ h2]) (simp add: isspace_def ord_def del: parse_json_value.simps)
  next
    case (Cons u us)
    let ?l = "print_list ws (CHR '']'') (map (print_json ws) es)"
    obtain c s where c: "?l = c # s" "\<not> isspace c"
      using print_start [of u ws] Cons.prems Cons by (cases us) auto
    then have sk: "skip_space (ws @ ?l @ r) = ?l @ r" using skip_spaces [OF assms(1)] by simp
    have "value_end (ws @ CHR '','' # ws @ ?l @ r)" using spaces_value_end assms(1) by blast
    from readsD [OF t(1) this _ t(3) m(2), of f] Cons.prems f Cons obtain v h2 where
      v: "parse_json_value f (print_json ws t @ ws @ CHR '','' # ws @ ?l @ r) depth h1
        = Some (Inr (v, ws @ CHR '','' # ws @ ?l @ r), h2)"
      "content v = doc_of t" "outcomes h2 = []" by auto
    have "2 * length (?l @ r) + 1 < f" using Cons.prems f Cons by simp
    with Cons.IH [of f h2 "cnt + 1" "arr @ [Element a v]"] Cons.prems v(3) Cons obtain es' h' where
      i: "elements_loop f depth (cnt + 1) (?l @ r) (arr @ [Element a v]) h2
        = Some (cnt + 1 + int (length es), r, (arr @ [Element a v]) @ es', h')"
      "content_elements es' = map doc_of es" "outcomes h' = []" by auto
    have "elements_loop fuel depth cnt (print_json ws t @ ws @ CHR '','' # ws @ ?l @ r) arr h
        = elements_loop f depth (cnt + 1) (?l @ r) (arr @ [Element a v]) h2"
      using v(1) sk skip_spaces [OF assms(1)] unfolding f by (simp add: m isspace_def ord_def del: parse_json_value.simps)
    then show ?thesis using i v(2) Cons by (intro exI [of _ "Element a v # es'"] exI [of _ h']) simp
  qed
qed simp

definition printed_members :: "byte list \<Rightarrow> (byte list \<times> json_tree) list \<Rightarrow> byte list" where
  "printed_members ws ms =
     print_list ws (CHR ''}'') (map (print_member ws) (map (map_prod id (print_json ws)) ms))"

lemma printed_members_simps:
  "printed_members ws [] = ''}''"
  "printed_members ws [(name, t)] = QUOTE # json_escape name @ QUOTE # ws @ CHR '':'' # ws @ print_json ws t @ ws @ ''}''"
  "printed_members ws ((name, t) # m # ms) = QUOTE # json_escape name @ QUOTE # ws @ CHR '':'' # ws @ print_json ws t
     @ ws @ CHR '','' # ws @ printed_members ws (m # ms)"
  by (simp_all add: printed_members_def print_string_def)

lemma printed_members_start: "ms \<noteq> [] \<Longrightarrow> \<exists>s. printed_members ws ms = QUOTE # s"
  by (cases ms; cases "tl ms") (auto simp: printed_members_simps)

lemma parse_member:
  assumes ws: "spaces ws" and t: "reads ws t" "tree_ok t" "depth + tree_depth t \<le> JSON_DEPTH_LIMIT"
    and r: "value_end r" and f: "2 * length (print_json ws t @ r) < fuel" and h: "outcomes h = []"
  obtains v h' where
    "parse_json_member (\<lambda>cursor h. parse_json_value fuel cursor depth h)
       (json_escape name @ QUOTE # ws @ CHR '':'' # ws @ print_json ws t @ r) a h
       = Some (Inr (Member a name v, r), h')"
    "content v = doc_of t" "outcomes h' = []"
proof -
  obtain v h' where v: "parse_json_value fuel (print_json ws t @ r) depth h = Some (Inr (v, r), h')"
    "content v = doc_of t" "outcomes h' = []" using readsD [OF t(1) r f t(3) h] by blast
  have c: "skip_space (ws @ CHR '':'' # ws @ print_json ws t @ r) = CHR '':'' # ws @ print_json ws t @ r"
    using skip_spaces [OF ws] by (simp add: isspace_def ord_def)
  have "skip_space (ws @ print_json ws t @ r) = print_json ws t @ r"
    using skip_spaces [OF ws] print_start [OF t(2), of ws] by auto
  then show ?thesis using that v c parse_string(2)
    by (simp add: parse_json_member_def del: parse_json_value.simps)
qed

lemma members_loop_reads:
  assumes "spaces ws" "ms \<noteq> []"
    "\<forall>m \<in> set ms. reads ws (snd m) \<and> tree_ok (snd m) \<and> depth + tree_depth (snd m) \<le> JSON_DEPTH_LIMIT"
    "2 * length (printed_members ws ms @ r) + 1 < fuel" "outcomes h = []"
  shows "\<exists>ms' t' h'. members_loop fuel depth cnt (printed_members ws ms @ r) obj h
      = Some (cnt + int (length ms), r, (fst obj @ ms', t'), h')
      \<and> content_members ms' = map (map_prod cstr doc_of) ms \<and> outcomes h' = []"
  using assms(2-)
proof (induction ms arbitrary: fuel cnt obj h)
  case (Cons m ms)
  obtain name t where mt: "m = (name, t)" by (cases m)
  obtain f where f: "fuel = Suc f" using Cons.prems by (cases fuel) auto
  obtain a h1 where m: "malloc h = (Some a, h1)" "outcomes h1 = []" using malloc_ok Cons.prems(4) by blast
  have t: "reads ws t" "tree_ok t" "depth + tree_depth t \<le> JSON_DEPTH_LIMIT" using Cons.prems mt by auto
  let ?m = "json_escape name @ QUOTE # ws @ CHR '':'' # ws @ print_json ws t"
  show ?case
  proof (cases ms)
    case Nil
    have ve: "value_end (ws @ CHR ''}'' # r)" using spaces_value_end assms(1) by blast
    obtain v h2 where
      v: "parse_json_member (\<lambda>cursor h. parse_json_value f cursor depth h) (?m @ ws @ CHR ''}'' # r) a h1
        = Some (Inr (Member a name v, ws @ CHR ''}'' # r), h2)" "content v = doc_of t" "outcomes h2 = []"
      by (rule parse_member [OF assms(1) t ve _ m(2), of f name a])
        (use Cons.prems(3) f in \<open>simp_all add: Nil mt printed_members_simps\<close>)
    have "skip_space (ws @ CHR ''}'' # r) = CHR ''}'' # r"
      using skip_spaces [OF assms(1)] by (simp add: isspace_def ord_def)
    then have "members_loop fuel depth cnt (QUOTE # ?m @ ws @ CHR ''}'' # r) obj h
        = Some (cnt + 1, r, insert_json_member (Member a name v) At_Tail obj, h2)"
      using v(1) unfolding f by (simp add: m Let_def parse_string(1) [THEN leD])
    then show ?thesis using v(2,3) Nil mt
      by (intro exI [of _ "[Member a name v]"] exI [of _ h2]) (simp add: printed_members_simps insert_json_member_def)
  next
    case (Cons m2 ms2)
    let ?l = "printed_members ws ms"
    have eq: "printed_members ws (m # ms) = QUOTE # ?m @ ws @ CHR '','' # ws @ ?l"
      unfolding Cons mt by (simp add: printed_members_simps)
    have sk: "skip_space (ws @ ?l @ r) = ?l @ r" using skip_spaces [OF assms(1)] printed_members_start [of ms ws] Cons by (auto simp: isspace_def ord_def)
    have sk': "skip_space (ws @ CHR '','' # ws @ ?l @ r) = CHR '','' # ws @ ?l @ r"
      using skip_spaces [OF assms(1)] by (simp add: isspace_def ord_def)
    have ve: "value_end (ws @ CHR '','' # ws @ ?l @ r)" using spaces_value_end assms(1) by blast
    obtain v h2 where
      v: "parse_json_member (\<lambda>cursor h. parse_json_value f cursor depth h) (?m @ ws @ CHR '','' # ws @ ?l @ r) a h1
        = Some (Inr (Member a name v, ws @ CHR '','' # ws @ ?l @ r), h2)"
      "content v = doc_of t" "outcomes h2 = []"
      by (rule parse_member [OF assms(1) t ve _ m(2), of f name a])
        (use Cons.prems(3) [unfolded eq] f in simp_all)
    let ?obj = "insert_json_member (Member a name v) At_Tail obj"
    have "2 * length (?l @ r) + 1 < f" using Cons.prems(3) [unfolded eq] f by simp
    with Cons.IH [of f h2 "cnt + 1" ?obj] Cons.prems(2) v(3) Cons obtain ms' t' h' where
      i: "members_loop f depth (cnt + 1) (?l @ r) ?obj h2
        = Some (cnt + 1 + int (length ms), r, (fst ?obj @ ms', t'), h')"
      "content_members ms' = map (map_prod cstr doc_of) ms" "outcomes h' = []" by auto
    have "members_loop fuel depth cnt (QUOTE # ?m @ ws @ CHR '','' # ws @ ?l @ r) obj h
        = members_loop f depth (cnt + 1) (?l @ r) ?obj h2"
      using v(1) sk sk' unfolding f by (simp add: m Let_def parse_string(1) [THEN leD])
    then show ?thesis unfolding eq using i v(2) mt
      by (intro exI [of _ "Member a name v # ms'"] exI [of _ t'] exI [of _ h'])
        (simp add: insert_json_member_def)
  qed
qed simp

lemma depth_le: "x \<in> set xs \<Longrightarrow> (x :: nat) \<le> foldr max xs 0"
  by (induction xs) auto

lemma reads_array:
  assumes "spaces ws" "\<forall>t \<in> set es. reads ws t" "tree_ok (TArray es)"
  shows "reads ws (TArray es)"
  unfolding reads_def parses_def
proof (intro allI impI, elim conjE)
  fix fuel depth r and h :: heap_st
  assume a: "value_end r" "2 * length (print_json ws (TArray es) @ r) < fuel"
    "depth + tree_depth (TArray es) \<le> JSON_DEPTH_LIMIT" "outcomes h = []"
  let ?l = "print_list ws (CHR '']'') (map (print_json ws) es)"
  obtain f where f: "fuel = Suc f" using a(2) by (cases fuel) auto
  have d: "depth \<noteq> JSON_DEPTH_LIMIT" using a(3) by auto
  have "\<exists>es' h'. parse_json_elements (elements_loop f (depth + 1) 0) (ws @ ?l @ r) [] h
      = Some (int (length es), r, es', h') \<and> content_elements es' = map doc_of es \<and> outcomes h' = []"
  proof (cases es)
    case Nil
    then show ?thesis using a(4) skip_spaces [OF assms(1)] by (simp add: parse_json_elements_def isspace_def ord_def)
  next
    case (Cons t ts)
    have all: "\<forall>t \<in> set es. reads ws t \<and> tree_ok t \<and> (depth + 1) + tree_depth t \<le> JSON_DEPTH_LIMIT"
    proof
      fix t assume t: "t \<in> set es"
      then have "tree_depth t \<le> foldr max (map tree_depth es) 0" by (intro depth_le) simp
      then show "reads ws t \<and> tree_ok t \<and> (depth + 1) + tree_depth t \<le> JSON_DEPTH_LIMIT"
        using t assms(2,3) a(3) by (auto simp: list_all_iff)
    qed
    obtain c s where c: "?l @ r = c # s" "\<not> isspace c" "c \<noteq> CHR '']''"
      using print_start [of t ws] all Cons by (cases ts) auto
    have sk: "skip_space (ws @ ?l @ r) = ?l @ r" using c skip_spaces [OF assms(1)] by simp
    have fl: "2 * length (?l @ r) + 1 < f" using a(2) f by simp
    obtain es' h' where "elements_loop f (depth + 1) 0 (?l @ r) [] h = Some (0 + int (length es), r, [] @ es', h')"
      "content_elements es' = map doc_of es" "outcomes h' = []"
      using elements_loop_reads [OF assms(1) _ all fl a(4), of 0 "[]"] Cons by blast
    then show ?thesis using sk c unfolding parse_json_elements_def Let_def sk c(1) by simp
  qed
  then obtain es' h' where "parse_json_elements (elements_loop f (depth + 1) 0) (ws @ ?l @ r) [] h
      = Some (int (length es), r, es', h')" "content_elements es' = map doc_of es" "outcomes h' = []" by blast
  then show "\<exists>v h'. parse_json_value fuel (print_json ws (TArray es) @ r) depth h = Some (Inr (v, r), h')
      \<and> content v = doc_of (TArray es) \<and> outcomes h' = []"
    unfolding f using d by (simp add: parse_json_array_def isdigit_def ord_def)
qed

lemma reads_object:
  assumes "spaces ws" "\<forall>m \<in> set ms. reads ws (snd m)" "tree_ok (TObject ms)"
  shows "reads ws (TObject ms)"
  unfolding reads_def parses_def
proof (intro allI impI, elim conjE)
  fix fuel depth r and h :: heap_st
  assume a: "value_end r" "2 * length (print_json ws (TObject ms) @ r) < fuel"
    "depth + tree_depth (TObject ms) \<le> JSON_DEPTH_LIMIT" "outcomes h = []"
  let ?l = "printed_members ws ms"
  have eq: "print_json ws (TObject ms) = CHR ''{'' # ws @ ?l" by (simp add: printed_members_def)
  obtain f where f: "fuel = Suc f" using a(2) by (cases fuel) auto
  have d: "depth \<noteq> JSON_DEPTH_LIMIT" using a(3) by auto
  have "\<exists>ms' t' h'. parse_json_members (members_loop f (depth + 1) 0) (ws @ ?l @ r) ([], Leaf) h
      = Some (int (length ms), r, (ms', t'), h') \<and> content_members ms' = map (map_prod cstr doc_of) ms \<and> outcomes h' = []"
  proof (cases ms)
    case Nil
    then show ?thesis using a(4) skip_spaces [OF assms(1)]
      by (simp add: parse_json_members_def printed_members_simps isspace_def ord_def)
  next
    case (Cons m ms1)
    have all: "\<forall>m \<in> set ms. reads ws (snd m) \<and> tree_ok (snd m) \<and> (depth + 1) + tree_depth (snd m) \<le> JSON_DEPTH_LIMIT"
    proof
      fix m assume m: "m \<in> set ms"
      then have "tree_depth (snd m) \<le> foldr max (map snd (map (map_prod id tree_depth) ms)) 0"
        by (intro depth_le) force
      then show "reads ws (snd m) \<and> tree_ok (snd m) \<and> (depth + 1) + tree_depth (snd m) \<le> JSON_DEPTH_LIMIT"
        using m assms(2,3) a(3) by (auto simp: list_all_iff)
    qed
    obtain s where c: "?l @ r = QUOTE # s" using printed_members_start [of ms ws] Cons by auto
    have sk: "skip_space (ws @ ?l @ r) = ?l @ r" using c skip_spaces [OF assms(1)] by (simp add: isspace_def ord_def)
    have fl: "2 * length (?l @ r) + 1 < f" using a(2) [unfolded eq] f by simp
    obtain ms' t' h' where "members_loop f (depth + 1) 0 (?l @ r) ([], Leaf) h
        = Some (int (length ms), r, (ms', t'), h')"
      "content_members ms' = map (map_prod cstr doc_of) ms" "outcomes h' = []"
      using members_loop_reads [OF assms(1) _ all fl a(4), of 0 "([], Leaf)"] Cons by auto
    then show ?thesis using c unfolding parse_json_members_def Let_def sk by simp
  qed
  then obtain ms' t' h' where "parse_json_members (members_loop f (depth + 1) 0) (ws @ ?l @ r) ([], Leaf) h
      = Some (int (length ms), r, (ms', t'), h')" "content_members ms' = map (map_prod cstr doc_of) ms" "outcomes h' = []"
    by blast
  then show "\<exists>v h'. parse_json_value fuel (print_json ws (TObject ms) @ r) depth h = Some (Inr (v, r), h')
      \<and> content v = doc_of (TObject ms) \<and> outcomes h' = []"
    unfolding f eq using d by (simp add: parse_json_object_def isdigit_def ord_def map_prod_def split_def comp_def)
qed

lemma reads_string: "reads ws (TString s)"
  unfolding reads_def parses_def
proof (intro allI impI, elim conjE)
  fix fuel depth r and h :: heap_st
  assume a: "2 * length (print_json ws (TString s) @ r) < fuel" "outcomes h = []"
  obtain f where f: "fuel = Suc f" using a(1) by (cases fuel) auto
  obtain a h1 where m: "malloc h = (Some a, h1)" "outcomes h1 = []" using malloc_ok a(2) by blast
  show "\<exists>v h'. parse_json_value fuel (print_json ws (TString s) @ r) depth h = Some (Inr (v, r), h')
      \<and> content v = doc_of (TString s) \<and> outcomes h' = []"
    unfolding f using m
    by (simp add: print_string_def parse_json_string_value_def Let_def parse_string(1) [THEN leD] parse_string(2))
qed

lemma reads_number:
  assumes "number_ok ds fs"
  shows "reads ws (TNumber neg ds fs)"
  unfolding reads_def parses_def
proof (intro allI impI, elim conjE)
  fix fuel depth r and h :: heap_st
  assume a: "value_end r" "2 * length (print_json ws (TNumber neg ds fs) @ r) < fuel" "outcomes h = []"
  obtain f where f: "fuel = Suc f" using a(2) by (cases fuel) auto
  obtain d ds' where d: "ds = d # ds'" "isdigit d" using assms by (cases ds) (auto simp: number_ok_def)
  let ?c = "deref (print_number neg ds fs @ r)"
  have "?c = CHR ''-'' \<or> isdigit ?c" "?c \<noteq> QUOTE"
    using d isdigit_neq [OF d(2)] by (auto simp: print_number_def)
  then show "\<exists>v h'. parse_json_value fuel (print_json ws (TNumber neg ds fs) @ r) depth h = Some (Inr (v, r), h')
      \<and> content v = doc_of (TNumber neg ds fs) \<and> outcomes h' = []"
    unfolding f using parse_number [OF assms a(1), of neg] a(3) by (simp add: Let_def)
qed

lemma reads_literal:
  "reads ws TTrue" "reads ws TFalse" "reads ws TNull"
proof -
  have "\<exists>g. f = Suc g" if "n < f" for n f :: nat using that by (cases f) auto
  then show "reads ws TTrue" "reads ws TFalse" "reads ws TNull" unfolding reads_def parses_def
    by (fastforce simp: parse_json_literal_def strncmp_eq_def cstr_Cons isdigit_def ord_def)+
qed

lemma reads_tree: "spaces ws \<Longrightarrow> tree_ok t \<Longrightarrow> reads ws t"
proof (induction t)
  case (TObject ms)
  have "tree_ok (snd m)" if m: "m \<in> set ms" for m using TObject.prems m by (auto simp: list_all_iff)
  then have "\<forall>m \<in> set ms. reads ws (snd m)" using TObject by (auto simp: snds.simps)
  then show ?case using reads_object TObject.prems by blast
next
  case (TArray es)
  then show ?case using reads_array by (auto simp: list_all_iff)
qed (use reads_string reads_number reads_literal in auto)

text \<open>C11: Parsing a printed document gives the document back: for every tree of strings, decimal numbers of
  at most fifteen digits, objects, arrays and literals that is at most 1024 levels deep, printed with
  any white space between the tokens and around the whole, \<open>json_value_parse\<close> returns a value with
  the contents of the tree when no allocation fails.\<close>

theorem json_value_parse_roundtrip:
  assumes "spaces ws" "tree_ok t" "tree_depth t \<le> 1024" "outcomes h = []"
  shows "\<exists>a v h'. json_value_parse (ws @ print_json ws t @ ws) h = Some (Some (a, v), h') \<and> content v = doc_of t"
proof -
  obtain a h1 where m: "malloc h = (Some a, h1)" "outcomes h1 = []" using malloc_ok assms(4) by blast
  have sk: "skip_space (ws @ print_json ws t @ ws) = print_json ws t @ ws"
    using skip_spaces [OF assms(1)] print_start [OF assms(2), of ws] by auto
  have ve: "value_end ws" using assms(1) by (cases ws) (auto simp: value_end_def spaces_def isdigit_def isspace_def ord_def)
  have d: "0 + tree_depth t \<le> JSON_DEPTH_LIMIT" using assms(3) by (simp add: JSON_DEPTH_LIMIT_def)
  obtain v h2 where "parse_json_value (2 * length (print_json ws t @ ws) + 1) (print_json ws t @ ws) 0 h1
      = Some (Inr (v, ws), h2)" "content v = doc_of t"
    using readsD [OF reads_tree [OF assms(1,2)] ve _ d m(2)] by (metis less_add_one)
  moreover have "deref (skip_space ws) = NUL" using skip_spaces [OF assms(1), of "[]"] by simp
  ultimately show ?thesis using m unfolding json_value_parse_def sk Let_def by (simp del: parse_json_value.simps)
qed

theorem json_value_parse_roundtrip_witness:
  "\<exists>a v h'. json_value_parse '' { \"a\" : [ 1.5 , true ] } '' (empty_heap []) = Some (Some (a, v), h')
     \<and> content v = DObject [(''a'', DArray [DNumber (decimal False ''1'' ''5''), DTrue])]"
proof -
  let ?t = "TObject [(''a'', TArray [TNumber False ''1'' ''5'', TTrue])]"
  have p: "'' '' @ print_json '' '' ?t @ '' '' = '' { \"a\" : [ 1.5 , true ] } ''"
    by (simp add: print_string_def print_number_def json_escape_def escape_byte_def ord_def)
  have "spaces '' ''" "tree_ok ?t" "tree_depth ?t \<le> 1024" "outcomes (empty_heap []) = []"
    by (simp_all add: spaces_def isspace_def ord_def number_ok_def isdigit_def empty_heap_def)
  from json_value_parse_roundtrip [OF this] show ?thesis unfolding p by (simp add: cstr_def)
qed

end
