(* ===== verification/Http_Message.thy ===== *)
theory Http_Message
  imports Blocks "HOL-Library.Monad_Syntax"
begin

text \<open>
  The message state of \<open>src/src/protocol/http_parser.c\<close> and \<open>http_parser.h\<close>: the structure
  \<open>http_parser_t\<close>, its header lines (\<open>__add_message_header\<close>, \<open>__set_message_header\<close>), the effect of a
  header on the parser (\<open>__check_message_header\<close>), the setters and getters, the header cursor, and
  \<open>http_parser_deinit\<close>.

  A string is the address of its block and its bytes. A header line is a block, followed by its
  buffer or with a buffer in a block of its own; the buffer is the list of all its bytes, and a
  write outside it is the value \<open>None\<close>. The results: \<open>http_parser_set_header\<close> and
  \<open>http_parser_add_header\<close> never write outside a buffer and own exactly their blocks, whatever
  allocation fails; a header that was set is the one the cursor finds; the cursor visits the lines in
  order and erases exactly one.
\<close>

section \<open>State\<close>

datatype hps = HPS_START_LINE | HPS_HEADER_NAME | HPS_HEADER_VALUE | HPS_HEADER_COMPLETE

datatype cps = CPS_CHUNK_DATA | CPS_TRAILER_PART | CPS_CHUNK_COMPLETE

text \<open>\<open>line_own\<close> is the separate buffer of the line; \<open>None\<close> is \<open>line->buf == (char *)(line + 1)\<close>.\<close>

record header_line =
  line_addr :: addr
  line_own :: "addr option"
  name_len :: nat
  value_len :: nat
  line_buf :: "byte list"

record http_parser =
  header_state :: hps
  chunk_state :: cps
  header_offset :: nat
  chunk_offset :: nat
  content_length :: nat
  transfer_length :: nat
  version :: c_string
  method_str :: c_string
  uri :: c_string
  code :: c_string
  phrase :: c_string
  header_list :: "header_line list"
  namebuf :: "byte list"
  msgbuf :: c_string
  msgsize :: nat
  bufsize :: nat
  has_connection :: bool
  has_content_length :: bool
  has_keep_alive :: bool
  expect_continue :: bool
  keep_alive :: bool
  chunked :: bool
  complete :: bool
  is_resp :: bool

definition HTTP_HEADER_NAME_MAX :: nat where
  "HTTP_HEADER_NAME_MAX = 64"

text \<open>\<open>(size_t)-1\<close>\<close>

definition SIZE_MAX :: nat where
  "SIZE_MAX = 2 ^ 64 - 1"

text \<open>\<open>http_parser_init\<close>; the fields it does not set keep the values of the memory it is given, the
  parser \<open>mem\<close>.\<close>

definition http_parser_init :: "bool \<Rightarrow> http_parser \<Rightarrow> http_parser" where
  "http_parser_init resp mem = mem\<lparr>
     header_state := HPS_START_LINE, header_offset := 0, transfer_length := SIZE_MAX,
     content_length := (if resp then SIZE_MAX else 0), version := None, method_str := None, uri := None,
     code := None, phrase := None, header_list := [], msgbuf := None, msgsize := 0, bufsize := 0,
     has_connection := False, has_content_length := False, has_keep_alive := False,
     expect_continue := False, keep_alive := True, chunked := False, complete := False, is_resp := resp\<rparr>"

section \<open>Header lines\<close>

text \<open>Copying \<open>src\<close> to the offset \<open>off\<close> of a buffer; \<open>None\<close> is a write outside it.\<close>

definition poke :: "nat \<Rightarrow> byte list \<Rightarrow> byte list \<Rightarrow> byte list option" where
  "poke off src buf =
     (if off + length src \<le> length buf then Some (take off buf @ src @ drop (off + length src) buf) else None)"

definition store_name :: "byte list \<Rightarrow> byte list \<Rightarrow> byte list option" where
  "store_name name buf = poke 0 name buf \<bind> poke (length name) '': ''"

definition store_value :: "nat \<Rightarrow> byte list \<Rightarrow> byte list \<Rightarrow> byte list option" where
  "store_value len value buf = poke (len + 2) value buf \<bind> poke (len + 2 + length value) [CR, LF]"

text \<open>The buffers are written completely before they are read, so the bytes that \<open>malloc\<close> leaves in
  them do not matter.\<close>

definition line_bytes :: "byte list \<Rightarrow> byte list \<Rightarrow> byte list option" where
  "line_bytes name value =
     store_name name (replicate (length name + length value + 4) NUL) \<bind> store_value (length name) value"

definition add_message_header :: "byte list \<Rightarrow> byte list \<Rightarrow> http_parser \<Rightarrow> heap_st
    \<Rightarrow> (int \<times> http_parser \<times> heap_st) option" where
  "add_message_header name value parser h =
     (case malloc h of
        (Some a, h) \<Rightarrow>
          do {
            buf \<leftarrow> line_bytes name value;
            Some (0, parser\<lparr>header_list := header_list parser @
                [\<lparr>line_addr = a, line_own = None, name_len = length name, value_len = length value, line_buf = buf\<rparr>]\<rparr>, h)
          }
      | (None, h) \<Rightarrow> Some (- 1, parser, h))"

definition line_match :: "byte list \<Rightarrow> header_line \<Rightarrow> bool" where
  "line_match name line \<longleftrightarrow> name_len line = length name \<and> strncasecmp_eq (line_buf line) name (length name)"

definition set_line :: "byte list \<Rightarrow> byte list \<Rightarrow> header_line \<Rightarrow> heap_st
    \<Rightarrow> (int \<times> header_line \<times> heap_st) option" where
  "set_line name value line h =
     (if length value > value_len line
      then (case malloc h of
              (None, h) \<Rightarrow> Some (- 1, line, h)
            | (Some b, h) \<Rightarrow>
                do {
                  buf \<leftarrow> line_bytes name value;
                  Some (0, line\<lparr>line_own := Some b, line_buf := buf, value_len := length value\<rparr>,
                    free_opt (line_own line) h)
                })
      else do {
             buf \<leftarrow> store_value (length name) value (line_buf line);
             Some (0, line\<lparr>line_buf := buf, value_len := length value\<rparr>, h)
           })"

text \<open>\<open>__set_message_header\<close>: the first line with this name, or a new one.\<close>

definition set_message_header :: "byte list \<Rightarrow> byte list \<Rightarrow> http_parser \<Rightarrow> heap_st
    \<Rightarrow> (int \<times> http_parser \<times> heap_st) option" where
  "set_message_header name value parser h =
     (case dropWhile (\<lambda>line. \<not> line_match name line) (header_list parser) of
        line # rest \<Rightarrow>
          do {
            (ret, line, h) \<leftarrow> set_line name value line h;
            Some (ret, parser\<lparr>header_list :=
                takeWhile (\<lambda>line. \<not> line_match name line) (header_list parser) @ line # rest\<rparr>, h)
          }
      | [] \<Rightarrow> add_message_header name value parser h)"

section \<open>The effect of a header\<close>

text \<open>\<open>atol\<close> of a string that begins with a digit.\<close>

definition atol_digits :: "byte list \<Rightarrow> nat" where
  "atol_digits s = foldl (\<lambda>n c. n * 10 + (ord c - 48)) 0 (takeWhile isdigit s)"

definition name_is :: "byte list \<Rightarrow> string \<Rightarrow> bool" where
  "name_is s t \<longleftrightarrow> length s = length t \<and> strncasecmp_eq s t (length t)"

text \<open>\<open>__check_message_header\<close>; the length of the name selects the case.\<close>

definition check_message_header :: "byte list \<Rightarrow> byte list \<Rightarrow> http_parser \<Rightarrow> http_parser" where
  "check_message_header name value parser =
     (if name_is name ''Expect''
      then (if name_is value ''100-continue'' then parser\<lparr>expect_continue := True\<rparr> else parser)
      else if name_is name ''Connection''
      then let parser = parser\<lparr>has_connection := True\<rparr>
           in if name_is value ''Keep-Alive'' then parser\<lparr>keep_alive := True\<rparr>
              else if name_is value ''close'' then parser\<lparr>keep_alive := False\<rparr>
              else parser
      else if name_is name ''Keep-Alive'' then parser\<lparr>has_keep_alive := True\<rparr>
      else if name_is name ''Content-Length''
      then let parser = parser\<lparr>has_content_length := True\<rparr>
           in if isdigit (deref value) \<and> length value \<le> 15
              then parser\<lparr>content_length := atol_digits value\<rparr>
              else parser
      else if name_is name ''Transfer-Encoding''
      then parser\<lparr>chunked := \<not> name_is value ''identity''\<rparr>
      else parser)"

definition http_parser_add_header :: "byte list \<Rightarrow> byte list \<Rightarrow> http_parser \<Rightarrow> heap_st
    \<Rightarrow> (int \<times> http_parser \<times> heap_st) option" where
  "http_parser_add_header name value parser h =
     do {
       (ret, parser, h) \<leftarrow> add_message_header name value parser h;
       if ret \<ge> 0 then Some (0, check_message_header name value parser, h) else Some (- 1, parser, h)
     }"

definition http_parser_set_header :: "byte list \<Rightarrow> byte list \<Rightarrow> http_parser \<Rightarrow> heap_st
    \<Rightarrow> (int \<times> http_parser \<times> heap_st) option" where
  "http_parser_set_header name value parser h =
     do {
       (ret, parser, h) \<leftarrow> set_message_header name value parser h;
       if ret \<ge> 0 then Some (0, check_message_header name value parser, h) else Some (- 1, parser, h)
     }"

section \<open>Setters, getters and release\<close>

definition http_parser_set_method :: "byte list \<Rightarrow> http_parser \<Rightarrow> heap_st \<Rightarrow> int \<times> http_parser \<times> heap_st" where
  "http_parser_set_method s parser h =
     (case strdup s h of
        (Some d, h) \<Rightarrow> (0, parser\<lparr>method_str := Some d\<rparr>, free_string (method_str parser) h)
      | (None, h) \<Rightarrow> (- 1, parser, h))"

definition http_parser_set_uri :: "byte list \<Rightarrow> http_parser \<Rightarrow> heap_st \<Rightarrow> int \<times> http_parser \<times> heap_st" where
  "http_parser_set_uri s parser h =
     (case strdup s h of
        (Some d, h) \<Rightarrow> (0, parser\<lparr>uri := Some d\<rparr>, free_string (uri parser) h)
      | (None, h) \<Rightarrow> (- 1, parser, h))"

definition http_parser_set_version :: "byte list \<Rightarrow> http_parser \<Rightarrow> heap_st \<Rightarrow> int \<times> http_parser \<times> heap_st" where
  "http_parser_set_version s parser h =
     (case strdup s h of
        (Some d, h) \<Rightarrow> (0, parser\<lparr>version := Some d\<rparr>, free_string (version parser) h)
      | (None, h) \<Rightarrow> (- 1, parser, h))"

definition http_parser_set_code :: "byte list \<Rightarrow> http_parser \<Rightarrow> heap_st \<Rightarrow> int \<times> http_parser \<times> heap_st" where
  "http_parser_set_code s parser h =
     (case strdup s h of
        (Some d, h) \<Rightarrow> (0, parser\<lparr>code := Some d\<rparr>, free_string (code parser) h)
      | (None, h) \<Rightarrow> (- 1, parser, h))"

definition http_parser_set_phrase :: "byte list \<Rightarrow> http_parser \<Rightarrow> heap_st \<Rightarrow> int \<times> http_parser \<times> heap_st" where
  "http_parser_set_phrase s parser h =
     (case strdup s h of
        (Some d, h) \<Rightarrow> (0, parser\<lparr>phrase := Some d\<rparr>, free_string (phrase parser) h)
      | (None, h) \<Rightarrow> (- 1, parser, h))"

definition free_line :: "header_line \<Rightarrow> heap_st \<Rightarrow> heap_st" where
  "free_line line h = free (line_addr line) (free_opt (line_own line) h)"

definition http_parser_deinit :: "http_parser \<Rightarrow> heap_st \<Rightarrow> heap_st" where
  "http_parser_deinit parser h =
     (let h = fold free_line (header_list parser) h;
          h = free_string (version parser) h;
          h = free_string (method_str parser) h;
          h = free_string (uri parser) h;
          h = free_string (code parser) h;
          h = free_string (phrase parser) h
      in free_string (msgbuf parser) h)"

definition http_parser_get_method :: "http_parser \<Rightarrow> byte list option" where
  "http_parser_get_method parser = map_option snd (method_str parser)"

definition http_parser_get_uri :: "http_parser \<Rightarrow> byte list option" where
  "http_parser_get_uri parser = map_option snd (uri parser)"

definition http_parser_get_version :: "http_parser \<Rightarrow> byte list option" where
  "http_parser_get_version parser = map_option snd (version parser)"

definition http_parser_get_code :: "http_parser \<Rightarrow> byte list option" where
  "http_parser_get_code parser = map_option snd (code parser)"

definition http_parser_get_phrase :: "http_parser \<Rightarrow> byte list option" where
  "http_parser_get_phrase parser = map_option snd (phrase parser)"

definition http_parser_close_message :: "http_parser \<Rightarrow> http_parser" where
  "http_parser_close_message parser = parser\<lparr>complete := True\<rparr>"

section \<open>The header cursor\<close>

text \<open>The position of a cursor: \<open>None\<close> is the head of the list, before the first line.\<close>

type_synonym http_header_cursor = "addr option"

definition http_header_cursor_init :: http_header_cursor where
  "http_header_cursor_init = None"

definition lines_after :: "http_header_cursor \<Rightarrow> header_line list \<Rightarrow> header_line list" where
  "lines_after cursor lines =
     (case cursor of None \<Rightarrow> lines | Some a \<Rightarrow> tl (dropWhile (\<lambda>line. line_addr line \<noteq> a) lines))"

definition line_name :: "header_line \<Rightarrow> byte list" where
  "line_name line = take (name_len line) (line_buf line)"

definition line_value :: "header_line \<Rightarrow> byte list" where
  "line_value line = take (value_len line) (drop (name_len line + 2) (line_buf line))"

definition http_header_cursor_next :: "http_header_cursor \<Rightarrow> header_line list
    \<Rightarrow> int \<times> http_header_cursor \<times> (byte list \<times> byte list) option" where
  "http_header_cursor_next cursor lines =
     (case lines_after cursor lines of
        line # _ \<Rightarrow> (0, Some (line_addr line), Some (line_name line, line_value line))
      | [] \<Rightarrow> (1, cursor, None))"

fun cursor_find_loop :: "byte list \<Rightarrow> http_header_cursor \<Rightarrow> header_line list
    \<Rightarrow> int \<times> http_header_cursor \<times> byte list option" where
  "cursor_find_loop name cursor [] = (1, cursor, None)"
| "cursor_find_loop name cursor (line # lines) =
     (if line_match name line then (0, Some (line_addr line), Some (line_value line))
      else cursor_find_loop name (Some (line_addr line)) lines)"

definition http_header_cursor_find :: "byte list \<Rightarrow> http_header_cursor \<Rightarrow> header_line list
    \<Rightarrow> int \<times> http_header_cursor \<times> byte list option" where
  "http_header_cursor_find name cursor lines = cursor_find_loop name cursor (lines_after cursor lines)"

definition http_header_cursor_erase :: "http_header_cursor \<Rightarrow> header_line list \<Rightarrow> heap_st
    \<Rightarrow> int \<times> http_header_cursor \<times> header_line list \<times> heap_st" where
  "http_header_cursor_erase cursor lines h =
     (case cursor of
        None \<Rightarrow> (1, cursor, lines, h)
      | Some a \<Rightarrow>
          let before = takeWhile (\<lambda>line. line_addr line \<noteq> a) lines
          in case dropWhile (\<lambda>line. line_addr line \<noteq> a) lines of
               [] \<Rightarrow> (1, cursor, lines, h)
             | line # rest \<Rightarrow>
                 (0, if before = [] then None else Some (line_addr (last before)), before @ rest, free_line line h))"

section \<open>Lines are well formed\<close>

definition line_is :: "byte list \<Rightarrow> byte list \<Rightarrow> header_line \<Rightarrow> bool" where
  "line_is name value line \<longleftrightarrow> name_len line = length name \<and> value_len line = length value \<and> NUL \<notin> set name
     \<and> (\<exists>rest. line_buf line = name @ '': '' @ value @ [CR, LF] @ rest)"

definition line_ok :: "header_line \<Rightarrow> bool" where
  "line_ok line \<longleftrightarrow> (\<exists>name value. line_is name value line)"

lemma line_is_name: "line_is name value line \<Longrightarrow> line_name line = name"
  by (auto simp: line_is_def line_name_def)

lemma line_is_value: "line_is name value line \<Longrightarrow> line_value line = value"
  by (auto simp: line_is_def line_value_def)

lemma line_bytes_eq [simp]: "line_bytes name value = Some (name @ '': '' @ value @ [CR, LF])"
  by (simp add: line_bytes_def store_name_def store_value_def poke_def)

lemma store_value_eq:
  assumes "length value \<le> length old"
  shows "\<exists>rest'. store_value (length name) value (name @ '': '' @ old @ [CR, LF] @ rest)
    = Some (name @ '': '' @ value @ [CR, LF] @ rest')"
proof -
  let ?buf = "name @ '': '' @ old @ [CR, LF] @ rest"
  have "poke (length name + 2) value ?buf = Some (name @ '': '' @ value @ drop (length value) (old @ [CR, LF] @ rest))"
    using assms by (simp add: poke_def)
  moreover have "length (drop (length value) (old @ [CR, LF] @ rest)) \<ge> 2" using assms by simp
  ultimately show ?thesis unfolding store_value_def by (simp add: poke_def)
qed

lemma strncasecmp_name:
  assumes "NUL \<notin> set n"
  shows "strncasecmp_eq (n @ r) name (length n) \<longleftrightarrow> map tolower n = map tolower (take (length n) (cstr name))"
proof -
  have "cstr (n @ r) = n @ cstr r" using assms by (induction n) (auto simp: cstr_Cons)
  then show ?thesis by (simp add: strncasecmp_eq_def)
qed

lemma line_match_iff:
  "line_is n v line \<Longrightarrow> NUL \<notin> set name \<Longrightarrow> line_match name line \<longleftrightarrow> map tolower n = map tolower name"
proof -
  assume a: "line_is n v line" "NUL \<notin> set name"
  then obtain r where r: "line_buf line = n @ r" "NUL \<notin> set n" "name_len line = length n" by (auto simp: line_is_def)
  show ?thesis
  proof (cases "length n = length name")
    case True
    then show ?thesis using r a(2) strncasecmp_name [OF r(2), of r name] by (simp add: line_match_def)
  next
    case False
    then show ?thesis using r map_eq_imp_length_eq [of tolower n tolower name] by (auto simp: line_match_def)
  qed
qed

text \<open>The headers of a message, as its users see them: names without case, and values, in order.\<close>

definition header_pair :: "header_line \<Rightarrow> byte list \<times> byte list" where
  "header_pair line = (map tolower (line_name line), line_value line)"

definition headers :: "header_line list \<Rightarrow> (byte list \<times> byte list) list" where
  "headers lines = map header_pair lines"

text \<open>Setting the first entry with a key, or adding one.\<close>

fun upd_first :: "'k \<Rightarrow> 'v \<Rightarrow> ('k \<times> 'v) list \<Rightarrow> ('k \<times> 'v) list" where
  "upd_first k v [] = [(k, v)]"
| "upd_first k v ((k', v') # xs) = (if k' = k then (k, v) # xs else (k', v') # upd_first k v xs)"

lemma map_of_upd_first: "map_of (upd_first k v xs) = (map_of xs)(k \<mapsto> v)"
  by (induction xs rule: upd_first.induct) auto

lemma header_pair_match:
  "line_ok line \<Longrightarrow> NUL \<notin> set name \<Longrightarrow> line_match name line \<longleftrightarrow> fst (header_pair line) = map tolower name"
  by (auto simp: line_ok_def header_pair_def line_match_iff line_is_name)

lemma upd_first_lines:
  assumes "\<forall>line \<in> set (xs @ l # ys). line_ok line" "NUL \<notin> set name" "line_match name l"
    "\<forall>line \<in> set xs. \<not> line_match name line" "header_pair l' = (map tolower name, value)"
  shows "headers (xs @ l' # ys) = upd_first (map tolower name) value (headers (xs @ l # ys))"
  using assms
proof (induction xs)
  case Nil
  then show ?case using header_pair_match [of l name] by (cases "header_pair l") (simp add: headers_def)
next
  case (Cons x xs)
  then show ?case using header_pair_match [of x name] by (cases "header_pair x") (simp add: headers_def)
qed

lemma upd_first_none:
  assumes "\<forall>line \<in> set xs. line_ok line \<and> \<not> line_match name line" "NUL \<notin> set name"
    "header_pair l = (map tolower name, value)"
  shows "headers (xs @ [l]) = upd_first (map tolower name) value (headers xs)"
  using assms
proof (induction xs)
  case (Cons x xs)
  then show ?case using header_pair_match [of x name] by (cases "header_pair x") (simp add: headers_def)
qed (simp add: headers_def)

section \<open>Blocks of a parser\<close>

definition line_owned :: "header_line \<Rightarrow> addr list" where
  "line_owned line = opt_list (line_own line) @ [line_addr line]"

definition lines_owned :: "header_line list \<Rightarrow> addr list" where
  "lines_owned lines = concat (map line_owned lines)"

definition fields_owned :: "http_parser \<Rightarrow> addr list" where
  "fields_owned parser = str_owned (version parser) @ str_owned (method_str parser) @ str_owned (uri parser)
     @ str_owned (code parser) @ str_owned (phrase parser) @ str_owned (msgbuf parser)"

definition http_owned :: "http_parser \<Rightarrow> addr list" where
  "http_owned parser = lines_owned (header_list parser) @ fields_owned parser"

definition lines_ok :: "http_parser \<Rightarrow> bool" where
  "lines_ok parser \<longleftrightarrow> (\<forall>line \<in> set (header_list parser). line_ok line)"

lemma lines_owned_simps [simp]:
  "lines_owned [] = []" "lines_owned (l # ls) = line_owned l @ lines_owned ls"
  "lines_owned (ls @ ms) = lines_owned ls @ lines_owned ms"
  by (simp_all add: lines_owned_def)

lemma holds_free_line: "holds h R (line_owned line @ A) \<Longrightarrow> holds (free_line line h) R A"
  by (auto simp: line_owned_def free_line_def intro!: holds_free dest: holds_free_opt)

section \<open>Setting and finding headers\<close>

lemma check_message_header_fields [simp]:
  "header_list (check_message_header name value p) = header_list p"
  "fields_owned (check_message_header name value p) = fields_owned p"
  "lines_ok (check_message_header name value p) = lines_ok p"
  "http_owned (check_message_header name value p) = http_owned p"
  by (simp_all add: check_message_header_def Let_def fields_owned_def lines_ok_def http_owned_def)

lemma fields_owned_lines [simp]: "fields_owned (p\<lparr>header_list := ls\<rparr>) = fields_owned p"
  by (simp add: fields_owned_def)

lemma line_is_new:
  "NUL \<notin> set name \<Longrightarrow> line_is name value
     \<lparr>line_addr = a, line_own = b, name_len = length name, value_len = length value,
      line_buf = name @ '': '' @ value @ [CR, LF]\<rparr>"
  by (simp add: line_is_def)

lemma line_is_pair: "line_is name value line \<Longrightarrow> header_pair line = (map tolower name, value)"
  by (simp add: header_pair_def line_is_name line_is_value)

text \<open>What the two ways to store a header have in common.\<close>

definition stores :: "byte list \<Rightarrow> byte list \<Rightarrow> http_parser \<Rightarrow> heap_st \<Rightarrow> addr set
    \<Rightarrow> ((byte list \<times> byte list) list \<Rightarrow> (byte list \<times> byte list) list) \<Rightarrow> (int \<times> http_parser \<times> heap_st) option \<Rightarrow> bool" where
  "stores name value p h R upd r \<longleftrightarrow>
     (\<exists>ret p' h'. r = Some (ret, p', h') \<and> lines_ok p' \<and> holds h' R (http_owned p')
        \<and> (ret = - 1 \<and> p' = p \<and> outcomes h \<noteq> []
           \<or> ret = 0 \<and> (\<exists>ls. p' = p\<lparr>header_list := ls\<rparr>) \<and> headers (header_list p') = upd (headers (header_list p))))"

lemma malloc_None_outcomes: "malloc h = (None, h') \<Longrightarrow> outcomes h \<noteq> []"
  by (auto simp: malloc_def)

lemma stores_failed: "lines_ok p \<Longrightarrow> holds h R (http_owned p) \<Longrightarrow> malloc h = (None, h') \<Longrightarrow>
    stores name value p h R upd (Some (- 1, p, h'))"
  by (auto simp: stores_def malloc_None_outcomes intro: holds_malloc_None)

lemma add_message_header_stores:
  assumes "lines_ok p" "holds h R (http_owned p)" "NUL \<notin> set name"
  shows "stores name value p h R (\<lambda>hs. hs @ [(map tolower name, value)]) (add_message_header name value p h)"
proof -
  obtain q h1 where m: "malloc h = (q, h1)" by force
  show ?thesis
  proof (cases q)
    case None
    then show ?thesis using stores_failed [OF assms(1,2)] m by (simp add: add_message_header_def)
  next
    case (Some a)
    have "holds h1 R (a # http_owned p)" using holds_malloc [OF assms(2)] m Some by simp
    then have "holds h1 R (lines_owned (header_list p) @ a # fields_owned p)"
      by (rule holds_perm) (simp add: http_owned_def)
    then show ?thesis using assms(1) line_is_new [OF assms(3), of "value" a None] line_is_pair m Some
      by (auto simp: add_message_header_def stores_def lines_ok_def line_ok_def http_owned_def line_owned_def
          opt_list_def headers_def)
  qed
qed

lemma set_line_cases:
  assumes "line_is n v line" "NUL \<notin> set name" "map tolower n = map tolower name"
    and "holds h R (line_owned line @ A)"
  obtains h' where "set_line name value line h = Some (- 1, line, h')" "malloc h = (None, h')"
  | line' h' n' where "set_line name value line h = Some (0, line', h')" "line_is n' value line'"
      "map tolower n' = map tolower name" "holds h' R (line_owned line' @ A)"
proof (cases "length value > value_len line")
  case True
  obtain q h1 where m: "malloc h = (q, h1)" by force
  show ?thesis
  proof (cases q)
    case None
    then show ?thesis using that(1) m True by (simp add: set_line_def)
  next
    case (Some b)
    let ?l = "line\<lparr>line_own := Some b, line_buf := name @ '': '' @ value @ [CR, LF], value_len := length value\<rparr>"
    have "length n = length name" using assms(3) by (rule map_eq_imp_length_eq)
    then have l: "line_is name value ?l" using assms(1,2) by (auto simp: line_is_def)
    have "holds h1 R (b # line_owned line @ A)" using holds_malloc [OF assms(4)] m Some by simp
    then have "holds h1 R (opt_list (line_own line) @ line_owned ?l @ A)"
      by (rule holds_perm) (simp add: line_owned_def opt_list_def split: option.split)
    then have "holds (free_opt (line_own line) h1) R (line_owned ?l @ A)" by (rule holds_free_opt)
    then show ?thesis using that(2) [of ?l] l True m Some by (simp add: set_line_def)
  qed
next
  case False
  from assms(1) obtain rest where b: "line_buf line = n @ '': '' @ v @ [CR, LF] @ rest"
    "name_len line = length n" "value_len line = length v" "NUL \<notin> set n" by (auto simp: line_is_def)
  have "length n = length name" using assms(3) by (rule map_eq_imp_length_eq)
  then obtain rest' where s: "store_value (length name) value (line_buf line) = Some (n @ '': '' @ value @ [CR, LF] @ rest')"
    using store_value_eq [of "value" v n rest] False b by auto
  let ?l = "line\<lparr>line_buf := n @ '': '' @ value @ [CR, LF] @ rest', value_len := length value\<rparr>"
  have "line_is n value ?l" using b by (simp add: line_is_def)
  moreover have "holds h R (line_owned ?l @ A)" using assms(4) by (simp add: line_owned_def)
  ultimately show ?thesis using that(2) [of ?l h n] False s assms(3) by (simp add: set_line_def)
qed

lemma set_message_header_stores:
  assumes ok: "lines_ok p" and h: "holds h R (http_owned p)" and name: "NUL \<notin> set name"
  shows "stores name value p h R (upd_first (map tolower name) value) (set_message_header name value p h)"
proof -
  let ?P = "\<lambda>line. \<not> line_match name line"
  define pre where "pre = takeWhile ?P (header_list p)"
  have pre: "\<forall>l \<in> set pre. ?P l" by (auto simp: pre_def dest: set_takeWhileD)
  have all: "header_list p = pre @ dropWhile ?P (header_list p)" by (simp add: pre_def)
  show ?thesis
  proof (cases "dropWhile ?P (header_list p)")
    case Nil
    have "\<forall>l \<in> set (header_list p). line_ok l \<and> ?P l" using ok Nil by (auto simp: lines_ok_def dropWhile_eq_Nil_conv)
    then have "headers (header_list p) @ [(map tolower name, value)] = upd_first (map tolower name) value (headers (header_list p))"
      using upd_first_none [of "header_list p" name _ "value"] name
        line_is_pair [OF line_is_new [OF name, of "value" 0 None]] by (simp add: headers_def)
    moreover have "set_message_header name value p h = add_message_header name value p h"
      unfolding set_message_header_def Nil by simp
    ultimately show ?thesis using add_message_header_stores [OF ok h name, of "value"] by (simp add: stores_def)
  next
    case (Cons line rest)
    have ls: "header_list p = pre @ line # rest" using all Cons by simp
    have lm: "line_match name line" using Cons hd_dropWhile [of ?P "header_list p"] by fastforce
    obtain n v where li: "line_is n v line" using ok ls by (auto simp: lines_ok_def line_ok_def)
    have nn: "map tolower n = map tolower name" using line_match_iff [OF li name] lm by simp
    let ?A = "lines_owned (pre @ rest) @ fields_owned p"
    have own: "holds h R (line_owned line @ ?A)" using h by (rule holds_perm) (simp add: http_owned_def ls)
    have eq: "set_message_header name value p h = set_line name value line h
        \<bind> (\<lambda>(ret, line, h). Some (ret, p\<lparr>header_list := pre @ line # rest\<rparr>, h))"
      unfolding set_message_header_def Cons pre_def by simp
    have id: "p\<lparr>header_list := pre @ line # rest\<rparr> = p" unfolding ls [symmetric] by simp
    show ?thesis
    proof (cases rule: set_line_cases [OF li name nn own, of "value"])
      case (1 h')
      then have "set_message_header name value p h = Some (- 1, p, h')"
        using id by (simp add: eq)
      then show ?thesis using stores_failed [OF ok h 1(2)] by simp
    next
      case (2 line' h' n')
      have "set_message_header name value p h = Some (0, p\<lparr>header_list := pre @ line' # rest\<rparr>, h')"
        using 2(1) by (simp add: eq)
      moreover have "holds h' R (lines_owned (pre @ line' # rest) @ fields_owned p)"
        using 2(4) by (rule holds_perm) simp
      moreover have "headers (pre @ line' # rest) = upd_first (map tolower name) value (headers (pre @ line # rest))"
        by (rule upd_first_lines) (use ok ls name lm pre 2(2,3) line_is_pair in \<open>auto simp: lines_ok_def\<close>)
      ultimately show ?thesis using ok ls 2(2) by (auto simp: stores_def lines_ok_def line_ok_def http_owned_def)
    qed
  qed
qed

lemma cursor_find_loop_lookup:
  assumes "\<forall>line \<in> set lines. line_ok line" "NUL \<notin> set name"
  shows "snd (snd (cursor_find_loop name cursor lines)) = map_of (headers lines) (map tolower name)
    \<and> (fst (cursor_find_loop name cursor lines) = 0 \<longleftrightarrow> map_of (headers lines) (map tolower name) \<noteq> None)"
  using assms
proof (induction name cursor lines rule: cursor_find_loop.induct)
  case (2 name cursor line lines)
  then show ?case using header_pair_match [of line name]
    by (cases "header_pair line") (auto simp: headers_def header_pair_def)
qed (simp add: headers_def)

text \<open>C29: \<open>http_parser_set_header\<close> and \<open>http_parser_add_header\<close> return whatever allocation fails, without a
  write outside a buffer; the parser owns exactly its blocks afterwards. On success the headers, names
  compared without case, are those before with the first entry of this name replaced, or with a new
  entry at the end; \<open>http_parser_add_header\<close> always adds one. On failure nothing changes. What the
  cursor then finds under a name is the first value of that name.\<close>

theorem http_set_header_correct:
  assumes "lines_ok p" "holds h R (http_owned p)" "NUL \<notin> set name"
  shows "(\<exists>ret p' h'. http_parser_set_header name value p h = Some (ret, p', h')
      \<and> lines_ok p' \<and> holds h' R (http_owned p')
      \<and> (ret = - 1 \<and> p' = p \<or>
         ret = 0 \<and> headers (header_list p') = upd_first (map tolower name) value (headers (header_list p))
         \<and> snd (snd (http_header_cursor_find name http_header_cursor_init (header_list p'))) = Some value))
    \<and> (\<exists>ret p' h'. http_parser_add_header name value p h = Some (ret, p', h')
      \<and> lines_ok p' \<and> holds h' R (http_owned p')
      \<and> (ret = - 1 \<and> p' = p \<or>
         ret = 0 \<and> headers (header_list p') = headers (header_list p) @ [(map tolower name, value)]))"
proof -
  obtain ret p' h' where s: "set_message_header name value p h = Some (ret, p', h')" "lines_ok p'"
    "holds h' R (http_owned p')" "ret = - 1 \<and> p' = p
      \<or> ret = 0 \<and> headers (header_list p') = upd_first (map tolower name) value (headers (header_list p))"
    using set_message_header_stores [OF assms, of "value"] by (auto simp: stores_def)
  have "ret = 0 \<Longrightarrow> snd (snd (cursor_find_loop name None (header_list p'))) = Some value"
    using cursor_find_loop_lookup [of "header_list p'" name None] s(2,4) assms(3)
    by (simp add: lines_ok_def map_of_upd_first)
  then have "ret = 0 \<Longrightarrow> snd (snd (http_header_cursor_find name http_header_cursor_init (header_list p'))) = Some value"
    by (simp add: http_header_cursor_find_def http_header_cursor_init_def lines_after_def)
  moreover obtain ret2 p2 h2 where "add_message_header name value p h = Some (ret2, p2, h2)" "lines_ok p2"
    "holds h2 R (http_owned p2)" "ret2 = - 1 \<and> p2 = p
      \<or> ret2 = 0 \<and> headers (header_list p2) = headers (header_list p) @ [(map tolower name, value)]"
    using add_message_header_stores [OF assms, of "value"] by (auto simp: stores_def)
  ultimately show ?thesis using s by (auto simp: http_parser_set_header_def http_parser_add_header_def)
qed

definition blank_parser :: http_parser where
  "blank_parser = \<lparr>header_state = HPS_START_LINE, chunk_state = CPS_CHUNK_DATA, header_offset = 0,
     chunk_offset = 0, content_length = 0, transfer_length = 0, version = None, method_str = None, uri = None,
     code = None, phrase = None, header_list = [], namebuf = replicate 64 NUL, msgbuf = None, msgsize = 0,
     bufsize = 0, has_connection = False, has_content_length = False, has_keep_alive = False,
     expect_continue = False, keep_alive = False, chunked = False, complete = False, is_resp = False\<rparr>"

lemma init_owned [simp]: "http_owned (http_parser_init resp mem) = []" "lines_ok (http_parser_init resp mem)"
  by (simp_all add: http_parser_init_def http_owned_def fields_owned_def str_owned_def opt_list_def lines_ok_def)

lemma holds_empty_heap [simp]: "holds (empty_heap fails) {} []"
  by (simp add: holds_def) (simp add: empty_heap_def)

theorem http_set_header_correct_witness:
  "\<exists>p' h'. http_parser_set_header ''Host'' ''a'' (http_parser_init False blank_parser) (empty_heap []) = Some (0, p', h')
     \<and> snd (snd (http_header_cursor_find ''Host'' http_header_cursor_init (header_list p'))) = Some ''a''"
proof -
  let ?p = "http_parser_init False blank_parser"
  have "set_message_header ''Host'' ''a'' ?p (empty_heap []) = add_message_header ''Host'' ''a'' ?p (empty_heap [])"
    by (simp add: set_message_header_def http_parser_init_def)
  then have "\<exists>p' h'. http_parser_set_header ''Host'' ''a'' ?p (empty_heap []) = Some (0, p', h')"
    by (simp add: http_parser_set_header_def add_message_header_def malloc_def empty_heap_def)
  then show ?thesis using http_set_header_correct [of ?p "empty_heap []" "{}" "''Host''" "''a''"] by auto
qed

section \<open>Release\<close>

lemma holds_free_lines: "holds h R (lines_owned lines @ A) \<Longrightarrow> holds (fold free_line lines h) R A"
  by (induction lines arbitrary: h) (auto dest: holds_free_line)

text \<open>C30: \<open>http_parser_deinit\<close> frees every block of a parser, once, and nothing else; replacing the method,
  the version or the other strings keeps the parser the owner of exactly its blocks.\<close>

theorem http_parser_deinit_frees:
  assumes "holds h R (http_owned p)"
  shows "holds (http_parser_deinit p h) R []
    \<and> (\<forall>f \<in> {http_parser_set_method, http_parser_set_uri, http_parser_set_version, http_parser_set_code,
          http_parser_set_phrase}. case f s p h of (ret, p', h') \<Rightarrow> holds h' R (http_owned p') \<and> (ret < 0 \<longrightarrow> p' = p))"
proof -
  have "holds (fold free_line (header_list p) h) R (fields_owned p @ [])"
    using assms holds_free_lines by (simp add: http_owned_def)
  then have d: "holds (http_parser_deinit p h) R []"
    unfolding http_parser_deinit_def Let_def fields_owned_def append_assoc by (intro holds_free_string)
  have set: "holds (free_string old h') R A"
    if "strdup s h = (Some d, h')" "mset (http_owned p) + mset (str_owned (Some d)) = mset (str_owned old) + mset A"
    for d h' old A
  proof -
    have "holds h' R (str_owned old @ A)"
      using holds_strdup [OF assms that(1)] by (rule holds_perm) (use that(2) in \<open>simp add: add.commute\<close>)
    then show ?thesis by (rule holds_free_string)
  qed
  have fail: "strdup s h = (None, h') \<Longrightarrow> holds h' R (http_owned p)" for h'
    using holds_strdup [OF assms] by (fastforce simp: str_owned_def opt_list_def)
  obtain q h1 where q: "strdup s h = (q, h1)" by force
  show ?thesis
  proof (cases q)
    case None
    then show ?thesis using d q fail [of h1]
      by (simp add: http_parser_set_method_def http_parser_set_uri_def http_parser_set_version_def
          http_parser_set_code_def http_parser_set_phrase_def)
  next
    case (Some e)
    then show ?thesis using d q
      by (auto simp: http_parser_set_method_def http_parser_set_uri_def http_parser_set_version_def
          http_parser_set_code_def http_parser_set_phrase_def http_owned_def fields_owned_def intro!: set)
  qed
qed

theorem http_parser_deinit_frees_witness:
  "\<exists>p h. http_parser_set_uri ''/'' (http_parser_init False blank_parser) (empty_heap []) = (0, p, h)
     \<and> holds h {} [0] \<and> holds (http_parser_deinit p h) {} []"
proof -
  let ?p = "http_parser_init False blank_parser"
  obtain p h where u: "http_parser_set_uri ''/'' ?p (empty_heap []) = (0, p, h)" "p = ?p\<lparr>uri := Some (0, ''/'')\<rparr>"
    by (simp add: http_parser_set_uri_def strdup_def malloc_def empty_heap_def cstr_def)
  have o: "http_owned p = [0]" unfolding u(2)
    by (simp add: http_parser_init_def http_owned_def fields_owned_def str_owned_def opt_list_def)
  have "holds h {} (http_owned p)" using http_parser_deinit_frees [of "empty_heap []" "{}" ?p "''/''"] u(1) by simp
  then show ?thesis using http_parser_deinit_frees [of h "{}" p "''/''"] u(1) o by auto
qed

section \<open>Walking over the headers\<close>

lemma dropWhile_addr:
  assumes "distinct (map key (xs @ x # ys))"
  shows "dropWhile (\<lambda>y. key y \<noteq> key x) (xs @ x # ys) = x # ys" "takeWhile (\<lambda>y. key y \<noteq> key x) (xs @ x # ys) = xs"
proof -
  have "dropWhile (\<lambda>y. key y \<noteq> key x) (xs @ x # ys) = x # ys \<and> takeWhile (\<lambda>y. key y \<noteq> key x) (xs @ x # ys) = xs"
    using assms by (induction xs) auto
  then show "dropWhile (\<lambda>y. key y \<noteq> key x) (xs @ x # ys) = x # ys" "takeWhile (\<lambda>y. key y \<noteq> key x) (xs @ x # ys) = xs"
    by auto
qed

text \<open>A cursor behind the lines \<open>xs\<close>.\<close>

definition cursor_at :: "header_line list \<Rightarrow> http_header_cursor" where
  "cursor_at xs = (if xs = [] then None else Some (line_addr (last xs)))"

lemma lines_after_at:
  assumes "distinct (map line_addr (xs @ ys))"
  shows "lines_after (cursor_at xs) (xs @ ys) = ys"
proof (cases xs rule: rev_cases)
  case (snoc zs z)
  then show ?thesis using assms dropWhile_addr(1) [of line_addr zs z ys]
    by (simp add: lines_after_def cursor_at_def)
qed (simp add: lines_after_def cursor_at_def)

text \<open>C31: A cursor behind the lines \<open>xs\<close>: \<open>http_header_cursor_next\<close> returns the next line and moves behind
  it, and 1 at the end; \<open>http_header_cursor_find\<close> looks only at the lines behind the cursor and returns
  the first value of the name; \<open>http_header_cursor_erase\<close> takes exactly the line at the cursor out, frees
  its blocks, and leaves the cursor so that the walk goes on with the next line.\<close>

theorem http_header_cursor_correct:
  assumes d: "distinct (map line_addr (xs @ line # ys))" and ok: "\<forall>l \<in> set (xs @ line # ys). line_ok l"
    and name: "NUL \<notin> set name" and h: "holds h R (lines_owned (xs @ line # ys) @ A)"
  shows "http_header_cursor_next (cursor_at xs) (xs @ line # ys)
      = (0, cursor_at (xs @ [line]), Some (line_name line, line_value line))
    \<and> http_header_cursor_next (cursor_at (xs @ line # ys)) (xs @ line # ys) = (1, cursor_at (xs @ line # ys), None)
    \<and> snd (snd (http_header_cursor_find name (cursor_at xs) (xs @ line # ys)))
      = map_of (headers (line # ys)) (map tolower name)
    \<and> (\<exists>h'. http_header_cursor_erase (cursor_at (xs @ [line])) (xs @ line # ys) h = (0, cursor_at xs, xs @ ys, h')
         \<and> holds h' R (lines_owned (xs @ ys) @ A))
    \<and> http_header_cursor_erase http_header_cursor_init (xs @ line # ys) h
      = (1, http_header_cursor_init, xs @ line # ys, h)"
proof -
  have after: "lines_after (cursor_at xs) (xs @ line # ys) = line # ys"
    "lines_after (cursor_at (xs @ line # ys)) (xs @ line # ys) = []"
    using lines_after_at [of xs "line # ys"] lines_after_at [of "xs @ line # ys" "[]"] d by simp_all
  have "holds h R (line_owned line @ lines_owned (xs @ ys) @ A)" using h by (rule holds_perm) simp
  then have "holds (free_line line h) R (lines_owned (xs @ ys) @ A)" by (rule holds_free_line)
  moreover have "http_header_cursor_erase (cursor_at (xs @ [line])) (xs @ line # ys) h
      = (0, cursor_at xs, xs @ ys, free_line line h)"
    using dropWhile_addr [OF d] by (simp add: http_header_cursor_erase_def cursor_at_def)
  moreover have "snd (snd (http_header_cursor_find name (cursor_at xs) (xs @ line # ys)))
      = map_of (headers (line # ys)) (map tolower name)"
    unfolding http_header_cursor_find_def after using cursor_find_loop_lookup [of "line # ys" name] ok name by simp
  ultimately show ?thesis using after
    by (simp add: http_header_cursor_next_def http_header_cursor_erase_def http_header_cursor_init_def cursor_at_def)
qed

theorem http_header_cursor_correct_witness:
  "let line = \<lparr>line_addr = 0, line_own = None, name_len = 1, value_len = 1, line_buf = ''A: b'' @ [CR, LF]\<rparr>
   in http_header_cursor_next http_header_cursor_init [line] = (0, Some 0, Some (''A'', ''b''))
      \<and> (\<exists>h'. http_header_cursor_erase (Some 0) [line] \<lparr>outcomes = [], brk = 1, live = {0}, bad_free = False\<rparr>
           = (0, http_header_cursor_init, [], h') \<and> holds h' {} [])"
proof -
  let ?l = "\<lparr>line_addr = 0, line_own = None, name_len = 1, value_len = 1, line_buf = ''A: b'' @ [CR, LF]\<rparr>"
  let ?h = "\<lparr>outcomes = [], brk = 1, live = {0}, bad_free = False\<rparr>"
  have ok: "line_ok ?l" unfolding line_ok_def by (intro exI [of _ "''A''"] exI [of _ "''b''"]) (simp add: line_is_def)
  have h: "holds ?h {} (lines_owned ([] @ ?l # []) @ [])"
    by (simp add: holds_def heap_ok_def line_owned_def opt_list_def)
  have p: "line_name ?l = ''A''" "line_value ?l = ''b''" by (simp_all add: line_name_def line_value_def)
  show ?thesis using http_header_cursor_correct [of "[]" ?l "[]" "''A''" ?h "{}" "[]"] ok h p
    unfolding Let_def by (simp add: cursor_at_def http_header_cursor_init_def)
qed

end
