(* ===== verification/Http_Parser.thy ===== *)
theory Http_Parser
  imports Http_Message
begin

text \<open>
  The incremental parser of \<open>src/src/protocol/http_parser.c\<close>: the start line, header names and
  values, chunks and trailers, and \<open>http_parser_append_message\<close>, which is called with each piece
  of a message as it arrives.

  A pointer into the message with the number of bytes left is the list of these bytes. The three
  return values of the parse functions are kept as integers: negative for an error, 0 when more
  bytes are needed, 1 when something was consumed. A write outside \<open>namebuf\<close>, \<open>header_value\<close> or
  the message buffer is the value \<open>None\<close>.
\<close>

section \<open>Lines\<close>

definition HTTP_START_LINE_MAX :: nat where "HTTP_START_LINE_MAX = 8192"
definition HTTP_HEADER_VALUE_MAX :: nat where "HTTP_HEADER_VALUE_MAX = 8192"
definition HTTP_CHUNK_LINE_MAX :: nat where "HTTP_CHUNK_LINE_MAX = 1024"
definition HTTP_TRAILER_LINE_MAX :: nat where "HTTP_TRAILER_LINE_MAX = 8192"
definition HTTP_MSGBUF_INIT_SIZE :: nat where "HTTP_MSGBUF_INIT_SIZE = 2048"

definition CHUNK_SIZE_MAX :: int where
  "CHUNK_SIZE_MAX = 2 * 1024 * 1024 * 1024 - int HTTP_CHUNK_LINE_MAX - 4"

datatype line_scan = Line_Found nat | Line_More | Line_Bad

text \<open>The loop over a line that ends with CR LF, from the index \<open>i\<close>; \<open>limit\<close> is the size of the line
  buffer, \<open>bad\<close> the bytes that are refused.\<close>

fun scan_line :: "(byte \<Rightarrow> bool) \<Rightarrow> nat \<Rightarrow> nat \<Rightarrow> byte list \<Rightarrow> line_scan" where
  "scan_line bad limit i [] = (if i = limit then Line_Bad else Line_More)"
| "scan_line bad limit i (c # s) =
     (if i = limit then Line_Bad
      else if c = CR
      then (case s of [] \<Rightarrow> Line_More | d # _ \<Rightarrow> if d = LF then Line_Found i else Line_Bad)
      else if bad c then Line_Bad
      else scan_line bad limit (Suc i) s)"

section \<open>The start line\<close>

definition old_version :: "byte list \<Rightarrow> bool" where
  "old_version v \<longleftrightarrow> strcmp v ''HTTP/1.0'' = 0 \<or> strncmp_eq v ''HTTP/0'' 6"

definition match_request_line :: "byte list \<Rightarrow> byte list \<Rightarrow> byte list \<Rightarrow> http_parser \<Rightarrow> heap_st
    \<Rightarrow> int \<times> http_parser \<times> heap_st" where
  "match_request_line m u v parser h =
     (let parser = (if old_version v then parser\<lparr>keep_alive := False\<rparr> else parser)
      in case strdup m h of
           (None, h) \<Rightarrow> (- 1, parser, h)
         | (Some m, h) \<Rightarrow>
             (case strdup u h of
                (None, h) \<Rightarrow> (- 1, parser, free (fst m) h)
              | (Some u, h) \<Rightarrow>
                  (case strdup v h of
                     (None, h) \<Rightarrow> (- 1, parser, free (fst m) (free (fst u) h))
                   | (Some v, h) \<Rightarrow>
                       (0, parser\<lparr>method_str := Some m, uri := Some u, version := Some v\<rparr>,
                        free_string (version parser) (free_string (uri parser) (free_string (method_str parser) h))))))"

definition match_status_line :: "byte list \<Rightarrow> byte list \<Rightarrow> byte list \<Rightarrow> http_parser \<Rightarrow> heap_st
    \<Rightarrow> int \<times> http_parser \<times> heap_st" where
  "match_status_line v c ph parser h =
     (let parser = (if old_version v then parser\<lparr>keep_alive := False\<rparr> else parser);
          parser = (if deref c = CHR ''1'' \<or> strcmp c ''204'' = 0 \<or> strcmp c ''304'' = 0
                    then parser\<lparr>transfer_length := 0\<rparr> else parser)
      in case strdup v h of
           (None, h) \<Rightarrow> (- 1, parser, h)
         | (Some v, h) \<Rightarrow>
             (case strdup c h of
                (None, h) \<Rightarrow> (- 1, parser, free (fst v) h)
              | (Some c, h) \<Rightarrow>
                  (case strdup ph h of
                     (None, h) \<Rightarrow> (- 1, parser, free (fst v) (free (fst c) h))
                   | (Some ph, h) \<Rightarrow>
                       (0, parser\<lparr>version := Some v, code := Some c, phrase := Some ph\<rparr>,
                        free_string (phrase parser) (free_string (code parser) (free_string (version parser) h))))))"

text \<open>The line cut at its first two spaces.\<close>

definition cut_space :: "byte list \<Rightarrow> (byte list \<times> byte list) option" where
  "cut_space s =
     (case dropWhile (\<lambda>c. c \<noteq> CHR '' '') s of
        [] \<Rightarrow> None
      | _ # rest \<Rightarrow> Some (takeWhile (\<lambda>c. c \<noteq> CHR '' '') s, rest))"

definition parse_start_line :: "byte list \<Rightarrow> http_parser \<Rightarrow> heap_st \<Rightarrow> int \<times> http_parser \<times> heap_st" where
  "parse_start_line ptr parser h =
     (if take 2 ptr = [CR, LF] then (1, parser\<lparr>header_offset := header_offset parser + 2\<rparr>, h)
      else case scan_line (\<lambda>c. c = NUL) HTTP_START_LINE_MAX 0 ptr of
             Line_Bad \<Rightarrow> (- 2, parser, h)
           | Line_More \<Rightarrow> (0, parser, h)
           | Line_Found i \<Rightarrow>
               (case cut_space (take i ptr) of
                  None \<Rightarrow> (- 2, parser, h)
                | Some (p1, rest) \<Rightarrow>
                    (case cut_space rest of
                       None \<Rightarrow> (- 2, parser, h)
                     | Some (p2, p3) \<Rightarrow>
                         let (ret, parser, h) =
                           (if is_resp parser then match_status_line p1 p2 p3 parser h
                            else match_request_line p1 p2 p3 parser h)
                         in if ret < 0 then (- 1, parser, h)
                            else (1, parser\<lparr>header_offset := header_offset parser + i + 2,
                                            header_state := HPS_HEADER_NAME\<rparr>, h))))"

section \<open>Header names and values\<close>

fun name_loop :: "nat \<Rightarrow> byte list \<Rightarrow> http_parser \<Rightarrow> (int \<times> http_parser) option" where
  "name_loop i [] parser = Some (if i = HTTP_HEADER_NAME_MAX then - 2 else 0, parser)"
| "name_loop i (c # s) parser =
     (if i = HTTP_HEADER_NAME_MAX then Some (- 2, parser)
      else if c = CHR '':''
      then do {
             buf \<leftarrow> poke i [NUL] (namebuf parser);
             Some (1, parser\<lparr>namebuf := buf, header_offset := header_offset parser + i + 1,
                              header_state := HPS_HEADER_VALUE\<rparr>)
           }
      else if nonpositive_byte c then Some (- 2, parser)
      else do {
             buf \<leftarrow> poke i [c] (namebuf parser);
             name_loop (Suc i) s (parser\<lparr>namebuf := buf\<rparr>)
           })"

definition parse_header_name :: "byte list \<Rightarrow> http_parser \<Rightarrow> (int \<times> http_parser) option" where
  "parse_header_name ptr parser =
     (if take 2 ptr = [CR, LF]
      then Some (1, parser\<lparr>header_offset := header_offset parser + 2, header_state := HPS_HEADER_COMPLETE\<rparr>)
      else name_loop 0 ptr parser)"

definition blank :: "byte \<Rightarrow> bool" where
  "blank c \<longleftrightarrow> c = CHR '' '' \<or> c = TAB"

datatype value_scan = Value_Overrun | Value_Bad | Value_More | Value_Line "byte list" "byte list"

text \<open>One line of a header value, up to its CR, behind the bytes \<open>v\<close> that \<open>header_value\<close> holds already;
  \<open>Value_Line v s\<close>: the value and the bytes after the CR. \<open>header_value[i]\<close> is written for every byte.\<close>

fun value_line :: "byte list \<Rightarrow> byte list \<Rightarrow> value_scan" where
  "value_line [] v = Value_More"
| "value_line (c # s) v =
     (if length v = HTTP_HEADER_VALUE_MAX then Value_Bad
      else if length v > HTTP_HEADER_VALUE_MAX then Value_Overrun
      else if s = [] then Value_More
      else if c = CR then Value_Line v s
      else if nonpositive_byte c then Value_Bad
      else value_line s (v @ [c]))"

text \<open>Trailing blanks: \<open>while (i > 0) ...\<close>\<close>

definition trim_blank :: "byte list \<Rightarrow> byte list" where
  "trim_blank v = rev (dropWhile blank (rev v))"

lemma value_line_shorter: "value_line ptr v = Value_Line v' s \<Longrightarrow> length s < length ptr"
  by (induction ptr v rule: value_line.induct) (auto split: if_splits)

text \<open>The lines of a value; a line that begins with a blank continues it. \<open>Value_Line v s\<close>: the whole
  value and the bytes after it.\<close>

function value_loop :: "byte list \<Rightarrow> byte list \<Rightarrow> value_scan" where
  "value_loop ptr v =
     (let ptr = dropWhile blank ptr
      in if ptr = [] then Value_More
         else case value_line ptr v of
                Value_Line v s \<Rightarrow>
                  if hd s \<noteq> LF then Value_Bad
                  else if tl s = [] then Value_More
                  else let v = trim_blank v
                       in if length v \<ge> HTTP_HEADER_VALUE_MAX then Value_Overrun
                          else if \<not> blank (hd (tl s)) then Value_Line v (tl s)
                          else value_loop (tl (tl s)) (v @ '' '')
              | r \<Rightarrow> r)"
  by pat_completeness auto
termination
proof (relation "measure (\<lambda>(ptr, v). length ptr)")
  fix ptr v x v' s v'' :: "byte list"
  assume "x = dropWhile blank ptr" "value_line x v = Value_Line v' s"
  then have "length s < length ptr" using value_line_shorter length_dropWhile_le [of blank ptr] by fastforce
  then show "((tl (tl s), v'' @ '' ''), ptr, v) \<in> measure (\<lambda>(ptr, v). length ptr)" by simp
qed simp

declare value_loop.simps [simp del]

definition parse_header_value :: "byte list \<Rightarrow> http_parser \<Rightarrow> heap_st \<Rightarrow> (int \<times> http_parser \<times> heap_st) option" where
  "parse_header_value ptr parser h =
     (case value_loop ptr [] of
        Value_Overrun \<Rightarrow> None
      | Value_Bad \<Rightarrow> Some (- 2, parser, h)
      | Value_More \<Rightarrow> Some (0, parser, h)
      | Value_Line v s \<Rightarrow>
          do {
            (ret, parser, h) \<leftarrow> http_parser_add_header (cstr (namebuf parser)) v parser h;
            if ret < 0 then Some (- 1, parser, h)
            else Some (1, parser\<lparr>header_offset := header_offset parser + (length ptr - length s),
                                 header_state := HPS_HEADER_NAME\<rparr>, h)
          })"

text \<open>One turn of the loop of \<open>__parse_message_header\<close>.\<close>

definition header_step :: "byte list \<Rightarrow> http_parser \<Rightarrow> heap_st \<Rightarrow> (int \<times> http_parser \<times> heap_st) option" where
  "header_step message parser h =
     (let ptr = drop (header_offset parser) message
      in if header_state parser = HPS_START_LINE then Some (parse_start_line ptr parser h)
         else if header_state parser = HPS_HEADER_VALUE then parse_header_value ptr parser h
         else map_option (\<lambda>(ret, parser). (ret, parser, h)) (parse_header_name ptr parser))"

section \<open>The loop over the header\<close>

lemma scan_line_found: "scan_line bad limit i s = Line_Found j \<Longrightarrow> i \<le> j \<and> j + 2 \<le> i + length s \<and> j < limit \<or> limit < i"
proof (induction bad limit i s rule: scan_line.induct)
  case (2 bad limit i c s)
  then show ?case by (cases s) (auto split: if_splits)
qed (auto split: if_splits)

lemma take2_length: "take 2 ptr = [CR, LF] \<Longrightarrow> 2 \<le> length ptr"
  by (metis One_nat_def Suc_1 length_Cons length_take list.size(3) min.cobounded1)

lemma match_line_offset [simp]:
  "match_request_line m u v p h = (ret, p', h') \<Longrightarrow> header_offset p' = header_offset p \<and> header_state p' = header_state p"
  "match_status_line v c ph p h = (ret, p', h') \<Longrightarrow> header_offset p' = header_offset p \<and> header_state p' = header_state p"
  by (auto simp: match_request_line_def match_status_line_def Let_def split: option.splits prod.splits if_splits)

lemma start_line_progress:
  assumes "parse_start_line ptr p h = (ret, p', h')" "0 < ret"
  shows "header_offset p < header_offset p' \<and> header_offset p' \<le> header_offset p + length ptr"
proof (cases "take 2 ptr = [CR, LF]")
  case True
  then show ?thesis using assms take2_length by (auto simp: parse_start_line_def)
next
  case False
  then show ?thesis using assms scan_line_found [of "\<lambda>c. c = NUL" HTTP_START_LINE_MAX 0 ptr]
    by (auto simp: parse_start_line_def Let_def split: line_scan.splits option.splits prod.splits if_splits
        dest!: match_line_offset)
qed

lemma name_loop_progress:
  assumes "name_loop i ptr p = Some (ret, p')" "0 < ret"
  shows "header_offset p < header_offset p' \<and> header_offset p' \<le> header_offset p + i + length ptr
    \<and> header_state p' = HPS_HEADER_VALUE"
  using assms by (induction i ptr p rule: name_loop.induct) (auto split: if_splits Option.bind_splits)

lemma value_loop_line:
  "value_line (dropWhile blank ptr) v = Value_Line w s \<Longrightarrow> value_loop ptr v =
     (if hd s \<noteq> LF then Value_Bad
      else if tl s = [] then Value_More
      else if length (trim_blank w) \<ge> HTTP_HEADER_VALUE_MAX then Value_Overrun
      else if \<not> blank (hd (tl s)) then Value_Line (trim_blank w) (tl s)
      else value_loop (tl (tl s)) (trim_blank w @ '' ''))"
  by (subst value_loop.simps) (cases "dropWhile blank ptr"; simp add: Let_def)

lemma value_loop_other:
  "value_line (dropWhile blank ptr) v = r \<Longrightarrow> (\<And>w s. r \<noteq> Value_Line w s) \<Longrightarrow> value_loop ptr v = r"
  by (subst value_loop.simps) (cases "dropWhile blank ptr"; cases r; auto simp: Let_def)

lemma value_loop_shorter: "value_loop ptr v = Value_Line v' s \<Longrightarrow> length s < length ptr \<and> s \<noteq> []"
proof (induction ptr arbitrary: v rule: measure_induct_rule [of length])
  case (less ptr)
  obtain w s1 where w: "value_line (dropWhile blank ptr) v = Value_Line w s1"
    using less.prems value_loop_other [of ptr v] by (cases "value_line (dropWhile blank ptr) v") auto
  have l: "length s1 < length ptr" using value_line_shorter [OF w] length_dropWhile_le [of blank ptr] by linarith
  then have l2: "length (tl (tl s1)) < length ptr" by simp
  show ?case using less.prems less.IH [OF l2, of "trim_blank w @ '' ''"] l
    unfolding value_loop_line [OF w] by (auto split: if_splits)
qed

lemma check_message_header_keeps [simp]:
  "header_state (check_message_header name value p) = header_state p"
  "chunk_state (check_message_header name value p) = chunk_state p"
  "header_offset (check_message_header name value p) = header_offset p"
  "chunk_offset (check_message_header name value p) = chunk_offset p"
  "transfer_length (check_message_header name value p) = transfer_length p"
  "namebuf (check_message_header name value p) = namebuf p"
  "msgbuf (check_message_header name value p) = msgbuf p"
  "msgsize (check_message_header name value p) = msgsize p"
  "bufsize (check_message_header name value p) = bufsize p"
  "complete (check_message_header name value p) = complete p"
  "is_resp (check_message_header name value p) = is_resp p"
  by (simp_all add: check_message_header_def Let_def if_distrib [of header_state] if_distrib [of chunk_state]
      if_distrib [of header_offset] if_distrib [of chunk_offset] if_distrib [of transfer_length] if_distrib [of namebuf]
      if_distrib [of msgbuf] if_distrib [of msgsize] if_distrib [of bufsize] if_distrib [of complete]
      if_distrib [of is_resp] cong: if_cong split del: if_split)

lemma add_header_cases:
  obtains h' where "http_parser_add_header name value p h = Some (- 1, p, h')" "malloc h = (None, h')"
  | a h' where "http_parser_add_header name value p h =
      Some (0, check_message_header name value (p\<lparr>header_list := header_list p @
        [\<lparr>line_addr = a, line_own = None, name_len = length name, value_len = length value,
          line_buf = name @ '': '' @ value @ [CR, LF]\<rparr>]\<rparr>), h')" "malloc h = (Some a, h')"
  by (cases "malloc h"; cases "fst (malloc h)") (auto simp: http_parser_add_header_def add_message_header_def)

lemma header_value_progress:
  assumes "parse_header_value ptr p h = Some (ret, p', h')" "0 < ret"
  shows "header_offset p < header_offset p' \<and> header_offset p' \<le> header_offset p + length ptr"
proof -
  have "header_offset q = header_offset p" if "http_parser_add_header n v p h = Some (r, q, k)" for n v r q k
    by (rule add_header_cases [of n v p h]) (use that in auto)
  moreover obtain v s where v: "value_loop ptr [] = Value_Line v s"
    using assms by (auto simp: parse_header_value_def split: value_scan.splits)
  ultimately show ?thesis using assms value_loop_shorter [OF v]
    by (auto simp: parse_header_value_def split: Option.bind_splits if_splits)
qed

lemma header_name_progress:
  assumes "parse_header_name ptr p = Some (ret, p')" "0 < ret"
  shows "header_offset p < header_offset p' \<and> header_offset p' \<le> header_offset p + length ptr"
  using assms name_loop_progress [of 0 ptr p] take2_length [of ptr]
  by (auto simp: parse_header_name_def split: if_splits)

lemma header_step_progress:
  assumes "header_step message p h = Some (ret, p', h')" "0 < ret"
  shows "header_offset p < header_offset p' \<and> header_offset p' \<le> length message"
proof -
  let ?ptr = "drop (header_offset p) message"
  have "header_offset p < header_offset p' \<and> header_offset p' \<le> header_offset p + length ?ptr"
    using assms start_line_progress [of ?ptr p h] header_name_progress [of ?ptr p] header_value_progress [of ?ptr p h]
    by (auto simp: header_step_def Let_def split: if_splits)
  then show ?thesis by auto
qed

text \<open>\<open>__parse_message_header\<close>. Only \<open>__parse_header_name\<close> sets the state to complete.\<close>

function parse_message_header :: "byte list \<Rightarrow> http_parser \<Rightarrow> heap_st \<Rightarrow> (int \<times> http_parser \<times> heap_st) option" where
  "parse_message_header message parser h =
     (case header_step message parser h of
        None \<Rightarrow> None
      | Some (ret, parser, h) \<Rightarrow>
          if header_state parser = HPS_HEADER_COMPLETE then Some (1, parser, h)
          else if ret > 0 then parse_message_header message parser h
          else Some (ret, parser, h))"
  by pat_completeness auto
termination
  by (relation "measure (\<lambda>(message, parser, h). length message - header_offset parser)")
    (auto dest!: header_step_progress)

declare parse_message_header.simps [simp del]

section \<open>Chunks\<close>

definition xdigit :: "byte \<Rightarrow> int option" where
  "xdigit c =
     (if isdigit c then Some (int (ord c) - 48)
      else if 65 \<le> ord c \<and> ord c \<le> 70 then Some (int (ord c) - 55)
      else if 97 \<le> ord c \<and> ord c \<le> 102 then Some (int (ord c) - 87)
      else None)"

text \<open>\<open>strtol(s, &end, 16)\<close>, with a 64-bit \<open>long\<close>; \<open>None\<close> is \<open>end == s\<close>.\<close>

definition strtol16 :: "byte list \<Rightarrow> int option" where
  "strtol16 s =
     (let s = skip_space s;
          neg = (deref s = CHR ''-'');
          s = (if neg \<or> deref s = CHR ''+'' then tl s else s);
          s = (if deref s = CHR ''0'' \<and> (deref (tl s) = CHR ''x'' \<or> deref (tl s) = CHR ''X'')
                 \<and> xdigit (deref (tl (tl s))) \<noteq> None then tl (tl s) else s);
          ds = takeWhile (\<lambda>c. xdigit c \<noteq> None) s;
          n = foldl (\<lambda>n c. n * 16 + the (xdigit c)) 0 ds
      in if ds = [] then None
         else Some (if neg then max (- (2 ^ 63)) (- n) else min (2 ^ 63 - 1) n))"

definition parse_chunk_data :: "byte list \<Rightarrow> http_parser \<Rightarrow> int \<times> http_parser" where
  "parse_chunk_data ptr parser =
     (case scan_line (\<lambda>c. False) HTTP_CHUNK_LINE_MAX 0 ptr of
        Line_Bad \<Rightarrow> (- 2, parser)
      | Line_More \<Rightarrow> (0, parser)
      | Line_Found i \<Rightarrow>
          (case strtol16 (cstr (take i ptr)) of
             None \<Rightarrow> (- 2, parser)
           | Some n \<Rightarrow>
               if n = 0
               then (1, parser\<lparr>chunk_offset := chunk_offset parser + (i + 2), chunk_state := CPS_TRAILER_PART\<rparr>)
               else if (if n < 0 then n + 2 ^ 64 else n) < CHUNK_SIZE_MAX
               then let chunk_size = nat n + i + 4
                    in if length ptr < chunk_size then (0, parser)
                       else (1, parser\<lparr>chunk_offset := chunk_offset parser + chunk_size\<rparr>)
               else (- 2, parser)))"

definition parse_trailer_part :: "byte list \<Rightarrow> http_parser \<Rightarrow> int \<times> http_parser" where
  "parse_trailer_part ptr parser =
     (case scan_line (\<lambda>c. False) HTTP_TRAILER_LINE_MAX 0 ptr of
        Line_Bad \<Rightarrow> (- 2, parser)
      | Line_More \<Rightarrow> (0, parser)
      | Line_Found i \<Rightarrow>
          let parser = parser\<lparr>chunk_offset := chunk_offset parser + (i + 2)\<rparr>
          in (1, if i = 0 then parser\<lparr>chunk_state := CPS_CHUNK_COMPLETE\<rparr> else parser))"

definition chunk_step :: "byte list \<Rightarrow> http_parser \<Rightarrow> int \<times> http_parser" where
  "chunk_step message parser =
     (let ptr = drop (chunk_offset parser) message
      in if chunk_state parser = CPS_CHUNK_DATA then parse_chunk_data ptr parser
         else parse_trailer_part ptr parser)"

lemma chunk_step_progress:
  assumes "chunk_step message p = (ret, p')" "0 < ret"
  shows "chunk_offset p < chunk_offset p' \<and> chunk_offset p' \<le> length message"
proof -
  let ?ptr = "drop (chunk_offset p) message"
  have "chunk_offset p < chunk_offset p' \<and> chunk_offset p' \<le> chunk_offset p + length ?ptr"
    using assms scan_line_found [of "\<lambda>c. False" HTTP_CHUNK_LINE_MAX 0 ?ptr]
      scan_line_found [of "\<lambda>c. False" HTTP_TRAILER_LINE_MAX 0 ?ptr]
    by (auto simp: chunk_step_def parse_chunk_data_def parse_trailer_part_def Let_def
        split: if_splits line_scan.splits option.splits)
  then show ?thesis by auto
qed

text \<open>\<open>__parse_chunk\<close>. Only \<open>__parse_trailer_part\<close> sets the state to complete.\<close>

function parse_chunk :: "byte list \<Rightarrow> http_parser \<Rightarrow> int \<times> http_parser" where
  "parse_chunk message parser =
     (let (ret, parser) = chunk_step message parser
      in if chunk_state parser = CPS_CHUNK_COMPLETE then (1, parser)
         else if ret > 0 then parse_chunk message parser
         else (ret, parser))"
  by pat_completeness auto
termination
  by (relation "measure (\<lambda>(message, parser). length message - chunk_offset parser)")
    (auto dest!: chunk_step_progress [OF sym])

declare parse_chunk.simps [simp del]

section \<open>Appending a piece of the message\<close>

text \<open>The new size of the buffer: doubled until \<open>need\<close> bytes fit. The size is never 0.\<close>

function grow_size :: "nat \<Rightarrow> nat \<Rightarrow> nat" where
  "grow_size need new_size = (if new_size < need \<and> 0 < new_size then grow_size need (2 * new_size) else new_size)"
  by pat_completeness auto
termination
  by (relation "measure (\<lambda>(need, new_size). need - new_size)") auto

declare grow_size.simps [simp del]

text \<open>Room for \<open>n\<close> more bytes and a final NUL; false when there is none.\<close>

definition reserve :: "nat \<Rightarrow> http_parser \<Rightarrow> heap_st \<Rightarrow> bool \<times> http_parser \<times> heap_st" where
  "reserve n parser h =
     (if msgsize parser + n + 1 > bufsize parser
      then let new_size = grow_size (msgsize parser + n + 1) (max HTTP_MSGBUF_INIT_SIZE (2 * bufsize parser))
           in case realloc (map_option fst (msgbuf parser)) h of
                (None, h) \<Rightarrow> (False, parser, h)
              | (Some a, h) \<Rightarrow>
                  (True, parser\<lparr>msgbuf := Some (a, case msgbuf parser of None \<Rightarrow> [] | Some (_, b) \<Rightarrow> b),
                                bufsize := new_size\<rparr>, h)
      else (True, parser, h))"

text \<open>\<open>memcpy\<close> of a piece behind the message. The list in \<open>msgbuf\<close> holds the bytes that have been written.\<close>

definition store_piece :: "byte list \<Rightarrow> http_parser \<Rightarrow> http_parser option" where
  "store_piece buf parser =
     (case msgbuf parser of
        None \<Rightarrow> None
      | Some (a, b) \<Rightarrow>
          if msgsize parser + length buf \<le> bufsize parser
          then Some (parser\<lparr>msgbuf := Some (a, take (msgsize parser) b @ buf), msgsize := msgsize parser + length buf\<rparr>)
          else None)"

definition message :: "http_parser \<Rightarrow> byte list" where
  "message parser = (case msgbuf parser of None \<Rightarrow> [] | Some (_, b) \<Rightarrow> take (msgsize parser) b)"

text \<open>What follows the header, with \<open>n\<close> the number of bytes of the last piece. The second result is the
  number of them that belong to the message; a negative number would be a \<open>size_t\<close> that wraps around.\<close>

definition body_end :: "nat \<Rightarrow> nat \<Rightarrow> http_parser \<Rightarrow> int \<times> int \<times> http_parser" where
  "body_end n all parser =
     (1, int n - (int (msgsize parser) - int all), parser\<lparr>msgsize := all, complete := True\<rparr>)"

definition body_step :: "nat \<Rightarrow> http_parser \<Rightarrow> int \<times> int \<times> http_parser" where
  "body_step n parser =
     (if transfer_length parser \<noteq> SIZE_MAX
      then let all = (header_offset parser + transfer_length parser) mod 2 ^ 64
           in if msgsize parser \<ge> all then body_end n all parser else (0, int n, parser)
      else if \<not> chunked parser then (0, int n, parser)
      else if chunk_state parser \<noteq> CPS_CHUNK_COMPLETE
      then let (ret, parser) = parse_chunk (message parser) parser
           in if ret \<le> 0 then (ret, int n, parser) else body_end n (chunk_offset parser) parser
      else body_end n (chunk_offset parser) parser)"

definition header_done :: "http_parser \<Rightarrow> http_parser" where
  "header_done parser =
     (if chunked parser then parser\<lparr>chunk_offset := header_offset parser, chunk_state := CPS_CHUNK_DATA\<rparr>
      else if transfer_length parser = SIZE_MAX then parser\<lparr>transfer_length := content_length parser\<rparr>
      else parser)"

definition parse_step :: "nat \<Rightarrow> http_parser \<Rightarrow> heap_st \<Rightarrow> (int \<times> int \<times> http_parser \<times> heap_st) option" where
  "parse_step n parser h =
     (if header_state parser \<noteq> HPS_HEADER_COMPLETE
      then do {
             (ret, parser, h) \<leftarrow> parse_message_header (message parser) parser h;
             if ret \<le> 0 then Some (ret, int n, parser, h)
             else let (ret, m, parser) = body_step n (header_done parser) in Some (ret, m, parser, h)
           }
      else let (ret, m, parser) = body_step n parser in Some (ret, m, parser, h))"

definition http_parser_append_message :: "byte list \<Rightarrow> http_parser \<Rightarrow> heap_st
    \<Rightarrow> (int \<times> int \<times> http_parser \<times> heap_st) option" where
  "http_parser_append_message buf parser h =
     (if complete parser then Some (1, 0, parser, h)
      else case reserve (length buf) parser h of
             (False, parser, h) \<Rightarrow> Some (- 1, int (length buf), parser, h)
           | (True, parser, h) \<Rightarrow>
               do {
                 parser \<leftarrow> store_piece buf parser;
                 parse_step (length buf) parser h
               })"

definition http_parser_header_complete :: "http_parser \<Rightarrow> bool" where
  "http_parser_header_complete parser \<longleftrightarrow> header_state parser = HPS_HEADER_COMPLETE"

text \<open>\<open>http_parser_get_body\<close>: the body, with a NUL behind it in the buffer; \<open>Some None\<close> is the return
  value 1.\<close>

definition http_parser_get_body :: "http_parser \<Rightarrow> (byte list \<times> http_parser) option option" where
  "http_parser_get_body parser =
     (if complete parser \<and> header_state parser = HPS_HEADER_COMPLETE
      then case msgbuf parser of
             None \<Rightarrow> None
           | Some (a, b) \<Rightarrow>
               if msgsize parser < bufsize parser
               then Some (Some (drop (header_offset parser) (take (msgsize parser) b),
                 parser\<lparr>msgbuf := Some (a, take (msgsize parser) b @ NUL # drop (Suc (msgsize parser)) b)\<rparr>))
               else None
      else Some None)"

end
