(* ===== verification/Http_Safety.thy ===== *)
theory Http_Safety
  imports Http_Parser
begin

text \<open>
  Memory safety of the HTTP parser: for every sequence of pieces of any bytes, with any pattern of
  allocation failures, no parse function writes outside \<open>namebuf\<close>, \<open>start_line\<close>, \<open>header_value\<close> or the
  message buffer, the offsets stay inside the message, and the parser owns exactly its blocks.
\<close>

section \<open>What the parse functions keep\<close>

text \<open>Body lengths: unknown, or from at most fifteen digits.\<close>

definition length_ok :: "nat \<Rightarrow> bool" where
  "length_ok n \<longleftrightarrow> n = SIZE_MAX \<or> n < 10 ^ 15"

definition header_inv :: "http_parser \<Rightarrow> bool" where
  "header_inv p \<longleftrightarrow> lines_ok p \<and> length (namebuf p) = HTTP_HEADER_NAME_MAX
     \<and> length_ok (content_length p) \<and> length_ok (transfer_length p)"

text \<open>The fields that parsing a header does not touch.\<close>

definition same_message :: "http_parser \<Rightarrow> http_parser \<Rightarrow> bool" where
  "same_message p p' \<longleftrightarrow> msgbuf p' = msgbuf p \<and> msgsize p' = msgsize p \<and> bufsize p' = bufsize p
     \<and> complete p' = complete p \<and> is_resp p' = is_resp p \<and> chunk_state p' = chunk_state p \<and> chunk_offset p' = chunk_offset p"

text \<open>A step from \<open>p\<close> to \<open>p'\<close> that is safe.\<close>

definition safe_step :: "addr set \<Rightarrow> http_parser \<Rightarrow> http_parser \<Rightarrow> heap_st \<Rightarrow> bool" where
  "safe_step R p p' h' \<longleftrightarrow> header_inv p' \<and> same_message p p' \<and> holds h' R (http_owned p')"

lemma safe_step_refl: "header_inv p \<Longrightarrow> holds h R (http_owned p) \<Longrightarrow> safe_step R p p h"
  by (simp add: safe_step_def same_message_def)

lemma safe_step_trans: "safe_step R p q h \<Longrightarrow> safe_step R q r k \<Longrightarrow> safe_step R p r k"
  by (simp add: safe_step_def same_message_def)

lemma owned_updates [simp]:
  "http_owned (p\<lparr>header_offset := x\<rparr>) = http_owned p" "http_owned (p\<lparr>header_state := y\<rparr>) = http_owned p"
  "http_owned (p\<lparr>namebuf := z\<rparr>) = http_owned p" "http_owned (p\<lparr>keep_alive := b\<rparr>) = http_owned p"
  "http_owned (p\<lparr>transfer_length := x\<rparr>) = http_owned p" "http_owned (p\<lparr>chunk_offset := x\<rparr>) = http_owned p"
  "http_owned (p\<lparr>chunk_state := cs\<rparr>) = http_owned p" "http_owned (p\<lparr>msgsize := x\<rparr>) = http_owned p"
  "http_owned (p\<lparr>complete := b\<rparr>) = http_owned p"
  by (simp_all add: http_owned_def fields_owned_def)

lemma lines_ok_updates [simp]:
  "lines_ok (p\<lparr>header_offset := x\<rparr>) = lines_ok p" "lines_ok (p\<lparr>header_state := y\<rparr>) = lines_ok p"
  "lines_ok (p\<lparr>namebuf := z\<rparr>) = lines_ok p" "lines_ok (p\<lparr>keep_alive := b\<rparr>) = lines_ok p"
  "lines_ok (p\<lparr>transfer_length := x\<rparr>) = lines_ok p" "lines_ok (p\<lparr>chunk_offset := x\<rparr>) = lines_ok p"
  "lines_ok (p\<lparr>chunk_state := cs\<rparr>) = lines_ok p" "lines_ok (p\<lparr>msgsize := x\<rparr>) = lines_ok p"
  "lines_ok (p\<lparr>complete := b\<rparr>) = lines_ok p"
  by (simp_all add: lines_ok_def)

lemma safe_step_move:
  "safe_step R p q h \<Longrightarrow> safe_step R p (q\<lparr>header_offset := x, header_state := y\<rparr>) h"
  "safe_step R p q h \<Longrightarrow> safe_step R p (q\<lparr>header_offset := x\<rparr>) h"
  by (simp_all add: safe_step_def same_message_def header_inv_def)

section \<open>The start line\<close>

text \<open>Three strings are duplicated and take the place of three others.\<close>

lemma holds_strdup_fail:
  "holds h R A \<Longrightarrow> strdup s h = (None, h') \<Longrightarrow> holds h' R A"
  using holds_strdup [of h R A s None h'] by (simp add: str_owned_def opt_list_def)

lemma holds_strdup_ok:
  "holds h R A \<Longrightarrow> strdup s h = (Some d, h') \<Longrightarrow> holds h' R (fst d # A)"
  using holds_strdup [of h R A s "Some d" h'] by (simp add: str_owned_def opt_list_def)

lemma holds_three:
  assumes "holds h R A" "strdup a h = (Some d1, h1)" "strdup b h1 = (Some d2, h2)" "strdup c h2 = (Some d3, h3)"
    "mset (fst d3 # fst d2 # fst d1 # A) = mset (str_owned o1) + mset (str_owned o2) + mset (str_owned o3) + mset B"
  shows "holds (free_string o3 (free_string o2 (free_string o1 h3))) R B"
proof -
  have "holds h3 R (fst d3 # fst d2 # fst d1 # A)" using assms holds_strdup_ok by blast
  then have "holds h3 R (str_owned o1 @ str_owned o2 @ str_owned o3 @ B)"
    by (rule holds_perm) (use assms(5) in \<open>simp add: add.commute add.left_commute\<close>)
  then show ?thesis by (intro holds_free_string)
qed

lemma match_request_line_safe:
  assumes "header_inv p" "holds h R (http_owned p)" "match_request_line m u v p h = (ret, p', h')"
  shows "safe_step R p p' h'"
proof -
  define q where "q = (if old_version v then p\<lparr>keep_alive := False\<rparr> else p)"
  have q: "safe_step R p q h" using assms(1,2) by (simp add: q_def safe_step_def same_message_def header_inv_def)
  have hq: "holds h R (http_owned q)" using q by (simp add: safe_step_def)
  have stay: "safe_step R p q k" if "holds k R (http_owned q)" for k using q that by (simp add: safe_step_def)
  consider h1 where "strdup m h = (None, h1)" | d1 h1 h2 where "strdup m h = (Some d1, h1)" "strdup u h1 = (None, h2)"
    | d1 h1 d2 h2 h3 where "strdup m h = (Some d1, h1)" "strdup u h1 = (Some d2, h2)" "strdup v h2 = (None, h3)"
    | d1 h1 d2 h2 d3 h3 where "strdup m h = (Some d1, h1)" "strdup u h1 = (Some d2, h2)" "strdup v h2 = (Some d3, h3)"
    by (metis option.exhaust surj_pair)
  then show ?thesis
  proof cases
    case 1
    then show ?thesis using assms(3) stay holds_strdup_fail [OF hq] by (simp add: match_request_line_def Let_def q_def)
  next
    case (2 d1 h1 h2)
    have "holds (free (fst d1) h2) R (http_owned q)"
      using holds_free holds_strdup_fail [OF holds_strdup_ok [OF hq 2(1)] 2(2)] by blast
    then show ?thesis using assms(3) stay 2 by (simp add: match_request_line_def Let_def q_def)
  next
    case (3 d1 h1 d2 h2 h3)
    have "holds h3 R (fst d2 # fst d1 # http_owned q)"
      using holds_strdup_fail [OF holds_strdup_ok [OF holds_strdup_ok [OF hq 3(1)] 3(2)] 3(3)] .
    then have "holds (free (fst d1) (free (fst d2) h3)) R (http_owned q)" by (intro holds_free)
    then show ?thesis using assms(3) stay 3 by (simp add: match_request_line_def Let_def q_def)
  next
    case (4 d1 h1 d2 h2 d3 h3)
    let ?p = "q\<lparr>method_str := Some d1, uri := Some d2, version := Some d3\<rparr>"
    have "holds (free_string (version q) (free_string (uri q) (free_string (method_str q) h3))) R (http_owned ?p)"
      by (rule holds_three [OF hq 4]) (simp add: http_owned_def fields_owned_def str_owned_def opt_list_def)
    then have "safe_step R p ?p (free_string (version q) (free_string (uri q) (free_string (method_str q) h3)))"
      using q by (simp add: safe_step_def same_message_def header_inv_def lines_ok_def)
    then show ?thesis using assms(3) 4 by (simp add: match_request_line_def Let_def q_def)
  qed
qed

lemma match_status_line_safe:
  assumes "header_inv p" "holds h R (http_owned p)" "match_status_line v c ph p h = (ret, p', h')"
  shows "safe_step R p p' h'"
proof -
  define q0 where "q0 = (if old_version v then p\<lparr>keep_alive := False\<rparr> else p)"
  define q where "q = (if deref c = CHR ''1'' \<or> strcmp c ''204'' = 0 \<or> strcmp c ''304'' = 0
     then q0\<lparr>transfer_length := 0\<rparr> else q0)"
  have q: "safe_step R p q h"
    using assms(1,2) by (simp add: q_def q0_def safe_step_def same_message_def header_inv_def length_ok_def)
  have hq: "holds h R (http_owned q)" using q by (simp add: safe_step_def)
  have stay: "safe_step R p q k" if "holds k R (http_owned q)" for k using q that by (simp add: safe_step_def)
  note def = match_status_line_def Let_def q0_def [symmetric] q_def [symmetric]
  consider h1 where "strdup v h = (None, h1)" | d1 h1 h2 where "strdup v h = (Some d1, h1)" "strdup c h1 = (None, h2)"
    | d1 h1 d2 h2 h3 where "strdup v h = (Some d1, h1)" "strdup c h1 = (Some d2, h2)" "strdup ph h2 = (None, h3)"
    | d1 h1 d2 h2 d3 h3 where "strdup v h = (Some d1, h1)" "strdup c h1 = (Some d2, h2)" "strdup ph h2 = (Some d3, h3)"
    by (metis option.exhaust surj_pair)
  then show ?thesis
  proof cases
    case 1
    then show ?thesis using assms(3) stay holds_strdup_fail [OF hq] unfolding def by simp
  next
    case (2 d1 h1 h2)
    have "holds (free (fst d1) h2) R (http_owned q)"
      using holds_free holds_strdup_fail [OF holds_strdup_ok [OF hq 2(1)] 2(2)] by blast
    then show ?thesis using assms(3) stay 2 unfolding def by simp
  next
    case (3 d1 h1 d2 h2 h3)
    have "holds h3 R (fst d2 # fst d1 # http_owned q)"
      using holds_strdup_fail [OF holds_strdup_ok [OF holds_strdup_ok [OF hq 3(1)] 3(2)] 3(3)] .
    then have "holds (free (fst d1) (free (fst d2) h3)) R (http_owned q)" by (intro holds_free)
    then show ?thesis using assms(3) stay 3 unfolding def by simp
  next
    case (4 d1 h1 d2 h2 d3 h3)
    let ?p = "q\<lparr>version := Some d1, code := Some d2, phrase := Some d3\<rparr>"
    have "holds (free_string (phrase q) (free_string (code q) (free_string (version q) h3))) R (http_owned ?p)"
      by (rule holds_three [OF hq 4]) (simp add: http_owned_def fields_owned_def str_owned_def opt_list_def)
    then have "safe_step R p ?p (free_string (phrase q) (free_string (code q) (free_string (version q) h3)))"
      using q by (simp add: safe_step_def same_message_def header_inv_def lines_ok_def)
    then show ?thesis using assms(3) 4 unfolding def by simp
  qed
qed

lemma start_line_safe:
  assumes "header_inv p" "holds h R (http_owned p)" "parse_start_line ptr p h = (ret, p', h')"
  shows "safe_step R p p' h'"
proof -
  note refl = safe_step_refl [OF assms(1,2)]
  have match: "safe_step R p q k"
    if "(if is_resp p then match_status_line a b c p h else match_request_line a b c p h) = (r, q, k)" for a b c r q k
    using that match_status_line_safe [OF assms(1,2)] match_request_line_safe [OF assms(1,2)] by (auto split: if_splits)
  show ?thesis using assms(3) refl match
    by (auto simp: parse_start_line_def Let_def split: if_splits line_scan.splits option.splits prod.splits
        intro!: safe_step_move)
qed

section \<open>Names and values\<close>

lemma poke_length: "poke off src buf = Some buf' \<Longrightarrow> length buf' = length buf"
  by (auto simp: poke_def split: if_splits)

lemma safe_step_namebuf:
  "safe_step R p q h \<Longrightarrow> length b = HTTP_HEADER_NAME_MAX \<Longrightarrow> safe_step R p (q\<lparr>namebuf := b\<rparr>) h"
  by (simp add: safe_step_def same_message_def header_inv_def)

lemma name_loop_safe:
  assumes "header_inv p" "holds h R (http_owned p)" "i \<le> HTTP_HEADER_NAME_MAX"
  shows "\<exists>ret p'. name_loop i ptr p = Some (ret, p') \<and> safe_step R p p' h"
  using assms
proof (induction i ptr p rule: name_loop.induct)
  case (1 i p)
  then show ?case using safe_step_refl by auto
next
  case (2 i c s p)
  note refl = safe_step_refl [OF "2.prems"(1,2)]
  have buf: "\<exists>b. poke i [d] (namebuf p) = Some b \<and> length b = HTTP_HEADER_NAME_MAX" if "i \<noteq> HTTP_HEADER_NAME_MAX" for d
    using that "2.prems" by (auto simp: poke_def header_inv_def)
  consider "i = HTTP_HEADER_NAME_MAX \<or> c \<noteq> CHR '':'' \<and> nonpositive_byte c"
    | "i \<noteq> HTTP_HEADER_NAME_MAX" "c = CHR '':''"
    | "i \<noteq> HTTP_HEADER_NAME_MAX" "c \<noteq> CHR '':''" "\<not> nonpositive_byte c" by blast
  then show ?case
  proof cases
    case 1
    then show ?thesis using refl by auto
  next
    case 2
    obtain b where b: "poke i [NUL] (namebuf p) = Some b" "length b = HTTP_HEADER_NAME_MAX" using buf 2 by blast
    have "safe_step R p (p\<lparr>namebuf := b, header_offset := header_offset p + i + 1, header_state := HPS_HEADER_VALUE\<rparr>) h"
      by (rule safe_step_move(1) [OF safe_step_namebuf [OF refl b(2)]])
    then show ?thesis using 2 b by simp
  next
    case 3
    obtain b where b: "poke i [c] (namebuf p) = Some b" "length b = HTTP_HEADER_NAME_MAX" using buf 3 by blast
    have s: "safe_step R p (p\<lparr>namebuf := b\<rparr>) h" by (rule safe_step_namebuf [OF refl b(2)])
    then obtain ret p' where "name_loop (Suc i) s (p\<lparr>namebuf := b\<rparr>) = Some (ret, p')" "safe_step R (p\<lparr>namebuf := b\<rparr>) p' h"
      using "2.IH" [OF 3 b(1)] "2.prems"(3) 3(1) by (auto simp: safe_step_def)
    then show ?thesis using 3 b safe_step_trans [OF s] by auto
  qed
qed

lemma value_line_bound: "length v \<le> HTTP_HEADER_VALUE_MAX \<Longrightarrow> value_line ptr v \<noteq> Value_Overrun
    \<and> (value_line ptr v = Value_Line w s \<longrightarrow> length w < HTTP_HEADER_VALUE_MAX)"
proof (induction ptr v rule: value_line.induct)
  case (2 c s v)
  show ?case
  proof (cases "length v = HTTP_HEADER_VALUE_MAX")
    case False
    then show ?thesis using 2 by auto
  qed simp
qed simp

lemma length_trim_blank: "length (trim_blank v) \<le> length v"
  by (simp add: trim_blank_def length_dropWhile_le [of blank "rev v", simplified])

lemma value_loop_no_overrun: "length v \<le> HTTP_HEADER_VALUE_MAX \<Longrightarrow> value_loop ptr v \<noteq> Value_Overrun"
proof (induction ptr arbitrary: v rule: measure_induct_rule [of length])
  case (less ptr)
  let ?r = "value_line (dropWhile blank ptr) v"
  show ?case
  proof (cases ?r)
    case (Value_Line w s)
    have "length w < HTTP_HEADER_VALUE_MAX" using value_line_bound [OF less.prems] Value_Line by blast
    then have t: "length (trim_blank w) < HTTP_HEADER_VALUE_MAX" using length_trim_blank [of w] by linarith
    have "length (tl (tl s)) < length ptr"
      using value_line_shorter [OF Value_Line] length_dropWhile_le [of blank ptr] by simp
    then have "value_loop (tl (tl s)) (trim_blank w @ '' '') \<noteq> Value_Overrun" using less.IH t by simp
    then show ?thesis using t unfolding value_loop_line [OF Value_Line] by simp
  qed (use value_loop_other [of ptr v] value_line_bound [OF less.prems, of "dropWhile blank ptr"] in auto)
qed

lemma atol_digits_less: "length s \<le> 15 \<Longrightarrow> atol_digits s < 10 ^ 15"
proof -
  assume "length s \<le> 15"
  have d: "n < 10 ^ k \<Longrightarrow> list_all isdigit ds \<Longrightarrow> foldl (\<lambda>n c. n * 10 + (ord c - 48)) n ds < 10 ^ (k + length ds)" for n k ds
  proof (induction ds arbitrary: n k)
    case (Cons c ds)
    have "isdigit c" using Cons.prems by simp
    then have "ord c - 48 \<le> 9" unfolding isdigit_def by linarith
    then have "n * 10 + (ord c - 48) < 10 ^ Suc k" using Cons.prems(1) by simp
    then show ?case using Cons.IH [of "n * 10 + (ord c - 48)" "Suc k"] Cons.prems by simp
  qed simp
  have "list_all isdigit (takeWhile isdigit s)" by (auto simp: list_all_iff dest: set_takeWhileD)
  then have "atol_digits s < 10 ^ length (takeWhile isdigit s)" using d [of 0 0] by (simp add: atol_digits_def)
  moreover have "(10 :: nat) ^ length (takeWhile isdigit s) \<le> 10 ^ 15"
    using length_takeWhile_le [of isdigit s] \<open>length s \<le> 15\<close> by (intro power_increasing) auto
  ultimately show ?thesis by linarith
qed

lemma check_content_length: "length_ok (content_length p) \<Longrightarrow> length_ok (content_length (check_message_header name value p))"
  using atol_digits_less [of "value"]
  by (simp add: check_message_header_def Let_def if_distrib [of content_length] length_ok_def cong: if_cong split del: if_split)
    simp

lemma add_header_safe:
  assumes "header_inv p" "holds h R (http_owned p)" "NUL \<notin> set name"
  shows "\<exists>ret p' h'. http_parser_add_header name value p h = Some (ret, p', h') \<and> safe_step R p p' h'
     \<and> header_state p' = header_state p \<and> header_offset p' = header_offset p"
proof (cases rule: add_header_cases [of name "value" p h])
  case (1 h')
  then show ?thesis using assms holds_malloc_None by (auto intro!: safe_step_refl)
next
  case (2 a h')
  let ?l = "\<lparr>line_addr = a, line_own = None, name_len = length name, value_len = length value,
          line_buf = name @ '': '' @ value @ [CR, LF]\<rparr>"
  let ?q = "p\<lparr>header_list := header_list p @ [?l]\<rparr>"
  have "holds h' R (a # http_owned p)" using holds_malloc [OF assms(2) 2(2)] .
  then have o: "holds h' R (http_owned ?q)"
    by (rule holds_perm) (simp add: http_owned_def line_owned_def opt_list_def)
  have "line_ok ?l" unfolding line_ok_def using line_is_new [OF assms(3), of "value" a None] by blast
  then have "lines_ok ?q" using assms(1) by (auto simp: lines_ok_def header_inv_def)
  then have "safe_step R p (check_message_header name value ?q) h'"
    using o assms(1) check_content_length [of ?q name "value"] by (simp add: safe_step_def same_message_def header_inv_def)
  then show ?thesis using 2(1) by simp
qed

lemma header_value_safe:
  assumes "header_inv p" "holds h R (http_owned p)"
  shows "\<exists>ret p' h'. parse_header_value ptr p h = Some (ret, p', h') \<and> safe_step R p p' h'"
proof (cases "value_loop ptr []")
  case Value_Overrun
  then show ?thesis using value_loop_no_overrun [of "[]" ptr] by simp
next
  case (Value_Line v s)
  obtain ret p' h' where a: "http_parser_add_header (cstr (namebuf p)) v p h = Some (ret, p', h')" "safe_step R p p' h'"
    using add_header_safe [OF assms, of "cstr (namebuf p)" v] by auto
  then show ?thesis using Value_Line by (auto simp: parse_header_value_def intro: safe_step_move)
qed (use safe_step_refl [OF assms] in \<open>auto simp: parse_header_value_def\<close>)

section \<open>The header\<close>

lemma header_step_safe:
  assumes "header_inv p" "holds h R (http_owned p)"
  shows "\<exists>ret p' h'. header_step m p h = Some (ret, p', h') \<and> safe_step R p p' h'"
proof -
  let ?ptr = "drop (header_offset p) m"
  obtain r q k where s: "parse_start_line ?ptr p h = (r, q, k)" by (metis surj_pair)
  have "\<exists>ret p'. parse_header_name ?ptr p = Some (ret, p') \<and> safe_step R p p' h"
    using name_loop_safe [OF assms, of 0 ?ptr] safe_step_move(1) [OF safe_step_refl [OF assms]]
    by (auto simp: parse_header_name_def)
  then show ?thesis using start_line_safe [OF assms s] header_value_safe [OF assms, of ?ptr] s
    by (auto simp: header_step_def Let_def)
qed

lemma name_loop_stay:
  "name_loop i ptr p = Some (ret, p') \<Longrightarrow> ret \<le> 0 \<Longrightarrow> header_state p' = header_state p \<and> header_offset p' = header_offset p"
  by (induction i ptr p rule: name_loop.induct) (auto split: if_splits Option.bind_splits)

lemma header_step_stay:
  assumes "header_step m p h = Some (ret, p', h')" "ret \<le> 0"
  shows "header_state p' = header_state p \<and> header_offset p' = header_offset p"
proof -
  have s: "header_state q = header_state p \<and> header_offset q = header_offset p"
    if "parse_start_line ptr p h = (r, q, k)" "r \<le> 0" for ptr r q k
    using that by (auto simp: parse_start_line_def Let_def split: if_splits line_scan.splits option.splits prod.splits
        dest: match_line_offset)
  have v: "header_state q = header_state p \<and> header_offset q = header_offset p"
    if "parse_header_value ptr p h = Some (r, q, k)" "r \<le> 0" for ptr r q k
    using that by (cases rule: add_header_cases [of "cstr (namebuf p)" "case value_loop ptr [] of Value_Line v s \<Rightarrow> v" p h])
      (auto simp: parse_header_value_def split: value_scan.splits)
  have n: "header_state q = header_state p \<and> header_offset q = header_offset p"
    if "parse_header_name ptr p = Some (r, q)" "r \<le> 0" for ptr r q
    using that name_loop_stay by (auto simp: parse_header_name_def split: if_splits)
  show ?thesis using assms s n v by (auto simp: header_step_def Let_def split: if_splits)
qed

lemma parse_message_header_safe:
  assumes "header_inv p" "holds h R (http_owned p)" "header_offset p \<le> length m" "header_state p \<noteq> HPS_HEADER_COMPLETE"
  shows "\<exists>ret p' h'. parse_message_header m p h = Some (ret, p', h') \<and> safe_step R p p' h'
     \<and> header_offset p \<le> header_offset p' \<and> header_offset p' \<le> length m
     \<and> (0 < ret \<longleftrightarrow> header_state p' = HPS_HEADER_COMPLETE)"
  using assms
proof (induction m p h rule: parse_message_header.induct)
  case (1 m p h)
  obtain ret q k where s: "header_step m p h = Some (ret, q, k)" "safe_step R p q k"
    using header_step_safe [OF "1.prems"(1,2)] by blast
  note eq = parse_message_header.simps [of m p h] s(1)
  consider "header_state q = HPS_HEADER_COMPLETE" | "header_state q \<noteq> HPS_HEADER_COMPLETE" "0 < ret"
    | "header_state q \<noteq> HPS_HEADER_COMPLETE" "ret \<le> 0" by linarith
  then show ?case
  proof cases
    case 1
    then have "0 < ret" using header_step_stay [OF s(1)] "1.prems"(4) by fastforce
    then show ?thesis using header_step_progress [OF s(1)] 1 s(2) by (simp add: eq)
  next
    case 2
    have q: "header_inv q" "holds k R (http_owned q)" "header_offset q \<le> length m" "header_offset p \<le> header_offset q"
      using s(2) header_step_progress [OF s(1) 2(2)] by (auto simp: safe_step_def)
    obtain ret' p' h' where r: "parse_message_header m q k = Some (ret', p', h')" "safe_step R q p' h'"
      "header_offset q \<le> header_offset p'" "header_offset p' \<le> length m"
      "0 < ret' \<longleftrightarrow> header_state p' = HPS_HEADER_COMPLETE"
      using "1.IH" [OF s(1) refl refl 2 q(1,2,3) 2(1)] by blast
    then have "parse_message_header m p h = Some (ret', p', h')" using 2 by (simp add: eq)
    then show ?thesis using r q(4) safe_step_trans [OF s(2) r(2)] by simp
  next
    case 3
    then show ?thesis using header_step_stay [OF s(1) 3(2)] "1.prems"(3) s(2) by (simp add: eq)
  qed
qed

section \<open>The message buffer\<close>

definition buf_ok :: "http_parser \<Rightarrow> bool" where
  "buf_ok p \<longleftrightarrow> (case msgbuf p of
      None \<Rightarrow> msgsize p = 0 \<and> bufsize p = 0
    | Some (a, b) \<Rightarrow> msgsize p \<le> length b \<and> length b \<le> bufsize p \<and> msgsize p < bufsize p)"

lemma grow_size_enough: "0 < s \<Longrightarrow> need \<le> grow_size need s \<and> s \<le> grow_size need s"
proof (induction need s rule: grow_size.induct)
  case (1 need s)
  then show ?case by (subst (1 2) grow_size.simps) auto
qed

lemma reserve_cases:
  assumes "buf_ok p" "holds h R (http_owned p)"
  obtains h' where "reserve n p h = (False, p, h')" "holds h' R (http_owned p)" "outcomes h \<noteq> []"
  | a b k h' where "reserve n p h = (True, p\<lparr>msgbuf := Some (a, b), bufsize := k\<rparr>, h')"
      "holds h' R (http_owned (p\<lparr>msgbuf := Some (a, b), bufsize := k\<rparr>))" "msgsize p + n < k" "msgsize p \<le> length b"
      "length b \<le> k" "take (msgsize p) b = message p" "outcomes h = [] \<longrightarrow> outcomes h' = []"
proof (cases "msgsize p + n + 1 > bufsize p")
  case False
  then obtain a b where b: "msgbuf p = Some (a, b)" using assms(1) by (cases "msgbuf p") (auto simp: buf_ok_def)
  then have "reserve n p h = (True, p\<lparr>msgbuf := Some (a, b), bufsize := bufsize p\<rparr>, h)"
    using False by (simp add: reserve_def)
  moreover have "http_owned (p\<lparr>msgbuf := Some (a, b), bufsize := bufsize p\<rparr>) = http_owned p"
    using b by (simp add: http_owned_def fields_owned_def)
  ultimately show ?thesis using False b assms
    by (intro that(2) [where a = a and b = b and k = "bufsize p" and h' = h]) (auto simp: buf_ok_def message_def)
next
  case True
  let ?k = "grow_size (msgsize p + n + 1) (max HTTP_MSGBUF_INIT_SIZE (2 * bufsize p))"
  let ?b = "case msgbuf p of None \<Rightarrow> [] | Some (_, b) \<Rightarrow> b"
  have "0 < max HTTP_MSGBUF_INIT_SIZE (2 * bufsize p)" by (simp add: HTTP_MSGBUF_INIT_SIZE_def max_def)
  from grow_size_enough [OF this, of "msgsize p + n + 1"]
  have k: "msgsize p + n < ?k" "bufsize p \<le> ?k" by auto
  obtain q h1 where m: "malloc h = (q, h1)" by force
  show ?thesis
  proof (cases q)
    case None
    then have "reserve n p h = (False, p, h1)" using True m by (simp add: reserve_def realloc_def Let_def)
    then show ?thesis using that(1) holds_malloc_None [OF assms(2)] m None malloc_None_outcomes by blast
  next
    case (Some a)
    let ?p = "p\<lparr>msgbuf := Some (a, ?b), bufsize := ?k\<rparr>" and ?h = "free_opt (map_option fst (msgbuf p)) h1"
    have r: "reserve n p h = (True, ?p, ?h)" using True m Some by (simp add: reserve_def realloc_def Let_def)
    have "holds h1 R (a # http_owned p)" using holds_malloc [OF assms(2)] m Some by simp
    then have "holds h1 R (opt_list (map_option fst (msgbuf p)) @ http_owned ?p)"
      by (rule holds_perm) (simp add: http_owned_def fields_owned_def str_owned_def opt_list_def)
    then have o: "holds ?h R (http_owned ?p)" by (rule holds_free_opt)
    have "outcomes h = [] \<longrightarrow> outcomes ?h = []"
      using m by (auto simp: free_opt_def free_def malloc_def split: option.split)
    then show ?thesis using that(2) [OF r o] k assms(1) by (auto simp: buf_ok_def message_def split: option.splits prod.splits)
  qed
qed

lemma store_piece_ok:
  assumes "msgsize p + length buf < k" "msgsize p \<le> length b" "length b \<le> k"
  shows "store_piece buf (p\<lparr>msgbuf := Some (a, b), bufsize := k\<rparr>)
     = Some (p\<lparr>msgbuf := Some (a, take (msgsize p) b @ buf), msgsize := msgsize p + length buf, bufsize := k\<rparr>)"
  using assms by (simp add: store_piece_def)

section \<open>Chunks and the body\<close>

lemma chunk_state_id [simp]: "p\<lparr>chunk_offset := x, chunk_state := chunk_state p\<rparr> = p\<lparr>chunk_offset := x\<rparr>"
  by (cases p) simp

lemma chunk_step_cases:
  assumes "chunk_step m p = (ret, p')"
  obtains "ret \<le> 0" "p' = p"
  | o1 cs where "ret = 1" "p' = p\<lparr>chunk_offset := o1, chunk_state := cs\<rparr>" "chunk_offset p < o1" "o1 \<le> length m"
proof (cases "0 < ret")
  case True
  have "ret = 1 \<and> p' = p\<lparr>chunk_offset := chunk_offset p', chunk_state := chunk_state p'\<rparr>"
    using assms True by (auto simp: chunk_step_def parse_chunk_data_def parse_trailer_part_def Let_def
        split: if_splits line_scan.splits option.splits)
  then show ?thesis using that(2) chunk_step_progress [OF assms True] by blast
next
  case False
  then have "p' = p" using assms by (auto simp: chunk_step_def parse_chunk_data_def parse_trailer_part_def Let_def
        split: if_splits line_scan.splits option.splits)
  then show ?thesis using that(1) False by simp
qed

lemma parse_chunk_spec:
  assumes "parse_chunk m p = (ret, p')" "chunk_offset p \<le> length m" "chunk_state p \<noteq> CPS_CHUNK_COMPLETE"
  shows "\<exists>o1 cs. p' = p\<lparr>chunk_offset := o1, chunk_state := cs\<rparr> \<and> chunk_offset p \<le> o1 \<and> o1 \<le> length m
     \<and> (0 < ret \<longleftrightarrow> cs = CPS_CHUNK_COMPLETE)"
  using assms
proof (induction m p rule: parse_chunk.induct)
  case (1 m p)
  obtain r q where s: "chunk_step m p = (r, q)" by force
  note eq = parse_chunk.simps [of m p] s
  from s show ?case
  proof (cases rule: chunk_step_cases)
    case 1
    then have "p' = p" "ret = r" using "1.prems" by (simp_all add: eq)
    then show ?thesis using 1 "1.prems" by (intro exI [of _ "chunk_offset p"] exI [of _ "chunk_state p"]) simp
  next
    case (2 o1 cs)
    show ?thesis
    proof (cases "cs = CPS_CHUNK_COMPLETE")
      case True
      then have "p' = q" "ret = 1" using "1.prems" 2 by (simp_all add: eq)
      then show ?thesis using 2 True by (intro exI [of _ o1] exI [of _ cs]) simp
    next
      case False
      then have "parse_chunk m q = (ret, p')" using "1.prems"(1) 2 by (simp add: eq)
      moreover have "chunk_offset q = o1" "chunk_state q = cs" using 2 by simp_all
      ultimately obtain o2 cs2 where "p' = q\<lparr>chunk_offset := o2, chunk_state := cs2\<rparr>" "o1 \<le> o2" "o2 \<le> length m"
        "0 < ret \<longleftrightarrow> cs2 = CPS_CHUNK_COMPLETE"
        using "1.IH" [OF s [symmetric] refl] 2 False by auto
      then show ?thesis using 2 by (intro exI [of _ o2] exI [of _ cs2]) simp
    qed
  qed
qed

definition parser_ok :: "http_parser \<Rightarrow> bool" where
  "parser_ok p \<longleftrightarrow> header_inv p \<and> buf_ok p \<and> header_offset p \<le> msgsize p
     \<and> (header_state p = HPS_HEADER_COMPLETE \<and> transfer_length p = SIZE_MAX \<and> chunked p \<longrightarrow>
          header_offset p \<le> chunk_offset p \<and> chunk_offset p \<le> msgsize p)"

lemma buf_ok_same: "msgbuf q = msgbuf p \<Longrightarrow> msgsize q = msgsize p \<Longrightarrow> bufsize q = bufsize p \<Longrightarrow> buf_ok q = buf_ok p"
  by (cases "msgbuf p") (auto simp: buf_ok_def)

lemma message_length: "buf_ok p \<Longrightarrow> length (message p) = msgsize p"
  by (auto simp: message_def buf_ok_def split: option.splits)

lemma body_end_ok:
  assumes "parser_ok p" "header_offset p \<le> all" "all \<le> msgsize p"
    "header_state p = HPS_HEADER_COMPLETE \<and> transfer_length p = SIZE_MAX \<and> chunked p \<longrightarrow> chunk_offset p \<le> all"
  shows "parser_ok (p\<lparr>msgsize := all, complete := True\<rparr>)"
proof -
  let ?q = "p\<lparr>msgsize := all, complete := True\<rparr>"
  have "buf_ok ?q" using assms(1,3) by (cases "msgbuf p") (auto simp: parser_ok_def buf_ok_def)
  moreover have "header_inv ?q" using assms(1) by (simp add: parser_ok_def header_inv_def)
  ultimately show ?thesis using assms by (simp add: parser_ok_def)
qed

lemma total_no_wrap:
  assumes "header_inv p" "transfer_length p \<noteq> SIZE_MAX" "header_offset p < 2 ^ 63"
  shows "(header_offset p + transfer_length p) mod 2 ^ 64 = header_offset p + transfer_length p"
proof -
  have "transfer_length p < 10 ^ 15" using assms by (auto simp: header_inv_def length_ok_def)
  then have "header_offset p + transfer_length p < 2 ^ 64" using assms(3) by simp
  then show ?thesis by simp
qed

lemma body_step_safe:
  assumes ok: "parser_ok p" and m: "msgsize p < 2 ^ 63" and b: "body_step n p = (ret, k, p')"
    and h: "header_state p = HPS_HEADER_COMPLETE"
  shows "parser_ok p' \<and> http_owned p' = http_owned p \<and> header_state p' = header_state p \<and> msgbuf p' = msgbuf p
     \<and> (ret = 1 \<longrightarrow> complete p') \<and> (ret \<noteq> 1 \<longrightarrow> complete p' = complete p)"
proof (cases "transfer_length p = SIZE_MAX \<and> chunked p")
  case False
  have "transfer_length p \<noteq> SIZE_MAX \<Longrightarrow> (header_offset p + transfer_length p) mod 2 ^ 64 = header_offset p + transfer_length p"
    using total_no_wrap [of p] ok m by (auto simp: parser_ok_def)
  then show ?thesis using False b ok body_end_ok [OF ok, of "header_offset p + transfer_length p"]
    by (auto simp: body_step_def body_end_def Let_def split: if_splits)
next
  case True
  have o: "header_offset p \<le> chunk_offset p" "chunk_offset p \<le> msgsize p" using True ok h by (auto simp: parser_ok_def)
  show ?thesis
  proof (cases "chunk_state p = CPS_CHUNK_COMPLETE")
    case c: True
    then show ?thesis using True b body_end_ok [OF ok o] by (auto simp: body_step_def body_end_def)
  next
    case False
    obtain r q where pc: "parse_chunk (message p) p = (r, q)" by force
    have len: "length (message p) = msgsize p" using ok message_length by (simp add: parser_ok_def)
    obtain o1 cs where q: "q = p\<lparr>chunk_offset := o1, chunk_state := cs\<rparr>" "chunk_offset p \<le> o1" "o1 \<le> msgsize p"
      using parse_chunk_spec [OF pc _ False] o len by auto
    have okq: "parser_ok q" using ok q o buf_ok_same [of q p] by (auto simp: parser_ok_def header_inv_def)
    show ?thesis
    proof (cases "r \<le> 0")
      case r: True
      then have "p' = q" "ret = r" using b True False pc by (simp_all add: body_step_def)
      then show ?thesis using okq q(1) r by simp
    next
      case r: False
      then have "p' = q\<lparr>msgsize := o1, complete := True\<rparr>" "ret = 1"
        using b True False pc q(1) by (simp_all add: body_step_def body_end_def)
      moreover have "parser_ok (q\<lparr>msgsize := o1, complete := True\<rparr>)"
        by (rule body_end_ok [OF okq]) (use q o in simp_all)
      ultimately show ?thesis using q(1) by simp
    qed
  qed
qed

section \<open>Appending is safe\<close>

lemma header_done_ok:
  assumes "parser_ok p" "header_state p = HPS_HEADER_COMPLETE"
  shows "parser_ok (header_done p)" "http_owned (header_done p) = http_owned p"
    "header_state (header_done p) = header_state p" "msgsize (header_done p) = msgsize p"
    "complete (header_done p) = complete p" "header_offset (header_done p) = header_offset p"
    "msgbuf (header_done p) = msgbuf p"
  using assms buf_ok_same [of "header_done p" p]
  by (auto simp: header_done_def parser_ok_def header_inv_def)

lemma parse_step_safe:
  assumes ok: "parser_ok p" and h: "holds h R (http_owned p)" and m: "msgsize p < 2 ^ 63" and c: "\<not> complete p"
  shows "\<exists>ret n' p' h'. parse_step n p h = Some (ret, n', p', h') \<and> parser_ok p' \<and> holds h' R (http_owned p')
     \<and> (complete p' \<longleftrightarrow> ret = 1) \<and> (complete p' \<longrightarrow> header_state p' = HPS_HEADER_COMPLETE) \<and> msgbuf p' = msgbuf p"
proof (cases "header_state p = HPS_HEADER_COMPLETE")
  case True
  obtain ret k p' where b: "body_step n p = (ret, k, p')" by (metis surj_pair)
  show ?thesis using body_step_safe [OF ok m b True] b True h c by (auto simp: parse_step_def)
next
  case False
  have inv: "header_inv p" "header_offset p \<le> length (message p)"
    using ok message_length by (auto simp: parser_ok_def)
  obtain ret q k where r: "parse_message_header (message p) p h = Some (ret, q, k)" "safe_step R p q k"
    "header_offset q \<le> length (message p)" "0 < ret \<longleftrightarrow> header_state q = HPS_HEADER_COMPLETE"
    using parse_message_header_safe [OF inv(1) h inv(2) False] by blast
  show ?thesis
  proof (cases "ret \<le> 0")
    case True
    have "parser_ok q" using ok r buf_ok_same [of q p] message_length True
      by (auto simp: parser_ok_def safe_step_def same_message_def)
    then show ?thesis using r True False c by (auto simp: parse_step_def safe_step_def same_message_def)
  next
    case pos: False
    have hc: "header_state q = HPS_HEADER_COMPLETE" using r(4) pos by simp
    have mq: "msgbuf q = msgbuf p" "msgsize q = msgsize p" "complete q = complete p" "buf_ok q" "header_inv q" "holds k R (http_owned q)"
      using r(2) ok buf_ok_same [of q p] by (auto simp: safe_step_def same_message_def parser_ok_def)
    let ?q = "header_done q"
    have okq: "parser_ok ?q"
    proof -
      have o: "header_offset q \<le> msgsize q" using r(3) ok message_length mq(2) by (simp add: parser_ok_def)
      show ?thesis using mq(4,5) o buf_ok_same [of ?q q] by (auto simp: header_done_def parser_ok_def header_inv_def)
    qed
    have hd: "http_owned ?q = http_owned q" "header_state ?q = header_state q" "msgsize ?q = msgsize q" "complete ?q = complete q"
      "msgbuf ?q = msgbuf q" by (auto simp: header_done_def)
    obtain ret2 k2 p' where b: "body_step n ?q = (ret2, k2, p')" by (metis surj_pair)
    have "parser_ok p' \<and> http_owned p' = http_owned ?q \<and> header_state p' = header_state ?q \<and> msgbuf p' = msgbuf ?q
       \<and> (ret2 = 1 \<longrightarrow> complete p') \<and> (ret2 \<noteq> 1 \<longrightarrow> complete p' = complete ?q)"
      by (rule body_step_safe [OF okq _ b]) (use hd mq m hc in auto)
    then show ?thesis using r(1) pos b mq hd hc c False by (auto simp: parse_step_def)
  qed
qed


lemma parser_ok_init: "length (namebuf mem) = HTTP_HEADER_NAME_MAX \<Longrightarrow> parser_ok (http_parser_init resp mem)"
  by (simp add: http_parser_init_def parser_ok_def header_inv_def lines_ok_def buf_ok_def length_ok_def)


end
