(* ===== verification/Http_Stream.thy ===== *)
theory Http_Stream
  imports Http_Safety
begin

text \<open>
  The HTTP parser does not depend on how a message is cut into pieces. \<open>alike\<close> relates two parsers
  in the same state of parsing: everything but the addresses of blocks, the message and its buffer,
  and the bytes of \<open>namebuf\<close> that no longer matter. A parse function that consumes something on a piece
  does the same when more bytes follow, and one that asks for more bytes has changed nothing that is
  visible, so that parsing again with more bytes gives what parsing all bytes at once would have
  given. It follows that any pieces have the effect of the whole, and that the number of consumed
  bytes is never negative.
\<close>

section \<open>The visible state\<close>

definition strip :: "c_string \<Rightarrow> byte list option" where
  "strip s = map_option snd s"

definition strip_line :: "header_line \<Rightarrow> nat \<times> nat \<times> byte list" where
  "strip_line l = (name_len l, value_len l, line_buf l)"

definition alike :: "http_parser \<Rightarrow> http_parser \<Rightarrow> bool" where
  "alike p q \<longleftrightarrow> header_state p = header_state q \<and> chunk_state p = chunk_state q
     \<and> header_offset p = header_offset q \<and> chunk_offset p = chunk_offset q
     \<and> content_length p = content_length q \<and> transfer_length p = transfer_length q
     \<and> strip (version p) = strip (version q) \<and> strip (method_str p) = strip (method_str q)
     \<and> strip (uri p) = strip (uri q) \<and> strip (code p) = strip (code q) \<and> strip (phrase p) = strip (phrase q)
     \<and> map strip_line (header_list p) = map strip_line (header_list q)
     \<and> (header_state p = HPS_HEADER_VALUE \<longrightarrow> cstr (namebuf p) = cstr (namebuf q))
     \<and> has_connection p = has_connection q \<and> has_content_length p = has_content_length q
     \<and> has_keep_alive p = has_keep_alive q \<and> expect_continue p = expect_continue q
     \<and> keep_alive p = keep_alive q \<and> chunked p = chunked q \<and> complete p = complete q \<and> is_resp p = is_resp q"

lemma alike_refl [simp]: "alike p p"
  by (simp add: alike_def)

lemma alike_sym: "alike p q \<Longrightarrow> alike q p"
  by (simp add: alike_def)

lemma alike_trans: "alike p q \<Longrightarrow> alike q r \<Longrightarrow> alike p r"
  by (simp add: alike_def)

text \<open>\<open>message\<close> under the updates of the parse functions.\<close>

lemma message_cong: "msgbuf p = msgbuf q \<Longrightarrow> msgsize p = msgsize q \<Longrightarrow> message p = message q"
  by (cases "msgbuf q") (auto simp: message_def)

lemma message_updates [simp]:
  "message (p\<lparr>header_offset := x\<rparr>) = message p" "message (p\<lparr>header_state := y\<rparr>) = message p"
  "message (p\<lparr>namebuf := z\<rparr>) = message p" "message (p\<lparr>keep_alive := b\<rparr>) = message p"
  "message (p\<lparr>transfer_length := x\<rparr>) = message p" "message (p\<lparr>chunk_offset := x\<rparr>) = message p"
  "message (p\<lparr>chunk_state := cs\<rparr>) = message p" "message (p\<lparr>complete := b\<rparr>) = message p"
  "message (p\<lparr>version := v\<rparr>) = message p" "message (p\<lparr>method_str := v\<rparr>) = message p"
  "message (p\<lparr>uri := v\<rparr>) = message p" "message (p\<lparr>code := v\<rparr>) = message p"
  "message (p\<lparr>phrase := v\<rparr>) = message p" "message (p\<lparr>header_list := ls\<rparr>) = message p"
  "message (p\<lparr>expect_continue := b\<rparr>) = message p" "message (p\<lparr>has_connection := b\<rparr>) = message p"
  "message (p\<lparr>has_keep_alive := b\<rparr>) = message p" "message (p\<lparr>has_content_length := b\<rparr>) = message p"
  "message (p\<lparr>content_length := x\<rparr>) = message p" "message (p\<lparr>chunked := b\<rparr>) = message p"
  by (rule message_cong; simp)+

section \<open>Parsing alike parsers\<close>

lemma strdup_ok:
  assumes "outcomes h = []"
  obtains a h' where "strdup s h = (Some (a, cstr s), h')" "outcomes h' = []"
  using assms by (auto simp: strdup_def malloc_def)

definition request_line :: "byte list \<Rightarrow> byte list \<Rightarrow> byte list \<Rightarrow> http_parser \<Rightarrow> addr \<times> addr \<times> addr \<Rightarrow> http_parser" where
  "request_line m u v p as = (if old_version v then p\<lparr>keep_alive := False\<rparr> else p)
     \<lparr>method_str := Some (fst as, cstr m), uri := Some (fst (snd as), cstr u), version := Some (snd (snd as), cstr v)\<rparr>"

lemma match_request_ok:
  assumes "outcomes h = []"
  shows "\<exists>as h'. match_request_line m u v p h = (0, request_line m u v p as, h') \<and> outcomes h' = []"
proof -
  obtain a h1 where 1: "strdup m h = (Some (a, cstr m), h1)" "outcomes h1 = []" using strdup_ok assms by blast
  obtain b h2 where 2: "strdup u h1 = (Some (b, cstr u), h2)" "outcomes h2 = []" using strdup_ok 1 by blast
  obtain c h3 where 3: "strdup v h2 = (Some (c, cstr v), h3)" "outcomes h3 = []" using strdup_ok 2 by blast
  show ?thesis using 1 2 3 unfolding match_request_line_def request_line_def Let_def
    by (intro exI [of _ "(a, b, c)"]) simp
qed

definition status_line :: "byte list \<Rightarrow> byte list \<Rightarrow> byte list \<Rightarrow> http_parser \<Rightarrow> addr \<times> addr \<times> addr \<Rightarrow> http_parser" where
  "status_line v c ph p as =
     (let p = (if old_version v then p\<lparr>keep_alive := False\<rparr> else p);
          p = (if deref c = CHR ''1'' \<or> strcmp c ''204'' = 0 \<or> strcmp c ''304'' = 0 then p\<lparr>transfer_length := 0\<rparr> else p)
      in p\<lparr>version := Some (fst as, cstr v), code := Some (fst (snd as), cstr c), phrase := Some (snd (snd as), cstr ph)\<rparr>)"

lemma match_status_ok:
  assumes "outcomes h = []"
  shows "\<exists>as h'. match_status_line v c ph p h = (0, status_line v c ph p as, h') \<and> outcomes h' = []"
proof -
  obtain a h1 where 1: "strdup v h = (Some (a, cstr v), h1)" "outcomes h1 = []" using strdup_ok assms by blast
  obtain b h2 where 2: "strdup c h1 = (Some (b, cstr c), h2)" "outcomes h2 = []" using strdup_ok 1 by blast
  obtain d h3 where 3: "strdup ph h2 = (Some (d, cstr ph), h3)" "outcomes h3 = []" using strdup_ok 2 by blast
  show ?thesis using 1 2 3 unfolding match_status_line_def status_line_def Let_def
    by (intro exI [of _ "(a, b, d)"]) simp
qed

lemma alike_request_line: "alike p q \<Longrightarrow> alike (request_line m u v p as) (request_line m u v q bs)"
  by (simp add: alike_def request_line_def strip_def)

lemma alike_status_line: "alike p q \<Longrightarrow> alike (status_line v c ph p as) (status_line v c ph q bs)"
  by (simp add: alike_def status_line_def strip_def Let_def)

lemma alike_move:
  "alike p q \<Longrightarrow> y \<noteq> HPS_HEADER_VALUE \<Longrightarrow> alike (p\<lparr>header_offset := x, header_state := y\<rparr>) (q\<lparr>header_offset := x, header_state := y\<rparr>)"
  "alike p q \<Longrightarrow> alike (p\<lparr>header_offset := x\<rparr>) (q\<lparr>header_offset := x\<rparr>)"
  by (simp_all add: alike_def)

text \<open>The results of a parse function on alike parsers.\<close>

definition alike_results :: "(int \<times> http_parser \<times> heap_st) option \<Rightarrow> (int \<times> http_parser \<times> heap_st) option \<Rightarrow> bool" where
  "alike_results r s \<longleftrightarrow> (\<exists>ret p h q k. r = Some (ret, p, h) \<and> s = Some (ret, q, k) \<and> alike p q \<and> outcomes h = [] \<and> outcomes k = [])"

lemma alike_fields:
  assumes "alike p q"
  shows "header_state p = header_state q" "chunk_state p = chunk_state q" "header_offset p = header_offset q"
    "chunk_offset p = chunk_offset q" "content_length p = content_length q" "transfer_length p = transfer_length q"
    "chunked p = chunked q" "complete p = complete q" "is_resp p = is_resp q"
  using assms by (simp_all add: alike_def)

lemma start_line_alike:
  assumes "alike p q" "outcomes h = []" "outcomes k = []"
  shows "alike_results (Some (parse_start_line ptr p h)) (Some (parse_start_line ptr q k))"
proof -
  note f = alike_fields [OF assms(1)]
  have o: "header_offset (request_line a b c r as) = header_offset r" "header_offset (status_line a b c r as) = header_offset r"
    for a b c r as by (simp_all add: request_line_def status_line_def Let_def)
  show ?thesis
  proof (cases "take 2 ptr = [CR, LF]")
    case True
    then show ?thesis using assms f by (simp add: parse_start_line_def alike_results_def alike_move)
  next
    case crlf: False
    show ?thesis
    proof (cases "scan_line (\<lambda>c. c = NUL) HTTP_START_LINE_MAX 0 ptr")
      case (Line_Found i)
      show ?thesis
      proof (cases "\<exists>a r b c. cut_space (take i ptr) = Some (a, r) \<and> cut_space r = Some (b, c)")
        case True
        then obtain a r b c where cut: "cut_space (take i ptr) = Some (a, r)" "cut_space r = Some (b, c)" by blast
        obtain as h1 where "match_request_line a b c p h = (0, request_line a b c p as, h1)" "outcomes h1 = []"
          using match_request_ok [OF assms(2)] by blast
        moreover obtain bs k1 where "match_request_line a b c q k = (0, request_line a b c q bs, k1)" "outcomes k1 = []"
          using match_request_ok [OF assms(3)] by blast
        moreover obtain cs h2 where "match_status_line a b c p h = (0, status_line a b c p cs, h2)" "outcomes h2 = []"
          using match_status_ok [OF assms(2)] by blast
        moreover obtain ds k2 where "match_status_line a b c q k = (0, status_line a b c q ds, k2)" "outcomes k2 = []"
          using match_status_ok [OF assms(3)] by blast
        ultimately show ?thesis using crlf Line_Found cut f alike_request_line [OF assms(1)] alike_status_line [OF assms(1)]
          by (simp add: parse_start_line_def alike_results_def Let_def o alike_move)
      next
        case False
        then show ?thesis using crlf Line_Found assms
          by (auto simp: parse_start_line_def alike_results_def split: option.split)
      qed
    qed (use crlf assms in \<open>simp_all add: parse_start_line_def alike_results_def\<close>)
  qed
qed

lemma alike_flags:
  "alike p q \<Longrightarrow> alike (p\<lparr>expect_continue := b\<rparr>) (q\<lparr>expect_continue := b\<rparr>)"
  "alike p q \<Longrightarrow> alike (p\<lparr>has_connection := b\<rparr>) (q\<lparr>has_connection := b\<rparr>)"
  "alike p q \<Longrightarrow> alike (p\<lparr>has_connection := b, keep_alive := c\<rparr>) (q\<lparr>has_connection := b, keep_alive := c\<rparr>)"
  "alike p q \<Longrightarrow> alike (p\<lparr>has_keep_alive := b\<rparr>) (q\<lparr>has_keep_alive := b\<rparr>)"
  "alike p q \<Longrightarrow> alike (p\<lparr>has_content_length := b\<rparr>) (q\<lparr>has_content_length := b\<rparr>)"
  "alike p q \<Longrightarrow> alike (p\<lparr>content_length := n, has_content_length := b\<rparr>) (q\<lparr>content_length := n, has_content_length := b\<rparr>)"
  "alike p q \<Longrightarrow> alike (p\<lparr>has_content_length := b, content_length := n\<rparr>) (q\<lparr>has_content_length := b, content_length := n\<rparr>)"
  "alike p q \<Longrightarrow> alike (p\<lparr>chunked := b\<rparr>) (q\<lparr>chunked := b\<rparr>)"
  by (simp_all add: alike_def)

lemma alike_check: "alike p q \<Longrightarrow> alike (check_message_header name value p) (check_message_header name value q)"
proof -
  assume a: "alike p q"
  let ?n = "name_is name" and ?v = "name_is value"
  note def = check_message_header_def Let_def
  consider "?n ''Expect''" | "\<not> ?n ''Expect''" "?n ''Connection''"
    | "\<not> ?n ''Expect''" "\<not> ?n ''Connection''" "?n ''Keep-Alive''"
    | "\<not> ?n ''Expect''" "\<not> ?n ''Connection''" "\<not> ?n ''Keep-Alive''" "?n ''Content-Length''"
    | "\<not> ?n ''Expect''" "\<not> ?n ''Connection''" "\<not> ?n ''Keep-Alive''" "\<not> ?n ''Content-Length''" by blast
  then show ?thesis
  proof cases
    case 1
    then show ?thesis using a by (cases "?v ''100-continue''") (simp_all only: def if_True if_False alike_flags)
  next
    case 2
    then show ?thesis using a
      by (cases "?v ''Keep-Alive''"; cases "?v ''close''") (simp_all only: def if_True if_False alike_flags)
  next
    case 3
    then show ?thesis using a by (simp only: def if_True if_False alike_flags)
  next
    case 4
    then show ?thesis using a
      by (cases "isdigit (deref value) \<and> length value \<le> 15") (simp_all only: def if_True if_False alike_flags simp_thms)
  next
    case 5
    then show ?thesis using a by (cases "?n ''Transfer-Encoding''") (simp_all only: def if_True if_False alike_flags)
  qed
qed

lemma add_header_ok:
  assumes "outcomes h = []"
  obtains a h' where "http_parser_add_header name value p h =
      Some (0, check_message_header name value (p\<lparr>header_list := header_list p @
        [\<lparr>line_addr = a, line_own = None, name_len = length name, value_len = length value,
          line_buf = name @ '': '' @ value @ [CR, LF]\<rparr>]\<rparr>), h')" "outcomes h' = []"
proof (cases rule: add_header_cases [of name "value" p h])
  case (1 h')
  then show ?thesis using malloc_None_outcomes assms by blast
next
  case (2 a h')
  then show ?thesis using that assms by (auto simp: malloc_def)
qed

lemma header_value_alike:
  assumes "alike p q" "outcomes h = []" "outcomes k = []" "header_state p = HPS_HEADER_VALUE"
  shows "alike_results (parse_header_value ptr p h) (parse_header_value ptr q k)"
proof (cases "value_loop ptr []")
  case Value_Overrun
  then show ?thesis using value_loop_no_overrun [of "[]" ptr] by simp
next
  case (Value_Line v s)
  have n: "cstr (namebuf p) = cstr (namebuf q)" "header_offset p = header_offset q" using assms(1,4) by (auto simp: alike_def)
  let ?l = "\<lambda>a. \<lparr>line_addr = a, line_own = None, name_len = length (cstr (namebuf q)), value_len = length v,
          line_buf = cstr (namebuf q) @ '': '' @ v @ [CR, LF]\<rparr>"
  obtain a h' where a: "http_parser_add_header (cstr (namebuf q)) v p h =
      Some (0, check_message_header (cstr (namebuf q)) v (p\<lparr>header_list := header_list p @ [?l a]\<rparr>), h')" "outcomes h' = []"
    using add_header_ok [OF assms(2)] by blast
  obtain b k' where b: "http_parser_add_header (cstr (namebuf q)) v q k =
      Some (0, check_message_header (cstr (namebuf q)) v (q\<lparr>header_list := header_list q @ [?l b]\<rparr>), k')" "outcomes k' = []"
    using add_header_ok [OF assms(3)] by blast
  have "alike (p\<lparr>header_list := header_list p @ [?l a]\<rparr>) (q\<lparr>header_list := header_list q @ [?l b]\<rparr>)"
    using assms(1) by (simp add: alike_def strip_line_def)
  from alike_move(1) [OF alike_check [OF this]] show ?thesis
    using a b n Value_Line by (simp add: parse_header_value_def alike_results_def)
qed (use assms in \<open>auto simp: parse_header_value_def alike_results_def\<close>)

text \<open>The scan for the end of a header name, without the buffer.\<close>

fun name_scan :: "nat \<Rightarrow> byte list \<Rightarrow> line_scan" where
  "name_scan i [] = (if i = HTTP_HEADER_NAME_MAX then Line_Bad else Line_More)"
| "name_scan i (c # s) =
     (if i = HTTP_HEADER_NAME_MAX then Line_Bad
      else if c = CHR '':'' then Line_Found i
      else if nonpositive_byte c then Line_Bad
      else name_scan (Suc i) s)"

lemma poke_one: "i < length buf \<Longrightarrow> poke i [c] buf = Some (buf[i := c])"
  by (simp add: poke_def upd_conv_take_nth_drop)

lemma nonpositive_NUL: "\<not> nonpositive_byte c \<Longrightarrow> c \<noteq> NUL"
  by (auto simp: nonpositive_byte_def ord_def)

lemma cstr_take: "j < length buf \<Longrightarrow> buf ! j = NUL \<Longrightarrow> NUL \<notin> set (take j buf) \<Longrightarrow> cstr buf = take j buf"
proof -
  assume a: "j < length buf" "buf ! j = NUL" "NUL \<notin> set (take j buf)"
  have "buf = take j buf @ NUL # drop (Suc j) buf" using id_take_nth_drop [OF a(1)] a(2) by simp
  moreover have "cstr (take j buf @ NUL # drop (Suc j) buf) = take j buf"
    using a(3) by (auto simp: cstr_def takeWhile_append)
  ultimately show ?thesis by metis
qed

definition name_found :: "nat \<Rightarrow> nat \<Rightarrow> byte list \<Rightarrow> http_parser \<Rightarrow> http_parser \<Rightarrow> bool" where
  "name_found i j ptr p p' \<longleftrightarrow> (\<exists>b. p' = p\<lparr>namebuf := b, header_offset := header_offset p + j + 1,
      header_state := HPS_HEADER_VALUE\<rparr> \<and> length b = HTTP_HEADER_NAME_MAX \<and> cstr b = take i (namebuf p) @ take (j - i) ptr)"

definition name_kept :: "http_parser \<Rightarrow> http_parser \<Rightarrow> bool" where
  "name_kept p p' \<longleftrightarrow> (\<exists>b. p' = p\<lparr>namebuf := b\<rparr> \<and> length b = HTTP_HEADER_NAME_MAX)"

lemma name_scan_index: "name_scan i s = Line_Found j \<Longrightarrow> i \<le> j \<and> j < i + length s"
  by (induction i s rule: name_scan.induct) (fastforce split: if_splits)+

lemma name_loop_scan:
  assumes "length (namebuf p) = HTTP_HEADER_NAME_MAX" "i \<le> HTTP_HEADER_NAME_MAX" "NUL \<notin> set (take i (namebuf p))"
  shows "case name_scan i ptr of
     Line_Found j \<Rightarrow> \<exists>p'. name_loop i ptr p = Some (1, p') \<and> name_found i j ptr p p'
   | Line_Bad \<Rightarrow> \<exists>p'. name_loop i ptr p = Some (- 2, p') \<and> name_kept p p'
   | Line_More \<Rightarrow> \<exists>p'. name_loop i ptr p = Some (0, p') \<and> name_kept p p'"
  using assms
proof (induction i ptr arbitrary: p rule: name_scan.induct)
  case (1 i)
  then show ?case by (auto simp: name_kept_def intro: exI [of _ "namebuf p"])
next
  case (2 i c s)
  have kept: "name_kept p p" using "2.prems"(1) by (auto simp: name_kept_def intro: exI [of _ "namebuf p"])
  consider "i = HTTP_HEADER_NAME_MAX \<or> c \<noteq> CHR '':'' \<and> nonpositive_byte c"
    | "i \<noteq> HTTP_HEADER_NAME_MAX" "c = CHR '':''"
    | "i \<noteq> HTTP_HEADER_NAME_MAX" "c \<noteq> CHR '':''" "\<not> nonpositive_byte c" by blast
  then show ?case
  proof cases
    case 1
    then show ?thesis using kept by auto
  next
    case 2
    let ?b = "(namebuf p)[i := NUL]"
    have i: "i < length (namebuf p)" using 2 "2.prems" by simp
    then have "cstr ?b = take i (namebuf p)" using cstr_take [of i ?b] "2.prems"(3) by simp
    then have "name_found i i (c # s) p (p\<lparr>namebuf := ?b, header_offset := header_offset p + i + 1,
        header_state := HPS_HEADER_VALUE\<rparr>)"
      unfolding name_found_def by (intro exI [of _ ?b]) (simp add: "2.prems"(1))
    then show ?thesis using 2 i by (simp add: poke_one)
  next
    case 3
    let ?b = "(namebuf p)[i := c]" and ?q = "p\<lparr>namebuf := (namebuf p)[i := c]\<rparr>"
    have i: "i < length (namebuf p)" using 3 "2.prems" by simp
    then have t: "take (Suc i) ?b = take i (namebuf p) @ [c]" by (simp add: take_Suc_conv_app_nth)
    have ih: "case name_scan (Suc i) s of
       Line_Found j \<Rightarrow> \<exists>p'. name_loop (Suc i) s ?q = Some (1, p') \<and> name_found (Suc i) j s ?q p'
     | Line_Bad \<Rightarrow> \<exists>p'. name_loop (Suc i) s ?q = Some (- 2, p') \<and> name_kept ?q p'
     | Line_More \<Rightarrow> \<exists>p'. name_loop (Suc i) s ?q = Some (0, p') \<and> name_kept ?q p'"
      by (rule "2.IH" [OF 3]) (use "2.prems" 3 i t nonpositive_NUL [OF 3(3)] in simp_all)
    have l: "name_loop i (c # s) p = name_loop (Suc i) s ?q" "name_scan i (c # s) = name_scan (Suc i) s"
      using 3 i by (simp_all add: poke_one)
    have f: "name_found i j (c # s) p p'" if "name_found (Suc i) j s ?q p'" "name_scan (Suc i) s = Line_Found j" for j p'
    proof -
      have "j - i = Suc (j - Suc i)" using name_scan_index [OF that(2)] by linarith
      then have "take (j - i) (c # s) = c # take (j - Suc i) s" by simp
      then show ?thesis using that(1) t by (auto simp: name_found_def)
    qed
    show ?thesis unfolding l using ih f by (auto simp: name_kept_def split: line_scan.splits)
  qed
qed

lemma name_kept_alike: "name_kept p p' \<Longrightarrow> header_state p \<noteq> HPS_HEADER_VALUE \<Longrightarrow> alike p p'"
  by (auto simp: name_kept_def alike_def)

lemma name_loop_0:
  assumes "length (namebuf p) = HTTP_HEADER_NAME_MAX"
  obtains (found) j p' where "name_scan 0 ptr = Line_Found j" "name_loop 0 ptr p = Some (1, p')" "name_found 0 j ptr p p'"
  | (bad) p' where "name_scan 0 ptr = Line_Bad" "name_loop 0 ptr p = Some (- 2, p')" "name_kept p p'"
  | (more) p' where "name_scan 0 ptr = Line_More" "name_loop 0 ptr p = Some (0, p')" "name_kept p p'"
  using name_loop_scan [OF assms, of 0 ptr] by (cases "name_scan 0 ptr") auto

lemma name_found_alike:
  "alike p q \<Longrightarrow> name_found i j ptr p p' \<Longrightarrow> name_found 0 j ptr q q' \<Longrightarrow> i = 0 \<Longrightarrow> alike p' q'"
proof -
  assume a: "alike p q" "name_found i j ptr p p'" "name_found 0 j ptr q q'" "i = 0"
  obtain b where b: "p' = p\<lparr>namebuf := b, header_offset := header_offset p + j + 1, header_state := HPS_HEADER_VALUE\<rparr>"
    "cstr b = take j ptr" using a(2,4) by (auto simp: name_found_def)
  obtain c where c: "q' = q\<lparr>namebuf := c, header_offset := header_offset q + j + 1, header_state := HPS_HEADER_VALUE\<rparr>"
    "cstr c = take j ptr" using a(3) by (auto simp: name_found_def)
  show ?thesis using a(1) b(2) c(2) unfolding b(1) c(1) by (simp add: alike_def)
qed

lemma header_name_alike:
  assumes a: "alike p q" and n: "length (namebuf p) = HTTP_HEADER_NAME_MAX" "length (namebuf q) = HTTP_HEADER_NAME_MAX"
    and s: "header_state p \<noteq> HPS_HEADER_VALUE"
  shows "\<exists>ret p' q'. parse_header_name ptr p = Some (ret, p') \<and> parse_header_name ptr q = Some (ret, q') \<and> alike p' q'"
proof (cases "take 2 ptr = [CR, LF]")
  case True
  then show ?thesis using alike_move(1) [OF a] alike_fields(3) [OF a] by (simp add: parse_header_name_def)
next
  case False
  have s': "header_state q \<noteq> HPS_HEADER_VALUE" using s alike_fields(1) [OF a] by simp
  have eq: "parse_header_name ptr p = name_loop 0 ptr p" "parse_header_name ptr q = name_loop 0 ptr q"
    using False by (simp_all add: parse_header_name_def)
  from n(1) show ?thesis
  proof (cases rule: name_loop_0 [where p = p and ptr = ptr])
    case (found j p')
    then obtain q' where "name_loop 0 ptr q = Some (1, q')" "name_found 0 j ptr q q'"
      using name_loop_scan [OF n(2), of 0 ptr] by auto
    then show ?thesis using found name_found_alike [OF a] eq by auto
  next
    case (bad p')
    then obtain q' where "name_loop 0 ptr q = Some (- 2, q')" "name_kept q q'"
      using name_loop_scan [OF n(2), of 0 ptr] by auto
    then show ?thesis using bad eq alike_trans [OF alike_sym [OF name_kept_alike]] alike_trans [OF a name_kept_alike] s s'
      by (metis)
  next
    case (more p')
    then obtain q' where "name_loop 0 ptr q = Some (0, q')" "name_kept q q'"
      using name_loop_scan [OF n(2), of 0 ptr] by auto
    then show ?thesis using more eq alike_trans [OF alike_sym [OF name_kept_alike]] alike_trans [OF a name_kept_alike] s s'
      by (metis)
  qed
qed

lemma header_step_alike:
  assumes "alike p q" "outcomes h = []" "outcomes k = []"
    "length (namebuf p) = HTTP_HEADER_NAME_MAX" "length (namebuf q) = HTTP_HEADER_NAME_MAX"
  shows "alike_results (header_step m p h) (header_step m q k)"
proof -
  note f = alike_fields(1,3) [OF assms(1)]
  consider "header_state q = HPS_START_LINE" | "header_state q = HPS_HEADER_VALUE"
    | "header_state q \<noteq> HPS_START_LINE" "header_state q \<noteq> HPS_HEADER_VALUE" by blast
  then show ?thesis
  proof cases
    case 1
    then show ?thesis using start_line_alike [OF assms(1-3)] f by (simp add: header_step_def)
  next
    case 2
    then show ?thesis using header_value_alike [OF assms(1-3)] f by (simp add: header_step_def)
  next
    case 3
    then obtain ret p' q' where "parse_header_name (drop (header_offset q) m) p = Some (ret, p')"
      "parse_header_name (drop (header_offset q) m) q = Some (ret, q')" "alike p' q'"
      using header_name_alike [OF assms(1,4,5)] f by metis
    then show ?thesis using 3 f assms(2,3) by (simp add: header_step_def alike_results_def)
  qed
qed

lemma name_loop_namebuf:
  "name_loop i ptr p = Some (ret, p') \<Longrightarrow> length (namebuf p') = length (namebuf p)"
  by (induction i ptr p rule: name_loop.induct) (auto split: if_splits Option.bind_splits dest: poke_length)

lemma match_line_namebuf:
  "match_request_line m u v p h = (ret, p', h') \<Longrightarrow> namebuf p' = namebuf p"
  "match_status_line v c ph p h = (ret, p', h') \<Longrightarrow> namebuf p' = namebuf p"
proof -
  define q where "q = (if old_version v then p\<lparr>keep_alive := False\<rparr> else p)"
  have "namebuf q = namebuf p" by (simp add: q_def)
  then show "match_request_line m u v p h = (ret, p', h') \<Longrightarrow> namebuf p' = namebuf p"
    unfolding match_request_line_def Let_def q_def [symmetric] by (auto split: option.splits prod.splits)
  define r where "r = (if deref c = CHR ''1'' \<or> strcmp c ''204'' = 0 \<or> strcmp c ''304'' = 0
     then q\<lparr>transfer_length := 0\<rparr> else q)"
  have "namebuf r = namebuf p" by (simp add: r_def q_def)
  then show "match_status_line v c ph p h = (ret, p', h') \<Longrightarrow> namebuf p' = namebuf p"
    unfolding match_status_line_def Let_def q_def [symmetric] r_def [symmetric] by (auto split: option.splits prod.splits)
qed

lemma header_step_namebuf:
  assumes "header_step m p h = Some (ret, p', h')"
  shows "length (namebuf p') = length (namebuf p)"
proof -
  have s: "namebuf q = namebuf p" if "parse_start_line ptr p h = (r, q, k)" for ptr r q k
    using that by (auto simp: parse_start_line_def Let_def split: if_splits line_scan.splits option.splits prod.splits
        dest: match_line_namebuf)
  have v: "namebuf q = namebuf p" if "parse_header_value ptr p h = Some (r, q, k)" for ptr r q k
    using that by (cases rule: add_header_cases [of "cstr (namebuf p)" "case value_loop ptr [] of Value_Line v s \<Rightarrow> v" p h])
      (auto simp: parse_header_value_def split: value_scan.splits)
  have n: "length (namebuf q) = length (namebuf p)" if "parse_header_name ptr p = Some (r, q)" for ptr r q
    using that name_loop_namebuf by (auto simp: parse_header_name_def split: if_splits)
  show ?thesis using assms s n v by (auto simp: header_step_def Let_def split: if_splits)
qed

lemma parse_message_header_alike:
  assumes "alike p q" "outcomes h = []" "outcomes k = []"
    "length (namebuf p) = HTTP_HEADER_NAME_MAX" "length (namebuf q) = HTTP_HEADER_NAME_MAX"
  shows "alike_results (parse_message_header m p h) (parse_message_header m q k)"
  using assms
proof (induction m p h arbitrary: q k rule: parse_message_header.induct)
  case (1 m p h)
  obtain ret p' h' q' k' where s: "header_step m p h = Some (ret, p', h')" "header_step m q k = Some (ret, q', k')"
    and a: "alike p' q'" "outcomes h' = []" "outcomes k' = []"
    using header_step_alike [OF "1.prems", of m] unfolding alike_results_def by blast
  note eq = parse_message_header.simps [of m p h] parse_message_header.simps [of m q k] s
  have n: "length (namebuf p') = HTTP_HEADER_NAME_MAX" "length (namebuf q') = HTTP_HEADER_NAME_MAX"
    using header_step_namebuf s "1.prems" by metis+
  show ?case
  proof (cases "header_state p' \<noteq> HPS_HEADER_COMPLETE \<and> 0 < ret")
    case True
    then have "alike_results (parse_message_header m p' h') (parse_message_header m q' k')"
      using "1.IH" [OF s(1) refl refl] a n by blast
    then show ?thesis using True alike_fields(1) [OF a(1)] by (simp add: eq)
  next
    case False
    then show ?thesis using a alike_fields(1) [OF a(1)] by (auto simp: eq alike_results_def)
  qed
qed

section \<open>More bytes\<close>

text \<open>A scan that has found something or failed does the same when more bytes follow; one that needed
  more finds nothing within the bytes it had.\<close>

lemma scan_line_index: "scan_line bad limit i s = Line_Found j \<Longrightarrow> i \<le> j"
proof (induction bad limit i s rule: scan_line.induct)
  case (2 bad limit i c s)
  then show ?case by (cases s) (auto split: if_splits)
qed (auto split: if_splits)

lemma scan_line_more_bytes:
  "scan_line bad limit i s = Line_Found j \<Longrightarrow> scan_line bad limit i (s @ b) = Line_Found j"
  "scan_line bad limit i s = Line_Bad \<Longrightarrow> scan_line bad limit i (s @ b) = Line_Bad"
  "scan_line bad limit i s = Line_More \<Longrightarrow> scan_line bad limit i (s @ b) = Line_Found j \<Longrightarrow> i + length s < j + 2"
proof (induction bad limit i s rule: scan_line.induct)
  case (1 bad limit i)
  { case 1 then show ?case by (auto split: if_splits)
  next
    case 2 then show ?case by (cases b) (auto split: if_splits)
  next
    case 3 then show ?case using scan_line_index [of bad limit i b j] by simp
  }
next
  case (2 bad limit i c s)
  { case 1 then show ?case using "2.IH"(1) by (cases s) (auto split: if_splits)
  next
    case 2 then show ?case using "2.IH"(2) by (cases s) (auto split: if_splits)
  next
    case 3 then show ?case using "2.IH"(3) by (cases s; cases b) (auto split: if_splits)
  }
qed

lemma name_scan_more_bytes:
  "name_scan i s = Line_Found j \<Longrightarrow> name_scan i (s @ b) = Line_Found j"
  "name_scan i s = Line_Bad \<Longrightarrow> name_scan i (s @ b) = Line_Bad"
  "name_scan i s = Line_More \<Longrightarrow> name_scan i (s @ b) = Line_Found j \<Longrightarrow> i + length s \<le> j"
proof (induction i s rule: name_scan.induct)
  case (1 i)
  { case 1 then show ?case by (auto split: if_splits)
  next
    case 2 then show ?case by (cases b) (auto split: if_splits)
  next
    case 3 then show ?case using name_scan_index [of i b j] by auto
  }
next
  case (2 i c s)
  { case 1 then show ?case using "2.IH"(1) by (auto split: if_splits)
  next
    case 2 then show ?case using "2.IH"(2) by (auto split: if_splits)
  next
    case 3 then show ?case using "2.IH"(3) by (auto split: if_splits)
  }
qed

lemma value_line_more_bytes:
  "value_line s v = Value_Line w r \<Longrightarrow> value_line (s @ b) v = Value_Line w (r @ b) \<and> r \<noteq> []"
  "value_line s v = Value_Bad \<Longrightarrow> value_line (s @ b) v = Value_Bad"
  "value_line s v = Value_More \<Longrightarrow> s \<noteq> [] \<Longrightarrow> value_line (s @ b) v = Value_Line w r \<Longrightarrow> length r \<le> length b"
proof (induction s v rule: value_line.induct)
  case (2 c s v)
  { case 1 then show ?case using "2.IH"(1) by (auto split: if_splits)
  next
    case 2 then show ?case using "2.IH"(2) by (auto split: if_splits)
  next
    case 3
    show ?case
    proof (cases s)
      case Nil
      then show ?thesis using 3 value_line_shorter [of b "v @ [c]" w r] by (cases b) (auto split: if_splits)
    next
      case (Cons d t)
      then show ?thesis using 3 "2.IH"(3) by (auto split: if_splits)
    qed
  }
qed auto

lemma dropWhile_more: "dropWhile P s \<noteq> [] \<Longrightarrow> dropWhile P (s @ b) = dropWhile P s @ b"
  by (induction s) auto

lemma value_loop_blank: "dropWhile blank s = [] \<Longrightarrow> value_loop (s @ b) v = value_loop b v"
proof -
  assume "dropWhile blank s = []"
  then have "dropWhile blank (s @ b) = dropWhile blank b" by (induction s) (auto split: if_splits)
  then show ?thesis by (simp add: value_loop.simps [of "s @ b"] value_loop.simps [of b])
qed

lemma value_loop_rest:
  assumes "value_line (dropWhile blank s) v = Value_Line w r" "value_loop s v = Value_Line w' r'"
  shows "length r' < length r"
proof (cases "blank (hd (tl r))")
  case True
  then have "value_loop (tl (tl r)) (trim_blank w @ '' '') = Value_Line w' r'"
    using assms(2) unfolding value_loop_line [OF assms(1)] by (auto split: if_splits)
  from value_loop_shorter [OF this] show ?thesis by (simp only: length_tl) linarith
next
  case False
  then have "r' = tl r" "tl r \<noteq> []" using assms(2) unfolding value_loop_line [OF assms(1)] by (auto split: if_splits)
  then show ?thesis by (cases r) auto
qed

lemma value_loop_more_bytes:
  "(value_loop s v = Value_Line w r \<longrightarrow> value_loop (s @ b) v = Value_Line w (r @ b))
   \<and> (value_loop s v = Value_Bad \<longrightarrow> value_loop (s @ b) v = Value_Bad)
   \<and> (value_loop s v = Value_More \<longrightarrow> value_loop (s @ b) v = Value_Line w r \<longrightarrow> length r \<le> length b)"
proof (induction s arbitrary: v rule: measure_induct_rule [of length])
  case (less s)
  let ?d = "dropWhile blank s"
  show ?case
  proof (cases "?d = []")
    case True
    have "value_line ?d v = Value_More" unfolding True by simp
    then have "value_loop s v = Value_More" by (rule value_loop_other) simp
    then show ?thesis using value_loop_blank [OF True, of b v] value_loop_shorter [of b v w r] by auto
  next
    case False
    have d: "dropWhile blank (s @ b) = ?d @ b" using dropWhile_more [OF False] .
    show ?thesis
    proof (cases "value_line ?d v")
      case Value_Bad
      then show ?thesis using value_loop_other [of s v] value_loop_other [of "s @ b" v] d value_line_more_bytes(2) by auto
    next
      case Value_Overrun
      then show ?thesis using value_loop_other [of s v] by simp
    next
      case Value_More
      have "length r \<le> length b" if l: "value_loop (s @ b) v = Value_Line w r"
      proof -
        obtain w1 r1 where w1: "value_line (?d @ b) v = Value_Line w1 r1"
          using l value_loop_other [of "s @ b" v] d by (cases "value_line (?d @ b) v") auto
        then have "length r1 \<le> length b" using value_line_more_bytes(3) [OF Value_More False] by blast
        then show ?thesis using value_loop_rest [OF _ l] w1 d by fastforce
      qed
      then show ?thesis using value_loop_other [of s v] Value_More by simp
    next
      case (Value_Line w1 r1)
      have l2: "value_line (dropWhile blank (s @ b)) v = Value_Line w1 (r1 @ b)" "r1 \<noteq> []"
        using value_line_more_bytes(1) [OF Value_Line, of b] d by auto
      note eqs = value_loop_line [OF Value_Line] value_loop_line [OF l2(1)]
      show ?thesis
      proof (cases "tl r1 = []")
        case True
        then obtain c where c: "r1 = [c]" using l2(2) by (cases r1) auto
        have "length r \<le> length b" if "value_loop (s @ b) v = Value_Line w r"
          using value_loop_rest [OF l2(1) that] c by simp
        then show ?thesis using c by (auto simp: eqs)
      next
        case nonempty: False
        have t: "hd (r1 @ b) = hd r1" "tl (r1 @ b) = tl r1 @ b" "hd (tl (r1 @ b)) = hd (tl r1)"
          "tl (tl (r1 @ b)) = tl (tl r1) @ b" using l2(2) nonempty by simp_all
        have "length (tl (tl r1)) < length s"
          using value_line_shorter [OF Value_Line] length_dropWhile_le [of blank s] by simp
        from less.IH [OF this, of "trim_blank w1 @ '' ''"] show ?thesis
          unfolding eqs t using nonempty by auto
      qed
    qed
  qed
qed

lemma take2_more: "take 2 s = [CR, LF] \<Longrightarrow> take 2 (s @ b) = [CR, LF]"
  using take2_length [of s] by simp

lemma take2_new: "take 2 s \<noteq> [CR, LF] \<Longrightarrow> take 2 (s @ b) = [CR, LF] \<Longrightarrow> s = [] \<or> s = [CR]"
  by (cases s; cases "tl s") auto

text \<open>A step that consumes something or fails does the same with more bytes; a step that does not
  changes nothing visible, and with more bytes it ends beyond the bytes it had.\<close>

definition more_bytes :: "byte list \<Rightarrow> http_parser \<Rightarrow> (int \<times> http_parser \<times> heap_st) option
    \<Rightarrow> (int \<times> http_parser \<times> heap_st) option \<Rightarrow> bool" where
  "more_bytes m p r r' \<longleftrightarrow> (\<forall>ret q k. r = Some (ret, q, k) \<longrightarrow>
     (ret \<noteq> 0 \<longrightarrow> r' = r) \<and>
     (ret = 0 \<longrightarrow> alike p q \<and> (\<forall>q' k'. r' = Some (1, q', k') \<longrightarrow> length m \<le> header_offset q')))"

lemma more_bytes_same: "more_bytes m p (Some (ret, q, k)) (Some (ret, q, k)) \<longleftrightarrow>
    (ret = 0 \<longrightarrow> alike p q)"
  by (auto simp: more_bytes_def)

lemma more_bytes_0: "more_bytes m p (Some (0, q, k)) r' \<longleftrightarrow> alike p q
    \<and> (\<forall>q' k'. r' = Some (1, q', k') \<longrightarrow> length m \<le> header_offset q')"
  by (auto simp: more_bytes_def)

lemma start_line_found:
  assumes "take 2 s \<noteq> [CR, LF]" "scan_line (\<lambda>c. c = NUL) HTTP_START_LINE_MAX 0 s = Line_Found j"
  shows "parse_start_line s p h = (1, q, k) \<Longrightarrow> header_offset q = header_offset p + j + 2"
    and "fst (parse_start_line s p h) \<noteq> 0"
  using assms by (auto simp: parse_start_line_def Let_def split: option.splits prod.splits if_splits dest: match_line_offset)

lemma start_line_more_bytes:
  assumes "header_offset p \<le> length m"
  shows "more_bytes m p (Some (parse_start_line (drop (header_offset p) m) p h))
     (Some (parse_start_line (drop (header_offset p) m @ b) p h))"
proof -
  let ?s = "drop (header_offset p) m"
  have len: "length m = header_offset p + length ?s" using assms by simp
  note scan = scan_line_more_bytes [where bad = "\<lambda>c. c = NUL" and limit = HTTP_START_LINE_MAX and i = 0 and s = ?s and b = b]
  show ?thesis
  proof (cases "take 2 ?s = [CR, LF]")
    case True
    then show ?thesis using take2_more [OF True] by (simp add: parse_start_line_def more_bytes_same)
  next
    case False
    show ?thesis
    proof (cases "scan_line (\<lambda>c. c = NUL) HTTP_START_LINE_MAX 0 ?s")
      case (Line_Found i)
      then have i: "i + 2 \<le> length ?s" using scan_line_found [OF Line_Found] by simp
      then have f: "take 2 (?s @ b) \<noteq> [CR, LF]" using False take2_new [OF False] by fastforce
      have "take i (?s @ b) = take i ?s" using i by simp
      then have "parse_start_line (?s @ b) p h = parse_start_line ?s p h"
        using scan(1) [OF Line_Found] Line_Found f False by (simp add: parse_start_line_def del: take_append)
      moreover have "fst (parse_start_line ?s p h) \<noteq> 0" by (rule start_line_found(2) [OF False Line_Found])
      ultimately show ?thesis by (cases "parse_start_line ?s p h") (simp add: more_bytes_same)
    next
      case Line_Bad
      then have "take 2 (?s @ b) \<noteq> [CR, LF]" using take2_new [OF False, of b] by (auto simp: HTTP_START_LINE_MAX_def)
      then show ?thesis using scan(2) [OF Line_Bad] Line_Bad False by (simp add: parse_start_line_def more_bytes_same)
    next
      case Line_More
      have "length m \<le> header_offset q" if q: "parse_start_line (?s @ b) p h = (1, q, k)" for q k
      proof (cases "take 2 (?s @ b) = [CR, LF]")
        case True
        then have "length ?s \<le> 1" using take2_new [OF False True] by (elim disjE; simp del: length_drop drop_eq_Nil)
        moreover have "header_offset q = header_offset p + 2"
          using q True by (simp add: parse_start_line_def del: take_append drop_append) (elim conjE, hypsubst, simp)
        ultimately show ?thesis using len by linarith
      next
        case n: False
        obtain j where j: "scan_line (\<lambda>c. c = NUL) HTTP_START_LINE_MAX 0 (?s @ b) = Line_Found j"
          using q n by (cases "scan_line (\<lambda>c. c = NUL) HTTP_START_LINE_MAX 0 (?s @ b)") (auto simp: parse_start_line_def)
        show ?thesis using start_line_found(1) [OF n j q] scan(3) [OF Line_More j] len by linarith
      qed
      then show ?thesis using Line_More False by (simp add: parse_start_line_def [of ?s] more_bytes_0)
    qed
  qed
qed

lemma name_loop_more_bytes:
  "name_loop i s p = Some (ret, q) \<Longrightarrow> ret \<noteq> 0 \<Longrightarrow> name_loop i (s @ b) p = Some (ret, q)"
proof (induction i s p rule: name_loop.induct)
  case (1 i p)
  then show ?case by (cases b) (auto split: if_splits)
qed (auto split: if_splits Option.bind_splits)

lemma header_name_more_bytes:
  assumes o: "header_offset p \<le> length m" and n: "length (namebuf p) = HTTP_HEADER_NAME_MAX"
    and s: "header_state p \<noteq> HPS_HEADER_VALUE"
  shows "more_bytes m p (map_option (\<lambda>(ret, q). (ret, q, h)) (parse_header_name (drop (header_offset p) m) p))
     (map_option (\<lambda>(ret, q). (ret, q, h)) (parse_header_name (drop (header_offset p) m @ b) p))"
proof (cases "take 2 (drop (header_offset p) m) = [CR, LF]")
  case True
  then show ?thesis using take2_more [OF True] by (simp add: parse_header_name_def more_bytes_same)
next
  case False
  let ?s = "drop (header_offset p) m"
  have len: "length m = header_offset p + length ?s" using o by simp
  have short: "?s = [] \<or> ?s = [CR]" if "take 2 (?s @ b) = [CR, LF]" by (rule take2_new [OF False that])
  have eq: "parse_header_name ?s p = name_loop 0 ?s p" using False by (simp add: parse_header_name_def)
  have crlf: "take 2 (?s @ b) = [CR, LF] \<Longrightarrow> name_scan 0 ?s = Line_More \<and> length ?s \<le> 1"
    by (drule short) (elim disjE; simp add: HTTP_HEADER_NAME_MAX_def nonpositive_byte_def ord_def del: length_drop drop_eq_Nil)
  have same: ?thesis if "name_loop 0 ?s p = Some (ret, q)" "ret \<noteq> 0" "name_scan 0 ?s \<noteq> Line_More" for ret q
    using that name_loop_more_bytes [OF that(1,2), of b] crlf
    by (auto simp: eq parse_header_name_def [of "?s @ b"] more_bytes_same)
  show ?thesis using n
  proof (cases rule: name_loop_0 [where p = p and ptr = ?s])
    case (found j p')
    then show ?thesis using same [OF found(2)] by simp
  next
    case (bad p')
    then show ?thesis using same [OF bad(2)] by simp
  next
    case (more p')
    have "length m \<le> header_offset q" if q: "parse_header_name (?s @ b) p = Some (1, q)" for q
    proof (cases "take 2 (?s @ b) = [CR, LF]")
      case True
      then have "header_offset q = header_offset p + 2"
        using q by (simp add: parse_header_name_def del: take_append drop_append) (hypsubst, simp)
      then show ?thesis using crlf [OF True] len by linarith
    next
      case f: False
      then have "name_loop 0 (?s @ b) p = Some (1, q)" using q by (simp add: parse_header_name_def)
      then obtain j where "name_scan 0 (?s @ b) = Line_Found j" "name_found 0 j (?s @ b) p q"
        using name_loop_scan [OF n, of 0 "?s @ b"] by (cases "name_scan 0 (?s @ b)") simp_all
      moreover from this have "header_offset q = header_offset p + j + 1" by (auto simp: name_found_def)
      ultimately show ?thesis using name_scan_more_bytes(3) [OF more(1), of b j] len by linarith
    qed
    then show ?thesis using more name_kept_alike [OF more(3) s] by (auto simp: eq more_bytes_0)
  qed
qed

lemma header_value_more_bytes:
  assumes "header_offset p \<le> length m"
  shows "more_bytes m p (parse_header_value (drop (header_offset p) m) p h)
     (parse_header_value (drop (header_offset p) m @ b) p h)"
proof -
  let ?s = "drop (header_offset p) m"
  have len: "length m = header_offset p + length ?s" using assms by simp
  note l = value_loop_more_bytes [of ?s "[]" _ _ b]
  show ?thesis
  proof (cases "value_loop ?s []")
    case (Value_Line w r)
    then have "length r < length ?s" "value_loop (?s @ b) [] = Value_Line w (r @ b)"
      using l value_loop_shorter by blast+
    then show ?thesis using Value_Line
      by (cases rule: add_header_cases [of "cstr (namebuf p)" w p h]) (simp_all add: parse_header_value_def more_bytes_same)
  next
    case Value_More
    have "length m \<le> header_offset q" if q: "parse_header_value (?s @ b) p h = Some (1, q, k)" for q k
    proof -
      obtain w r where w: "value_loop (?s @ b) [] = Value_Line w r"
        using q by (auto simp: parse_header_value_def split: value_scan.splits)
      then have "length r \<le> length b" using l Value_More by blast
      moreover have "header_offset q = header_offset p + (length (?s @ b) - length r)"
        using q w by (cases rule: add_header_cases [of "cstr (namebuf p)" w p h])
          (auto simp: parse_header_value_def)
      ultimately show ?thesis using assms by simp
    qed
    then show ?thesis using Value_More by (simp add: parse_header_value_def [of ?s] more_bytes_0)
  next
    case Value_Bad
    then show ?thesis using l by (simp add: parse_header_value_def more_bytes_same)
  next
    case Value_Overrun
    then show ?thesis by (simp add: parse_header_value_def more_bytes_def)
  qed
qed

lemma header_step_more_bytes:
  assumes "header_offset p \<le> length m" "length (namebuf p) = HTTP_HEADER_NAME_MAX"
  shows "more_bytes m p (header_step m p h) (header_step (m @ b) p h)"
  using start_line_more_bytes [OF assms(1)] header_value_more_bytes [OF assms(1)] header_name_more_bytes [OF assms]
    assms(1) by (simp add: header_step_def Let_def)

lemma parse_message_header_offset:
  "parse_message_header m p h = Some (ret, q, k) \<Longrightarrow> header_offset p \<le> header_offset q"
proof (induction m p h rule: parse_message_header.induct)
  case (1 m p h)
  obtain r p1 h1 where s: "header_step m p h = Some (r, p1, h1)"
    using "1.prems" by (cases "header_step m p h") (auto simp: parse_message_header.simps [of m p h])
  have le: "header_offset p \<le> header_offset p1"
    using header_step_progress [OF s] header_step_stay [OF s] by (cases "0 < r") auto
  show ?case
  proof (cases "header_state p1 \<noteq> HPS_HEADER_COMPLETE \<and> 0 < r")
    case True
    then show ?thesis using "1.IH" [OF s refl refl] "1.prems" le s by (simp add: parse_message_header.simps [of m p h])
  next
    case False
    then show ?thesis using "1.prems" le s by (auto simp: parse_message_header.simps [of m p h] split: if_splits)
  qed
qed

lemma header_step_ret: "header_step m p h = Some (ret, q, k) \<Longrightarrow> 0 < ret \<Longrightarrow> ret = 1"
proof -
  have "name_loop i ptr p = Some (ret, q) \<Longrightarrow> 0 < ret \<Longrightarrow> ret = 1" for i ptr p q
    by (induction i ptr p rule: name_loop.induct) (auto split: if_splits Option.bind_splits)
  then show "header_step m p h = Some (ret, q, k) \<Longrightarrow> 0 < ret \<Longrightarrow> ret = 1"
    by (auto simp: header_step_def parse_start_line_def parse_header_name_def parse_header_value_def Let_def
        split: if_splits line_scan.splits value_scan.splits option.splits prod.splits Option.bind_splits)
qed

lemma message_header_stuck:
  assumes "header_step m p h = Some (ret, q, k)" "ret \<le> 0" "header_state p \<noteq> HPS_HEADER_COMPLETE"
  shows "parse_message_header m p h = Some (ret, q, k)"
  using assms header_step_stay [OF assms(1,2)] by (simp add: parse_message_header.simps [of m p h])

lemma parse_message_header_more_bytes:
  assumes "outcomes h = []" "length (namebuf p) = HTTP_HEADER_NAME_MAX" "header_offset p \<le> length m"
    "header_state p \<noteq> HPS_HEADER_COMPLETE" "parse_message_header m p h = Some (ret, q, k)"
  shows "(ret \<noteq> 0 \<longrightarrow> parse_message_header (m @ b) p h = Some (ret, q, k))
     \<and> (ret = 0 \<longrightarrow> alike_results (parse_message_header (m @ b) p h) (parse_message_header (m @ b) q k)
         \<and> (\<forall>q' k'. parse_message_header (m @ b) p h = Some (1, q', k') \<longrightarrow> length m \<le> header_offset q'))"
  using assms
proof (induction m p h rule: parse_message_header.induct)
  case (1 m p h)
  obtain r p1 h1 where s: "header_step m p h = Some (r, p1, h1)"
    using "1.prems"(5) by (cases "header_step m p h") (auto simp: parse_message_header.simps [of m p h])
  have o: "outcomes h1 = []" using header_step_alike [OF alike_refl "1.prems"(1,1,2,2), of m] s by (auto simp: alike_results_def)
  have n: "length (namebuf p1) = HTTP_HEADER_NAME_MAX" using header_step_namebuf [OF s] "1.prems"(2) by simp
  have mb: "more_bytes m p (Some (r, p1, h1)) (header_step (m @ b) p h)"
    using header_step_more_bytes [OF "1.prems"(3,2), of h b] s by simp
  consider "r = 0" | "r < 0" | "r = 1" using header_step_ret [OF s] by linarith
  then show ?case
  proof cases
    case 1
    then have q: "ret = 0" "q = p1" "k = h1" using message_header_stuck [OF s] "1.prems"(4,5) by auto
    have a: "alike p p1" and beyond: "header_step (m @ b) p h = Some (1, q', k') \<Longrightarrow> length m \<le> header_offset q'" for q' k'
      using mb 1 by (auto simp: more_bytes_0)
    have "length m \<le> header_offset q'" if pq: "parse_message_header (m @ b) p h = Some (1, q', k')" for q' k'
    proof -
      obtain r2 p2 h2 where s2: "header_step (m @ b) p h = Some (r2, p2, h2)"
        using pq by (cases "header_step (m @ b) p h") (auto simp: parse_message_header.simps [of "m @ b" p h])
      have r2: "r2 = 1" using message_header_stuck [OF s2 _ "1.prems"(4)] pq header_step_ret [OF s2] by force
      have "header_offset p2 \<le> header_offset q'"
        using pq s2 r2 parse_message_header_offset [of "m @ b" p2 h2]
        by (auto simp: parse_message_header.simps [of "m @ b" p h] split: if_splits)
      then show ?thesis using beyond s2 r2 by fastforce
    qed
    then show ?thesis using parse_message_header_alike [OF a "1.prems"(1) o "1.prems"(2) n] q by simp
  next
    case 2
    then have q: "ret = r" "q = p1" "k = h1" using message_header_stuck [OF s] "1.prems"(4,5) by auto
    have "header_step (m @ b) p h = Some (r, p1, h1)" using mb 2 by (simp add: more_bytes_def)
    then show ?thesis using message_header_stuck 2 q "1.prems"(4) by simp
  next
    case 3
    have s2: "header_step (m @ b) p h = Some (r, p1, h1)" using mb 3 by (simp add: more_bytes_def)
    have len: "header_offset p1 \<le> length m" using header_step_progress [OF s] 3 by simp
    note eq = parse_message_header.simps [of m p h] parse_message_header.simps [of "m @ b" p h] s s2 3
    show ?thesis
    proof (cases "header_state p1 = HPS_HEADER_COMPLETE")
      case True
      then show ?thesis using "1.prems"(5) by (simp add: eq)
    next
      case False
      then show ?thesis using "1.IH" [OF s refl refl False _ o n len False] "1.prems"(5) 3 by (simp add: eq)
    qed
  qed
qed

lemma chunk_data_found:
  assumes "parse_chunk_data s p = (1, q)"
  shows "\<exists>j. scan_line (\<lambda>c. False) HTTP_CHUNK_LINE_MAX 0 s = Line_Found j \<and> chunk_offset p + j + 2 \<le> chunk_offset q"
  using assms by (cases "scan_line (\<lambda>c. False) HTTP_CHUNK_LINE_MAX 0 s")
    (auto simp: parse_chunk_data_def Let_def split: option.splits if_splits)

lemma chunk_data_more_bytes:
  assumes "parse_chunk_data s p = (ret, q)"
  shows "(ret \<noteq> 0 \<longrightarrow> parse_chunk_data (s @ b) p = (ret, q))
     \<and> (ret = 0 \<longrightarrow> (\<forall>q'. parse_chunk_data (s @ b) p = (1, q') \<longrightarrow> chunk_offset p + length s \<le> chunk_offset q'))"
proof (cases "scan_line (\<lambda>c. False) HTTP_CHUNK_LINE_MAX 0 s")
  case (Line_Found i)
  have "i + 2 \<le> length s" using scan_line_found [OF Line_Found] by (simp add: HTTP_CHUNK_LINE_MAX_def)
  then have t: "take i (s @ b) = take i s" by simp
  note eq = parse_chunk_data_def Let_def Line_Found scan_line_more_bytes(1) [OF Line_Found, of b] t line_scan.case
  show ?thesis
  proof (cases "strtol16 (cstr (take i s))")
    case None
    then show ?thesis using assms by (simp add: eq del: take_append)
  next
    case (Some n)
    consider "n = 0" | "n \<noteq> 0" "\<not> (if n < 0 then n + 2 ^ 64 else n) < CHUNK_SIZE_MAX"
      | "n \<noteq> 0" "(if n < 0 then n + 2 ^ 64 else n) < CHUNK_SIZE_MAX" "nat n + i + 4 \<le> length s"
      | "n \<noteq> 0" "(if n < 0 then n + 2 ^ 64 else n) < CHUNK_SIZE_MAX" "length s < nat n + i + 4" by linarith
    then show ?thesis
    proof cases
      case 4
      then have "parse_chunk_data (s @ b) p = (if length (s @ b) < nat n + i + 4 then (0, p)
          else (1, p\<lparr>chunk_offset := chunk_offset p + (nat n + i + 4)\<rparr>))" "ret = 0"
        using assms Some by (simp_all only: eq option.case if_True if_False prod.inject)
      then show ?thesis using 4(3) by auto
    qed (use assms Some in \<open>simp_all only: eq option.case if_True if_False length_append\<close>, simp_all)
  qed
next
  case Line_More
  have "length s < j + 2" if "scan_line (\<lambda>c. False) HTTP_CHUNK_LINE_MAX 0 (s @ b) = Line_Found j" for j
    using scan_line_more_bytes(3) [OF Line_More that] by simp
  then show ?thesis using assms Line_More chunk_data_found [of "s @ b" p] by (fastforce simp: parse_chunk_data_def [of s])
next
  case Line_Bad
  then show ?thesis using assms scan_line_more_bytes(2) [OF Line_Bad, of b] by (auto simp: parse_chunk_data_def)
qed

lemma trailer_more_bytes:
  assumes "parse_trailer_part s p = (ret, q)"
  shows "(ret \<noteq> 0 \<longrightarrow> parse_trailer_part (s @ b) p = (ret, q))
     \<and> (ret = 0 \<longrightarrow> (\<forall>q'. parse_trailer_part (s @ b) p = (1, q') \<longrightarrow> chunk_offset p + length s \<le> chunk_offset q'))"
proof (cases "scan_line (\<lambda>c. False) HTTP_TRAILER_LINE_MAX 0 s")
  case (Line_Found i)
  then show ?thesis using assms scan_line_more_bytes(1) [OF Line_Found, of b] by (auto simp: parse_trailer_part_def Let_def)
next
  case Line_More
  have "length s < j + 2" if "scan_line (\<lambda>c. False) HTTP_TRAILER_LINE_MAX 0 (s @ b) = Line_Found j" for j
    using scan_line_more_bytes(3) [OF Line_More that] by simp
  then show ?thesis using assms Line_More by (fastforce simp: parse_trailer_part_def Let_def split: line_scan.splits)
next
  case Line_Bad
  then show ?thesis using assms scan_line_more_bytes(2) [OF Line_Bad, of b] by (auto simp: parse_trailer_part_def)
qed

lemma chunk_step_more_bytes:
  assumes "chunk_offset p \<le> length m" "chunk_step m p = (ret, q)"
  shows "(ret \<noteq> 0 \<longrightarrow> chunk_step (m @ b) p = (ret, q))
     \<and> (ret = 0 \<longrightarrow> (\<forall>q'. chunk_step (m @ b) p = (1, q') \<longrightarrow> length m \<le> chunk_offset q'))"
proof -
  let ?s = "drop (chunk_offset p) m"
  have s: "drop (chunk_offset p) (m @ b) = ?s @ b" and o: "chunk_offset p + length ?s = length m" using assms(1) by simp_all
  show ?thesis
    using assms(2) chunk_data_more_bytes [of ?s p ret q b, unfolded o] trailer_more_bytes [of ?s p ret q b, unfolded o]
    unfolding chunk_step_def s Let_def by (cases "chunk_state p = CPS_CHUNK_DATA") (simp_all only: simp_thms if_True if_False True_implies_equals)
qed

lemma parse_chunk_offset: "parse_chunk m p = (ret, q) \<Longrightarrow> chunk_offset p \<le> chunk_offset q"
proof (induction m p rule: parse_chunk.induct)
  case (1 m p)
  obtain r p1 where s: "chunk_step m p = (r, p1)" by force
  from s show ?case
  proof (cases rule: chunk_step_cases)
    case 1
    then show ?thesis using "1.prems" s by (auto simp: parse_chunk.simps [of m p] split: if_splits)
  next
    case (2 o1 cs)
    then show ?thesis using "1.prems" "1.IH" [OF s [symmetric] refl] s by (auto simp: parse_chunk.simps [of m p] split: if_splits)
  qed
qed

lemma parse_chunk_more_bytes:
  assumes "chunk_offset p \<le> length m" "chunk_state p \<noteq> CPS_CHUNK_COMPLETE" "parse_chunk m p = (ret, q)"
  shows "(ret \<noteq> 0 \<longrightarrow> parse_chunk (m @ b) p = (ret, q))
     \<and> (ret = 0 \<longrightarrow> parse_chunk (m @ b) p = parse_chunk (m @ b) q
         \<and> (\<forall>q'. parse_chunk (m @ b) p = (1, q') \<longrightarrow> length m \<le> chunk_offset q'))"
  using assms
proof (induction m p rule: parse_chunk.induct)
  case (1 m p)
  obtain r p1 where s: "chunk_step m p = (r, p1)" by force
  note mb = chunk_step_more_bytes [OF "1.prems"(1) s, of b]
  from s show ?case
  proof (cases rule: chunk_step_cases)
    case stuck: 1
    then have q: "ret = r" "q = p" using "1.prems" s by (simp_all add: parse_chunk.simps [of m p])
    obtain r2 p2 where s2: "chunk_step (m @ b) p = (r2, p2)" by force
    show ?thesis
    proof (cases "r = 0")
      case True
      have "length m \<le> chunk_offset q'" if pq: "parse_chunk (m @ b) p = (1, q')" for q'
        using s2
      proof (cases rule: chunk_step_cases)
        case 1
        then show ?thesis using pq s2 "1.prems"(2) by (simp add: parse_chunk.simps [of "m @ b" p])
      next
        case (2 o1 cs)
        then have "chunk_offset p2 \<le> chunk_offset q'"
          using pq s2 parse_chunk_offset [of "m @ b" p2] by (auto simp: parse_chunk.simps [of "m @ b" p] split: if_splits)
        then show ?thesis using mb True s2 2(1) by fastforce
      qed
      then show ?thesis using q True by simp
    next
      case False
      then have "chunk_step (m @ b) p = (r, p1)" using mb by simp
      then show ?thesis using False stuck q "1.prems"(2) by (simp add: parse_chunk.simps [of "m @ b" p])
    qed
  next
    case (2 o1 cs)
    have s2: "chunk_step (m @ b) p = (r, p1)" using mb 2 by simp
    note eq = parse_chunk.simps [of m p] parse_chunk.simps [of "m @ b" p] s s2 2(1)
    show ?thesis
    proof (cases "chunk_state p1 = CPS_CHUNK_COMPLETE")
      case True
      then show ?thesis using "1.prems"(3) by (simp add: eq)
    next
      case False
      then show ?thesis using "1.IH" [OF s [symmetric] refl False] "1.prems"(3) 2 by (simp add: eq)
    qed
  qed
qed

lemma chunk_step_alike:
  assumes "alike p q"
  shows "fst (chunk_step m p) = fst (chunk_step m q) \<and> alike (snd (chunk_step m p)) (snd (chunk_step m q))"
proof -
  have u: "alike (p\<lparr>chunk_offset := x\<rparr>) (q\<lparr>chunk_offset := x\<rparr>)"
    "alike (p\<lparr>chunk_offset := x, chunk_state := y\<rparr>) (q\<lparr>chunk_offset := x, chunk_state := y\<rparr>)" for x y
    using assms by (simp_all add: alike_def)
  show ?thesis using assms u alike_fields(2,4) [OF assms]
    by (auto simp: chunk_step_def parse_chunk_data_def parse_trailer_part_def Let_def split: line_scan.split option.split)
qed

lemma parse_chunk_alike:
  "alike p q \<Longrightarrow> fst (parse_chunk m p) = fst (parse_chunk m q) \<and> alike (snd (parse_chunk m p)) (snd (parse_chunk m q))"
proof (induction m p arbitrary: q rule: parse_chunk.induct)
  case (1 m p)
  obtain r p1 q1 where s: "chunk_step m p = (r, p1)" "chunk_step m q = (r, q1)" and a: "alike p1 q1"
    using chunk_step_alike [OF "1.prems", of m] by (metis prod.collapse)
  show ?case using "1.IH" [OF s(1) [symmetric] refl _ _ a] a alike_fields(2) [OF a] s
    by (simp add: parse_chunk.simps [of m p] parse_chunk.simps [of m q])
qed

section \<open>Pieces of a message\<close>

definition agree :: "http_parser \<Rightarrow> http_parser \<Rightarrow> bool" where
  "agree p q \<longleftrightarrow> alike p q \<and> message p = message q \<and> msgsize p = msgsize q"

definition extends :: "byte list \<Rightarrow> http_parser \<Rightarrow> http_parser \<Rightarrow> bool" where
  "extends b p q \<longleftrightarrow> alike p q \<and> message q = message p @ b \<and> msgsize q = msgsize p + length b"

lemma message_cut: "all \<le> msgsize p \<Longrightarrow> message (p\<lparr>msgsize := all\<rparr>) = take all (message p)"
  by (auto simp: message_def split: option.split)

lemma alike_cut: "alike p q \<Longrightarrow> alike (p\<lparr>msgsize := x, complete := c\<rparr>) (q\<lparr>msgsize := y, complete := c\<rparr>)"
  by (simp add: alike_def)

lemma body_end_agree:
  assumes "alike p q" "all \<le> msgsize p" "msgsize q = msgsize p + d" "take all (message q) = take all (message p)"
  shows "\<exists>p' q'. body_end n all p = (1, int n - (int (msgsize p) - int all), p')
     \<and> body_end (n + d + e) all q = (1, int n - (int (msgsize p) - int all) + int e, q') \<and> agree p' q'"
  using assms by (auto simp: body_end_def agree_def alike_cut message_cut)

lemma body_step_chunked:
  assumes "transfer_length p = SIZE_MAX" "chunked p" "chunk_state p \<noteq> CPS_CHUNK_COMPLETE"
  shows "body_step n p = (case parse_chunk (message p) p of (ret, q) \<Rightarrow>
     if ret \<le> 0 then (ret, int n, q) else body_end n (chunk_offset q) q)"
  using assms by (simp add: body_step_def)

text \<open>The body with a piece \<open>b\<close> behind the message: a body that is complete or wrong stays so.\<close>

lemma body_step_extends:
  assumes ok: "parser_ok p" and hc: "header_state p = HPS_HEADER_COMPLETE" and e: "extends b p q"
    and s: "body_step n p = (ret, x, p')"
  shows "(ret < 0 \<longrightarrow> fst (body_step (n + length b + d) q) = ret)
     \<and> (ret = 1 \<longrightarrow> (\<exists>q'. body_step (n + length b + d) q = (1, x + int d, q') \<and> agree p' q'))"
proof -
  have a: "alike p q" "message q = message p @ b" "msgsize q = msgsize p + length b" using e by (auto simp: extends_def)
  note f = alike_fields [OF a(1)]
  have len: "length (message p) = msgsize p" using ok message_length by (simp add: parser_ok_def)
  show ?thesis
  proof (cases "transfer_length p = SIZE_MAX \<and> chunked p")
    case False
    let ?all = "(header_offset p + transfer_length p) mod 2 ^ 64"
    have "take ?all (message q) = take ?all (message p)" if "?all \<le> msgsize p" using that a(2) len by simp
    then show ?thesis using False s f(3,6,7) a(3) body_end_agree [OF a(1) _ a(3), of ?all n d]
      by (auto simp: body_step_def Let_def split: if_splits)
  next
    case True
    then have o: "chunk_offset p \<le> msgsize p" using ok hc by (simp add: parser_ok_def)
    show ?thesis
    proof (cases "chunk_state p = CPS_CHUNK_COMPLETE")
      case c: True
      have "take (chunk_offset p) (message q) = take (chunk_offset p) (message p)" using o a(2) len by simp
      then show ?thesis using True c s f(2,4,6,7) body_end_agree [OF a(1) o a(3), of n d] by (auto simp: body_step_def)
    next
      case False
      obtain r p1 where pc: "parse_chunk (message p) p = (r, p1)" by force
      obtain q1 where q1: "parse_chunk (message p @ b) q = (fst (parse_chunk (message p @ b) p), q1)"
        "alike (snd (parse_chunk (message p @ b) p)) q1"
        using parse_chunk_alike [OF a(1), of "message p @ b"] by (metis prod.collapse)
      have m: "r \<noteq> 0 \<Longrightarrow> parse_chunk (message p @ b) p = (r, p1)"
        using parse_chunk_more_bytes [OF _ False pc, of b] o len by simp
      obtain o1 cs where p1: "p1 = p\<lparr>chunk_offset := o1, chunk_state := cs\<rparr>" "o1 \<le> msgsize p"
        using parse_chunk_spec [OF pc _ False] o len by auto
      have bp: "body_step n p = (if r \<le> 0 then (r, int n, p1) else body_end n o1 p1)"
        using body_step_chunked [of p n] True False pc p1(1) by simp
      have bq: "body_step k q = (if r \<le> 0 then (r, int k, q1) else body_end k (chunk_offset q1) q1)" if "r \<noteq> 0" for k
        using body_step_chunked [of q k] True False m [OF that] q1(1) a(2) f(2,6,7) by simp
      show ?thesis
      proof (cases "0 < r")
        case r: True
        have cq: "chunk_offset q \<le> length (message q)" "chunk_state q \<noteq> CPS_CHUNK_COMPLETE"
          "parse_chunk (message q) q = (r, q1)"
          using o len a f(2,4) False q1(1) m r by auto
        obtain o2 cs2 where q2: "q1 = q\<lparr>chunk_offset := o2, chunk_state := cs2\<rparr>"
          using parse_chunk_spec [OF cq(3,1,2)] by blast
        have al: "alike p1 q1" "chunk_offset q1 = o1" using q1(2) m r p1(1) alike_fields(4) [of p1 q1] by auto
        have "take o1 (message q1) = take o1 (message p1)" using q2 p1 a(2) len by simp
        then show ?thesis using body_end_agree [OF al(1), of o1 "length b" n d] q2 p1 a(3) bp bq s al(2) r by auto
      next
        case False
        then show ?thesis using bp bq s by auto
      qed
    qed
  qed
qed

lemma agree_fields:
  assumes "agree p q"
  shows "message q = message p" "msgsize q = msgsize p" "alike p q"
  using assms by (auto simp: agree_def)

text \<open>The end of a body that has been parsed as chunks, on two parsers.\<close>

lemma chunks_end_agree:
  assumes p: "parse_chunk m p = (r, p1)" "message p = m" "length m = msgsize p" "chunk_offset p \<le> length m" "chunk_state p \<noteq> CPS_CHUNK_COMPLETE"
    and q: "parse_chunk m q = (r, q1)" "message q = m" "msgsize q = msgsize p" "chunk_offset q \<le> length m" "chunk_state q \<noteq> CPS_CHUNK_COMPLETE"
    and a: "alike p1 q1"
  shows "\<exists>x p' q'. (if r \<le> 0 then (r, int n, p1) else body_end n (chunk_offset p1) p1) = ((if r \<le> 0 then r else 1), x, p')
     \<and> (if r \<le> 0 then (r, int (n + d), q1) else body_end (n + d) (chunk_offset q1) q1) = ((if r \<le> 0 then r else 1), x + int d, q')
     \<and> agree p' q' \<and> (r = 1 \<longrightarrow> x = int n - (int (msgsize p) - int (chunk_offset p1)))"
proof -
  obtain o1 cs where p1: "p1 = p\<lparr>chunk_offset := o1, chunk_state := cs\<rparr>" "o1 \<le> length m"
    using parse_chunk_spec [OF p(1,4,5)] by auto
  obtain o2 cs2 where q1: "q1 = q\<lparr>chunk_offset := o2, chunk_state := cs2\<rparr>"
    using parse_chunk_spec [OF q(1,4,5)] by auto
  have "o2 = o1" using alike_fields(4) [OF a] p1 q1 by simp
  moreover have "agree p1 q1" using a p1 q1 p(2) q(2,3) by (simp add: agree_def)
  ultimately show ?thesis using body_end_agree [OF a, of o1 0 n d] p1 q1 p(2,3) q(2,3) by auto
qed

lemma parse_chunk_ret: "parse_chunk m p = (ret, q) \<Longrightarrow> ret \<le> 0 \<or> ret = 1"
proof (induction m p rule: parse_chunk.induct)
  case (1 m p)
  obtain r p1 where s: "chunk_step m p = (r, p1)" by force
  show ?case using "1.prems" "1.IH" [OF s [symmetric] refl] s
    by (auto simp: parse_chunk.simps [of m p] split: if_splits)
qed

lemma body_step_agree:
  assumes ok: "parser_ok p" and hc: "header_state p = HPS_HEADER_COMPLETE" and e: "agree p q"
  shows "\<exists>r x p' q'. body_step n p = (r, x, p') \<and> body_step (n + d) q = (r, x + int d, q') \<and> agree p' q'"
proof -
  note a = agree_fields [OF e] and f = alike_fields [OF agree_fields(3) [OF e]]
  have len: "length (message p) = msgsize p" using ok message_length by (simp add: parser_ok_def)
  show ?thesis
  proof (cases "transfer_length p = SIZE_MAX \<and> chunked p")
    case False
    let ?all = "(header_offset p + transfer_length p) mod 2 ^ 64"
    show ?thesis using False e f(3,6,7) a(1,2) body_end_agree [OF a(3), of ?all 0 n d]
      by (auto simp: body_step_def Let_def split: if_splits)
  next
    case True
    then have o: "chunk_offset p \<le> msgsize p" using ok hc by (simp add: parser_ok_def)
    show ?thesis
    proof (cases "chunk_state p = CPS_CHUNK_COMPLETE")
      case c: True
      then show ?thesis using True f(2,4,6,7) a(1,2) body_end_agree [OF a(3) o, of 0 n d] by (auto simp: body_step_def)
    next
      case False
      obtain r p1 q1 where pc: "parse_chunk (message p) p = (r, p1)" "parse_chunk (message p) q = (r, q1)" "alike p1 q1"
        using parse_chunk_alike [OF a(3), of "message p"] by (metis prod.collapse)
      show ?thesis using chunks_end_agree [OF pc(1) refl len _ False pc(2) a(1,2) _ _ pc(3), of n d]
          o len False f(2,4,6,7) True pc a(1) body_step_chunked [of p n] body_step_chunked [of q "n + d"] by auto
    qed
  qed
qed

lemma body_step_more_bytes:
  assumes ok: "parser_ok p" and hc: "header_state p = HPS_HEADER_COMPLETE" and s: "body_step n p = (0, x0, p')"
    and e: "extends b p q" "extends b p' q1"
  shows "\<exists>r x p2 q2. body_step (length b) q1 = (r, x, p2) \<and> body_step (length b + n) q = (r, x + int n, q2) \<and> agree p2 q2
     \<and> (r = 1 \<longrightarrow> 0 \<le> x)"
proof -
  have a: "alike p q" "message q = message p @ b" "msgsize q = msgsize p + length b"
    "alike p' q1" "message q1 = message p' @ b" "msgsize q1 = msgsize p' + length b"
    using e by (auto simp: extends_def)
  note f = alike_fields [OF a(1)] and f1 = alike_fields [OF a(4)]
  have len: "length (message p) = msgsize p" using ok message_length by (simp add: parser_ok_def)
  show ?thesis
  proof (cases "transfer_length p = SIZE_MAX \<and> chunked p")
    case False
    let ?all = "(header_offset p + transfer_length p) mod 2 ^ 64"
    have p': "p' = p" "transfer_length p \<noteq> SIZE_MAX \<longrightarrow> msgsize p < ?all"
      using False s by (auto simp: body_step_def body_end_def Let_def split: if_splits)
    have g: "agree q1 q" using a alike_trans [OF alike_sym [OF a(4)]] by (simp add: agree_def p'(1))
    show ?thesis using False g f(3,6,7) f1(3,6,7) p' a(3,6) body_end_agree [OF agree_fields(3) [OF g], of ?all 0 "length b" n]
      agree_fields(1,2) [OF g] by (auto simp: body_step_def Let_def split: if_splits)
  next
    case True
    then have o: "chunk_offset p \<le> msgsize p" using ok hc by (simp add: parser_ok_def)
    have nc: "chunk_state p \<noteq> CPS_CHUNK_COMPLETE" using True s by (auto simp: body_step_def body_end_def)
    have pc: "parse_chunk (message p) p = (0, p')"
      using body_step_chunked [of p n] True nc s by (auto simp: body_end_def split: prod.splits if_splits)
    obtain o1 cs where p': "p' = p\<lparr>chunk_offset := o1, chunk_state := cs\<rparr>" "o1 \<le> msgsize p" "cs \<noteq> CPS_CHUNK_COMPLETE"
      using parse_chunk_spec [OF pc _ nc] o len by auto
    let ?m = "message p @ b"
    have eq: "parse_chunk ?m p = parse_chunk ?m p'"
      and beyond: "parse_chunk ?m p = (1, r) \<Longrightarrow> length (message p) \<le> chunk_offset r" for r
      using parse_chunk_more_bytes [OF _ nc pc, of b] o len by auto
    obtain r q2 where c2: "parse_chunk ?m q = (r, q2)" "fst (parse_chunk ?m p) = r" "alike (snd (parse_chunk ?m p)) q2"
      using parse_chunk_alike [OF a(1), of ?m] by (metis prod.collapse)
    obtain p2 where c1: "parse_chunk ?m q1 = (r, p2)" "alike (snd (parse_chunk ?m p)) p2"
      using parse_chunk_alike [OF a(4), of ?m] c2(2) eq by (metis prod.collapse)
    have al: "alike p2 q2" using alike_trans [OF alike_sym [OF c1(2)] c2(3)] .
    have off: "length (message p) \<le> chunk_offset p2" if "r = 1"
      using beyond [of "snd (parse_chunk ?m p)"] that c2(2) alike_fields(4) [OF c1(2)] by (metis prod.collapse)
    have le: "length ?m = msgsize q1" "chunk_offset q1 \<le> length ?m" "chunk_offset q \<le> length ?m" "msgsize q = msgsize q1"
      "message q1 = ?m" "chunk_state q1 \<noteq> CPS_CHUNK_COMPLETE" "chunk_state q \<noteq> CPS_CHUNK_COMPLETE"
      using a p' len o f(2,4) f1(2,4) nc by auto
    have st: "body_step (length b) q1 = (if r \<le> 0 then (r, int (length b), p2) else body_end (length b) (chunk_offset p2) p2)"
      "body_step (length b + n) q = (if r \<le> 0 then (r, int (length b + n), q2) else body_end (length b + n) (chunk_offset q2) q2)"
      using body_step_chunked [of q1 "length b"] body_step_chunked [of q "length b + n"] True p'(1) f(6,7) f1(6,7) le c1 c2 a(2) by auto
    have ret: "r \<le> 0 \<or> r = 1" using parse_chunk_ret [OF c1(1)] by simp
    show ?thesis
      using chunks_end_agree [OF c1(1) le(5,1,2,6) c2(1) a(2) le(4,3,7) al, of "length b" n] st ret off a(3) le(1) len by auto
  qed
qed

definition ready :: "addr set \<Rightarrow> http_parser \<Rightarrow> heap_st \<Rightarrow> bool" where
  "ready R p h \<longleftrightarrow> parser_ok p \<and> holds h R (http_owned p) \<and> outcomes h = [] \<and> \<not> complete p \<and> msgsize p < 2 ^ 63"

lemma parse_message_header_ret:
  "parse_message_header m p h = Some (ret, q, k) \<Longrightarrow> ret \<le> 0 \<or> ret = 1"
proof (induction m p h rule: parse_message_header.induct)
  case (1 m p h)
  obtain r p1 h1 where s: "header_step m p h = Some (r, p1, h1)"
    using "1.prems" by (cases "header_step m p h") (auto simp: parse_message_header.simps [of m p h])
  show ?case using "1.prems" "1.IH" [OF s refl refl] s by (auto simp: parse_message_header.simps [of m p h] split: if_splits)
qed

lemma header_ready:
  assumes r: "ready R p h" and s: "header_state p \<noteq> HPS_HEADER_COMPLETE"
  obtains ret q k where "parse_message_header (message p) p h = Some (ret, q, k)" "outcomes k = []" "holds k R (http_owned q)"
    "message q = message p" "msgsize q = msgsize p" "complete q = complete p" "header_offset q \<le> msgsize p"
    "buf_ok q" "header_inv q" "0 < ret \<longleftrightarrow> header_state q = HPS_HEADER_COMPLETE" "ret \<le> 0 \<or> ret = 1"
proof -
  have ok: "parser_ok p" "holds h R (http_owned p)" "outcomes h = []" using r by (auto simp: ready_def)
  have inv: "header_inv p" "header_offset p \<le> length (message p)" "length (namebuf p) = HTTP_HEADER_NAME_MAX"
    using ok(1) message_length by (auto simp: parser_ok_def header_inv_def)
  obtain ret q k where q: "parse_message_header (message p) p h = Some (ret, q, k)" "safe_step R p q k"
    "header_offset q \<le> length (message p)" "0 < ret \<longleftrightarrow> header_state q = HPS_HEADER_COMPLETE"
    using parse_message_header_safe [OF inv(1) ok(2) inv(2) s] by blast
  have "outcomes k = []"
    using parse_message_header_alike [OF alike_refl ok(3,3) inv(3,3), of "message p"] q(1) by (auto simp: alike_results_def)
  then show ?thesis using that [OF q(1)] q parse_message_header_ret [OF q(1)] ok(1) message_length buf_ok_same [of q p] message_cong [of q p]
    by (auto simp: safe_step_def same_message_def parser_ok_def)
qed

lemma header_done_parser_ok:
  "buf_ok q \<Longrightarrow> header_inv q \<Longrightarrow> header_offset q \<le> msgsize q \<Longrightarrow> parser_ok (header_done q)"
  using buf_ok_same [of "header_done q" q] by (auto simp: header_done_def parser_ok_def header_inv_def)

lemma header_done_keeps [simp]:
  "message (header_done p) = message p" "msgsize (header_done p) = msgsize p" "header_state (header_done p) = header_state p"
  "header_offset (header_done p) = header_offset p" "complete (header_done p) = complete p"
  by (auto simp: header_done_def)

lemma header_done_alike: "alike p q \<Longrightarrow> alike (header_done p) (header_done q)"
  by (auto simp: header_done_def alike_def)

lemma parse_step_header:
  assumes "header_state p \<noteq> HPS_HEADER_COMPLETE" "parse_message_header (message p) p h = Some (ret, q, k)"
  shows "parse_step n p h = (if ret \<le> 0 then Some (ret, int n, q, k)
     else (case body_step n (header_done q) of (r, x, p') \<Rightarrow> Some (r, x, p', k)))"
  using assms by (simp add: parse_step_def)

lemma parse_step_body:
  assumes "header_state p = HPS_HEADER_COMPLETE"
  shows "parse_step n p h = (case body_step n p of (r, x, p') \<Rightarrow> Some (r, x, p', h))"
  using assms by (simp add: parse_step_def)

text \<open>The header with more bytes, on a parser that has them.\<close>

lemma header_extends:
  assumes rp: "ready R p h" and rq: "ready S q k" and e: "extends b p q" and s: "header_state p \<noteq> HPS_HEADER_COMPLETE"
    and ph: "parse_message_header (message p) p h = Some (ret, p1, h1)"
  obtains ret' q1 k1 where "parse_message_header (message q) q k = Some (ret', q1, k1)" "holds k1 S (http_owned q1)"
    "outcomes k1 = []" "message q1 = message q" "msgsize q1 = msgsize q" "header_offset q1 \<le> msgsize q" "buf_ok q1" "header_inv q1"
    "0 < ret' \<longleftrightarrow> header_state q1 = HPS_HEADER_COMPLETE" "ret' \<le> 0 \<or> ret' = 1"
    "ret \<noteq> 0 \<longrightarrow> ret' = ret \<and> alike p1 q1"
    "ret = 0 \<longrightarrow> alike_results (parse_message_header (message q) q k) (parse_message_header (message q) p1 h1)"
    "ret = 0 \<and> ret' = 1 \<longrightarrow> msgsize p \<le> header_offset q1"
proof -
  have a: "alike p q" "message q = message p @ b" "msgsize q = msgsize p + length b" using e by (auto simp: extends_def)
  have sq: "header_state q \<noteq> HPS_HEADER_COMPLETE" using s alike_fields(1) [OF a(1)] by simp
  have inv: "outcomes h = []" "outcomes k = []" "length (namebuf p) = HTTP_HEADER_NAME_MAX"
    "length (namebuf q) = HTTP_HEADER_NAME_MAX" "header_offset p \<le> length (message p)" "length (message p) = msgsize p"
    using rp rq message_length by (auto simp: ready_def parser_ok_def header_inv_def)
  obtain ret' q1 k1 where q: "parse_message_header (message q) q k = Some (ret', q1, k1)" "outcomes k1 = []" "holds k1 S (http_owned q1)"
    "message q1 = message q" "msgsize q1 = msgsize q" "header_offset q1 \<le> msgsize q" "buf_ok q1" "header_inv q1"
    "0 < ret' \<longleftrightarrow> header_state q1 = HPS_HEADER_COMPLETE" "ret' \<le> 0 \<or> ret' = 1"
    by (rule header_ready [OF rq sq])
  have mb: "(ret \<noteq> 0 \<longrightarrow> parse_message_header (message q) p h = Some (ret, p1, h1))
     \<and> (ret = 0 \<longrightarrow> alike_results (parse_message_header (message q) p h) (parse_message_header (message q) p1 h1)
         \<and> (\<forall>q' k'. parse_message_header (message q) p h = Some (1, q', k') \<longrightarrow> length (message p) \<le> header_offset q'))"
    unfolding a(2) by (rule parse_message_header_more_bytes [OF inv(1,3,5) s ph])
  obtain p2 h2 where p2: "parse_message_header (message q) p h = Some (ret', p2, h2)" "alike p2 q1"
    using parse_message_header_alike [OF a(1) inv(1-4), of "message q"] q(1) by (auto simp: alike_results_def)
  have al: "alike_results (parse_message_header (message q) q k) (parse_message_header (message q) p1 h1)" if "ret = 0"
    using mb that p2 q(1,2) alike_trans [OF alike_sym [OF p2(2)]] by (auto simp: alike_results_def)
  show ?thesis by (rule that [OF q(1,3,2,4-10)]) (use mb p2 al inv(6) alike_fields(3) [OF p2(2)] in auto)
qed

lemma parse_step_extends:
  assumes rp: "ready R p h" and rq: "ready S q k" and e: "extends b p q" and s: "parse_step n p h = Some (ret, x, p', h')"
  shows "(ret < 0 \<longrightarrow> (\<exists>y q' k'. parse_step (n + length b) q k = Some (ret, y, q', k')))
     \<and> (ret = 1 \<longrightarrow> (\<exists>q' k'. parse_step (n + length b) q k = Some (1, x, q', k') \<and> agree p' q'))"
proof -
  have a: "alike p q" "message q = message p @ b" "msgsize q = msgsize p + length b" using e by (auto simp: extends_def)
  have ok: "parser_ok p" using rp by (simp add: ready_def)
  show ?thesis
  proof (cases "header_state p = HPS_HEADER_COMPLETE")
    case True
    then have hq: "header_state q = HPS_HEADER_COMPLETE" using alike_fields(1) [OF a(1)] by simp
    obtain r y p1 where b: "body_step n p = (r, y, p1)" by (metis surj_pair)
    show ?thesis using body_step_extends [OF ok True e b, of 0] s b parse_step_body [OF True, of n h]
        parse_step_body [OF hq, of "n + length b" k] by (cases "body_step (n + length b) q") auto
  next
    case False
    then have sq: "header_state q \<noteq> HPS_HEADER_COMPLETE" using alike_fields(1) [OF a(1)] by simp
    obtain ret1 p1 h1 where p1: "parse_message_header (message p) p h = Some (ret1, p1, h1)"
      "message p1 = message p" "msgsize p1 = msgsize p" "header_offset p1 \<le> msgsize p" "buf_ok p1" "header_inv p1"
      "0 < ret1 \<longleftrightarrow> header_state p1 = HPS_HEADER_COMPLETE" "ret1 \<le> 0 \<or> ret1 = 1"
      by (rule header_ready [OF rp False])
    obtain ret2 q1 k1 where q1: "parse_message_header (message q) q k = Some (ret2, q1, k1)" "message q1 = message q"
      "msgsize q1 = msgsize q" "ret1 \<noteq> 0 \<longrightarrow> ret2 = ret1 \<and> alike p1 q1"
      by (rule header_extends [OF rp rq e False p1(1)])
    note steps = parse_step_header [OF False p1(1), of n] parse_step_header [OF sq q1(1), of "n + length b"]
    show ?thesis
    proof (cases "ret1 = 1")
      case True
      have okd: "parser_ok (header_done p1)" using p1 by (intro header_done_parser_ok) auto
      have ed: "extends b (header_done p1) (header_done q1)"
        using q1 True header_done_alike p1(2,3) a by (simp add: extends_def)
      obtain r y p2 where b: "body_step n (header_done p1) = (r, y, p2)" by (metis surj_pair)
      have hs: "header_state (header_done p1) = HPS_HEADER_COMPLETE" using p1(7) True by simp
      show ?thesis using body_step_extends [OF okd hs ed b, of 0] s b steps True q1(4)
        by (cases "body_step (n + length b) (header_done q1)") auto
    next
      case no: False
      then show ?thesis using s steps q1(4) p1(8) by auto
    qed
  qed
qed

text \<open>What a piece leads to after another one that was not the last.\<close>

definition same_end :: "nat \<Rightarrow> (int \<times> int \<times> http_parser \<times> heap_st) option \<Rightarrow> (int \<times> int \<times> http_parser \<times> heap_st) option \<Rightarrow> bool" where
  "same_end n r s \<longleftrightarrow> (\<exists>ret x p h q k. r = Some (ret, x, p, h) \<and> s = Some (ret, x + int n, q, k) \<and> agree p q \<and> (ret = 1 \<longrightarrow> 0 \<le> x))"

lemma same_end_body:
  assumes "\<exists>r x p2 q2. body_step m q1 = (r, x, p2) \<and> body_step (m + n) q = (r, x + int n, q2) \<and> agree p2 q2 \<and> (r = 1 \<longrightarrow> 0 \<le> x)"
  shows "same_end n (case body_step m q1 of (r, x, p') \<Rightarrow> Some (r, x, p', h)) (case body_step (m + n) q of (r, x, p') \<Rightarrow> Some (r, x, p', k))"
  using assms by (fastforce simp: same_end_def)

lemma body_step_1:
  assumes "body_step n p = (1, x, p')" "parser_ok p" "header_state p = HPS_HEADER_COMPLETE"
  shows "x = int n - (int (msgsize p) - int (msgsize p')) \<and> header_offset p' = header_offset p
     \<and> message p' = take (msgsize p') (message p) \<and> msgsize p' \<le> msgsize p"
proof -
  have e: "x = int n - (int (msgsize p) - int (msgsize p')) \<and> header_offset p' = header_offset p \<and> message p' = take (msgsize p') (message p)
     \<and> msgsize p' \<le> msgsize p"
    if "body_end n all q = (1, x, p')" "all \<le> msgsize p" "msgsize q = msgsize p" "header_offset q = header_offset p" "message q = message p" for all q
    using that by (auto simp: body_end_def message_cut)
  have len: "length (message p) = msgsize p" using assms(2) message_length by (simp add: parser_ok_def)
  show ?thesis
  proof (cases "transfer_length p = SIZE_MAX \<and> chunked p")
    case False
    let ?all = "(header_offset p + transfer_length p) mod 2 ^ 64"
    have "?all \<le> msgsize p" "body_end n ?all p = (1, x, p')"
      using False assms(1) by (auto simp: body_step_def Let_def split: if_splits)
    then show ?thesis using e [of ?all p] by blast
  next
    case True
    then have o: "chunk_offset p \<le> msgsize p" using assms by (simp add: parser_ok_def)
    show ?thesis
    proof (cases "chunk_state p = CPS_CHUNK_COMPLETE")
      case c: True
      then show ?thesis using assms(1) True e [of "chunk_offset p" p] o by (simp add: body_step_def)
    next
      case False
      obtain r q where pc: "parse_chunk (message p) p = (r, q)" by force
      obtain o1 cs where q: "q = p\<lparr>chunk_offset := o1, chunk_state := cs\<rparr>" "o1 \<le> msgsize p"
        using parse_chunk_spec [OF pc _ False] o len by auto
      show ?thesis using assms(1) body_step_chunked [of p n] True False pc e [of o1 q] q by (auto split: if_splits)
    qed
  qed
qed

lemma body_step_consumed:
  assumes "body_step n p = (1, x, p')" "parser_ok p" "header_state p = HPS_HEADER_COMPLETE" "msgsize p < 2 ^ 63"
    "msgsize p \<le> header_offset p + n"
  shows "0 \<le> x"
proof -
  have "parser_ok p'" using body_step_safe [OF assms(2,4,1,3)] by simp
  then have "header_offset p' \<le> msgsize p'" by (simp add: parser_ok_def)
  then show ?thesis using body_step_1 [OF assms(1-3)] assms(5) by linarith
qed

text \<open>A header that is parsed again with more bytes, on the parser that was left.\<close>

lemma header_again:
  assumes r1: "ready T q1 k1" and s1: "header_state q1 \<noteq> HPS_HEADER_COMPLETE" and m: "message q1 = message q2" "msgsize q1 = msgsize q2"
    and al: "alike_results (Some (ret, q2, k2)) (parse_message_header (message q1) q1 k1)"
    and ok: "buf_ok q2" "header_inv q2" "header_offset q2 \<le> msgsize q2" "0 < ret \<longleftrightarrow> header_state q2 = HPS_HEADER_COMPLETE"
    and beyond: "ret = 1 \<longrightarrow> msgsize q2 \<le> header_offset q2 + m" "ret \<le> 0 \<or> ret = 1"
  shows "same_end n (parse_step m q1 k1) (if ret \<le> 0 then Some (ret, int (m + n), q2, k2)
     else (case body_step (m + n) (header_done q2) of (r, x, p') \<Rightarrow> Some (r, x, p', k2)))"
proof -
  obtain q3 k3 where q3: "parse_message_header (message q1) q1 k1 = Some (ret, q3, k3)" "message q3 = message q1" "msgsize q3 = msgsize q1"
    "alike q2 q3" "header_offset q3 \<le> msgsize q1" "buf_ok q3" "header_inv q3"
  proof (rule header_ready [OF r1 s1])
    fix r q k
    assume h: "parse_message_header (message q1) q1 k1 = Some (r, q, k)" "message q = message q1" "msgsize q = msgsize q1"
      "header_offset q \<le> msgsize q1" "buf_ok q" "header_inv q"
    have "r = ret" "alike q2 q" using al h(1) by (auto simp: alike_results_def)
    then show ?thesis using that h by blast
  qed
  note step = parse_step_header [OF s1 q3(1), of m]
  have ag: "agree q3 q2" using q3 m alike_sym by (simp add: agree_def)
  show ?thesis
  proof (cases "ret \<le> 0")
    case True
    then show ?thesis using step ag by (auto simp: same_end_def)
  next
    case False
    have okd: "parser_ok (header_done q3)" "msgsize q3 < 2 ^ 63" "header_state (header_done q3) = HPS_HEADER_COMPLETE"
      using q3 r1 ok(4) False alike_fields(1) [OF q3(4)] by (auto intro!: header_done_parser_ok simp: ready_def)
    have agd: "agree (header_done q3) (header_done q2)" using ag header_done_alike by (simp add: agree_def)
    have "0 \<le> x" if "body_step m (header_done q3) = (1, x, p')" for x p'
      by (rule body_step_consumed [OF that okd(1,3)])
        (use okd(2) beyond False alike_fields(3) [OF q3(4)] m q3(3) in simp_all)
    then have "same_end n (case body_step m (header_done q3) of (r, x, p') \<Rightarrow> Some (r, x, p', k3))
       (case body_step (m + n) (header_done q2) of (r, x, p') \<Rightarrow> Some (r, x, p', k2))"
      by (intro same_end_body) (use body_step_agree [OF okd(1,3) agd, of m n] in blast)
    then show ?thesis using step False by simp
  qed
qed

lemma parse_step_more_bytes:
  assumes rp: "ready R p h" and rq: "ready S q k" and r1: "ready T q1 k1" and e: "extends b p q" "extends b p' q1"
    and s: "parse_step n p h = Some (0, x0, p', h')"
  shows "same_end n (parse_step (length b) q1 k1) (parse_step (length b + n) q k)"
proof -
  have a: "alike p q" "message q = message p @ b" "msgsize q = msgsize p + length b" "alike p' q1" "message q1 = message p' @ b"
    "msgsize q1 = msgsize p' + length b"
    using e by (auto simp: extends_def)
  have ok: "parser_ok p" "msgsize p < 2 ^ 63" "msgsize q < 2 ^ 63" "msgsize q1 < 2 ^ 63" using rp rq r1 by (auto simp: ready_def)
  have body: ?thesis if "body_step n p2 = (0, x0, p')" "parser_ok p2" "msgsize p2 = msgsize p" "header_state p2 = HPS_HEADER_COMPLETE"
    "extends b p2 q2" "parse_step (length b + n) q k = (case body_step (length b + n) q2 of (r, x, p') \<Rightarrow> Some (r, x, p', k2))" for p2 q2 k2
  proof -
    have "header_state p' = HPS_HEADER_COMPLETE" using body_step_safe [OF that(2) _ that(1)] that(3,4) ok(2) by simp
    then have "header_state q1 = HPS_HEADER_COMPLETE" using alike_fields(1) [OF a(4)] by simp
    then show ?thesis using same_end_body [OF body_step_more_bytes [OF that(2,4,1,5) e(2)]] parse_step_body that(6) by simp
  qed
  show ?thesis
  proof (cases "header_state p = HPS_HEADER_COMPLETE")
    case True
    then have "body_step n p = (0, x0, p')" "header_state q = HPS_HEADER_COMPLETE"
      using s parse_step_body [OF True, of n h] alike_fields(1) [OF a(1)] by (auto split: prod.splits)
    then show ?thesis using body [OF _ ok(1) refl True e(1)] parse_step_body by simp
  next
    case False
    then have sq: "header_state q \<noteq> HPS_HEADER_COMPLETE" using alike_fields(1) [OF a(1)] by simp
    obtain ret1 p1 h1 where p1: "parse_message_header (message p) p h = Some (ret1, p1, h1)"
      "message p1 = message p" "msgsize p1 = msgsize p" "header_offset p1 \<le> msgsize p" "buf_ok p1" "header_inv p1"
      "0 < ret1 \<longleftrightarrow> header_state p1 = HPS_HEADER_COMPLETE" "ret1 \<le> 0 \<or> ret1 = 1" "outcomes h1 = []"
      by (rule header_ready [OF rp False])
    obtain ret2 q2 k2 where q2: "parse_message_header (message q) q k = Some (ret2, q2, k2)" "message q2 = message q" "header_inv q2"
      "msgsize q2 = msgsize q" "ret1 \<noteq> 0 \<longrightarrow> ret2 = ret1 \<and> alike p1 q2" "ret2 \<le> 0 \<or> ret2 = 1" "buf_ok q2" "header_offset q2 \<le> msgsize q"
      "ret1 = 0 \<longrightarrow> alike_results (parse_message_header (message q) q k) (parse_message_header (message q) p1 h1)"
      "ret1 = 0 \<and> ret2 = 1 \<longrightarrow> msgsize p \<le> header_offset q2" "0 < ret2 \<longleftrightarrow> header_state q2 = HPS_HEADER_COMPLETE"
      by (rule header_extends [OF rp rq e(1) False p1(1)])
    note steps = parse_step_header [OF False p1(1), of n] parse_step_header [OF sq q2(1), of "length b + n"]
    show ?thesis
    proof (cases "ret1 = 1")
      case True
      have okd: "parser_ok (header_done p1)" using p1 by (intro header_done_parser_ok) auto
      have ed: "extends b (header_done p1) (header_done q2)"
        using q2 True header_done_alike p1(2,3) a by (simp add: extends_def)
      have bs: "body_step n (header_done p1) = (0, x0, p')" using s steps(1) True by (auto split: prod.splits)
      show ?thesis using body [OF bs okd _ _ ed] p1(3,7) True steps(2) q2(5) by simp
    next
      case no: False
      then have p': "ret1 = 0" "p' = p1" "h' = h1" using s steps(1) p1(8) by (auto split: if_splits)
      have nb: "length (namebuf p1) = HTTP_HEADER_NAME_MAX" "length (namebuf q1) = HTTP_HEADER_NAME_MAX" "outcomes k1 = []"
        using p1(6) r1 by (auto simp: header_inv_def ready_def parser_ok_def)
      have m: "message q1 = message q" "msgsize q1 = msgsize q" using a p' p1(2,3) by simp_all
      have al: "alike_results (Some (ret2, q2, k2)) (parse_message_header (message q1) q1 k1)"
        using q2(1,9) p'(1) parse_message_header_alike [OF a(4) [unfolded p'(2)] p1(9) nb(3,1,2), of "message q"] m(1)
        by (auto simp: alike_results_def intro: alike_trans)
      have "header_state q1 \<noteq> HPS_HEADER_COMPLETE" using p'(1,2) p1(7) alike_fields(1) [OF a(4)] by simp
      from header_again [OF r1 this _ _ al q2(7,3)] show ?thesis using q2 p'(1) a(3) m steps(2) by simp
    qed
  qed
qed

lemma append_stored:
  assumes r: "ready R p h" and m: "msgsize p + length a < 2 ^ 63"
  obtains p1 h1 where "http_parser_append_message a p h = parse_step (length a) p1 h1" "extends a p p1" "ready R p1 h1"
proof -
  have ok: "parser_ok p" "holds h R (http_owned p)" "outcomes h = []" "\<not> complete p" "buf_ok p"
    using r by (auto simp: ready_def parser_ok_def)
  from ok(5,2) show ?thesis
  proof (cases rule: reserve_cases [where n = "length a"])
    case (1 h')
    then show ?thesis using ok(3) by simp
  next
    case (2 x b k h1)
    let ?p = "p\<lparr>msgbuf := Some (x, take (msgsize p) b @ a), msgsize := msgsize p + length a, bufsize := k\<rparr>"
    have s: "store_piece a (p\<lparr>msgbuf := Some (x, b), bufsize := k\<rparr>) = Some ?p" by (rule store_piece_ok [OF 2(3-5)])
    have "buf_ok ?p" using 2(3-5) by (simp add: buf_ok_def)
    then have okp: "parser_ok ?p" using ok(1) by (auto simp: parser_ok_def header_inv_def lines_ok_def)
    have "http_owned ?p = http_owned (p\<lparr>msgbuf := Some (x, b), bufsize := k\<rparr>)"
      by (simp add: http_owned_def fields_owned_def str_owned_def)
    then have "ready R ?p h1" using 2 okp m ok(3,4) by (simp add: ready_def)
    moreover have "http_parser_append_message a p h = parse_step (length a) ?p h1"
      using ok(4) 2(1) s by (simp add: http_parser_append_message_def)
    moreover have "message ?p = take (msgsize p) b @ a" using 2(4) by (simp add: message_def)
    then have "extends a p ?p" using 2(6) by (simp add: extends_def alike_def)
    ultimately show ?thesis using that by blast
  qed
qed

lemma parse_step_ready:
  assumes "ready R p h" "parse_step n p h = Some (0, x, p', h')"
  shows "ready R p' h' \<and> x = int n \<and> message p' = message p \<and> msgsize p' = msgsize p"
proof -
  have ok: "parser_ok p" "holds h R (http_owned p)" "outcomes h = []" "\<not> complete p" "msgsize p < 2 ^ 63"
    using assms(1) by (auto simp: ready_def)
  have b: "x = int n \<and> message p' = message q \<and> msgsize p' = msgsize q"
    if "body_step n q = (0, x, p')" "parser_ok q" "header_state q = HPS_HEADER_COMPLETE" for q
  proof -
    have len: "length (message q) = msgsize q" using that(2) message_length by (simp add: parser_ok_def)
    obtain r q1 where pc: "parse_chunk (message q) q = (r, q1)" by force
    have "message q1 = message q \<and> msgsize q1 = msgsize q"
      if "chunk_state q \<noteq> CPS_CHUNK_COMPLETE" "transfer_length q = SIZE_MAX" "chunked q"
    proof -
      have "chunk_offset q \<le> length (message q)"
        using len that \<open>parser_ok q\<close> \<open>header_state q = HPS_HEADER_COMPLETE\<close> by (simp add: parser_ok_def)
      then show ?thesis using parse_chunk_spec [OF pc _ that(1)] by auto
    qed
    then show ?thesis using that(1) pc by (auto simp: body_step_def body_end_def Let_def split: if_splits)
  qed
  have out: "outcomes h' = [] \<and> x = int n \<and> message p' = message p \<and> msgsize p' = msgsize p"
  proof (cases "header_state p = HPS_HEADER_COMPLETE")
    case True
    then show ?thesis using assms(2) parse_step_body [OF True, of n h] b [OF _ ok(1) True] ok(3) by (auto split: prod.splits)
  next
    case False
    show ?thesis
    proof (rule header_ready [OF assms(1) False])
      fix ret q k
      assume q: "parse_message_header (message p) p h = Some (ret, q, k)" "outcomes k = []" "message q = message p" "msgsize q = msgsize p"
        "header_offset q \<le> msgsize p" "buf_ok q" "header_inv q" "0 < ret \<longleftrightarrow> header_state q = HPS_HEADER_COMPLETE"
      have "parser_ok (header_done q)" using q by (intro header_done_parser_ok) auto
      then show ?thesis using assms(2) parse_step_header [OF False q(1), of n] b [of "header_done q"] q
        by (auto split: prod.splits if_splits)
    qed
  qed
  have "parser_ok p' \<and> holds h' R (http_owned p') \<and> \<not> complete p'"
    using parse_step_safe [OF ok(1,2,5,4), of n] assms(2) by auto
  then show ?thesis using out ok(5) by (simp add: ready_def)
qed

text \<open>The pieces of a message, one call each, until a call returns something else than 0; the second
  result is the number of bytes consumed by all calls.\<close>

fun append_pieces :: "byte list list \<Rightarrow> http_parser \<Rightarrow> heap_st \<Rightarrow> (int \<times> int \<times> http_parser \<times> heap_st) option" where
  "append_pieces [] p h = Some (0, 0, p, h)"
| "append_pieces (a # as) p h =
     (case http_parser_append_message a p h of
        None \<Rightarrow> None
      | Some (ret, n, p, h) \<Rightarrow>
          if ret \<noteq> 0 then Some (ret, n, p, h)
          else (case append_pieces as p h of
                  None \<Rightarrow> None
                | Some (ret, n', p, h) \<Rightarrow> Some (ret, n + n', p, h)))"

definition same_parse :: "(int \<times> int \<times> http_parser \<times> heap_st) option \<Rightarrow> (int \<times> int \<times> http_parser \<times> heap_st) option \<Rightarrow> bool" where
  "same_parse r s \<longleftrightarrow> (\<exists>ret x p h y q k. r = Some (ret, x, p, h) \<and> s = Some (ret, y, q, k) \<and> (0 \<le> ret \<longrightarrow> x = y \<and> agree p q))"

lemma append_extends:
  assumes r: "ready R p h" and m: "msgsize p + length a + length b < 2 ^ 63"
    and s: "http_parser_append_message a p h = Some (ret, x, p', h')" "ret < 0 \<or> ret = 1"
  shows "same_parse (Some (ret, x, p', h')) (http_parser_append_message (a @ b) p h)"
proof -
  obtain p1 h1 where p1: "http_parser_append_message a p h = parse_step (length a) p1 h1" "extends a p p1" "ready R p1 h1"
    by (rule append_stored [OF r, of a]) (use m in simp)
  obtain q k where q: "http_parser_append_message (a @ b) p h = parse_step (length (a @ b)) q k" "extends (a @ b) p q" "ready R q k"
    by (rule append_stored [OF r, of "a @ b"]) (use m in simp)
  have e: "extends b p1 q" using p1(2) q(2) alike_trans [OF alike_sym] by (auto simp: extends_def)
  show ?thesis using parse_step_extends [OF p1(3) q(3) e, of "length a"] s p1(1) q(1) by (auto simp: same_parse_def)
qed

lemma append_two_pieces:
  assumes r: "ready R p h" and m: "msgsize p + length a + length b < 2 ^ 63"
    and s: "http_parser_append_message a p h = Some (0, x, p', h')"
  shows "ready R p' h' \<and> msgsize p' = msgsize p + length a \<and> x = int (length a) \<and>
     same_end (length a) (http_parser_append_message b p' h') (http_parser_append_message (a @ b) p h)"
proof -
  obtain p1 h1 where p1: "http_parser_append_message a p h = parse_step (length a) p1 h1" "extends a p p1" "ready R p1 h1"
    by (rule append_stored [OF r, of a]) (use m in simp)
  have ps: "parse_step (length a) p1 h1 = Some (0, x, p', h')" using p1(1) s by simp
  note p' = parse_step_ready [OF p1(3) ps]
  obtain q k where q: "http_parser_append_message (a @ b) p h = parse_step (length (a @ b)) q k" "extends (a @ b) p q" "ready R q k"
    by (rule append_stored [OF r, of "a @ b"]) (use m in simp)
  have m': "msgsize p' + length b < 2 ^ 63" using p' p1(2) m by (simp add: extends_def)
  obtain q1 k1 where q1: "http_parser_append_message b p' h' = parse_step (length b) q1 k1" "extends b p' q1" "ready R q1 k1"
    by (rule append_stored [of R p' h' b]) (use p' m' in auto)
  have e: "extends b p1 q" using p1(2) q(2) alike_trans [OF alike_sym] by (auto simp: extends_def)
  show ?thesis using parse_step_more_bytes [OF p1(3) q(3) q1(3) e q1(2) ps] p' p1(2) q(1) q1(1)
    by (simp add: extends_def add.commute)
qed

lemma body_step_ret: "body_step n p = (ret, x, p') \<Longrightarrow> ret \<le> 0 \<or> ret = 1"
  by (auto simp: body_step_def body_end_def Let_def split: if_splits prod.splits)

lemma append_returns:
  assumes r: "ready R p h" and m: "msgsize p + length a < 2 ^ 63"
  obtains ret x p' h' where "http_parser_append_message a p h = Some (ret, x, p', h')" "ret < 0 \<or> ret = 0 \<or> ret = 1"
proof -
  obtain p1 h1 where p1: "http_parser_append_message a p h = parse_step (length a) p1 h1" "ready R p1 h1"
    by (rule append_stored [OF r m])
  then have "parser_ok p1" "holds h1 R (http_owned p1)" "msgsize p1 < 2 ^ 63" "\<not> complete p1" by (auto simp: ready_def)
  then obtain ret x p' h' where s: "parse_step (length a) p1 h1 = Some (ret, x, p', h')"
    using parse_step_safe by blast
  have "ret \<le> 0 \<or> ret = 1"
    using s body_step_ret by (auto simp: parse_step_def split: if_splits Option.bind_splits prod.splits)
  then show ?thesis using that p1(1) s by (cases "ret = 0") auto
qed

lemma agree_refl [simp]: "agree p p"
  by (simp add: agree_def)

lemma agree_trans: "agree p q \<Longrightarrow> agree q r \<Longrightarrow> agree p r"
  using alike_trans by (auto simp: agree_def)

lemma append_pieces_whole:
  assumes "ready R p h" "msgsize p + length (concat (a # as)) < 2 ^ 63"
  shows "same_parse (append_pieces (a # as) p h) (http_parser_append_message (concat (a # as)) p h)"
  using assms
proof (induction as arbitrary: a p h)
  case Nil
  then obtain ret x p' h' where "http_parser_append_message a p h = Some (ret, x, p', h')"
    using append_returns [OF Nil(1), of a] by force
  then show ?case by (simp add: same_parse_def)
next
  case (Cons b bs)
  let ?b = "concat (b # bs)"
  have m: "msgsize p + length a < 2 ^ 63" "msgsize p + length a + length ?b < 2 ^ 63" using Cons.prems(2) by auto
  obtain ret x p' h' where s: "http_parser_append_message a p h = Some (ret, x, p', h')" "ret < 0 \<or> ret = 0 \<or> ret = 1"
    by (rule append_returns [OF Cons.prems(1) m(1)])
  show ?case
  proof (cases "ret = 0")
    case False
    have "same_parse (Some (ret, x, p', h')) (http_parser_append_message (a @ ?b) p h)"
      by (rule append_extends [OF Cons.prems(1) m(2) s(1)]) (use s(2) False in simp)
    then show ?thesis using s(1) False by simp
  next
    case True
    have t: "ready R p' h'" "msgsize p' = msgsize p + length a" "x = int (length a)"
      "same_end (length a) (http_parser_append_message ?b p' h') (http_parser_append_message (a @ ?b) p h)"
      using append_two_pieces [OF Cons.prems(1) m(2), of x p' h'] s(1) True by blast+
    have ih: "same_parse (append_pieces (b # bs) p' h') (http_parser_append_message ?b p' h')"
      by (rule Cons.IH [OF t(1)]) (use t(2) m(2) in simp)
    obtain r y q k where w: "http_parser_append_message ?b p' h' = Some (r, y, q, k)"
      and v: "\<exists>q2 k2. http_parser_append_message (a @ ?b) p h = Some (r, y + int (length a), q2, k2) \<and> agree q q2"
      using t(4) unfolding same_end_def by blast
    obtain z q3 k3 where u: "append_pieces (b # bs) p' h' = Some (r, z, q3, k3)" "0 \<le> r \<longrightarrow> z = y \<and> agree q3 q"
      using ih w unfolding same_parse_def by auto
    have "append_pieces (a # b # bs) p h = Some (r, int (length a) + z, q3, k3)"
      using s(1) True u(1) t(3) by (simp del: append_pieces.simps(2) add: append_pieces.simps(2) [of a])
    then show ?thesis using v u(2) by (auto simp: same_parse_def intro: agree_trans)
  qed
qed

text \<open>C9: How a message is cut into pieces does not matter. Appending the pieces one after the other until
  a call returns something else than 0, and appending all of them in one call, return the same code;
  when this is no error, the number of bytes consumed over all calls is the same, and the two parsers hold the
  same start line, header lines in the same order, flags, lengths and body, with the same bytes left
  over. This holds for any pieces, also empty ones, cuts inside CR LF, header names, folded values,
  chunk sizes or trailers, and pieces that go beyond the end of the message. No allocation fails
  here; the message is shorter than \<open>2 ^ 63\<close> bytes, as every object in memory.\<close>

theorem http_pieces_irrelevant:
  assumes "parser_ok p" "holds h R (http_owned p)" "outcomes h = []" "\<not> complete p"
    and "msgsize p + length (concat (a # as)) < 2 ^ 63"
  shows "\<exists>ret x y p' h' q k. append_pieces (a # as) p h = Some (ret, x, p', h')
     \<and> http_parser_append_message (concat (a # as)) p h = Some (ret, y, q, k)
     \<and> (0 \<le> ret \<longrightarrow> x = y \<and> alike p' q \<and> message p' = message q \<and> msgsize p' = msgsize q)"
proof -
  have "ready R p h" using assms by (simp add: ready_def)
  from append_pieces_whole [OF this assms(5)] show ?thesis unfolding same_parse_def agree_def by blast
qed

theorem http_pieces_irrelevant_witness:
  "\<exists>ret x y p' h' q k. append_pieces [''GET / HT'', ''TP/1.1'' @ [CR], [LF] @ ''Host: a'' @ [CR, LF, CR, LF]]
        (http_parser_init False blank_parser) (empty_heap []) = Some (ret, x, p', h')
     \<and> http_parser_append_message (''GET / HTTP/1.1'' @ [CR, LF] @ ''Host: a'' @ [CR, LF, CR, LF])
        (http_parser_init False blank_parser) (empty_heap []) = Some (ret, y, q, k)
     \<and> (0 \<le> ret \<longrightarrow> x = y \<and> alike p' q \<and> message p' = message q \<and> msgsize p' = msgsize q)"
proof -
  let ?p = "http_parser_init False blank_parser"
  have "parser_ok ?p" by (rule parser_ok_init) (simp add: blank_parser_def HTTP_HEADER_NAME_MAX_def)
  moreover have "msgsize ?p = 0" "\<not> complete ?p" "outcomes (empty_heap []) = []" by (simp_all add: http_parser_init_def empty_heap_def)
  ultimately show ?thesis
    using http_pieces_irrelevant [of ?p "empty_heap []" "{}" "''GET / HT''"
        "[''TP/1.1'' @ [CR], [LF] @ ''Host: a'' @ [CR, LF, CR, LF]]"] by simp
qed

end
