(* ===== verification/Crc32c.thy ===== *)
theory Crc32c
  imports C_Prelude
begin

unbundle bit_operations_syntax

text \<open>
  CRC-32C, \<open>src/src/util/crc32c.c\<close>: the table-driven software version, which takes eight bytes at a
  time, the version that uses the processor's \<open>crc32\<close> instructions on three streams at once, and the
  tables of both. They are compared with the definition of the checksum, one bit at a time.

  Words keep their width: \<open>uint32_t\<close> is \<open>32 word\<close> and \<open>uint64_t\<close> is \<open>64 word\<close>. A buffer is the list of its
  bytes together with its address, on which only the alignment depends. The \<open>crc32\<close> instructions
  are parameters.
\<close>

section \<open>The tables of the software version\<close>

definition POLY :: "'a::len word" where
  "POLY = 0x82f63b78"

text \<open>\<open>crc & 1 ? (crc >> 1) ^ POLY : crc >> 1\<close>\<close>

definition crc_shift :: "'a::len word \<Rightarrow> 'a word" where
  "crc_shift crc = (if crc AND 1 \<noteq> 0 then drop_bit 1 crc XOR POLY else drop_bit 1 crc)"

type_synonym crc_table = "32 word list list"

definition table_get :: "crc_table \<Rightarrow> nat \<Rightarrow> 'a::len word \<Rightarrow> 32 word" where
  "table_get t k n = t ! k ! unat n"

definition table_set :: "nat \<Rightarrow> nat \<Rightarrow> 32 word \<Rightarrow> crc_table \<Rightarrow> crc_table" where
  "table_set k n crc t = t[k := (t ! k)[n := crc]]"

definition init_first :: "nat \<Rightarrow> crc_table \<Rightarrow> crc_table" where
  "init_first n t = table_set 0 n ((crc_shift ^^ 8) (word_of_nat n)) t"

definition init_next :: "nat \<Rightarrow> nat \<Rightarrow> 32 word \<times> crc_table \<Rightarrow> 32 word \<times> crc_table" where
  "init_next n k = (\<lambda>(crc, t).
     let crc = table_get t 0 (crc AND 0xff) XOR drop_bit 8 crc in (crc, table_set k n crc t))"

definition init_column :: "nat \<Rightarrow> crc_table \<Rightarrow> crc_table" where
  "init_column n t = snd (fold (init_next n) [1..<8] (t ! 0 ! n, t))"

definition crc32c_init_sw :: "crc_table \<Rightarrow> crc_table" where
  "crc32c_init_sw t = fold init_column [0..<256] (fold init_first [0..<256] t)"

section \<open>The software version\<close>

definition sw_byte :: "crc_table \<Rightarrow> 64 word \<Rightarrow> 8 word \<Rightarrow> 64 word" where
  "sw_byte t crc b = ucast (table_get t 0 ((crc XOR ucast b) AND 0xff)) XOR drop_bit 8 crc"

text \<open>The bytes up to an address that is a multiple of 8.\<close>

fun sw_align :: "crc_table \<Rightarrow> nat \<Rightarrow> 8 word list \<Rightarrow> 64 word \<Rightarrow> 64 word \<times> 8 word list" where
  "sw_align t next [] crc = (crc, [])"
| "sw_align t next (b # buf) crc =
     (if next mod 8 \<noteq> 0 then sw_align t (Suc next) buf (sw_byte t crc b) else (crc, b # buf))"

text \<open>\<open>le64toh\<close> of eight bytes, or the number that any other bytes form.\<close>

fun le_word :: "8 word list \<Rightarrow> 'a::len word" where
  "le_word [] = 0"
| "le_word (b # bs) = ucast b OR push_bit 8 (le_word bs)"

definition sw_word :: "crc_table \<Rightarrow> 64 word \<Rightarrow> 64 word \<Rightarrow> 64 word" where
  "sw_word t crc ncopy =
     (let crc = crc XOR ncopy
      in ucast (table_get t 7 (crc AND 0xff) XOR
                table_get t 6 (drop_bit 8 crc AND 0xff) XOR
                table_get t 5 (drop_bit 16 crc AND 0xff) XOR
                table_get t 4 (drop_bit 24 crc AND 0xff) XOR
                table_get t 3 (drop_bit 32 crc AND 0xff) XOR
                table_get t 2 (drop_bit 40 crc AND 0xff) XOR
                table_get t 1 (drop_bit 48 crc AND 0xff) XOR
                table_get t 0 (drop_bit 56 crc)))"

function sw_words :: "crc_table \<Rightarrow> 8 word list \<Rightarrow> 64 word \<Rightarrow> 64 word \<times> 8 word list" where
  "sw_words t buf crc =
     (if 8 \<le> length buf then sw_words t (drop 8 buf) (sw_word t crc (le_word (take 8 buf))) else (crc, buf))"
  by pat_completeness auto
termination
  by (relation "measure (\<lambda>(t, buf, crc). length buf)") auto

declare sw_words.simps [simp del]

definition crc32c_sw :: "crc_table \<Rightarrow> 32 word \<Rightarrow> nat \<Rightarrow> 8 word list \<Rightarrow> 32 word" where
  "crc32c_sw t crci next buf =
     (let crc = ucast (crci XOR 0xffffffff);
          (crc, buf) = sw_align t next buf crc;
          (crc, buf) = sw_words t buf crc;
          crc = foldl (sw_byte t) crc buf
      in ucast crc XOR 0xffffffff)"

section \<open>The tables of the hardware version\<close>

text \<open>The product of a matrix over GF(2) and a vector; \<open>None\<close> is a read beyond the rows of the matrix.\<close>

fun matrix_times_from :: "32 word \<Rightarrow> 32 word list \<Rightarrow> 32 word \<Rightarrow> 32 word option" where
  "matrix_times_from acc [] vec = (if vec = 0 then Some acc else None)"
| "matrix_times_from acc (row # mat) vec =
     (if vec = 0 then Some acc
      else matrix_times_from (if vec AND 1 \<noteq> 0 then acc XOR row else acc) mat (drop_bit 1 vec))"

definition gf2_matrix_times :: "32 word list \<Rightarrow> 32 word \<Rightarrow> 32 word option" where
  "gf2_matrix_times mat vec = matrix_times_from 0 mat vec"

definition gf2_matrix_square :: "32 word list \<Rightarrow> 32 word list option" where
  "gf2_matrix_square mat = those (map (\<lambda>n. gf2_matrix_times mat (mat ! n)) [0..<32])"

text \<open>The operator for one zero bit.\<close>

definition zero_bit_op :: "32 word list" where
  "zero_bit_op = POLY # map (\<lambda>n. push_bit n 1) [0..<31]"

text \<open>The loop: \<open>op1\<close> (\<open>odd\<close> in the source) holds the operator of four zero bits, or of four times a power of four.\<close>

function zeros_op_loop :: "32 word list \<Rightarrow> nat \<Rightarrow> 32 word list option" where
  "zeros_op_loop op1 len =
     (case gf2_matrix_square op1 of
        None \<Rightarrow> None
      | Some op0 \<Rightarrow>
          let len = len div 2
          in if len = 0 then Some op0
             else case gf2_matrix_square op0 of
                    None \<Rightarrow> None
                  | Some op1 \<Rightarrow> let len = len div 2 in if len \<noteq> 0 then zeros_op_loop op1 len else Some op1)"
  by pat_completeness auto
termination
  by (relation "measure snd") auto

declare zeros_op_loop.simps [simp del]

definition crc32c_zeros_op :: "nat \<Rightarrow> 32 word list option" where
  "crc32c_zeros_op len =
     (case gf2_matrix_square zero_bit_op of
        None \<Rightarrow> None
      | Some op0 \<Rightarrow> (case gf2_matrix_square op0 of None \<Rightarrow> None | Some op1 \<Rightarrow> zeros_op_loop op1 len))"

definition crc32c_zeros :: "nat \<Rightarrow> crc_table option" where
  "crc32c_zeros len =
     (case crc32c_zeros_op len of
        None \<Rightarrow> None
      | Some op \<Rightarrow> those (map (\<lambda>k. those (map (\<lambda>n. gf2_matrix_times op (push_bit (8 * k) (word_of_nat n))) [0..<256])) [0..<4]))"

definition crc32c_shift :: "crc_table \<Rightarrow> 32 word \<Rightarrow> 32 word" where
  "crc32c_shift zeros crc =
     table_get zeros 0 (crc AND 0xff) XOR table_get zeros 1 (drop_bit 8 crc AND 0xff) XOR
     table_get zeros 2 (drop_bit 16 crc AND 0xff) XOR table_get zeros 3 (drop_bit 24 crc)"

definition CRC_LONG :: nat where "CRC_LONG = 8192"
definition CRC_SHORT :: nat where "CRC_SHORT = 256"

definition crc32c_init_hw :: "(crc_table \<times> crc_table) option" where
  "crc32c_init_hw =
     (case crc32c_zeros CRC_LONG of
        None \<Rightarrow> None
      | Some long \<Rightarrow> map_option (Pair long) (crc32c_zeros CRC_SHORT))"

section \<open>The hardware version\<close>

text \<open>The instructions \<open>crc32b\<close> and \<open>crc32q\<close> on a 64-bit register, with the operand from memory.\<close>

record crc_unit =
  crc32b :: "64 word \<Rightarrow> 8 word \<Rightarrow> 64 word"
  crc32q :: "64 word \<Rightarrow> 64 word \<Rightarrow> 64 word"

fun hw_align :: "crc_unit \<Rightarrow> nat \<Rightarrow> 8 word list \<Rightarrow> 64 word \<Rightarrow> 64 word \<times> 8 word list" where
  "hw_align cpu next [] crc = (crc, [])"
| "hw_align cpu next (b # buf) crc =
     (if next mod 8 \<noteq> 0 then hw_align cpu (Suc next) buf (crc32b cpu crc b) else (crc, b # buf))"

text \<open>The word at \<open>next + off\<close>, where \<open>buf\<close> holds the bytes from \<open>next\<close> on.\<close>

definition load :: "8 word list \<Rightarrow> nat \<Rightarrow> 64 word" where
  "load buf off = le_word (take 8 (drop off buf))"

text \<open>The inner loop: \<open>n\<close> turns, each on one word of the three blocks of \<open>blk\<close> bytes.\<close>

fun hw_three :: "crc_unit \<Rightarrow> nat \<Rightarrow> nat \<Rightarrow> 8 word list \<Rightarrow> 64 word \<times> 64 word \<times> 64 word \<Rightarrow> 64 word \<times> 64 word \<times> 64 word" where
  "hw_three cpu blk 0 buf crcs = crcs"
| "hw_three cpu blk (Suc n) buf (crc0, crc1, crc2) =
     hw_three cpu blk n (drop 8 buf)
       (crc32q cpu crc0 (load buf 0), crc32q cpu crc1 (load buf blk), crc32q cpu crc2 (load buf (2 * blk)))"

function hw_blocks :: "crc_unit \<Rightarrow> nat \<Rightarrow> crc_table \<Rightarrow> 8 word list \<Rightarrow> 64 word \<Rightarrow> 64 word \<times> 8 word list" where
  "hw_blocks cpu blk zeros buf crc0 =
     (if 0 < blk \<and> 3 * blk \<le> length buf
      then let (crc0, crc1, crc2) = hw_three cpu blk (blk div 8) buf (crc0, 0, 0);
               crc0 = ucast (crc32c_shift zeros (ucast crc0)) XOR crc1;
               crc0 = ucast (crc32c_shift zeros (ucast crc0)) XOR crc2
           in hw_blocks cpu blk zeros (drop (3 * blk) buf) crc0
      else (crc0, buf))"
  by pat_completeness auto
termination
  by (relation "measure (\<lambda>(cpu, blk, zeros, buf, crc0). length buf)") auto

declare hw_blocks.simps [simp del]

function hw_words :: "crc_unit \<Rightarrow> 8 word list \<Rightarrow> 64 word \<Rightarrow> 64 word \<times> 8 word list" where
  "hw_words cpu buf crc =
     (if 8 \<le> length buf then hw_words cpu (drop 8 buf) (crc32q cpu crc (load buf 0)) else (crc, buf))"
  by pat_completeness auto
termination
  by (relation "measure (\<lambda>(cpu, buf, crc). length buf)") auto

declare hw_words.simps [simp del]

definition crc32c_hw :: "crc_unit \<Rightarrow> crc_table \<times> crc_table \<Rightarrow> 32 word \<Rightarrow> nat \<Rightarrow> 8 word list \<Rightarrow> 32 word" where
  "crc32c_hw cpu = (\<lambda>(long, short) crc next buf.
     let crc0 = ucast (crc XOR 0xffffffff);
         (crc0, buf) = hw_align cpu next buf crc0;
         (crc0, buf) = hw_blocks cpu CRC_LONG long buf crc0;
         (crc0, buf) = hw_blocks cpu CRC_SHORT short buf crc0;
         (crc0, buf) = hw_words cpu buf crc0;
         crc0 = foldl (crc32b cpu) crc0 buf
     in ucast crc0 XOR 0xffffffff)"

section \<open>The public functions\<close>

text \<open>The global tables and the flag \<open>sse42\<close>. \<open>ecx\<close> is what the instruction \<open>cpuid\<close> returns.\<close>

record crc_globals =
  crc32c_table :: crc_table
  crc32c_hw_tables :: "crc_table \<times> crc_table"
  sse42 :: bool

definition crc32c_global_init :: "32 word \<Rightarrow> crc_globals \<Rightarrow> crc_globals option" where
  "crc32c_global_init ecx g =
     (let g = g\<lparr>sse42 := (drop_bit 20 ecx AND 1 \<noteq> 0)\<rparr>
      in if sse42 g then map_option (\<lambda>t. g\<lparr>crc32c_hw_tables := t\<rparr>) crc32c_init_hw
         else Some (g\<lparr>crc32c_table := crc32c_init_sw (crc32c_table g)\<rparr>))"

definition crc32c :: "crc_unit \<Rightarrow> crc_globals \<Rightarrow> 32 word \<Rightarrow> nat \<Rightarrow> 8 word list \<Rightarrow> 32 word" where
  "crc32c cpu g crc next buf =
     (if sse42 g then crc32c_hw cpu (crc32c_hw_tables g) crc next buf
      else crc32c_sw (crc32c_table g) crc next buf)"

section \<open>The definition of the checksum\<close>

definition crc_byte :: "32 word \<Rightarrow> 8 word \<Rightarrow> 32 word" where
  "crc_byte crc b = (crc_shift ^^ 8) (crc XOR ucast b)"

definition crc32c_spec :: "32 word \<Rightarrow> 8 word list \<Rightarrow> 32 word" where
  "crc32c_spec crc bytes = NOT (foldl crc_byte (NOT crc) bytes)"

section \<open>One bit at a time\<close>

lemma crc_shift_alt: "crc_shift x = drop_bit 1 x XOR (if bit x 0 then POLY else 0)"
  by (auto simp: crc_shift_def and_one_eq bit_0 even_iff_mod_2_eq_zero)

lemma crc_shift_xor: "crc_shift (x XOR y) = crc_shift x XOR crc_shift y"
  by (simp add: crc_shift_alt bit_xor_iff ac_simps)

lemma crc_shifts_xor: "(crc_shift ^^ n) (x XOR y) = (crc_shift ^^ n) x XOR (crc_shift ^^ n) y"
  by (induction n) (simp_all add: crc_shift_xor)

lemma crc_shift_0 [simp]: "crc_shift 0 = 0"
  by (simp add: crc_shift_def)

lemma crc_shifts_0 [simp]: "(crc_shift ^^ n) 0 = 0"
  by (induction n) simp_all

text \<open>Zero bits are shifted out.\<close>

lemma crc_shifts_zeros: "(\<And>i. i < n \<Longrightarrow> \<not> bit x i) \<Longrightarrow> (crc_shift ^^ n) x = drop_bit n x"
proof (induction n)
  case (Suc n)
  then have "(crc_shift ^^ n) x = drop_bit n x" "\<not> bit (drop_bit n x) 0" by (auto simp: bit_drop_bit_eq)
  then show ?case by (simp add: crc_shift_alt [of "drop_bit n x"])
qed simp

lemma crc_shifts_push:
  fixes x :: "'a::len word"
  assumes "drop_bit (LENGTH('a) - n) x = 0"
  shows "(crc_shift ^^ n) (push_bit n x) = x"
proof -
  have "drop_bit n (push_bit n x) = x"
  proof (rule bit_eqI)
    fix i
    have "\<not> bit x i" if "LENGTH('a) \<le> i + n"
      using arg_cong [OF assms, of "\<lambda>w. bit w (i - (LENGTH('a) - n))"] that by (cases "LENGTH('a) - n \<le> i") (auto simp: bit_drop_bit_eq)
    then show "bit (drop_bit n (push_bit n x)) i = bit x i"
      by (auto simp: bit_simps not_less [symmetric] add.commute [of n] dest: bit_imp_le_length)
  qed
  then show ?thesis by (subst crc_shifts_zeros) (auto simp: bit_simps)
qed

lemma split_low: "(x::'a::len word) = (x AND mask n) XOR push_bit n (drop_bit n x)"
  by (rule bit_eqI) (auto simp: bit_simps)

lemma crc_shifts_8: "(crc_shift ^^ 8) x = (crc_shift ^^ 8) (x AND 0xff) XOR drop_bit 8 x"
proof -
  have "drop_bit 8 (push_bit 8 (drop_bit 8 x)) = drop_bit 8 x"
    by (rule bit_eqI) (auto simp: bit_simps add.commute dest: bit_imp_le_length)
  then have "(crc_shift ^^ 8) (push_bit 8 (drop_bit 8 x)) = drop_bit 8 x"
    using crc_shifts_zeros [of 8 "push_bit 8 (drop_bit 8 x)"] by (simp add: bit_simps)
  moreover have "(crc_shift ^^ 8) x = (crc_shift ^^ 8) ((x AND mask 8) XOR push_bit 8 (drop_bit 8 x))"
    by (rule arg_cong [OF split_low])
  ultimately show ?thesis by (simp add: crc_shifts_xor mask_eq_exp_minus_1)
qed

lemma ucast_drop: "ucast (drop_bit n x) = (drop_bit n (ucast (x::32 word)) :: 64 word)"
  by (rule bit_eqI) (auto simp: bit_simps dest: bit_imp_le_length)

lemma crc_shift_ucast: "crc_shift (ucast (x::32 word)) = (ucast (crc_shift x) :: 64 word)"
proof -
  have "ucast (x XOR y) = (ucast x XOR ucast y :: 64 word)" for x y :: "32 word"
    by (rule bit_eqI) (auto simp: bit_simps)
  moreover have "bit (ucast x :: 64 word) 0 = bit x 0" by (simp add: bit_simps)
  ultimately show ?thesis by (simp add: crc_shift_alt ucast_drop [symmetric] POLY_def)
qed

lemma crc_shifts_ucast: "(crc_shift ^^ n) (ucast (x::32 word)) = (ucast ((crc_shift ^^ n) x) :: 64 word)"
  by (induction n) (simp_all add: crc_shift_ucast)

lemma ucast_xor: "ucast (x XOR y) = (ucast x XOR ucast y :: 'a::len word)"
  by (rule bit_eqI) (auto simp: bit_simps)

section \<open>The software tables\<close>

text \<open>What the tables hold: the entry \<open>n\<close> of the row \<open>k\<close> is \<open>n\<close> after \<open>k + 1\<close> zero bytes.\<close>

definition table_shape :: "nat \<Rightarrow> crc_table \<Rightarrow> bool" where
  "table_shape m t \<longleftrightarrow> length t = m \<and> (\<forall>k < m. length (t ! k) = 256)"

definition sw_table :: "crc_table \<Rightarrow> bool" where
  "sw_table t \<longleftrightarrow> (\<forall>k < 8. \<forall>n < 256. t ! k ! n = (crc_shift ^^ (8 * Suc k)) (word_of_nat n))"

lemma table_set_shape [simp]: "table_shape m (table_set k n v t) \<longleftrightarrow> table_shape m t"
  by (cases "k < length t") (auto simp: table_shape_def table_set_def nth_list_update)

lemma table_set_nth:
  assumes "table_shape m t" "k < m" "n < 256"
  shows "table_set k n v t ! k' ! n' = (if k' = k \<and> n' = n then v else t ! k' ! n')"
  using assms by (auto simp: table_shape_def table_set_def nth_list_update)

lemma low_byte: "unat (x AND 0xff :: 'a::len word) < 256"
proof -
  have "x AND 0xff = take_bit 8 x" by (simp add: take_bit_eq_mask mask_eq_exp_minus_1)
  then show ?thesis using take_bit_nat_less_exp [of 8 "unat x"] by (simp add: unsigned_take_bit_eq)
qed
lemma crc_shifts_add: "(crc_shift ^^ m) ((crc_shift ^^ n) x) = (crc_shift ^^ (m + n)) x"
  by (simp add: funpow_add)

definition first_row :: "crc_table \<Rightarrow> bool" where
  "first_row t \<longleftrightarrow> (\<forall>n < 256. t ! 0 ! n = (crc_shift ^^ 8) (word_of_nat n))"

lemma init_first_rows:
  assumes "table_shape 8 t" "m \<le> 256"
  shows "table_shape 8 (fold init_first [0..<m] t)
     \<and> (\<forall>n < m. fold init_first [0..<m] t ! 0 ! n = (crc_shift ^^ 8) (word_of_nat n))"
  using assms(2)
proof (induction m)
  case (Suc m)
  then show ?case
    using table_set_nth [of 8 "fold init_first [0..<m] t" 0 m] by (auto simp: init_first_def [of m] less_Suc_eq)
qed (simp add: assms(1))

text \<open>The next entry of a column is a zero byte further.\<close>

lemma first_row_step:
  fixes crc :: "32 word"
  assumes "first_row t"
  shows "table_get t 0 (crc AND 0xff) XOR drop_bit 8 crc = (crc_shift ^^ 8) crc"
proof -
  have "table_get t 0 (crc AND 0xff) = (crc_shift ^^ 8) (crc AND 0xff)"
    using assms low_byte [of crc] by (simp add: first_row_def table_get_def)
  then show ?thesis using crc_shifts_8 [of crc] by simp
qed

lemma init_column_rows:
  assumes "table_shape 8 t" "first_row t" "n < 256" "j < 8"
  shows "\<exists>t'. fold (init_next n) [1..<Suc j] (t ! 0 ! n, t) = ((crc_shift ^^ (8 * Suc j)) (word_of_nat n), t')
     \<and> table_shape 8 t' \<and> (\<forall>k n'. t' ! k ! n' = (if n' = n \<and> 0 < k \<and> k \<le> j then (crc_shift ^^ (8 * Suc k)) (word_of_nat n) else t ! k ! n'))"
  using assms(4)
proof (induction j)
  case 0
  then show ?case using assms by (simp add: first_row_def)
next
  case (Suc j)
  then obtain t' where t': "fold (init_next n) [1..<Suc j] (t ! 0 ! n, t) = ((crc_shift ^^ (8 * Suc j)) (word_of_nat n), t')"
    "table_shape 8 t'" "\<forall>k n'. t' ! k ! n' = (if n' = n \<and> 0 < k \<and> k \<le> j then (crc_shift ^^ (8 * Suc k)) (word_of_nat n) else t ! k ! n')"
    by auto
  let ?crc = "(crc_shift ^^ (8 * Suc j)) (word_of_nat n) :: 32 word" and ?crc' = "(crc_shift ^^ (8 * Suc (Suc j))) (word_of_nat n) :: 32 word"
  have "first_row t'" using t'(3) assms(2) by (simp add: first_row_def)
  moreover have "(crc_shift ^^ 8) ?crc = ?crc'" by (simp add: crc_shifts_add)
  ultimately have "init_next n (Suc j) (?crc, t') = (?crc', table_set (Suc j) n ?crc' t')"
    using first_row_step [of t' ?crc] by (simp add: init_next_def Let_def)
  then have "fold (init_next n) [1..<Suc (Suc j)] (t ! 0 ! n, t) = (?crc', table_set (Suc j) n ?crc' t')"
    using t'(1) by (simp del: funpow.simps mult_Suc_right)
  then show ?case using table_set_nth [OF t'(2) Suc.prems assms(3)] t'(2,3)
    by (intro exI [of _ "table_set (Suc j) n ?crc' t'"]) (auto simp: le_Suc_eq simp del: funpow.simps mult_Suc_right)
qed

lemma init_columns:
  assumes "table_shape 8 t" "first_row t" "m \<le> 256"
  shows "table_shape 8 (fold init_column [0..<m] t) \<and> first_row (fold init_column [0..<m] t)
     \<and> (\<forall>k < 8. \<forall>n < m. fold init_column [0..<m] t ! k ! n = (crc_shift ^^ (8 * Suc k)) (word_of_nat n))"
  using assms(3)
proof (induction m)
  case 0
  then show ?case using assms by simp
next
  case (Suc m)
  let ?t = "fold init_column [0..<m] t"
  have ih: "table_shape 8 ?t" "first_row ?t" "\<forall>k < 8. \<forall>n < m. ?t ! k ! n = (crc_shift ^^ (8 * Suc k)) (word_of_nat n)"
    using Suc by auto
  obtain t' where t': "fold (init_next m) [1..<8] (?t ! 0 ! m, ?t) = ((crc_shift ^^ 64) (word_of_nat m), t')" "table_shape 8 t'"
    "\<forall>k n'. t' ! k ! n' = (if n' = m \<and> 0 < k \<and> k \<le> 7 then (crc_shift ^^ (8 * Suc k)) (word_of_nat m) else ?t ! k ! n')"
    using init_column_rows [OF ih(1,2), of m 7] Suc.prems by (auto simp: numeral_eq_Suc)
  have f: "first_row t'" using t'(3) ih(2) by (simp add: first_row_def)
  have "t' ! k ! n = (crc_shift ^^ (8 * Suc k)) (word_of_nat n)" if "k < 8" "n < Suc m" for k n
  proof (cases "k = 0")
    case True
    then show ?thesis using f that Suc.prems by (simp add: first_row_def)
  next
    case False
    then show ?thesis using t'(3) ih(3) that by (cases "n = m") (auto simp del: funpow.simps mult_Suc_right)
  qed
  moreover have "fold init_column [0..<Suc m] t = t'" using t'(1) by (simp add: init_column_def)
  ultimately show ?case using t'(2) f by simp
qed

lemma crc32c_init_sw_table:
  assumes "table_shape 8 t"
  shows "table_shape 8 (crc32c_init_sw t) \<and> sw_table (crc32c_init_sw t)"
proof -
  have f: "table_shape 8 (fold init_first [0..<256] t)" "first_row (fold init_first [0..<256] t)"
    using init_first_rows [OF assms, of 256] by (simp_all add: first_row_def)
  show ?thesis using init_columns [OF f, of 256] unfolding crc32c_init_sw_def sw_table_def by blast
qed

section \<open>Eight bytes at a time\<close>

lemma crc_shifts_byte: "(crc_shift ^^ (m + 8)) x = (crc_shift ^^ (m + 8)) (x AND 0xff) XOR (crc_shift ^^ m) (drop_bit 8 x)"
  using crc_shifts_8 [of x] crc_shifts_xor [of m "(crc_shift ^^ 8) (x AND 0xff)" "drop_bit 8 x"]
  by (simp add: crc_shifts_add [symmetric])

lemma sw_table_get:
  fixes x :: "64 word"
  assumes "sw_table t" "k < 8" "unat x < 256"
  shows "ucast (table_get t k x) = (crc_shift ^^ (8 * Suc k)) x"
proof -
  have "word_of_nat (unat x) = (ucast x :: 32 word)" by simp
  moreover have "take_bit 32 (unat x) = unat x" using assms(3) by (simp add: take_bit_nat_eq_self_iff)
  then have "ucast (ucast x :: 32 word) = x" by (simp add: word_unat_eq_iff unsigned_ucast_eq unsigned_take_bit_eq)
  ultimately show ?thesis
    using assms crc_shifts_ucast [of "8 * Suc k" "ucast x :: 32 word"] unfolding sw_table_def table_get_def by simp
qed

lemma sw_byte_correct:
  assumes "sw_table t"
  shows "sw_byte t (ucast c) b = ucast (crc_byte c b)"
proof -
  let ?x = "ucast c XOR ucast b :: 64 word"
  have "drop_bit 8 ?x = drop_bit 8 (ucast c)"
    by (rule bit_eqI) (auto simp: bit_simps dest: bit_imp_le_length)
  moreover have "?x = ucast (c XOR ucast b)" by (rule bit_eqI) (auto simp: bit_simps dest: bit_imp_le_length)
  ultimately show ?thesis
    using sw_table_get [OF assms, of 0 "?x AND 0xff"] low_byte [of ?x] crc_shifts_8 [of ?x] crc_shifts_ucast [of 8 "c XOR ucast b"]
    by (simp add: sw_byte_def crc_byte_def)
qed

lemma le_word_bit: "bit (le_word bs :: 'a::len word) i \<Longrightarrow> i < 8 * length bs"
proof (induction bs arbitrary: i)
  case (Cons b bs)
  then show ?case using Cons.IH by (cases "8 \<le> i") (fastforce simp: bit_simps dest: bit_imp_le_length)+
qed simp

lemma le_word_drop: "drop_bit (8 * length bs) (le_word bs :: 'a::len word) = 0"
  by (rule bit_eqI) (auto simp: bit_simps dest: le_word_bit)

lemma ucast_ucast_byte: "ucast (ucast (b :: 8 word) :: 32 word) = (ucast b :: 64 word)"
  by (rule bit_eqI) (auto simp: bit_simps dest: bit_imp_le_length)

lemma le_word_xor: "le_word (b # bs) = (ucast b XOR push_bit 8 (le_word bs) :: 'a::len word)"
  by (rule bit_eqI) (auto simp: bit_simps dest: bit_imp_le_length)

lemma foldl_crc_byte:
  "length bs \<le> 8 \<Longrightarrow> ucast (foldl crc_byte c bs) = (crc_shift ^^ (8 * length bs)) (ucast c XOR le_word bs :: 64 word)"
proof (induction bs arbitrary: c)
  case (Cons b bs)
  have z: "drop_bit (64 - 8) (le_word bs :: 64 word) = 0"
  proof -
    have "drop_bit (56 - 8 * length bs) (drop_bit (8 * length bs) (le_word bs :: 64 word)) = 0" by (simp add: le_word_drop)
    then show ?thesis using Cons.prems by (simp add: drop_bit_drop_bit)
  qed
  have "(crc_shift ^^ 8) (ucast c XOR le_word (b # bs) :: 64 word) = ucast (crc_byte c b) XOR le_word bs"
    using crc_shifts_push [of 8 "le_word bs :: 64 word"] z crc_shifts_ucast [of 8 "c XOR ucast b"]
    unfolding le_word_xor crc_byte_def by (simp add: crc_shifts_xor xor.assoc [symmetric] ucast_xor ucast_ucast_byte)
  then have "(crc_shift ^^ (8 * length bs + 8)) (ucast c XOR le_word (b # bs) :: 64 word) = ucast (foldl crc_byte (crc_byte c b) bs)"
    using Cons by (simp only: crc_shifts_add [symmetric]) simp
  then show ?case by (simp add: add.commute)
qed simp

lemma crc_shifts_64:
  fixes x :: "64 word"
  shows "(crc_shift ^^ 64) x = (crc_shift ^^ 64) (x AND 0xff) XOR (crc_shift ^^ 56) (drop_bit 8 x AND 0xff)
     XOR (crc_shift ^^ 48) (drop_bit 16 x AND 0xff) XOR (crc_shift ^^ 40) (drop_bit 24 x AND 0xff)
     XOR (crc_shift ^^ 32) (drop_bit 32 x AND 0xff) XOR (crc_shift ^^ 24) (drop_bit 40 x AND 0xff)
     XOR (crc_shift ^^ 16) (drop_bit 48 x AND 0xff) XOR (crc_shift ^^ 8) (drop_bit 56 x)"
  using crc_shifts_byte [of 56 x] crc_shifts_byte [of 48 "drop_bit 8 x"] crc_shifts_byte [of 40 "drop_bit 16 x"]
    crc_shifts_byte [of 32 "drop_bit 24 x"] crc_shifts_byte [of 24 "drop_bit 32 x"] crc_shifts_byte [of 16 "drop_bit 40 x"]
    crc_shifts_byte [of 8 "drop_bit 48 x"] by (simp add: drop_bit_drop_bit xor.assoc)

lemma top_byte: "unat (drop_bit 56 x) < 256" for x :: "64 word"
proof -
  have l: "unat x < 2 ^ LENGTH(64)" by (rule unsigned_less)
  then have "unat x div 2 ^ 56 < 2 ^ 8" by (simp add: div_less_iff_less_mult)
  moreover have "take_bit 64 (unat x) = unat x" using l by (simp add: take_bit_nat_eq_self_iff)
  ultimately show ?thesis by (simp add: unsigned_drop_bit_eq drop_bit_eq_div [of 56 "unat x"])
qed

lemma sw_word_correct:
  assumes "sw_table t" "length bs = 8"
  shows "sw_word t (ucast c) (le_word bs) = ucast (foldl crc_byte c bs)"
proof -
  let ?x = "ucast c XOR le_word bs :: 64 word"
  have top: "unat (drop_bit 56 ?x) < 256" by (rule top_byte)
  note g = sw_table_get [OF assms(1), of 7, simplified] sw_table_get [OF assms(1), of 6, simplified]
    sw_table_get [OF assms(1), of 5, simplified] sw_table_get [OF assms(1), of 4, simplified]
    sw_table_get [OF assms(1), of 3, simplified] sw_table_get [OF assms(1), of 2, simplified]
    sw_table_get [OF assms(1), of 1, unfolded One_nat_def, simplified] sw_table_get [OF assms(1), of 0, simplified]
  have "ucast (foldl crc_byte c bs) = (crc_shift ^^ 64) ?x" using foldl_crc_byte [of bs c] assms(2) by simp
  then show ?thesis
    unfolding sw_word_def Let_def ucast_xor crc_shifts_64 [of ?x] One_nat_def by (simp only: g low_byte top)
qed
lemma sw_align_correct:
  assumes "sw_table t"
  shows "\<exists>k. sw_align t next buf (ucast c) = (ucast (foldl crc_byte c (take k buf)), drop k buf)"
proof (induction buf arbitrary: "next" c)
  case (Cons b buf)
  obtain k where "sw_align t (Suc next) buf (ucast (crc_byte c b)) = (ucast (foldl crc_byte (crc_byte c b) (take k buf)), drop k buf)"
    using Cons by blast
  then show ?case
    using sw_byte_correct [OF assms, of c b] by (cases "next mod 8 = 0") (auto intro: exI [of _ "Suc k"] exI [of _ 0])
qed simp

lemma sw_words_correct:
  assumes "sw_table t"
  shows "\<exists>k. sw_words t buf (ucast c) = (ucast (foldl crc_byte c (take k buf)), drop k buf)"
proof (induction buf arbitrary: c rule: measure_induct_rule [of length])
  case (less buf)
  show ?case
  proof (cases "8 \<le> length buf")
    case True
    let ?c = "foldl crc_byte c (take 8 buf)"
    obtain k where k: "sw_words t (drop 8 buf) (ucast ?c) = (ucast (foldl crc_byte ?c (take k (drop 8 buf))), drop k (drop 8 buf))"
      using less [of "drop 8 buf"] True by fastforce
    have "sw_words t buf (ucast c) = sw_words t (drop 8 buf) (ucast ?c)"
      using sw_word_correct [OF assms, of "take 8 buf" c] True by (simp add: sw_words.simps [of t buf])
    moreover have "foldl crc_byte ?c (take k (drop 8 buf)) = foldl crc_byte c (take (8 + k) buf)"
      by (simp add: take_add)
    ultimately show ?thesis using k by (intro exI [of _ "8 + k"]) (simp add: add.commute)
  next
    case False
    then show ?thesis by (intro exI [of _ 0]) (simp add: sw_words.simps [of t buf])
  qed
qed

lemma sw_bytes_correct:
  assumes "sw_table t"
  shows "foldl (sw_byte t) (ucast c) buf = ucast (foldl crc_byte c buf)"
  by (induction buf arbitrary: c) (simp_all add: sw_byte_correct [OF assms])

lemma foldl_take_drop: "foldl f (foldl f a (take k xs)) (drop k xs) = foldl f a xs"
  by (metis append_take_drop_id foldl_append)

lemma ucast_down: "ucast (ucast (c :: 32 word) :: 64 word) = c"
  by (rule bit_eqI) (auto simp: bit_simps dest: bit_imp_le_length)

lemma not_xor: "x XOR 0xffffffff = NOT x" for x :: "32 word"
proof -
  have "(0xffffffff :: 32 word) = - 1" by simp
  then show ?thesis by (simp only: bit.xor_one_right)
qed

lemma crc32c_sw_spec:
  assumes "sw_table t"
  shows "crc32c_sw t crc next buf = crc32c_spec crc buf"
proof -
  let ?c = "NOT crc"
  obtain k where k: "sw_align t next buf (ucast ?c) = (ucast (foldl crc_byte ?c (take k buf)), drop k buf)"
    using sw_align_correct [OF assms] by blast
  let ?d = "foldl crc_byte ?c (take k buf)"
  obtain j where j: "sw_words t (drop k buf) (ucast ?d) = (ucast (foldl crc_byte ?d (take j (drop k buf))), drop j (drop k buf))"
    using sw_words_correct [OF assms] by blast
  show ?thesis unfolding crc32c_sw_def crc32c_spec_def not_xor Let_def k prod.case j sw_bytes_correct [OF assms] foldl_take_drop ucast_down ..
qed

section \<open>Matrices over GF(2)\<close>

definition zeros_matrix :: "nat \<Rightarrow> 32 word list" where
  "zeros_matrix n = map (\<lambda>i. (crc_shift ^^ n) (push_bit i 1)) [0..<32]"

lemma push_low: "push_bit k w = (if w AND 1 \<noteq> 0 then push_bit k 1 else 0) XOR push_bit (Suc k) (drop_bit 1 w)"
  for w :: "'a::len word"
proof -
  have "w AND 1 = (if bit w 0 then 1 else 0)" by (simp add: and_one_eq mod_2_eq_odd bit_0)
  then show ?thesis by (intro bit_eqI) (auto simp: bit_simps bit_1_iff Suc_le_eq le_less Suc_diff_Suc simp del: push_bit_Suc)
qed

lemma matrix_times_zeros:
  "j + k = 32 \<Longrightarrow> drop_bit j w = 0 \<Longrightarrow>
   matrix_times_from acc (map (\<lambda>i. (crc_shift ^^ n) (push_bit i 1)) [k..<32]) w = Some (acc XOR (crc_shift ^^ n) (push_bit k w))"
proof (induction j arbitrary: k w acc)
  case (Suc j)
  let ?f = "crc_shift ^^ n" and ?acc = "if w AND 1 \<noteq> 0 then acc XOR (crc_shift ^^ n) (push_bit k 1) else acc"
  have u: "[k..<32] = k # [Suc k..<32]" using Suc.prems(1) by (simp add: upt_conv_Cons)
  have "drop_bit j (drop_bit 1 w) = 0" using Suc.prems(2) by (simp add: drop_bit_drop_bit)
  then have "matrix_times_from ?acc (map (\<lambda>i. ?f (push_bit i 1)) [Suc k..<32]) (drop_bit 1 w)
      = Some (?acc XOR ?f (push_bit (Suc k) (drop_bit 1 w)))" using Suc.IH [of "Suc k" "drop_bit 1 w" ?acc] Suc.prems(1) by simp
  moreover have "?f (push_bit k w) = (if w AND 1 \<noteq> 0 then ?f (push_bit k 1) else 0) XOR ?f (push_bit (Suc k) (drop_bit 1 w))"
    unfolding push_low [of k w] crc_shifts_xor by simp
  ultimately show ?case unfolding u by (auto simp: xor.assoc)
qed simp

lemma gf2_matrix_times_zeros: "gf2_matrix_times (zeros_matrix n) w = Some ((crc_shift ^^ n) w)"
proof -
  have "drop_bit 32 w = 0" by (rule bit_eqI) (auto simp: bit_simps dest: bit_imp_le_length)
  then show ?thesis using matrix_times_zeros [of 32 0 w 0 n] by (simp add: gf2_matrix_times_def zeros_matrix_def)
qed

lemma those_Some: "those (map (\<lambda>x. Some (g x)) xs) = Some (map g xs)"
  by (induction xs) simp_all

lemma those_cong: "(\<And>x. x \<in> set xs \<Longrightarrow> f x = Some (g x)) \<Longrightarrow> those (map f xs) = Some (map g xs)"
  by (induction xs) simp_all

lemma gf2_matrix_square_zeros: "gf2_matrix_square (zeros_matrix n) = Some (zeros_matrix (2 * n))"
proof -
  have "gf2_matrix_times (zeros_matrix n) (zeros_matrix n ! i) = Some ((crc_shift ^^ (2 * n)) (push_bit i 1))" if "i < 32" for i
  proof -
    have "zeros_matrix n ! i = (crc_shift ^^ n) (push_bit i 1)" using that by (simp add: zeros_matrix_def)
    then show ?thesis by (simp add: gf2_matrix_times_zeros crc_shifts_add mult_2)
  qed
  then show ?thesis unfolding gf2_matrix_square_def by (subst those_cong) (auto simp: zeros_matrix_def)
qed

lemma zero_bit_op_zeros: "zero_bit_op = zeros_matrix 1"
proof (rule nth_equalityI)
  fix i
  assume "i < length zero_bit_op"
  then have i: "i < 32" by (simp add: zero_bit_op_def)
  show "zero_bit_op ! i = zeros_matrix 1 ! i"
  proof (cases i)
    case 0
    then show ?thesis by (simp add: zero_bit_op_def zeros_matrix_def crc_shift_def)
  next
    case (Suc n)
    have "crc_shift (push_bit (Suc n) 1) = (push_bit n 1 :: 32 word)"
      using i Suc by (intro bit_eqI) (auto simp: crc_shift_alt bit_simps bit_1_iff)
    then show ?thesis using i Suc by (simp add: zero_bit_op_def zeros_matrix_def del: upt_Suc)
  qed
qed (simp add: zero_bit_op_def zeros_matrix_def)

lemma zeros_op_loop_zeros:
  "2 ^ k \<le> max 1 len \<Longrightarrow> len < 2 ^ Suc k \<Longrightarrow> zeros_op_loop (zeros_matrix n) len = Some (zeros_matrix (2 * n * 2 ^ k))"
proof (induction len arbitrary: n k rule: less_induct)
  case (less len)
  note eq = zeros_op_loop.simps [of "zeros_matrix n" len] gf2_matrix_square_zeros Let_def
  consider "k = 0" | "k = 1" | j where "k = Suc (Suc j)" by (metis One_nat_def not0_implies_Suc)
  then show ?case
  proof cases
    case 1
    then show ?thesis using less.prems by (simp add: eq)
  next
    case 2
    then have "len = 2 \<or> len = 3" using less.prems by auto
    then show ?thesis using 2 by (auto simp: eq)
  next
    case (3 j)
    have l: "2 ^ j \<le> len div 2 div 2" "len div 2 div 2 < 2 ^ Suc j" "4 \<le> len"
    proof -
      have one: "(1::nat) \<le> 2 ^ j" by simp
      have "4 * 2 ^ j \<le> max 1 len" using less.prems(1) 3 by simp
      then have "4 * 2 ^ j \<le> len" using one by linarith
      then show "2 ^ j \<le> len div 2 div 2" "len div 2 div 2 < 2 ^ Suc j" using less.prems(2) 3 by simp_all
      show "4 \<le> len" using \<open>4 * 2 ^ j \<le> len\<close> one by linarith
    qed
    then have "zeros_op_loop (zeros_matrix (2 * (2 * n))) (len div 2 div 2) = Some (zeros_matrix (2 * (2 * (2 * n)) * 2 ^ j))"
      by (intro less.IH) auto
    moreover have "len div 2 \<noteq> 0" "len div 2 div 2 \<noteq> 0" using l(3) by simp_all
    ultimately show ?thesis using 3 by (auto simp: eq mult.assoc)
  qed
qed

lemma crc32c_zeros_op_zeros:
  assumes "2 ^ k \<le> max 1 len" "len < 2 ^ Suc k"
  shows "crc32c_zeros_op len = Some (zeros_matrix (8 * 2 ^ k))"
  using zeros_op_loop_zeros [OF assms, of 4] by (simp add: crc32c_zeros_op_def zero_bit_op_zeros gf2_matrix_square_zeros)

section \<open>The tables of the hardware version\<close>

definition zeros_table :: "nat \<Rightarrow> crc_table" where
  "zeros_table len = map (\<lambda>k. map (\<lambda>n. (crc_shift ^^ (8 * len)) (push_bit (8 * k) (word_of_nat n))) [0..<256]) [0..<4]"

lemma crc32c_zeros_power: "crc32c_zeros (2 ^ k) = Some (zeros_table (2 ^ k))"
proof -
  have "crc32c_zeros_op (2 ^ k) = Some (zeros_matrix (8 * 2 ^ k))" by (rule crc32c_zeros_op_zeros) simp_all
  then show ?thesis by (simp add: crc32c_zeros_def gf2_matrix_times_zeros those_Some zeros_table_def)
qed

lemma zeros_table_get:
  fixes x :: "32 word"
  assumes "k < 4" "unat x < 256"
  shows "table_get (zeros_table len) k x = (crc_shift ^^ (8 * len)) (push_bit (8 * k) x)"
  using assms by (simp add: table_get_def zeros_table_def)

lemma split_bytes:
  fixes c :: "32 word"
  shows "c = (c AND 0xff) XOR push_bit 8 (drop_bit 8 c AND 0xff) XOR push_bit 16 (drop_bit 16 c AND 0xff) XOR push_bit 24 (drop_bit 24 c)"
proof -
  have s: "x = (x AND 0xff) XOR push_bit 8 (drop_bit 8 x)" for x :: "32 word"
    using split_low [of x 8] by (simp add: mask_eq_exp_minus_1)
  have "c = (c AND 0xff) XOR push_bit 8 ((drop_bit 8 c AND 0xff) XOR push_bit 8 ((drop_bit 16 c AND 0xff) XOR push_bit 8 (drop_bit 24 c)))"
    using s [of c] s [of "drop_bit 8 c"] s [of "drop_bit 16 c"] by (simp add: drop_bit_drop_bit)
  then show ?thesis by (simp add: push_bit_xor push_bit_push_bit xor.assoc)
qed

lemma top_byte_32: "unat (drop_bit 24 x) < 256" for x :: "32 word"
proof -
  have l: "unat x < 2 ^ LENGTH(32)" by (rule unsigned_less)
  then have "unat x div 2 ^ 24 < 2 ^ 8" by (simp add: div_less_iff_less_mult)
  moreover have "take_bit 32 (unat x) = unat x" using l by (simp add: take_bit_nat_eq_self_iff)
  ultimately show ?thesis by (simp add: unsigned_drop_bit_eq drop_bit_eq_div [of 24 "unat x"])
qed

lemma crc32c_shift_zeros: "crc32c_shift (zeros_table len) c = (crc_shift ^^ (8 * len)) c"
proof -
  note g = zeros_table_get [of _ _ len]
  have "crc32c_shift (zeros_table len) c = (crc_shift ^^ (8 * len)) (c AND 0xff)
      XOR (crc_shift ^^ (8 * len)) (push_bit 8 (drop_bit 8 c AND 0xff))
      XOR (crc_shift ^^ (8 * len)) (push_bit 16 (drop_bit 16 c AND 0xff)) XOR (crc_shift ^^ (8 * len)) (push_bit 24 (drop_bit 24 c))"
    using g [of 0 "c AND 0xff"] g [of 1 "drop_bit 8 c AND 0xff"] g [of 2 "drop_bit 16 c AND 0xff"] g [of 3 "drop_bit 24 c"]
    by (simp add: crc32c_shift_def low_byte top_byte_32)
  also have "\<dots> = (crc_shift ^^ (8 * len)) c" unfolding crc_shifts_xor [symmetric] split_bytes [of c, symmetric] ..
  finally show ?thesis .
qed

lemma crc_byte_linear: "crc_byte (c XOR d) b = (crc_shift ^^ 8) c XOR crc_byte d b"
  by (simp add: crc_byte_def crc_shifts_xor xor.assoc)

lemma foldl_crc_linear: "foldl crc_byte (c XOR d) bs = (crc_shift ^^ (8 * length bs)) c XOR foldl crc_byte d bs"
proof (induction bs arbitrary: c d)
  case (Cons b bs)
  have "foldl crc_byte (c XOR d) (b # bs) = (crc_shift ^^ (8 * length bs)) ((crc_shift ^^ 8) c) XOR foldl crc_byte (crc_byte d b) bs"
    using Cons by (simp add: crc_byte_linear)
  then show ?case by (simp add: crc_shifts_add add.commute)
qed simp

lemma foldl_crc_shift: "(crc_shift ^^ (8 * length bs)) c XOR foldl crc_byte 0 bs = foldl crc_byte c bs"
  using foldl_crc_linear [of c 0 bs] by simp

section \<open>The hardware version\<close>

text \<open>What the instructions do, as the processor's manual has it: the low half of the register is the
  checksum so far, and the result is extended with zeros.\<close>

definition le_bytes :: "64 word \<Rightarrow> 8 word list" where
  "le_bytes w = map (\<lambda>i. ucast (drop_bit (8 * i) w)) [0..<8]"

locale crc_instructions =
  fixes cpu :: crc_unit
  assumes crc32b_def: "crc32b cpu c b = ucast (crc_byte (ucast c) b)"
    and crc32q_def: "crc32q cpu c w = ucast (foldl crc_byte (ucast c) (le_bytes w))"

definition sse42_unit :: crc_unit where
  "sse42_unit = \<lparr>crc32b = (\<lambda>c b. ucast (crc_byte (ucast c) b)), crc32q = (\<lambda>c w. ucast (foldl crc_byte (ucast c) (le_bytes w)))\<rparr>"

interpretation sse42_crc: crc_instructions sse42_unit
  by unfold_locales (simp_all add: sse42_unit_def)

lemma le_word_nth: "length bs \<le> 8 \<Longrightarrow> i < length bs \<Longrightarrow> ucast (drop_bit (8 * i) (le_word bs :: 64 word)) = (bs ! i :: 8 word)"
proof (induction bs arbitrary: i)
  case (Cons b bs)
  show ?case
  proof (cases i)
    case 0
    then show ?thesis by (simp add: le_word_xor) (rule bit_eqI, auto simp: bit_simps dest: bit_imp_le_length)
  next
    case (Suc j)
    have "drop_bit (8 * i) (le_word (b # bs) :: 64 word) = drop_bit (8 * j) (le_word bs)"
    proof (rule bit_eqI)
      fix k
      show "bit (drop_bit (8 * i) (le_word (b # bs) :: 64 word)) k = bit (drop_bit (8 * j) (le_word bs :: 64 word)) k"
        using Suc Cons.prems le_word_bit [where ?'a = 64, of bs "8 * j + k"] by (auto simp: bit_simps dest: bit_imp_le_length)
    qed
    then show ?thesis using Cons Suc by simp
  qed
qed simp

lemma le_bytes_word: "length bs = 8 \<Longrightarrow> le_bytes (le_word bs) = bs"
  by (rule nth_equalityI) (simp_all add: le_bytes_def le_word_nth)

context crc_instructions
begin

lemma crc32b_ucast: "crc32b cpu (ucast (c :: 32 word)) b = ucast (crc_byte c b)"
  by (simp add: crc32b_def ucast_down)

lemma crc32q_load:
  assumes "off + 8 \<le> length buf"
  shows "crc32q cpu (ucast (c :: 32 word)) (load buf off) = ucast (foldl crc_byte c (take 8 (drop off buf)))"
  using assms by (simp add: crc32q_def load_def ucast_down le_bytes_word)

lemma hw_align_correct: "\<exists>k. hw_align cpu next buf (ucast c) = (ucast (foldl crc_byte c (take k buf)), drop k buf)"
proof (induction buf arbitrary: "next" c)
  case (Cons b buf)
  obtain k where "hw_align cpu (Suc next) buf (ucast (crc_byte c b)) = (ucast (foldl crc_byte (crc_byte c b) (take k buf)), drop k buf)"
    using Cons by blast
  then show ?case
    using crc32b_ucast [of c b] by (cases "next mod 8 = 0") (auto intro: exI [of _ "Suc k"] exI [of _ 0])
qed simp

lemma foldl_take_8: "foldl f (foldl f a (take 8 xs)) (take n (drop 8 xs)) = foldl f a (take (8 + n) xs)"
  by (simp add: take_add)

lemma hw_three_correct:
  "2 * blk + 8 * n \<le> length buf \<Longrightarrow> hw_three cpu blk n buf (ucast c0, ucast c1, ucast c2) =
     (ucast (foldl crc_byte c0 (take (8 * n) buf)), ucast (foldl crc_byte c1 (take (8 * n) (drop blk buf))),
      ucast (foldl crc_byte c2 (take (8 * n) (drop (2 * blk) buf))))"
proof (induction n arbitrary: buf c0 c1 c2)
  case (Suc n)
  have d: "drop blk (drop 8 buf) = drop 8 (drop blk buf)" "drop (2 * blk) (drop 8 buf) = drop 8 (drop (2 * blk) buf)"
    by (simp_all add: add.commute)
  have len: "0 + 8 \<le> length buf" "blk + 8 \<le> length buf" "2 * blk + 8 \<le> length buf" using Suc.prems by simp_all
  have prem: "2 * blk + 8 * n \<le> length (drop 8 buf)" using Suc.prems by simp
  show ?case
    unfolding hw_three.simps crc32q_load [OF len(1)] crc32q_load [OF len(2)] crc32q_load [OF len(3)] drop_0 Suc.IH [OF prem]
      d foldl_take_8 mult_Suc_right ..
qed simp

lemma hw_blocks_correct:
  assumes "blk mod 8 = 0"
  shows "\<exists>k. hw_blocks cpu blk (zeros_table blk) buf (ucast c) = (ucast (foldl crc_byte c (take k buf)), drop k buf)"
proof (induction buf arbitrary: c rule: measure_induct_rule [of length])
  case (less buf)
  show ?case
  proof (cases "0 < blk \<and> 3 * blk \<le> length buf")
    case True
    let ?a = "take blk buf" and ?b = "take blk (drop blk buf)" and ?d = "take blk (drop (2 * blk) buf)"
    let ?c = "foldl crc_byte c (take (3 * blk) buf)"
    have l: "length ?b = blk" "length ?d = blk" "8 * (blk div 8) = blk" using True assms by auto
    have t: "take (3 * blk) buf = ?a @ ?b @ ?d"
      using take_add [of blk "blk + blk" buf] take_add [of blk blk "drop blk buf"] by (simp add: numeral_3_eq_3 mult_2)
    have three: "hw_three cpu blk (blk div 8) buf (ucast c, 0, 0) =
        (ucast (foldl crc_byte c ?a), ucast (foldl crc_byte 0 ?b), ucast (foldl crc_byte 0 ?d))"
      using hw_three_correct [of blk "blk div 8" buf c 0 0] True l(3) by simp
    have shift: "crc32c_shift (zeros_table blk) e XOR foldl crc_byte 0 bs = foldl crc_byte e bs" if "length bs = blk" for e bs
      using foldl_crc_shift [of bs e] that by (simp add: crc32c_shift_zeros)
    have step: "hw_blocks cpu blk (zeros_table blk) buf (ucast c) = hw_blocks cpu blk (zeros_table blk) (drop (3 * blk) buf) (ucast ?c)"
      using True three shift [OF l(1)] shift [OF l(2)]
      by (simp add: hw_blocks.simps [of cpu blk "zeros_table blk" buf] ucast_down ucast_xor [symmetric] t)
    obtain k where k: "hw_blocks cpu blk (zeros_table blk) (drop (3 * blk) buf) (ucast ?c) =
        (ucast (foldl crc_byte ?c (take k (drop (3 * blk) buf))), drop k (drop (3 * blk) buf))"
      using less [of "drop (3 * blk) buf"] True by fastforce
    have "foldl crc_byte ?c (take k (drop (3 * blk) buf)) = foldl crc_byte c (take (3 * blk + k) buf)"
      unfolding take_add [of "3 * blk" k buf] by simp
    then show ?thesis using step k by (intro exI [of _ "3 * blk + k"]) (simp add: add.commute)
  next
    case False
    then show ?thesis by (intro exI [of _ 0]) (auto simp: hw_blocks.simps [of cpu blk "zeros_table blk" buf])
  qed
qed

lemma hw_words_correct: "\<exists>k. hw_words cpu buf (ucast c) = (ucast (foldl crc_byte c (take k buf)), drop k buf)"
proof (induction buf arbitrary: c rule: measure_induct_rule [of length])
  case (less buf)
  show ?case
  proof (cases "8 \<le> length buf")
    case True
    let ?c = "foldl crc_byte c (take 8 buf)"
    obtain k where k: "hw_words cpu (drop 8 buf) (ucast ?c) = (ucast (foldl crc_byte ?c (take k (drop 8 buf))), drop k (drop 8 buf))"
      using less [of "drop 8 buf"] True by fastforce
    then show ?thesis using crc32q_load [of 0 buf c] True
      by (intro exI [of _ "8 + k"]) (simp add: hw_words.simps [of cpu buf] foldl_take_8 add.commute)
  next
    case False
    then show ?thesis by (intro exI [of _ 0]) (simp add: hw_words.simps [of cpu buf])
  qed
qed

lemma hw_bytes_correct: "foldl (crc32b cpu) (ucast (c :: 32 word)) buf = ucast (foldl crc_byte c buf)"
  by (induction buf arbitrary: c) (simp_all add: crc32b_ucast)

lemma crc32c_hw_spec:
  "crc32c_hw cpu (zeros_table CRC_LONG, zeros_table CRC_SHORT) crc next buf = crc32c_spec crc buf"
proof -
  let ?c = "NOT crc"
  obtain k where k: "hw_align cpu next buf (ucast ?c) = (ucast (foldl crc_byte ?c (take k buf)), drop k buf)"
    using hw_align_correct by blast
  let ?d = "foldl crc_byte ?c (take k buf)" and ?buf = "drop k buf"
  obtain j where j: "hw_blocks cpu CRC_LONG (zeros_table CRC_LONG) ?buf (ucast ?d) = (ucast (foldl crc_byte ?d (take j ?buf)), drop j ?buf)"
    using hw_blocks_correct [of CRC_LONG ?buf ?d] by (auto simp: CRC_LONG_def)
  let ?e = "foldl crc_byte ?d (take j ?buf)" and ?buf2 = "drop j ?buf"
  obtain i where i: "hw_blocks cpu CRC_SHORT (zeros_table CRC_SHORT) ?buf2 (ucast ?e) = (ucast (foldl crc_byte ?e (take i ?buf2)), drop i ?buf2)"
    using hw_blocks_correct [of CRC_SHORT ?buf2 ?e] by (auto simp: CRC_SHORT_def)
  let ?f = "foldl crc_byte ?e (take i ?buf2)" and ?buf3 = "drop i ?buf2"
  obtain h where h: "hw_words cpu ?buf3 (ucast ?f) = (ucast (foldl crc_byte ?f (take h ?buf3)), drop h ?buf3)"
    using hw_words_correct by blast
  show ?thesis
    unfolding crc32c_hw_def crc32c_spec_def prod.case not_xor Let_def k j i h hw_bytes_correct foldl_take_drop ucast_down ..
qed

end

section \<open>The checksum is the one that is defined\<close>

lemma crc32c_init_hw_tables: "crc32c_init_hw = Some (zeros_table CRC_LONG, zeros_table CRC_SHORT)"
  using crc32c_zeros_power [of 13] crc32c_zeros_power [of 8] by (simp add: crc32c_init_hw_def CRC_LONG_def CRC_SHORT_def)

definition crc_ready :: "crc_globals \<Rightarrow> bool" where
  "crc_ready g \<longleftrightarrow> (if sse42 g then crc32c_hw_tables g = (zeros_table CRC_LONG, zeros_table CRC_SHORT) else sw_table (crc32c_table g))"

lemma crc32c_global_init_ready:
  "table_shape 8 (crc32c_table g) \<Longrightarrow> \<exists>g'. crc32c_global_init ecx g = Some g' \<and> crc_ready g'"
  using crc32c_init_sw_table [of "crc32c_table g"]
  by (auto simp: crc32c_global_init_def crc_ready_def crc32c_init_hw_tables Let_def)

lemma crc32c_ready_spec:
  assumes "crc_instructions cpu" "crc_ready g"
  shows "crc32c cpu g crc next buf = crc32c_spec crc buf"
  using assms crc_instructions.crc32c_hw_spec [OF assms(1)] crc32c_sw_spec
  by (auto simp: crc32c_def crc_ready_def split: if_splits)

lemma crc32c_spec_append: "crc32c_spec (crc32c_spec crc a) b = crc32c_spec crc (a @ b)"
  by (simp add: crc32c_spec_def)

text \<open>C10: After \<open>crc32c_global_init\<close>, on a processor with or without SSE 4.2, \<open>crc32c\<close> returns the CRC-32C
  of the buffer as defined by shifting one bit at a time, for every buffer at every alignment: the
  eight tables of the software version and the two tables, the three parallel streams and the
  combination of their checksums by matrices over GF(2) in the hardware version change nothing. In
  particular both versions agree, and a checksum may be continued with the next buffer. No table and
  no matrix is read outside its bounds.\<close>

theorem crc32c_correct:
  assumes "crc_instructions cpu" "table_shape 8 (crc32c_table g)"
  shows "\<exists>g'. crc32c_global_init ecx g = Some g'
     \<and> (\<forall>crc next buf. crc32c cpu g' crc next buf = crc32c_spec crc buf)
     \<and> (\<forall>crc next buf next' buf'. crc32c cpu g' (crc32c cpu g' crc next buf) next' buf' = crc32c_spec crc (buf @ buf'))"
  using crc32c_global_init_ready [OF assms(2), of ecx] crc32c_ready_spec [OF assms(1)] crc32c_spec_append by metis

definition blank_globals :: crc_globals where
  "blank_globals = \<lparr>crc32c_table = replicate 8 (replicate 256 0), crc32c_hw_tables = ([], []), sse42 = False\<rparr>"

theorem crc32c_correct_witness:
  "\<exists>g'. crc32c_global_init 0x100000 blank_globals = Some g' \<and> crc32c sse42_unit g' 0 3 [0x31] = crc32c_spec 0 [0x31]"
proof -
  have "table_shape 8 (crc32c_table blank_globals)" by (simp add: table_shape_def blank_globals_def)
  from crc32c_correct [OF sse42_crc.crc_instructions_axioms this, of "0x100000"] show ?thesis by blast
qed

section \<open>Errors that are detected\<close>

lemma crc_shift_eq_0: "crc_shift z = 0 \<Longrightarrow> z = 0" for z :: "32 word"
proof -
  assume z: "crc_shift z = 0"
  have p: "bit (POLY :: 32 word) 31" by (simp add: POLY_def)
  have "\<not> bit z 0"
  proof
    assume "bit z 0"
    then have "bit (crc_shift z) 31" using p by (auto simp: crc_shift_alt bit_simps dest: bit_imp_le_length)
    then show False using z by simp
  qed
  then have "drop_bit 1 z = 0" using z by (simp add: crc_shift_alt)
  then have "bit z (Suc i) = False" for i using bit_drop_bit_eq [of 1 z] by (metis bit_0_eq bot2E bot_apply plus_1_eq_Suc bot_bool_def o_apply)
  then show "z = 0" using \<open>\<not> bit z 0\<close> by (metis bit_0_eq bit_eqI bot_apply bot_bool_def not0_implies_Suc)
qed

lemma crc_shifts_eq_0: "(crc_shift ^^ n) z = 0 \<Longrightarrow> z = 0" for z :: "32 word"
  by (induction n) (auto dest: crc_shift_eq_0)

lemma word_xor_eq_0: "x XOR y = 0 \<longleftrightarrow> x = y" for x y :: "'a::len word"
  by (metis xor.assoc xor.right_neutral xor_self_eq xor.left_neutral)

lemma word_xor_cancel: "x XOR y = y \<Longrightarrow> x = 0" for x y :: "'a::len word"
proof -
  assume "x XOR y = y"
  then have "(x XOR y) XOR y = 0" by simp
  then show "x = 0" by (simp add: xor.assoc)
qed

lemma foldl_crc_inj: "foldl crc_byte c bs = foldl crc_byte d bs \<longleftrightarrow> c = d"
proof
  assume e: "foldl crc_byte c bs = foldl crc_byte d bs"
  have "foldl crc_byte ((c XOR d) XOR d) bs = (crc_shift ^^ (8 * length bs)) (c XOR d) XOR foldl crc_byte d bs" by (rule foldl_crc_linear)
  then have "(crc_shift ^^ (8 * length bs)) (c XOR d) XOR foldl crc_byte d bs = foldl crc_byte d bs"
    using e by (simp add: xor.assoc)
  then have "(crc_shift ^^ (8 * length bs)) (c XOR d) = 0" by (rule word_xor_cancel)
  then show "c = d" using crc_shifts_eq_0 word_xor_eq_0 by blast
qed simp

lemma le_word_inj:
  assumes "length bs = length cs" "length bs \<le> 8" "(le_word bs :: 64 word) = le_word cs"
  shows "bs = cs"
  using assms le_word_nth by (metis nth_equalityI)

lemma foldl_crc_burst:
  assumes "length bs = length cs" "length bs \<le> 4" "foldl crc_byte c bs = foldl crc_byte c cs"
  shows "bs = cs"
proof -
  let ?n = "8 * length bs" and ?x = "le_word bs XOR le_word cs :: 64 word"
  have "(crc_shift ^^ ?n) (ucast c XOR le_word bs) = (crc_shift ^^ ?n) (ucast c XOR le_word cs :: 64 word)"
    using foldl_crc_byte [of bs c] foldl_crc_byte [of cs c] assms by simp
  then have "(crc_shift ^^ ?n) (ucast c XOR le_word bs) XOR (crc_shift ^^ ?n) (ucast c XOR le_word cs :: 64 word) = 0" by simp
  moreover have "(ucast c XOR le_word bs) XOR (ucast c XOR le_word cs) = ?x" by (intro bit_eqI) (auto simp: bit_simps)
  ultimately have z: "(crc_shift ^^ ?n) ?x = 0" by (simp only: crc_shifts_xor [symmetric])
  have "ucast (ucast ?x :: 32 word) = ?x"
    using assms(1,2) by (intro bit_eqI) (auto simp: bit_simps dest: le_word_bit bit_imp_le_length)
  then have "ucast ((crc_shift ^^ ?n) (ucast ?x :: 32 word)) = (0 :: 64 word)"
    using z crc_shifts_ucast [of ?n "ucast ?x :: 32 word"] by simp
  then have "(crc_shift ^^ ?n) (ucast ?x :: 32 word) = 0" using ucast_down by (metis ucast_0)
  then have "?x = 0" using crc_shifts_eq_0 \<open>ucast (ucast ?x :: 32 word) = ?x\<close> by (metis ucast_0)
  then have "(le_word bs :: 64 word) = le_word cs" by (simp only: word_xor_eq_0)
  then show ?thesis using le_word_inj [OF assms(1)] assms(2) by simp
qed



text \<open>\<open>crc32c_zeros_op\<close> computes the operator that appends zeros: for every length \<open>len\<close> it returns a
  matrix, and the product of this matrix and a checksum is the checksum after \<open>2 ^ k\<close> zero bytes,
  where \<open>2 ^ k\<close> is the largest power of two up to \<open>len\<close>, and one byte for the length 0.\<close>

theorem crc32c_zeros_op_correct:
  assumes "2 ^ k \<le> max 1 len" "len < 2 ^ Suc k"
  shows "\<exists>op. crc32c_zeros_op len = Some op
     \<and> (\<forall>crc. gf2_matrix_times op crc = Some (foldl crc_byte crc (replicate (2 ^ k) 0)))"
proof -
  have "(crc_shift ^^ (8 * n)) c = foldl crc_byte c (replicate n 0)" for n c
    by (induction n arbitrary: c) (simp_all add: crc_byte_def crc_shifts_add [symmetric] add.commute [of 8])
  then show ?thesis using crc32c_zeros_op_zeros [OF assms] gf2_matrix_times_zeros by simp
qed

theorem crc32c_zeros_op_correct_witness:
  "\<exists>op. crc32c_zeros_op 5 = Some op \<and> gf2_matrix_times op 7 = Some (foldl crc_byte 7 [0, 0, 0, 0])"
  using crc32c_zeros_op_correct [of 2 5] by (auto simp: numeral_eq_Suc)

end
