(* ===== verification/Msgqueue.thy ===== *)
theory Msgqueue
  imports Blocks
begin

text \<open>
  The message queue of \<open>src/src/kernel/msgqueue.c\<close>: two singly linked buffers of messages, one that is
  filled and one that is emptied, which are exchanged when the second has run empty.

  This theory has the data structure: \<open>head1\<close>, \<open>head2\<close> and the link fields of the messages are cells
  that hold the address of a link field or NULL; the pointers \<open>get_head\<close>, \<open>put_head\<close> and \<open>put_tail\<close>
  are the names of cells. The functions here are the sections that the source executes under a
  mutex, and the operations as they run when no other thread interferes; the theory
  \<open>Msgqueue_Threads\<close> runs the sections in any number of threads. \<open>msg_max\<close> and \<open>msg_cnt\<close> are of type
  \<open>size_t\<close>; \<open>msg_max - 1\<close> wraps around, and \<open>msg_cnt\<close> cannot, since it counts messages in memory.
\<close>

section \<open>The state\<close>

datatype cell = Head1 | Head2 | Link int

record msgqueue =
  msg_max :: nat
  msg_cnt :: nat
  linkoff :: int
  nonblock :: bool
  get_head :: cell
  put_head :: cell
  put_tail :: cell
  links :: "cell \<Rightarrow> int option"

text \<open>\<open>queue->msg_cnt > queue->msg_max - 1\<close>\<close>

definition queue_full :: "msgqueue \<Rightarrow> bool" where
  "queue_full q \<longleftrightarrow> msg_cnt q > (msg_max q + (2 ^ 64 - 1)) mod 2 ^ 64"

definition link_of :: "int \<Rightarrow> msgqueue \<Rightarrow> int" where
  "link_of msg q = msg + linkoff q"

section \<open>The sections under a mutex\<close>

definition clear_link :: "int \<Rightarrow> msgqueue \<Rightarrow> msgqueue" where
  "clear_link msg q = q\<lparr>links := (links q)(Link (link_of msg q) := None)\<rparr>"

definition put_section :: "int \<Rightarrow> msgqueue \<Rightarrow> msgqueue" where
  "put_section msg q =
     (let link = link_of msg q
      in q\<lparr>links := (links q)(put_tail q := Some link), put_tail := Link link, msg_cnt := Suc (msg_cnt q)\<rparr>)"

text \<open>\<open>msgqueue_put_head\<close>, in front of the messages to get.\<close>

definition push_get :: "int \<Rightarrow> msgqueue \<Rightarrow> msgqueue" where
  "push_get msg q =
     (let link = link_of msg q
      in q\<lparr>links := (links q)(Link link := links q (get_head q), get_head q := Some link)\<rparr>)"

text \<open>\<open>msgqueue_put_head\<close>, in front of the messages that were put.\<close>

definition push_put :: "int \<Rightarrow> msgqueue \<Rightarrow> msgqueue" where
  "push_put msg q =
     (let link = link_of msg q; first = links q (put_head q)
      in q\<lparr>links := (links q)(Link link := first, put_head q := Some link),
           put_tail := (if first = None then Link link else put_tail q), msg_cnt := Suc (msg_cnt q)\<rparr>)"

definition swap_section :: "msgqueue \<Rightarrow> nat \<times> msgqueue" where
  "swap_section q =
     (msg_cnt q, q\<lparr>get_head := put_head q, put_head := get_head q, put_tail := get_head q, msg_cnt := 0\<rparr>)"

text \<open>Taking the first message to get; \<open>None\<close> is the use of a NULL pointer.\<close>

definition take_first :: "msgqueue \<Rightarrow> (int \<times> msgqueue) option" where
  "take_first q =
     (case links q (get_head q) of
        None \<Rightarrow> None
      | Some link \<Rightarrow> Some (link - linkoff q, q\<lparr>links := (links q)(get_head q := links q (Link link))\<rparr>))"

section \<open>The operations\<close>

definition msgqueue_set_nonblock :: "msgqueue \<Rightarrow> msgqueue" where
  "msgqueue_set_nonblock q = q\<lparr>nonblock := True\<rparr>"

definition msgqueue_set_block :: "msgqueue \<Rightarrow> msgqueue" where
  "msgqueue_set_block q = q\<lparr>nonblock := False\<rparr>"

text \<open>An operation of a single thread; \<open>None\<close> when it would wait for another thread.\<close>

definition msgqueue_put :: "int \<Rightarrow> msgqueue \<Rightarrow> msgqueue option" where
  "msgqueue_put msg q =
     (let q = clear_link msg q in if queue_full q \<and> \<not> nonblock q then None else Some (put_section msg q))"

definition msgqueue_put_head :: "int \<Rightarrow> msgqueue \<Rightarrow> msgqueue option" where
  "msgqueue_put_head msg q =
     (if links q (get_head q) \<noteq> None then Some (push_get msg q)
      else if queue_full q \<and> \<not> nonblock q then None
      else Some (push_put msg q))"

definition msgqueue_swap :: "msgqueue \<Rightarrow> (nat \<times> msgqueue) option" where
  "msgqueue_swap q = (if msg_cnt q = 0 \<and> \<not> nonblock q then None else Some (swap_section q))"

text \<open>The message, or NULL as the inner \<open>None\<close>.\<close>

definition msgqueue_get :: "msgqueue \<Rightarrow> (int option \<times> msgqueue) option" where
  "msgqueue_get q =
     (if links q (get_head q) \<noteq> None then map_option (\<lambda>(msg, q). (Some msg, q)) (take_first q)
      else case msgqueue_swap q of
             None \<Rightarrow> None
           | Some (cnt, q) \<Rightarrow>
               if cnt > 0 then map_option (\<lambda>(msg, q). (Some msg, q)) (take_first q)
               else Some (None, q))"

section \<open>Creating and destroying\<close>

text \<open>The objects of the thread library. \<open>init_rets\<close> are the return codes of the next calls that
  initialise one (0 past its end).\<close>

datatype sync_obj = Mutex string | Cond string | Key

record sync_st =
  init_rets :: "int list"
  inited :: "sync_obj set"

definition sync_init :: "sync_obj \<Rightarrow> sync_st \<Rightarrow> int \<times> sync_st" where
  "sync_init obj st =
     (let ret = (case init_rets st of [] \<Rightarrow> 0 | r # _ \<Rightarrow> r); st = st\<lparr>init_rets := tl (init_rets st)\<rparr>
      in (ret, if ret = 0 then st\<lparr>inited := insert obj (inited st)\<rparr> else st))"

definition sync_destroy :: "sync_obj \<Rightarrow> sync_st \<Rightarrow> sync_st" where
  "sync_destroy obj st = st\<lparr>inited := inited st - {obj}\<rparr>"

definition new_queue :: "nat \<Rightarrow> int \<Rightarrow> msgqueue" where
  "new_queue maxlen off =
     \<lparr>msg_max = maxlen, msg_cnt = 0, linkoff = off, nonblock = False, get_head = Head1, put_head = Head2,
      put_tail = Head2, links = (\<lambda>_. None)\<rparr>"

text \<open>The result is the block of the queue and the queue, or \<open>errno\<close>, if it is set, and NULL.\<close>

definition msgqueue_create :: "nat \<Rightarrow> int \<Rightarrow> heap_st \<Rightarrow> sync_st
    \<Rightarrow> ((int option) + (addr \<times> msgqueue)) \<times> heap_st \<times> sync_st" where
  "msgqueue_create maxlen off h st =
     (case malloc h of
        (None, h) \<Rightarrow> (Inl None, h, st)
      | (Some a, h) \<Rightarrow>
          let (ret, st) = sync_init (Mutex ''get'') st
          in if ret = 0
             then let (ret, st) = sync_init (Mutex ''put'') st
                  in if ret = 0
                     then let (ret, st) = sync_init (Cond ''get'') st
                          in if ret = 0
                             then let (ret, st) = sync_init (Cond ''put'') st
                                  in if ret = 0 then (Inr (a, new_queue maxlen off), h, st)
                                     else (Inl (Some ret), free a h,
                                           sync_destroy (Mutex ''get'') (sync_destroy (Mutex ''put'') (sync_destroy (Cond ''get'') st)))
                             else (Inl (Some ret), free a h, sync_destroy (Mutex ''get'') (sync_destroy (Mutex ''put'') st))
                     else (Inl (Some ret), free a h, sync_destroy (Mutex ''get'') st)
             else (Inl (Some ret), free a h, st))"

definition msgqueue_destroy :: "addr \<Rightarrow> heap_st \<Rightarrow> sync_st \<Rightarrow> heap_st \<times> sync_st" where
  "msgqueue_destroy a h st =
     (free a h, sync_destroy (Mutex ''get'') (sync_destroy (Mutex ''put'') (sync_destroy (Cond ''get'') (sync_destroy (Cond ''put'') st))))"

section \<open>The two buffers\<close>

fun chain :: "(cell \<Rightarrow> int option) \<Rightarrow> cell \<Rightarrow> int list \<Rightarrow> bool" where
  "chain f c [] \<longleftrightarrow> f c = None"
| "chain f c (a # as) \<longleftrightarrow> f c = Some a \<and> chain f (Link a) as"

definition last_cell :: "cell \<Rightarrow> int list \<Rightarrow> cell" where
  "last_cell c as = (if as = [] then c else Link (last as))"

text \<open>\<open>buffers q gs ps\<close>: the links of the messages to get are \<open>gs\<close>, those of the messages that were put
  since the last exchange are \<open>ps\<close>.\<close>

definition buffers :: "msgqueue \<Rightarrow> int list \<Rightarrow> int list \<Rightarrow> bool" where
  "buffers q gs ps \<longleftrightarrow> chain (links q) (get_head q) gs \<and> chain (links q) (put_head q) ps \<and> distinct (gs @ ps)
     \<and> {get_head q, put_head q} = {Head1, Head2} \<and> put_tail q = last_cell (put_head q) ps \<and> msg_cnt q = length ps"

definition messages :: "msgqueue \<Rightarrow> int list \<Rightarrow> int list" where
  "messages q as = map (\<lambda>a. a - linkoff q) as"

lemma chain_cong: "chain f c as \<Longrightarrow> f c = g c \<Longrightarrow> (\<And>a. a \<in> set as \<Longrightarrow> f (Link a) = g (Link a)) \<Longrightarrow> chain g c as"
  by (induction as arbitrary: c) auto

lemma chain_upd: "d \<noteq> c \<Longrightarrow> d \<notin> Link ` set as \<Longrightarrow> chain (f(d := v)) c as \<longleftrightarrow> chain f c as"
  by (induction as arbitrary: c) auto

lemma chain_fun: "chain f c as \<Longrightarrow> chain f c bs \<Longrightarrow> as = bs"
  by (induction as arbitrary: c bs; case_tac bs) auto

lemma buffers_fun: "buffers q gs ps \<Longrightarrow> buffers q gs' ps' \<Longrightarrow> gs' = gs \<and> ps' = ps"
  using chain_fun unfolding buffers_def by blast

lemma buffers_heads:
  assumes "buffers q gs ps"
  shows "get_head q \<noteq> put_head q" "get_head q \<noteq> Link a" "put_head q \<noteq> Link a" "Link a \<noteq> get_head q" "Link a \<noteq> put_head q"
    "put_head q \<noteq> get_head q"
  using assms by (auto simp: buffers_def doubleton_eq_iff)

lemma chain_snoc:
  assumes "chain f c as" "distinct as" "a \<notin> set as" "c \<noteq> Link a" "c \<notin> Link ` set as" "f (Link a) = None"
  shows "chain (f(last_cell c as := Some a)) c (as @ [a])"
  using assms
proof (induction as arbitrary: c)
  case (Cons b as)
  have "last_cell c (b # as) = last_cell (Link b) as" by (simp add: last_cell_def)
  moreover have "last_cell (Link b) as \<noteq> c" using Cons.prems(5) by (cases as rule: rev_cases) (auto simp: last_cell_def)
  ultimately show ?case using Cons by auto
qed (simp add: last_cell_def)

lemma last_cell_snoc [simp]: "last_cell c (as @ [a]) = Link a"
  by (simp add: last_cell_def)

lemma last_cell_in: "last_cell c as \<in> insert c (Link ` set as)"
  by (cases as rule: rev_cases) (auto simp: last_cell_def)

lemma put_section_buffers:
  assumes b: "buffers q gs ps" and n: "link_of msg q \<notin> set (gs @ ps)" and z: "links q (Link (link_of msg q)) = None"
  shows "buffers (put_section msg q) gs (ps @ [link_of msg q])"
proof -
  note h = buffers_heads [OF b]
  let ?l = "link_of msg q"
  have c: "chain (links q) (get_head q) gs" "chain (links q) (put_head q) ps" "distinct (gs @ ps)" "put_tail q = last_cell (put_head q) ps"
    using b by (auto simp: buffers_def)
  have "chain ((links q)(put_tail q := Some ?l)) (put_head q) (ps @ [?l])"
    unfolding c(4) by (rule chain_snoc) (use c n z h in auto)
  moreover have "chain ((links q)(put_tail q := Some ?l)) (get_head q) gs"
    using c(1,3) h last_cell_in [of "put_head q" ps] unfolding c(4) by (subst chain_upd) auto
  ultimately show ?thesis using b n by (auto simp: buffers_def put_section_def Let_def)
qed

lemma chain_push:
  assumes "chain f c as" "a \<notin> set as" "c \<noteq> Link a"  "c \<notin> Link ` set as"
  shows "chain (f(Link a := f c, c := Some a)) c (a # as)"
proof (cases as)
  case (Cons b bs)
  then have "chain f (Link b) bs" "f c = Some b" using assms(1) by auto
  then show ?thesis using Cons assms by (auto simp: chain_upd image_iff)
qed (use assms in auto)

lemma push_get_buffers:
  assumes b: "buffers q gs ps" and n: "link_of msg q \<notin> set (gs @ ps)"
  shows "buffers (push_get msg q) (link_of msg q # gs) ps"
proof -
  note h = buffers_heads [OF b]
  let ?l = "link_of msg q" and ?f = "(links q)(Link (link_of msg q) := links q (get_head q), get_head q := Some (link_of msg q))"
  have c: "chain (links q) (get_head q) gs" "chain (links q) (put_head q) ps" "distinct (gs @ ps)"
    using b by (auto simp: buffers_def)
  have "chain ?f (get_head q) (?l # gs)" by (rule chain_push) (use c n h in auto)
  moreover have "chain ?f (put_head q) ps" using c(2) n h by (auto simp: chain_upd image_iff)
  ultimately show ?thesis using b n by (auto simp: buffers_def push_get_def Let_def)
qed

lemma push_put_buffers:
  assumes b: "buffers q gs ps" and n: "link_of msg q \<notin> set (gs @ ps)"
  shows "buffers (push_put msg q) gs (link_of msg q # ps)"
proof -
  note h = buffers_heads [OF b]
  let ?l = "link_of msg q" and ?f = "(links q)(Link (link_of msg q) := links q (put_head q), put_head q := Some (link_of msg q))"
  have c: "chain (links q) (get_head q) gs" "chain (links q) (put_head q) ps" "distinct (gs @ ps)" "put_tail q = last_cell (put_head q) ps"
    using b by (auto simp: buffers_def)
  have "chain ?f (put_head q) (?l # ps)" by (rule chain_push) (use c n h in auto)
  moreover have "chain ?f (get_head q) gs" using c(1) n h by (auto simp: chain_upd image_iff)
  moreover have "(if links q (put_head q) = None then Link ?l else put_tail q) = last_cell (put_head q) (?l # ps)"
    using c(2,4) by (cases ps) (auto simp: last_cell_def)
  ultimately show ?thesis using b n by (auto simp: buffers_def push_put_def Let_def)
qed

lemma swap_section_buffers:
  assumes "buffers q [] ps"
  shows "buffers (snd (swap_section q)) ps []" "fst (swap_section q) = length ps"
  using assms by (auto simp: buffers_def swap_section_def last_cell_def)

lemma take_first_buffers:
  assumes b: "buffers q (a # gs) ps"
  shows "\<exists>q'. take_first q = Some (a - linkoff q, q') \<and> buffers q' gs ps"
proof -
  note h = buffers_heads [OF b]
  have c: "links q (get_head q) = Some a" "chain (links q) (Link a) gs" "chain (links q) (put_head q) ps" "distinct (a # gs @ ps)"
    using b by (auto simp: buffers_def)
  have "chain ((links q)(get_head q := links q (Link a))) (get_head q) gs"
    using c(2) h by (cases gs) (auto simp: chain_upd image_iff)
  moreover have "chain ((links q)(get_head q := links q (Link a))) (put_head q) ps"
    using c(3) h by (auto simp: chain_upd image_iff)
  ultimately show ?thesis using b c(1) by (auto simp: take_first_def buffers_def)
qed

lemma buffers_get_head: "buffers q gs ps \<Longrightarrow> links q (get_head q) = None \<longleftrightarrow> gs = []"
  by (cases gs) (auto simp: buffers_def)

lemma clear_link_buffers:
  "buffers q gs ps \<Longrightarrow> link_of msg q \<notin> set (gs @ ps) \<Longrightarrow> buffers (clear_link msg q) gs ps"
  using buffers_heads [of q gs ps] by (auto simp: buffers_def clear_link_def chain_upd image_iff)

text \<open>The fields that an operation keeps.\<close>

lemma section_fields [simp]:
  "linkoff (put_section m q) = linkoff q" "linkoff (push_get m q) = linkoff q" "linkoff (push_put m q) = linkoff q"
  "linkoff (snd (swap_section q)) = linkoff q" "linkoff (clear_link m q) = linkoff q"
  "nonblock (put_section m q) = nonblock q" "nonblock (push_get m q) = nonblock q" "nonblock (push_put m q) = nonblock q"
  "nonblock (snd (swap_section q)) = nonblock q" "nonblock (clear_link m q) = nonblock q"
  "msg_max (put_section m q) = msg_max q" "msg_max (push_get m q) = msg_max q" "msg_max (push_put m q) = msg_max q"
  "msg_max (snd (swap_section q)) = msg_max q" "msg_max (clear_link m q) = msg_max q"
  "msg_cnt (put_section m q) = Suc (msg_cnt q)" "msg_cnt (push_get m q) = msg_cnt q" "msg_cnt (push_put m q) = Suc (msg_cnt q)"
  "msg_cnt (snd (swap_section q)) = 0" "msg_cnt (clear_link m q) = msg_cnt q"
  "link_of a (put_section m q) = link_of a q" "link_of a (push_get m q) = link_of a q" "link_of a (push_put m q) = link_of a q"
  "link_of a (snd (swap_section q)) = link_of a q" "link_of a (clear_link m q) = link_of a q"
  by (simp_all add: put_section_def push_get_def push_put_def swap_section_def clear_link_def Let_def link_of_def)

lemma take_first_fields:
  "take_first q = Some (m, q') \<Longrightarrow> linkoff q' = linkoff q \<and> nonblock q' = nonblock q \<and> msg_max q' = msg_max q \<and> msg_cnt q' = msg_cnt q
     \<and> link_of a q' = link_of a q"
  by (auto simp: take_first_def link_of_def split: option.splits)

section \<open>The queue as an interface\<close>

text \<open>What a client relies on that uses the queue from one thread at a time: \<open>contents q ms\<close> says that the
  messages in the queue are \<open>ms\<close>, \<open>roomy q\<close> that the number of messages is not limited.\<close>

locale message_queue =
  fixes put :: "'m \<Rightarrow> 'q \<Rightarrow> 'q option" and put_front :: "'m \<Rightarrow> 'q \<Rightarrow> 'q option"
    and get :: "'q \<Rightarrow> ('m option \<times> 'q) option"
    and contents :: "'q \<Rightarrow> 'm list \<Rightarrow> bool" and roomy :: "'q \<Rightarrow> bool" and nowait :: "'q \<Rightarrow> bool"
  assumes put: "contents q ms \<Longrightarrow> roomy q \<Longrightarrow> length ms < 2 ^ 64 \<Longrightarrow> m \<notin> set ms \<Longrightarrow>
      \<exists>q'. put m q = Some q' \<and> contents q' (ms @ [m]) \<and> roomy q' \<and> nowait q' = nowait q"
    and put_front: "contents q ms \<Longrightarrow> roomy q \<Longrightarrow> length ms < 2 ^ 64 \<Longrightarrow> m \<notin> set ms \<Longrightarrow>
      \<exists>q'. put_front m q = Some q' \<and> contents q' (m # ms) \<and> roomy q' \<and> nowait q' = nowait q"
    and get_first: "contents q (m # ms) \<Longrightarrow> \<exists>q'. get q = Some (Some m, q') \<and> contents q' ms \<and> roomy q' = roomy q \<and> nowait q' = nowait q"
    and get_none: "contents q [] \<Longrightarrow> nowait q \<Longrightarrow> \<exists>q'. get q = Some (None, q') \<and> contents q' [] \<and> roomy q' = roomy q \<and> nowait q'"
    and get_waits: "contents q [] \<Longrightarrow> \<not> nowait q \<Longrightarrow> get q = None"

text \<open>Putting all messages of a list, and getting messages until there is none.\<close>

fun put_all :: "('m \<Rightarrow> 'q \<Rightarrow> 'q option) \<Rightarrow> 'm list \<Rightarrow> 'q \<Rightarrow> 'q option" where
  "put_all put [] q = Some q"
| "put_all put (m # ms) q = (case put m q of None \<Rightarrow> None | Some q \<Rightarrow> put_all put ms q)"

partial_function (option) drain :: "('q \<Rightarrow> ('m option \<times> 'q) option) \<Rightarrow> 'q \<Rightarrow> ('m list \<times> 'q) option" where
  "drain get q =
     (case get q of
        None \<Rightarrow> None
      | Some (None, q) \<Rightarrow> Some ([], q)
      | Some (Some m, q) \<Rightarrow> Option.bind (drain get q) (\<lambda>(ms, q). Some (m # ms, q)))"

context message_queue
begin

lemma put_all_contents:
  "contents q xs \<Longrightarrow> roomy q \<Longrightarrow> distinct (xs @ ms) \<Longrightarrow> length xs + length ms < 2 ^ 64 \<Longrightarrow>
     \<exists>q'. put_all put ms q = Some q' \<and> contents q' (xs @ ms) \<and> roomy q' \<and> nowait q' = nowait q"
proof (induction ms arbitrary: q xs)
  case (Cons m ms)
  obtain q' where "put m q = Some q'" "contents q' (xs @ [m])" "roomy q'" "nowait q' = nowait q"
    using put [OF Cons.prems(1,2), of m] Cons.prems(3,4) by auto
  then show ?case using Cons.IH [of q' "xs @ [m]"] Cons.prems(3,4) by auto
qed simp

lemma drain_contents: "contents q ms \<Longrightarrow> nowait q \<Longrightarrow> \<exists>q'. drain get q = Some (ms, q') \<and> contents q' [] \<and> nowait q'"
proof (induction ms arbitrary: q)
  case Nil
  then show ?case using get_none [of q] by (subst drain.simps) auto
next
  case (Cons m ms)
  obtain q' where "get q = Some (Some m, q')" "contents q' ms" "nowait q'" using get_first [OF Cons.prems(1)] Cons.prems(2) by auto
  then show ?case using Cons.IH [of q'] by (subst drain.simps) auto
qed

end

definition queue_contents :: "msgqueue \<Rightarrow> int list \<Rightarrow> bool" where
  "queue_contents q ms \<longleftrightarrow> (\<exists>gs ps. buffers q gs ps \<and> messages q (gs @ ps) = ms)"

definition unlimited :: "msgqueue \<Rightarrow> bool" where
  "unlimited q \<longleftrightarrow> msg_max q = 0"

lemma link_in_messages: "m \<in> set (messages q as) \<longleftrightarrow> link_of m q \<in> set as"
  by (force simp: messages_def link_of_def)

lemma messages_cong: "linkoff q' = linkoff q \<Longrightarrow> messages q' as = messages q as"
  by (simp add: messages_def)

lemma messages_link [simp]: "messages q (link_of m q # as) = m # messages q as" "messages q (as @ bs) = messages q as @ messages q bs"
  "messages q [] = []"
  by (simp_all add: messages_def link_of_def)

lemma unlimited_room:
  assumes "buffers q gs ps" "unlimited q" "length ps < 2 ^ 64"
  shows "\<not> queue_full q"
  using assms by (auto simp: queue_full_def unlimited_def buffers_def)

lemma put_contents:
  assumes "queue_contents q ms" "unlimited q" "length ms < 2 ^ 64" "m \<notin> set ms"
  shows "\<exists>q'. msgqueue_put m q = Some q' \<and> queue_contents q' (ms @ [m]) \<and> unlimited q' \<and> nonblock q' = nonblock q"
proof -
  obtain gs ps where b: "buffers q gs ps" and ms: "messages q (gs @ ps) = ms" using assms(1) by (auto simp: queue_contents_def)
  let ?q = "clear_link m q"
  have n: "link_of m q \<notin> set (gs @ ps)" using assms(4) link_in_messages [of m q "gs @ ps"] unfolding ms by simp
  have b1: "buffers ?q gs ps" by (rule clear_link_buffers [OF b n])
  have len: "length ps < 2 ^ 64" using assms(3) ms by (auto simp: messages_def)
  then have f: "\<not> queue_full ?q" using unlimited_room [OF b1] assms(2) by (simp add: unlimited_def)
  have "buffers (put_section m ?q) gs (ps @ [link_of m q])"
    using put_section_buffers [OF b1, of m] n by (simp add: clear_link_def link_of_def)
  moreover have "messages (put_section m ?q) (gs @ ps @ [link_of m q]) = ms @ [m]"
    using ms messages_cong [of "put_section m ?q" q] by simp
  ultimately have "queue_contents (put_section m ?q) (ms @ [m])" unfolding queue_contents_def by blast
  then show ?thesis using f assms(2) by (simp add: msgqueue_put_def Let_def unlimited_def)
qed

lemma put_head_contents:
  assumes "queue_contents q ms" "unlimited q" "length ms < 2 ^ 64" "m \<notin> set ms"
  shows "\<exists>q'. msgqueue_put_head m q = Some q' \<and> queue_contents q' (m # ms) \<and> unlimited q' \<and> nonblock q' = nonblock q"
proof -
  obtain gs ps where b: "buffers q gs ps" and ms: "messages q (gs @ ps) = ms" using assms(1) by (auto simp: queue_contents_def)
  have n: "link_of m q \<notin> set (gs @ ps)" using assms(4) link_in_messages [of m q "gs @ ps"] unfolding ms by simp
  have len: "length ps < 2 ^ 64" using assms(3) ms by (auto simp: messages_def)
  then have f: "\<not> queue_full q" using unlimited_room [OF b assms(2)] by simp
  show ?thesis
  proof (cases "gs = []")
    case True
    have "messages (push_put m q) ([] @ link_of m q # ps) = m # ms" using ms True messages_cong [of "push_put m q" q] by simp
    then have "queue_contents (push_put m q) (m # ms)" using push_put_buffers [OF b n] True unfolding queue_contents_def by blast
    then show ?thesis using True f assms(2) buffers_get_head [OF b] by (simp add: msgqueue_put_head_def unlimited_def)
  next
    case False
    have "messages (push_get m q) ((link_of m q # gs) @ ps) = m # ms" using ms messages_cong [of "push_get m q" q] by simp
    then have "queue_contents (push_get m q) (m # ms)" using push_get_buffers [OF b n] unfolding queue_contents_def by blast
    then show ?thesis using False assms(2) buffers_get_head [OF b] by (simp add: msgqueue_put_head_def unlimited_def)
  qed
qed

lemma take_first_contents:
  assumes "buffers q (a # gs) ps"
  shows "\<exists>q'. take_first q = Some (a - linkoff q, q') \<and> queue_contents q' (messages q (gs @ ps)) \<and> unlimited q' = unlimited q
     \<and> nonblock q' = nonblock q"
proof -
  obtain q' where t: "take_first q = Some (a - linkoff q, q')" "buffers q' gs ps" using take_first_buffers [OF assms] by blast
  then show ?thesis using take_first_fields [OF t(1)] messages_cong [of q' q]
    by (auto simp: queue_contents_def unlimited_def)
qed

lemma get_contents:
  assumes "queue_contents q (m # ms)"
  shows "\<exists>q'. msgqueue_get q = Some (Some m, q') \<and> queue_contents q' ms \<and> unlimited q' = unlimited q \<and> nonblock q' = nonblock q"
proof -
  obtain gs ps where b: "buffers q gs ps" and ms: "messages q (gs @ ps) = m # ms" using assms by (auto simp: queue_contents_def)
  show ?thesis
  proof (cases gs)
    case (Cons a gs')
    then show ?thesis using take_first_contents [of q a gs' ps] b ms buffers_get_head [OF b]
      by (auto simp: msgqueue_get_def messages_def)
  next
    case Nil
    then obtain a ps' where ps: "ps = a # ps'" using ms by (cases ps) auto
    have s: "buffers (snd (swap_section q)) ps []" "fst (swap_section q) = length ps" using swap_section_buffers b Nil by auto
    have "msg_cnt q \<noteq> 0" using b ps by (simp add: buffers_def)
    then have "msgqueue_swap q = Some (swap_section q)" by (simp add: msgqueue_swap_def)
    then show ?thesis using take_first_contents [of "snd (swap_section q)" a ps' "[]"] s ps ms Nil buffers_get_head [OF b]
      by (cases "swap_section q") (auto simp: msgqueue_get_def messages_def swap_section_def unlimited_def)
  qed
qed

lemma get_empty_contents:
  assumes "queue_contents q []"
  shows "nonblock q \<Longrightarrow> \<exists>q'. msgqueue_get q = Some (None, q') \<and> queue_contents q' [] \<and> unlimited q' = unlimited q \<and> nonblock q'"
    and "\<not> nonblock q \<Longrightarrow> msgqueue_get q = None"
proof -
  have b: "buffers q [] []" using assms by (auto simp: queue_contents_def messages_def)
  have s: "buffers (snd (swap_section q)) [] []" using swap_section_buffers [OF b] by simp
  then have "queue_contents (snd (swap_section q)) []" by (force simp: queue_contents_def messages_def)
  then show "nonblock q \<Longrightarrow> \<exists>q'. msgqueue_get q = Some (None, q') \<and> queue_contents q' [] \<and> unlimited q' = unlimited q \<and> nonblock q'"
    and "\<not> nonblock q \<Longrightarrow> msgqueue_get q = None"
    using b by (auto simp: msgqueue_get_def msgqueue_swap_def swap_section_def buffers_def unlimited_def)
qed

interpretation mq: message_queue msgqueue_put msgqueue_put_head msgqueue_get queue_contents unlimited nonblock
  by unfold_locales (rule put_contents put_head_contents get_contents get_empty_contents; assumption)+

section \<open>No leaks when a queue cannot be created\<close>

definition queue_objs :: "sync_obj set" where
  "queue_objs = {Mutex ''get'', Mutex ''put'', Cond ''get'', Cond ''put''}"

lemma new_queue_contents: "queue_contents (new_queue n off) []"
  unfolding queue_contents_def messages_def
  by (intro exI [of _ "[]"]) (auto simp: buffers_def new_queue_def last_cell_def)

lemma sync_init_cases:
  obtains st' where "sync_init obj st = (0, st')" "inited st' = insert obj (inited st)"
  | r st' where "sync_init obj st = (r, st')" "r \<noteq> 0" "inited st' = inited st"
proof (cases "fst (sync_init obj st) = 0")
  case True
  then have "sync_init obj st = (0, snd (sync_init obj st))" "inited (snd (sync_init obj st)) = insert obj (inited st)"
    by (auto simp: sync_init_def Let_def prod_eq_iff)
  then show ?thesis by (rule that(1))
next
  case False
  then have "sync_init obj st = (fst (sync_init obj st), snd (sync_init obj st))" "inited (snd (sync_init obj st)) = inited st"
    by (auto simp: sync_init_def Let_def)
  then show ?thesis using False that(2) by blast
qed

lemma inited_destroy [simp]: "inited (sync_destroy obj st) = inited st - {obj}"
  by (simp add: sync_destroy_def)



end
