(* ===== verification/Msgqueue_Threads.thy ===== *)
theory Msgqueue_Threads
  imports Msgqueue
begin

text \<open>
  The message queue used by any number of threads. A thread is at a program point of one of the
  functions of \<open>msgqueue.c\<close>; a step is the code up to the next point where it locks a mutex, waits
  or returns. Between two such points the code only touches data that the mutexes it holds protect,
  or reads one pointer (\<open>while ( *queue->get_head)\<close> in \<open>msgqueue_put_head\<close>), so that finer steps would
  show nothing more.

  Waiting on a condition variable releases the mutex; a signal lets one waiting thread continue, a
  broadcast all, and a thread may also wake up without reason. A thread that woke up has to lock the
  mutex again before it tests the condition again.
\<close>

section \<open>Threads\<close>

datatype mq_pc =
    Idle
  | Put_Lock int | Put_Test int | Put_Wait int | Put_Relock int
  | Signal_Get
  | Head_Lock int | Head_Test int | Head_Try int | Head_Push int | Head_Full int | Head_Wait int | Head_Relock int
  | Get_Lock | Get_Test | Swap_Lock | Swap_Test | Swap_Wait | Swap_Relock | Swap_Done nat
  | Nonblock_Lock | Nonblock_Signal
  | Crashed

record mq_sys =
  queue :: msgqueue
  pcs :: "nat \<Rightarrow> mq_pc"
  get_mutex :: "nat option"
  put_mutex :: "nat option"

text \<open>The message that a thread is about to put.\<close>

fun in_flight :: "mq_pc \<Rightarrow> int option" where
  "in_flight (Put_Lock m) = Some m" | "in_flight (Put_Test m) = Some m" | "in_flight (Put_Wait m) = Some m"
| "in_flight (Put_Relock m) = Some m" | "in_flight (Head_Lock m) = Some m" | "in_flight (Head_Test m) = Some m"
| "in_flight (Head_Try m) = Some m" | "in_flight (Head_Push m) = Some m" | "in_flight (Head_Full m) = Some m"
| "in_flight (Head_Wait m) = Some m" | "in_flight (Head_Relock m) = Some m" | "in_flight _ = None"

text \<open>A message that is neither in the queue nor about to be put: only such a message may be given to
  \<open>msgqueue_put\<close> or \<open>msgqueue_put_head\<close>.\<close>

definition unused :: "int \<Rightarrow> mq_sys \<Rightarrow> bool" where
  "unused m s \<longleftrightarrow> (\<forall>t. in_flight (pcs s t) \<noteq> Some m) \<and> (\<forall>ms. queue_contents (queue s) ms \<longrightarrow> m \<notin> set ms)"

definition goto :: "nat \<Rightarrow> mq_pc \<Rightarrow> mq_sys \<Rightarrow> mq_sys" where
  "goto t p s = s\<lparr>pcs := (pcs s)(t := p)\<rparr>"

text \<open>\<open>pthread_cond_broadcast(&queue->put_cond)\<close>\<close>

fun wake_put :: "mq_pc \<Rightarrow> mq_pc" where
  "wake_put (Put_Wait m) = Put_Relock m"
| "wake_put (Head_Wait m) = Head_Relock m"
| "wake_put p = p"

definition broadcast_put :: "mq_sys \<Rightarrow> mq_sys" where
  "broadcast_put s = s\<lparr>pcs := wake_put \<circ> pcs s\<rparr>"

text \<open>\<open>pthread_cond_signal(&queue->get_cond)\<close>: one waiting thread, if there is one.\<close>

inductive signal_get :: "mq_sys \<Rightarrow> mq_sys \<Rightarrow> bool" where
  signal_one: "pcs s u = Swap_Wait \<Longrightarrow> signal_get s (goto u Swap_Relock s)"
| signal_none: "(\<And>u. pcs s u \<noteq> Swap_Wait) \<Longrightarrow> signal_get s s"

section \<open>Steps\<close>

text \<open>What a step does to the queue.\<close>

datatype mq_label =
    Call | Call_Nonblock | Tau | Spurious
  | Enq int | Push_Get int | Push_Put int | Swap | Deq int | Empty

definition blocked :: "msgqueue \<Rightarrow> bool" where
  "blocked q \<longleftrightarrow> queue_full q \<and> \<not> nonblock q"

text \<open>Taking a message at the end of \<open>msgqueue_get\<close>, with the mutex released.\<close>

definition finish_get :: "nat \<Rightarrow> mq_sys \<Rightarrow> mq_label \<times> mq_sys" where
  "finish_get t s =
     (case take_first (queue s) of
        None \<Rightarrow> (Tau, goto t Crashed s)
      | Some (m, q) \<Rightarrow> (Deq m, goto t Idle (s\<lparr>queue := q, get_mutex := None\<rparr>)))"

definition finish_swap :: "nat \<Rightarrow> mq_sys \<Rightarrow> mq_sys" where
  "finish_swap t s =
     (let (cnt, q) = swap_section (queue s)
      in goto t (Swap_Done cnt)
           ((if queue_full (queue s) then broadcast_put s else s)\<lparr>queue := q, put_mutex := None\<rparr>))"

inductive mq_step :: "nat \<Rightarrow> mq_label \<Rightarrow> mq_sys \<Rightarrow> mq_sys \<Rightarrow> bool" where
  \<comment> \<open>\<open>msgqueue_put\<close>\<close>
  call_put: "pcs s t = Idle \<Longrightarrow> unused m s \<Longrightarrow> mq_step t Call s (goto t (Put_Lock m) (s\<lparr>queue := clear_link m (queue s)\<rparr>))"
| put_lock: "pcs s t \<in> {Put_Lock m, Put_Relock m} \<Longrightarrow> put_mutex s = None \<Longrightarrow> mq_step t Tau s (goto t (Put_Test m) (s\<lparr>put_mutex := Some t\<rparr>))"
| put_wait: "pcs s t = Put_Test m \<Longrightarrow> blocked (queue s) \<Longrightarrow> mq_step t Tau s (goto t (Put_Wait m) (s\<lparr>put_mutex := None\<rparr>))"
| put_store: "pcs s t = Put_Test m \<Longrightarrow> \<not> blocked (queue s) \<Longrightarrow>
    mq_step t (Enq m) s (goto t Signal_Get (s\<lparr>queue := put_section m (queue s), put_mutex := None\<rparr>))"
| put_signal: "pcs s t = Signal_Get \<Longrightarrow> signal_get s s' \<Longrightarrow> mq_step t Tau s (goto t Idle s')"
  \<comment> \<open>\<open>msgqueue_put_head\<close>\<close>
| call_put_head: "pcs s t = Idle \<Longrightarrow> unused m s \<Longrightarrow> mq_step t Call s (goto t (Head_Lock m) s)"
| head_lock: "pcs s t = Head_Lock m \<Longrightarrow> put_mutex s = None \<Longrightarrow> mq_step t Tau s (goto t (Head_Test m) (s\<lparr>put_mutex := Some t\<rparr>))"
| head_some: "pcs s t = Head_Test m \<Longrightarrow> links (queue s) (get_head (queue s)) \<noteq> None \<Longrightarrow> mq_step t Tau s (goto t (Head_Try m) s)"
| head_none: "pcs s t = Head_Test m \<Longrightarrow> links (queue s) (get_head (queue s)) = None \<Longrightarrow> mq_step t Tau s (goto t (Head_Full m) s)"
| head_try: "pcs s t = Head_Try m \<Longrightarrow> get_mutex s = None \<Longrightarrow>
    mq_step t Tau s (goto t (Head_Push m) (s\<lparr>get_mutex := Some t, put_mutex := None\<rparr>))"
| head_again: "pcs s t = Head_Try m \<Longrightarrow> get_mutex s \<noteq> None \<Longrightarrow> mq_step t Tau s (goto t (Head_Test m) s)"
| head_push: "pcs s t = Head_Push m \<Longrightarrow>
    mq_step t (Push_Get m) s (goto t Idle (s\<lparr>queue := push_get m (queue s), get_mutex := None\<rparr>))"
| head_wait: "pcs s t = Head_Full m \<Longrightarrow> blocked (queue s) \<Longrightarrow> mq_step t Tau s (goto t (Head_Wait m) (s\<lparr>put_mutex := None\<rparr>))"
| head_relock: "pcs s t = Head_Relock m \<Longrightarrow> put_mutex s = None \<Longrightarrow> mq_step t Tau s (goto t (Head_Full m) (s\<lparr>put_mutex := Some t\<rparr>))"
| head_store: "pcs s t = Head_Full m \<Longrightarrow> \<not> blocked (queue s) \<Longrightarrow>
    mq_step t (Push_Put m) s (goto t Signal_Get (s\<lparr>queue := push_put m (queue s), put_mutex := None\<rparr>))"
  \<comment> \<open>\<open>msgqueue_get\<close> and \<open>__msgqueue_swap\<close>\<close>
| call_get: "pcs s t = Idle \<Longrightarrow> mq_step t Call s (goto t Get_Lock s)"
| get_lock: "pcs s t = Get_Lock \<Longrightarrow> get_mutex s = None \<Longrightarrow> mq_step t Tau s (goto t Get_Test (s\<lparr>get_mutex := Some t\<rparr>))"
| get_some: "pcs s t = Get_Test \<Longrightarrow> links (queue s) (get_head (queue s)) \<noteq> None \<Longrightarrow> finish_get t s = (l, s') \<Longrightarrow> mq_step t l s s'"
| get_none: "pcs s t = Get_Test \<Longrightarrow> links (queue s) (get_head (queue s)) = None \<Longrightarrow> mq_step t Tau s (goto t Swap_Lock s)"
| swap_lock: "pcs s t \<in> {Swap_Lock, Swap_Relock} \<Longrightarrow> put_mutex s = None \<Longrightarrow> mq_step t Tau s (goto t Swap_Test (s\<lparr>put_mutex := Some t\<rparr>))"
| swap_wait: "pcs s t = Swap_Test \<Longrightarrow> msg_cnt (queue s) = 0 \<and> \<not> nonblock (queue s) \<Longrightarrow>
    mq_step t Tau s (goto t Swap_Wait (s\<lparr>put_mutex := None\<rparr>))"
| swap_do: "pcs s t = Swap_Test \<Longrightarrow> \<not> (msg_cnt (queue s) = 0 \<and> \<not> nonblock (queue s)) \<Longrightarrow>
    mq_step t (if msg_cnt (queue s) = 0 then Empty else Swap) s (finish_swap t s)"
| swap_some: "pcs s t = Swap_Done cnt \<Longrightarrow> cnt > 0 \<Longrightarrow> finish_get t s = (l, s') \<Longrightarrow> mq_step t l s s'"
| swap_none: "pcs s t = Swap_Done 0 \<Longrightarrow> mq_step t Tau s (goto t Idle (s\<lparr>get_mutex := None\<rparr>))"
  \<comment> \<open>\<open>msgqueue_set_nonblock\<close> and \<open>msgqueue_set_block\<close>\<close>
| call_nonblock: "pcs s t = Idle \<Longrightarrow>
    mq_step t Call_Nonblock s (goto t Nonblock_Lock (s\<lparr>queue := msgqueue_set_nonblock (queue s)\<rparr>))"
| nonblock_lock: "pcs s t = Nonblock_Lock \<Longrightarrow> put_mutex s = None \<Longrightarrow>
    mq_step t Tau s (goto t Nonblock_Signal (s\<lparr>put_mutex := Some t\<rparr>))"
| nonblock_signal: "pcs s t = Nonblock_Signal \<Longrightarrow> signal_get s s' \<Longrightarrow>
    mq_step t Tau s (goto t Idle ((broadcast_put s')\<lparr>put_mutex := None\<rparr>))"
| call_block: "pcs s t = Idle \<Longrightarrow> mq_step t Call s (s\<lparr>queue := msgqueue_set_block (queue s)\<rparr>)"
  \<comment> \<open>waking up without a signal\<close>
| spurious_put: "pcs s t \<in> {Put_Wait m, Head_Wait m} \<Longrightarrow> mq_step t Spurious s (goto t (wake_put (pcs s t)) s)"
| spurious_get: "pcs s t = Swap_Wait \<Longrightarrow> mq_step t Spurious s (goto t Swap_Relock s)"

definition mq_init :: "nat \<Rightarrow> int \<Rightarrow> mq_sys" where
  "mq_init maxlen off = \<lparr>queue = new_queue maxlen off, pcs = (\<lambda>_. Idle), get_mutex = None, put_mutex = None\<rparr>"

inductive mq_run :: "mq_sys \<Rightarrow> mq_label list \<Rightarrow> mq_sys \<Rightarrow> bool" where
  run_nil: "mq_run s [] s"
| run_step: "mq_run s ls s1 \<Longrightarrow> mq_step t l s1 s2 \<Longrightarrow> mq_run s (ls @ [l]) s2"

section \<open>The abstract queue\<close>

text \<open>Two lists of messages: those that have passed to the getting side and those that have not. The next
  message is the first of the first list.\<close>

fun fifo_step :: "mq_label \<Rightarrow> int list \<times> int list \<Rightarrow> (int list \<times> int list) option" where
  "fifo_step (Enq m) (g, p) = Some (g, p @ [m])"
| "fifo_step (Push_Get m) (g, p) = Some (m # g, p)"
| "fifo_step (Push_Put m) (g, p) = Some (g, m # p)"
| "fifo_step Swap (g, p) = (if g = [] \<and> p \<noteq> [] then Some (p, []) else None)"
| "fifo_step (Deq m) (g, p) = (case g of [] \<Rightarrow> None | a # g \<Rightarrow> if a = m then Some (g, p) else None)"
| "fifo_step Empty (g, p) = (if g = [] \<and> p = [] then Some ([], []) else None)"
| "fifo_step _ gp = Some gp"

fun fifo_run :: "mq_label list \<Rightarrow> int list \<times> int list \<Rightarrow> (int list \<times> int list) option" where
  "fifo_run [] gp = Some gp"
| "fifo_run (l # ls) gp = (case fifo_step l gp of None \<Rightarrow> None | Some gp \<Rightarrow> fifo_run ls gp)"

section \<open>Mutual exclusion\<close>

fun holds_get :: "mq_pc \<Rightarrow> bool" where
  "holds_get (Head_Push m) = True" | "holds_get Get_Test = True" | "holds_get Swap_Lock = True" | "holds_get Swap_Test = True"
| "holds_get Swap_Wait = True" | "holds_get Swap_Relock = True" | "holds_get (Swap_Done n) = True" | "holds_get _ = False"

fun holds_put :: "mq_pc \<Rightarrow> bool" where
  "holds_put (Put_Test m) = True" | "holds_put (Head_Test m) = True" | "holds_put (Head_Try m) = True" | "holds_put (Head_Full m) = True"
| "holds_put Swap_Test = True" | "holds_put Nonblock_Signal = True" | "holds_put _ = False"

definition locks_ok :: "mq_sys \<Rightarrow> bool" where
  "locks_ok s \<longleftrightarrow> (\<forall>t. (holds_get (pcs s t) \<longleftrightarrow> get_mutex s = Some t) \<and> (holds_put (pcs s t) \<longleftrightarrow> put_mutex s = Some t)
     \<and> pcs s t \<noteq> Crashed)"

lemma goto_simps [simp]:
  "pcs (goto t p s) = (pcs s)(t := p)" "queue (goto t p s) = queue s" "get_mutex (goto t p s) = get_mutex s"
  "put_mutex (goto t p s) = put_mutex s"
  by (simp_all add: goto_def)

lemma broadcast_simps [simp]:
  "pcs (broadcast_put s) = wake_put \<circ> pcs s" "queue (broadcast_put s) = queue s" "get_mutex (broadcast_put s) = get_mutex s"
  "put_mutex (broadcast_put s) = put_mutex s"
  by (simp_all add: broadcast_put_def)

lemma wake_put_simps [simp]:
  "holds_get (wake_put p) = holds_get p" "holds_put (wake_put p) = holds_put p" "in_flight (wake_put p) = in_flight p"
  "wake_put p = Crashed \<longleftrightarrow> p = Crashed" "wake_put p = Swap_Wait \<longleftrightarrow> p = Swap_Wait" "wake_put p = Signal_Get \<longleftrightarrow> p = Signal_Get"
  "wake_put p = Swap_Lock \<longleftrightarrow> p = Swap_Lock" "wake_put p = Swap_Test \<longleftrightarrow> p = Swap_Test" "wake_put p = Swap_Relock \<longleftrightarrow> p = Swap_Relock"
  "wake_put p = Swap_Done n \<longleftrightarrow> p = Swap_Done n" "wake_put p = Nonblock_Lock \<longleftrightarrow> p = Nonblock_Lock" "wake_put p = Nonblock_Signal \<longleftrightarrow> p = Nonblock_Signal"
  "wake_put p = Get_Test \<longleftrightarrow> p = Get_Test" "wake_put p \<noteq> Put_Wait m" "wake_put p \<noteq> Head_Wait m"
  by (cases p; simp)+

lemma finish_swap_simps [simp]:
  "queue (finish_swap t s) = snd (swap_section (queue s))" "get_mutex (finish_swap t s) = get_mutex s" "put_mutex (finish_swap t s) = None"
  "pcs (finish_swap t s) = ((if queue_full (queue s) then wake_put else id) \<circ> pcs s)(t := Swap_Done (msg_cnt (queue s)))"
  by (auto simp: finish_swap_def swap_section_def)

lemma finish_get_ok:
  assumes "take_first (queue s) \<noteq> None" "finish_get t s = (l, s')"
  obtains m q where "take_first (queue s) = Some (m, q)" "l = Deq m" "s' = goto t Idle (s\<lparr>queue := q, get_mutex := None\<rparr>)"
  using assms by (auto simp: finish_get_def split: option.splits prod.splits)

text \<open>A signal wakes at most one waiting thread.\<close>

lemma signal_get_cases:
  assumes "signal_get s s'"
  obtains "s' = s" "\<And>u. pcs s u \<noteq> Swap_Wait"
  | u where "s' = goto u Swap_Relock s" "pcs s u = Swap_Wait"
  using assms by cases auto

section \<open>The invariant of the queue\<close>

fun empty_side :: "mq_pc \<Rightarrow> bool" where
  "empty_side Swap_Lock = True" | "empty_side Swap_Test = True" | "empty_side Swap_Wait = True" | "empty_side Swap_Relock = True"
| "empty_side _ = False"

fun cleared :: "mq_pc \<Rightarrow> int option" where
  "cleared (Put_Lock m) = Some m" | "cleared (Put_Test m) = Some m" | "cleared (Put_Wait m) = Some m"
| "cleared (Put_Relock m) = Some m" | "cleared _ = None"

lemma wake_put_more [simp]: "empty_side (wake_put p) = empty_side p" "cleared (wake_put p) = cleared p"
  by (cases p; simp)+

lemma cleared_in_flight: "cleared p = Some m \<Longrightarrow> in_flight p = Some m"
  by (cases p) auto

definition data_ok :: "mq_sys \<Rightarrow> int list \<Rightarrow> int list \<Rightarrow> bool" where
  "data_ok s gs ps \<longleftrightarrow> buffers (queue s) gs ps
     \<and> (\<forall>t m. in_flight (pcs s t) = Some m \<longrightarrow> link_of m (queue s) \<notin> set (gs @ ps))
     \<and> (\<forall>t u m. in_flight (pcs s t) = Some m \<longrightarrow> in_flight (pcs s u) = Some m \<longrightarrow> t = u)
     \<and> (\<forall>t m. cleared (pcs s t) = Some m \<longrightarrow> links (queue s) (Link (link_of m (queue s))) = None)
     \<and> (\<forall>t. empty_side (pcs s t) \<longrightarrow> gs = [])
     \<and> (\<forall>t n. pcs s t = Swap_Done n \<longrightarrow> length gs = n)"

definition mq_inv :: "mq_sys \<Rightarrow> bool" where
  "mq_inv s \<longleftrightarrow> locks_ok s \<and> (\<exists>gs ps. data_ok s gs ps)"

text \<open>A thread that moves on may keep, release or take a mutex.\<close>

definition lock_move :: "nat \<Rightarrow> bool \<Rightarrow> bool \<Rightarrow> nat option \<Rightarrow> nat option \<Rightarrow> bool" where
  "lock_move t before after m m' \<longleftrightarrow> m' = m \<and> before = after \<or> before \<and> \<not> after \<and> m' = None \<or> m = None \<and> after \<and> m' = Some t"

lemma locks_ok_goto:
  assumes "locks_ok s" "lock_move t (holds_get (pcs s t)) (holds_get p) (get_mutex s) (get_mutex s')"
    "lock_move t (holds_put (pcs s t)) (holds_put p) (put_mutex s) (put_mutex s')" "p \<noteq> Crashed" "pcs s' = (pcs s)(t := p)"
  shows "locks_ok s'"
  unfolding locks_ok_def
proof
  fix u
  have u: "holds_get (pcs s u) \<longleftrightarrow> get_mutex s = Some u" "holds_put (pcs s u) \<longleftrightarrow> put_mutex s = Some u" "pcs s u \<noteq> Crashed"
    and t: "holds_get (pcs s t) \<longleftrightarrow> get_mutex s = Some t" "holds_put (pcs s t) \<longleftrightarrow> put_mutex s = Some t"
    using assms(1) unfolding locks_ok_def by blast+
  show "(holds_get (pcs s' u) \<longleftrightarrow> get_mutex s' = Some u) \<and> (holds_put (pcs s' u) \<longleftrightarrow> put_mutex s' = Some u) \<and> pcs s' u \<noteq> Crashed"
  proof (cases "u = t")
    case True
    then show ?thesis using assms(2-5) t unfolding lock_move_def by auto
  next
    case False
    then show ?thesis using assms(2,3,5) t u unfolding lock_move_def by auto
  qed
qed

lemma locks_ok_broadcast [simp]: "locks_ok (broadcast_put s) = locks_ok s"
  by (simp add: locks_ok_def)

lemma locks_ok_signal:
  assumes "signal_get s s'" "locks_ok s" "pcs s t \<noteq> Swap_Wait"
  shows "locks_ok s'" "pcs s' t = pcs s t" "get_mutex s' = get_mutex s" "put_mutex s' = put_mutex s" "queue s' = queue s"
proof -
  from assms(1) show "locks_ok s'"
  proof (cases rule: signal_get_cases)
    case (2 u)
    then show ?thesis by (intro locks_ok_goto [OF assms(2), of u Swap_Relock]) (simp_all add: lock_move_def)
  qed (use assms(2) in simp)
qed (use assms in \<open>auto elim: signal_get_cases\<close>)

lemma locks_ok_step:
  assumes "mq_step t l s s'" "locks_ok s" "pcs s' t \<noteq> Crashed"
  shows "locks_ok s'"
  using assms(1)
proof cases
  case (put_signal s1)
  note s1 = locks_ok_signal [OF put_signal(4) assms(2), of t]
  show ?thesis by (rule locks_ok_goto [of s1 t Idle]) (use put_signal s1 in \<open>simp_all add: lock_move_def\<close>)
next
  case (nonblock_signal s1)
  note s1 = locks_ok_signal [OF nonblock_signal(4) assms(2), of t]
  show ?thesis by (rule locks_ok_goto [of "broadcast_put s1" t Idle]) (use nonblock_signal s1 in \<open>simp_all add: lock_move_def\<close>)
next
  case get_some
  have "take_first (queue s) \<noteq> None" using get_some assms(3) by (auto simp: finish_get_def split: option.splits)
  then obtain m q where "s' = goto t Idle (s\<lparr>queue := q, get_mutex := None\<rparr>)" using get_some by (elim finish_get_ok) auto
  then show ?thesis by (intro locks_ok_goto [OF assms(2), of t Idle]) (use get_some in \<open>simp_all add: lock_move_def\<close>)
next
  case (swap_some n)
  have "take_first (queue s) \<noteq> None" using swap_some assms(3) by (auto simp: finish_get_def split: option.splits)
  then obtain m q where "s' = goto t Idle (s\<lparr>queue := q, get_mutex := None\<rparr>)" using swap_some by (elim finish_get_ok) auto
  then show ?thesis by (intro locks_ok_goto [OF assms(2), of t Idle]) (use swap_some in \<open>simp_all add: lock_move_def\<close>)
next
  case swap_do
  let ?s = "if queue_full (queue s) then broadcast_put s else s"
  show ?thesis by (rule locks_ok_goto [of ?s t "Swap_Done (msg_cnt (queue s))"]) (use swap_do assms(2) in \<open>auto simp: lock_move_def\<close>)
next
  case call_block
  then show ?thesis using assms(2) by (simp add: locks_ok_def)
qed (rule locks_ok_goto [OF assms(2), of t]; auto simp: lock_move_def)+

lemma data_okD:
  assumes "data_ok s gs ps"
  shows "buffers (queue s) gs ps" "\<And>t m. in_flight (pcs s t) = Some m \<Longrightarrow> link_of m (queue s) \<notin> set (gs @ ps)"
    "\<And>t m. cleared (pcs s t) = Some m \<Longrightarrow> links (queue s) (Link (link_of m (queue s))) = None"
    "\<And>t. empty_side (pcs s t) \<Longrightarrow> gs = []" "\<And>t n. pcs s t = Swap_Done n \<Longrightarrow> length gs = n"
  using assms unfolding data_ok_def by blast+

lemma unused_link:
  assumes "data_ok s gs ps" "unused m s"
  shows "link_of m (queue s) \<notin> set (gs @ ps)" "in_flight (pcs s v) \<noteq> Some m"
proof -
  have "queue_contents (queue s) (messages (queue s) (gs @ ps))"
    using data_okD(1) [OF assms(1)] unfolding queue_contents_def by blast
  then have "m \<notin> set (messages (queue s) (gs @ ps))" using assms(2) unfolding unused_def by blast
  then show "link_of m (queue s) \<notin> set (gs @ ps)" by (simp only: link_in_messages not_False_eq_True)
  show "in_flight (pcs s v) \<noteq> Some m" using assms(2) unfolding unused_def by blast
qed

lemma only_getter:
  assumes "locks_ok s" "holds_get (pcs s t)" "holds_get (pcs s u)"
  shows "u = t"
  using assms by (simp add: locks_ok_def)

lemma get_side_holds: "empty_side p \<Longrightarrow> holds_get p" "p = Swap_Done n \<Longrightarrow> holds_get p"
  by (cases p; simp)+

text \<open>A step of the thread \<open>t\<close> that changes the buffers to \<open>gs'\<close> and \<open>ps'\<close>.\<close>

lemma data_ok_change:
  assumes d: "data_ok s gs ps" and q: "buffers (queue s') gs' ps'" "linkoff (queue s') = linkoff (queue s)"
    and p: "\<And>u. u \<noteq> t \<Longrightarrow> pcs s' u = pcs s u \<or> pcs s' u = wake_put (pcs s u)"
    and new: "\<And>m. in_flight (pcs s' t) = Some m \<Longrightarrow> link_of m (queue s) \<notin> set (gs' @ ps') \<and> (\<forall>u. u \<noteq> t \<longrightarrow> in_flight (pcs s u) \<noteq> Some m)"
    and mem: "\<And>u m. u \<noteq> t \<Longrightarrow> in_flight (pcs s u) = Some m \<Longrightarrow> link_of m (queue s) \<notin> set (gs' @ ps')"
    and zero: "\<And>u m. u \<noteq> t \<Longrightarrow> cleared (pcs s u) = Some m \<Longrightarrow> links (queue s') (Link (link_of m (queue s))) = None"
    and zero': "\<And>m. cleared (pcs s' t) = Some m \<Longrightarrow> links (queue s') (Link (link_of m (queue s))) = None"
    and side: "\<And>u. u \<noteq> t \<Longrightarrow> holds_get (pcs s u) \<Longrightarrow> gs' = gs"
    and side': "empty_side (pcs s' t) \<Longrightarrow> gs' = []" "\<And>n. pcs s' t = Swap_Done n \<Longrightarrow> length gs' = n"
  shows "data_ok s' gs' ps'"
proof -
  have l: "link_of m (queue s') = link_of m (queue s)" for m using q(2) by (simp add: link_of_def)
  have f: "in_flight (pcs s' u) = in_flight (pcs s u)" "cleared (pcs s' u) = cleared (pcs s u)" "empty_side (pcs s' u) = empty_side (pcs s u)"
    "pcs s' u = Swap_Done n \<longleftrightarrow> pcs s u = Swap_Done n" if "u \<noteq> t" for u n
    using p [OF that] by (elim disjE; simp)+
  have 1: "link_of m (queue s') \<notin> set (gs' @ ps')" if "in_flight (pcs s' u) = Some m" for u m
    using that new mem f(1) by (cases "u = t") (auto simp: l)
  have 2: "u = v" if "in_flight (pcs s' u) = Some m" "in_flight (pcs s' v) = Some m" for u v m
  proof (rule ccontr)
    assume "u \<noteq> v"
    then consider "u = t" "v \<noteq> t" | "u \<noteq> t" "v = t" | "u \<noteq> t" "v \<noteq> t" by blast
    then show False
    proof cases
      case 3
      then show ?thesis using that d f(1) \<open>u \<noteq> v\<close> unfolding data_ok_def by metis
    qed (use that new f(1) in auto)
  qed
  have 3: "links (queue s') (Link (link_of m (queue s'))) = None" if "cleared (pcs s' u) = Some m" for u m
    using that zero zero' f(2) by (cases "u = t") (auto simp: l)
  have 4: "gs' = []" if "empty_side (pcs s' u)" for u
    using that side side'(1) f(3) get_side_holds(1) d by (cases "u = t") (auto simp: data_ok_def)
  have 5: "length gs' = n" if "pcs s' u = Swap_Done n" for u n
  proof (cases "u = t")
    case False
    then have "pcs s u = Swap_Done n" using that f(4) by blast
    then show ?thesis using side [OF False] d get_side_holds(2) by (auto simp: data_ok_def)
  qed (use that side'(2) in blast)
  show ?thesis unfolding data_ok_def using q(1) 1 2 3 4 5 by blast
qed

text \<open>A step that leaves the buffers as they are.\<close>

lemma data_ok_goto:
  assumes d: "data_ok s gs ps" and q: "links (queue s') = links (queue s)" "linkoff (queue s') = linkoff (queue s)" "buffers (queue s') gs ps"
    and p: "\<And>u. u \<noteq> t \<Longrightarrow> pcs s' u = pcs s u \<or> pcs s' u = wake_put (pcs s u)"
    and f: "in_flight (pcs s' t) \<noteq> None \<longrightarrow> in_flight (pcs s' t) = in_flight (pcs s t)"
      "cleared (pcs s' t) \<noteq> None \<longrightarrow> cleared (pcs s' t) = cleared (pcs s t)"
    and side: "empty_side (pcs s' t) \<Longrightarrow> gs = []" "\<And>n. pcs s' t = Swap_Done n \<Longrightarrow> length gs = n"
  shows "data_ok s' gs ps"
proof (rule data_ok_change [OF d q(3,2) p])
  show "link_of m (queue s) \<notin> set (gs @ ps) \<and> (\<forall>u. u \<noteq> t \<longrightarrow> in_flight (pcs s u) \<noteq> Some m)" if "in_flight (pcs s' t) = Some m" for m
  proof -
    have "in_flight (pcs s t) = Some m" using that f(1) by simp
    then show ?thesis using d unfolding data_ok_def by metis
  qed
qed (use d q f side in \<open>auto simp: data_ok_def\<close>)

lemma signal_get_pcs:
  assumes "signal_get s s'"
  shows "queue s' = queue s" "pcs s' u = pcs s u \<or> pcs s u = Swap_Wait \<and> pcs s' u = Swap_Relock"
  using assms by (cases rule: signal_get_cases; auto)+

text \<open>A waiting thread that is woken keeps its part of the invariant.\<close>

lemma data_ok_signal:
  assumes "signal_get s s'" "data_ok s gs ps"
  shows "data_ok s' gs ps"
  using assms(1)
proof (cases rule: signal_get_cases)
  case (2 u)
  then have "empty_side (pcs s u)" by simp
  then have "gs = []" by (rule data_okD(4) [OF assms(2)])
  then show ?thesis using 2 data_okD(1) [OF assms(2)] by (intro data_ok_goto [OF assms(2), of s' u]) auto
qed (use assms(2) in simp)

definition step_ok :: "nat \<Rightarrow> mq_label \<Rightarrow> mq_sys \<Rightarrow> mq_sys \<Rightarrow> int list \<Rightarrow> int list \<Rightarrow> int list \<Rightarrow> int list \<Rightarrow> bool" where
  "step_ok t l s s' gs ps gs' ps' \<longleftrightarrow> data_ok s' gs' ps' \<and> linkoff (queue s') = linkoff (queue s) \<and> pcs s' t \<noteq> Crashed
     \<and> fifo_step l (messages (queue s) gs, messages (queue s) ps) = Some (messages (queue s) gs', messages (queue s) ps')"

lemma stored_links:
  assumes "buffers q gs ps" "link_of m q \<notin> set (gs @ ps)" "link_of m' q \<noteq> link_of m q" "link_of m' q \<notin> set (gs @ ps)"
    "links q (Link (link_of m' q)) = None"
  shows "links (put_section m q) (Link (link_of m' q)) = None" "links (push_put m q) (Link (link_of m' q)) = None"
    "links (push_get m q) (Link (link_of m' q)) = None"
proof -
  have "put_tail q \<noteq> Link (link_of m' q)"
    using last_cell_in [of "put_head q" ps] assms(1,4) buffers_heads [OF assms(1)] by (auto simp: buffers_def)
  then show "links (put_section m q) (Link (link_of m' q)) = None" "links (push_put m q) (Link (link_of m' q)) = None"
    "links (push_get m q) (Link (link_of m' q)) = None"
    using assms(3,5) buffers_heads [OF assms(1)] by (auto simp: put_section_def push_put_def push_get_def Let_def)
qed

lemma link_of_inj [simp]: "link_of m q = link_of m' q \<longleftrightarrow> m = m'"
  by (simp add: link_of_def)

lemma call_put_ok:
  assumes d: "data_ok s gs ps" and u: "unused m s" and s': "s' = goto t (Put_Lock m) (s\<lparr>queue := clear_link m (queue s)\<rparr>)"
  shows "data_ok s' gs ps"
proof -
  note n = unused_link [OF d u]
  show ?thesis
    by (rule data_ok_change [OF d, of s' gs ps t]) (use s' n data_okD [OF d] clear_link_buffers [of "queue s" gs ps m] in \<open>auto simp: clear_link_def\<close>)
qed

lemma call_put_head_ok:
  assumes d: "data_ok s gs ps" and u: "unused m s" and s': "s' = goto t (Head_Lock m) s"
  shows "data_ok s' gs ps"
proof -
  note n = unused_link [OF d u]
  show ?thesis by (rule data_ok_change [OF d, of s' gs ps t]) (use s' n data_okD [OF d] in auto)
qed

text \<open>The three ways to store a message.\<close>

lemma store_ok:
  assumes d: "data_ok s gs ps" and m: "in_flight (pcs s t) = Some m" and p: "in_flight p = None" "\<not> empty_side p" "\<And>n. p \<noteq> Swap_Done n"
    and q: "buffers q gs' ps'" "set (gs' @ ps') = insert (link_of m (queue s)) (set (gs @ ps))" "linkoff q = linkoff (queue s)"
    and z: "\<And>m'. m' \<noteq> m \<Longrightarrow> link_of m' (queue s) \<notin> set (gs @ ps) \<Longrightarrow> links (queue s) (Link (link_of m' (queue s))) = None \<Longrightarrow>
        links q (Link (link_of m' (queue s))) = None"
    and s': "queue s' = q" "pcs s' = (pcs s)(t := p)" and side: "\<And>u. u \<noteq> t \<Longrightarrow> holds_get (pcs s u) \<Longrightarrow> gs' = gs"
  shows "data_ok s' gs' ps'"
proof (rule data_ok_change [OF d])
  have other: "m' \<noteq> m" if "u \<noteq> t" "in_flight (pcs s u) = Some m'" for u m' using d m that unfolding data_ok_def by metis
  show "link_of m' (queue s) \<notin> set (gs' @ ps')" if "u \<noteq> t" "in_flight (pcs s u) = Some m'" for u m'
    unfolding q(2) using other [OF that] d that by (auto simp: data_ok_def)
  show "links (queue s') (Link (link_of m' (queue s))) = None" if "u \<noteq> t" "cleared (pcs s u) = Some m'" for u m'
    using z other [OF that(1) cleared_in_flight [OF that(2)]] d that s'(1) cleared_in_flight [OF that(2)] unfolding data_ok_def by blast
  show "links (queue s') (Link (link_of m' (queue s))) = None" if "cleared (pcs s' t) = Some m'" for m'
    using that s'(2) p(1) cleared_in_flight [of p] by simp
qed (use q s' p side in \<open>auto split: if_splits\<close>)

lemma take_ok:
  assumes d: "data_ok s (a # gs) ps" and l: "locks_ok s" "holds_get (pcs s t)" and f: "finish_get t s = (l, s')"
    and p: "in_flight (pcs s t) = None"
  shows "step_ok t l s s' (a # gs) ps gs ps"
proof -
  obtain q where q: "take_first (queue s) = Some (a - linkoff (queue s), q)" "buffers q gs ps"
    using take_first_buffers [OF data_okD(1) [OF d]] by blast
  then have s': "l = Deq (a - linkoff (queue s))" "s' = goto t Idle (s\<lparr>queue := q, get_mutex := None\<rparr>)"
    using f by (auto simp: finish_get_def)
  have lk: "linkoff q = linkoff (queue s)" using take_first_fields [OF q(1)] by simp
  have "data_ok s' gs ps"
  proof (rule data_ok_change [OF d, of s' gs ps t])
    show "links (queue s') (Link (link_of m (queue s))) = None" if "cleared (pcs s u) = Some m" for u m
    proof -
      have "links q (Link (link_of m (queue s))) = links (queue s) (Link (link_of m (queue s)))"
        using q(1) buffers_heads [OF data_okD(1) [OF d]] by (auto simp: take_first_def split: option.splits)
      then show ?thesis using data_okD(3) [OF d that] s'(2) by simp
    qed
    show "link_of m (queue s) \<notin> set (gs @ ps)" if "u \<noteq> t" "in_flight (pcs s u) = Some m" for u m
      using data_okD(2) [OF d that(2)] by simp
  qed (use q s' lk only_getter [OF l] in auto)
  then show ?thesis using s' lk by (simp add: step_ok_def messages_def)
qed

lemma swap_ok:
  assumes d: "data_ok s gs ps" and l: "locks_ok s" and p: "pcs s t = Swap_Test"
  shows "step_ok t (if msg_cnt (queue s) = 0 then Empty else Swap) s (finish_swap t s) gs ps ps []"
proof -
  have gs: "gs = []" using data_okD(4) [OF d, of t] p by simp
  have b: "buffers (queue s) [] ps" using data_okD(1) [OF d] gs by simp
  note sw = swap_section_buffers [OF b]
  have cnt: "msg_cnt (queue s) = length ps" using b by (simp add: buffers_def)
  have "data_ok (finish_swap t s) ps []"
  proof (rule data_ok_change [OF d, of _ _ _ t])
    show "links (queue (finish_swap t s)) (Link (link_of m (queue s))) = None" if "cleared (pcs s u) = Some m" for u m
      using data_okD(3) [OF d that] by (simp add: swap_section_def)
    show "link_of m (queue s) \<notin> set (ps @ [])" if "u \<noteq> t" "in_flight (pcs s u) = Some m" for u m
      using data_okD(2) [OF d that(2)] by simp
    show "ps = gs" if "u \<noteq> t" "holds_get (pcs s u)" for u using only_getter [OF l _ that(2), of t] that(1) p by simp
  qed (use sw cnt in auto)
  then show ?thesis using gs cnt by (auto simp: step_ok_def messages_def)
qed

text \<open>The steps of a thread, by what they do.\<close>

lemma step_ok_keep:
  assumes "data_ok s' gs ps" "linkoff (queue s') = linkoff (queue s)" "pcs s' t \<noteq> Crashed" "l \<in> {Call, Call_Nonblock, Tau, Spurious}"
  shows "\<exists>gs' ps'. step_ok t l s s' gs ps gs' ps'"
  by (intro exI [of _ gs] exI [of _ ps]) (use assms in \<open>auto simp: step_ok_def\<close>)

lemma step_ok_goto:
  assumes d: "data_ok s gs ps" and l: "l \<in> {Call, Call_Nonblock, Tau, Spurious}" and q: "queue s' = queue s" "pcs s' = (pcs s)(t := p)"
    and f: "in_flight p \<noteq> None \<longrightarrow> in_flight p = in_flight (pcs s t)" "cleared p \<noteq> None \<longrightarrow> cleared p = cleared (pcs s t)"
    and side: "empty_side p \<Longrightarrow> gs = []" "\<And>n. p \<noteq> Swap_Done n" "p \<noteq> Crashed"
  shows "\<exists>gs' ps'. step_ok t l s s' gs ps gs' ps'"
  by (rule step_ok_keep) (use assms data_okD(1) [OF d] in \<open>auto intro!: data_ok_goto [OF d, of s' t]\<close>)

lemma data_ok_nonblock:
  "data_ok s gs ps \<Longrightarrow> data_ok (s\<lparr>queue := msgqueue_set_nonblock (queue s)\<rparr>) gs ps"
  "data_ok s gs ps \<Longrightarrow> data_ok (s\<lparr>queue := msgqueue_set_block (queue s)\<rparr>) gs ps"
  by (simp_all add: data_ok_def msgqueue_set_nonblock_def msgqueue_set_block_def buffers_def link_of_def)

lemma data_ok_pcs: "data_ok s gs ps \<Longrightarrow> pcs s' = pcs s \<Longrightarrow> queue s' = queue s \<Longrightarrow> data_ok s' gs ps"
  by (simp add: data_ok_def)

lemma data_ok_broadcast: "data_ok s gs ps \<Longrightarrow> data_ok (broadcast_put s) gs ps"
  by (simp add: data_ok_def)

lemma put_store_ok:
  assumes d: "data_ok s gs ps" and p: "pcs s t = Put_Test m"
    and s': "s' = goto t Signal_Get (s\<lparr>queue := put_section m (queue s), put_mutex := None\<rparr>)"
  shows "step_ok t (Enq m) s s' gs ps gs (ps @ [link_of m (queue s)])"
proof -
  note b = data_okD(1) [OF d] and n = data_okD(2) [OF d, of t m] and z = data_okD(3) [OF d, of t m]
  have "data_ok s' gs (ps @ [link_of m (queue s)])"
    by (rule store_ok [OF d, of t m Signal_Get "put_section m (queue s)"])
      (use s' p n z put_section_buffers [OF b] stored_links(1) [OF b] in auto)
  then show ?thesis using s' by (simp add: step_ok_def)
qed

lemma head_store_ok:
  assumes d: "data_ok s gs ps" and p: "pcs s t = Head_Full m"
    and s': "s' = goto t Signal_Get (s\<lparr>queue := push_put m (queue s), put_mutex := None\<rparr>)"
  shows "step_ok t (Push_Put m) s s' gs ps gs (link_of m (queue s) # ps)"
proof -
  note b = data_okD(1) [OF d] and n = data_okD(2) [OF d, of t m]
  have "data_ok s' gs (link_of m (queue s) # ps)"
    by (rule store_ok [OF d, of t m Signal_Get "push_put m (queue s)"])
      (use s' p n push_put_buffers [OF b] stored_links(2) [OF b] in auto)
  then show ?thesis using s' by (simp add: step_ok_def)
qed

lemma head_push_ok:
  assumes d: "data_ok s gs ps" and l: "locks_ok s" and p: "pcs s t = Head_Push m"
    and s': "s' = goto t Idle (s\<lparr>queue := push_get m (queue s), get_mutex := None\<rparr>)"
  shows "step_ok t (Push_Get m) s s' gs ps (link_of m (queue s) # gs) ps"
proof -
  note b = data_okD(1) [OF d] and n = data_okD(2) [OF d, of t m]
  have "data_ok s' (link_of m (queue s) # gs) ps"
    by (rule store_ok [OF d, of t m Idle "push_get m (queue s)"])
      (use s' p n push_get_buffers [OF b] stored_links(3) [OF b] only_getter [OF l, of t] in auto)
  then show ?thesis using s' by (simp add: step_ok_def)
qed

lemma mq_step_ok:
  assumes s: "mq_step t l s s'" and l: "locks_ok s" and d: "data_ok s gs ps"
  shows "\<exists>gs' ps'. step_ok t l s s' gs ps gs' ps'"
  using s
proof cases
  case (call_put m)
  then show ?thesis using call_put_ok [OF d, of m s' t] by (auto simp: step_ok_def)
next
  case (call_put_head m)
  then show ?thesis using call_put_head_ok [OF d, of m s' t] by (auto simp: step_ok_def)
next
  case (put_store m)
  then show ?thesis using put_store_ok [OF d] by blast
next
  case (head_store m)
  then show ?thesis using head_store_ok [OF d] by blast
next
  case (head_push m)
  then show ?thesis using head_push_ok [OF d l] by blast
next
  case get_some
  then obtain a gs1 where "gs = a # gs1" using buffers_get_head [OF data_okD(1) [OF d]] by (cases gs) auto
  then show ?thesis using take_ok [of s _ _ ps t l s'] get_some d l by auto
next
  case (swap_some n)
  then obtain a gs1 where "gs = a # gs1" using data_okD(5) [OF d, of t n] by (cases gs) auto
  then show ?thesis using take_ok [of s _ _ ps t l s'] swap_some d l by auto
next
  case swap_do
  then show ?thesis using swap_ok [OF d l, of t] by blast
next
  case get_none
  then have "gs = []" using buffers_get_head [OF data_okD(1) [OF d]] by simp
  then show ?thesis using get_none by (intro step_ok_goto [OF d, of _ _ t Swap_Lock]) auto
next
  case (put_signal s1)
  have s1: "data_ok s1 gs ps" "queue s1 = queue s" using data_ok_signal [OF put_signal(4) d] signal_get_pcs(1) [OF put_signal(4)] by auto
  have "data_ok (goto t Idle s1) gs ps"
    using data_okD(1) [OF s1(1)] by (intro data_ok_goto [OF s1(1), of _ t]) auto
  then show ?thesis using put_signal s1(2) by (intro step_ok_keep [of s' gs ps]) auto
next
  case (nonblock_signal s1)
  have s1: "data_ok (broadcast_put s1) gs ps" "queue s1 = queue s"
    using data_ok_broadcast [OF data_ok_signal [OF nonblock_signal(4) d]] signal_get_pcs(1) [OF nonblock_signal(4)] by auto
  have "data_ok s' gs ps"
    using data_okD(1) [OF s1(1)] nonblock_signal(2) by (intro data_ok_goto [OF s1(1), of _ t]) auto
  then show ?thesis using nonblock_signal s1(2) by (intro step_ok_keep [of s' gs ps]) auto
next
  case call_nonblock
  have "data_ok s' gs ps"
    using call_nonblock data_okD(1) [OF data_ok_nonblock(1) [OF d]]
    by (intro data_ok_goto [OF data_ok_nonblock(1) [OF d], of _ t]) auto
  then show ?thesis using call_nonblock by (intro step_ok_keep [of s' gs ps]) (auto simp: msgqueue_set_nonblock_def)
next
  case call_block
  then show ?thesis using data_ok_nonblock(2) [OF d] by (intro step_ok_keep [of s' gs ps]) (auto simp: msgqueue_set_block_def)
next
  case (spurious_put m)
  then show ?thesis by (intro step_ok_goto [OF d, of _ _ t "wake_put (pcs s t)"]) auto
qed (rule step_ok_goto [OF d, where t = t]; use data_okD(4) [OF d, of t] in fastforce)+

section \<open>Every execution is one of the abstract queue\<close>

lemma fifo_run_snoc: "fifo_run (ls @ [l]) gp = (case fifo_run ls gp of None \<Rightarrow> None | Some gp \<Rightarrow> fifo_step l gp)"
  by (induction ls arbitrary: gp) (auto split: option.split)

lemma mq_run_inv:
  assumes "mq_run s0 ls s" "s0 = mq_init maxlen off"
  shows "\<exists>gs ps. locks_ok s \<and> data_ok s gs ps \<and> linkoff (queue s) = off
     \<and> fifo_run ls ([], []) = Some (messages (queue s) gs, messages (queue s) ps)"
  using assms
proof (induction rule: mq_run.induct)
  case (run_nil s)
  have "locks_ok s" "data_ok s [] []" "linkoff (queue s) = off" using run_nil
    by (auto simp: mq_init_def locks_ok_def data_ok_def buffers_def new_queue_def last_cell_def)
  then show ?case by (intro exI [of _ "[]"]) simp
next
  case (run_step s ls s1 t l s2)
  then obtain gs ps where ih: "locks_ok s1" "data_ok s1 gs ps" "linkoff (queue s1) = off"
    "fifo_run ls ([], []) = Some (messages (queue s1) gs, messages (queue s1) ps)" by blast
  obtain gs' ps' where ok: "step_ok t l s1 s2 gs ps gs' ps'" using mq_step_ok [OF run_step(2) ih(1,2)] by blast
  have "locks_ok s2" using locks_ok_step [OF run_step(2) ih(1)] ok by (simp add: step_ok_def)
  then have "locks_ok s2 \<and> data_ok s2 gs' ps' \<and> linkoff (queue s2) = off
      \<and> fifo_run (ls @ [l]) ([], []) = Some (messages (queue s2) gs', messages (queue s2) ps')"
    using ih ok messages_cong [of "queue s2" "queue s1"] by (simp add: step_ok_def fifo_run_snoc)
  then show ?case by blast
qed

text \<open>The messages that were put, and those that were got, in this order.\<close>

fun put_messages :: "mq_label list \<Rightarrow> int list" where
  "put_messages [] = []"
| "put_messages (Enq m # ls) = m # put_messages ls"
| "put_messages (Push_Get m # ls) = m # put_messages ls"
| "put_messages (Push_Put m # ls) = m # put_messages ls"
| "put_messages (_ # ls) = put_messages ls"

fun got_messages :: "mq_label list \<Rightarrow> int list" where
  "got_messages [] = []"
| "got_messages (Deq m # ls) = m # got_messages ls"
| "got_messages (_ # ls) = got_messages ls"

fun is_push :: "mq_label \<Rightarrow> bool" where
  "is_push (Push_Get m) = True" | "is_push (Push_Put m) = True" | "is_push _ = False"

lemma messages_snoc:
  "put_messages (ls @ [l]) = put_messages ls @ put_messages [l]" "got_messages (ls @ [l]) = got_messages ls @ got_messages [l]"
  by (induction ls rule: put_messages.induct; simp) (induction ls rule: got_messages.induct; simp)

lemma fifo_run_order:
  "fifo_run ls ([], []) = Some (g, p) \<Longrightarrow> mset (got_messages ls) + mset (g @ p) = mset (put_messages ls)
     \<and> ((\<forall>l \<in> set ls. \<not> is_push l) \<longrightarrow> got_messages ls @ g @ p = put_messages ls)"
proof (induction ls arbitrary: g p rule: rev_induct)
  case (snoc l ls)
  then obtain g0 p0 where r: "fifo_run ls ([], []) = Some (g0, p0)" "fifo_step l (g0, p0) = Some (g, p)"
    by (auto simp: fifo_run_snoc split: option.splits)
  note ih = snoc.IH [OF r(1)]
  show ?case using ih r(2) by (cases l) (auto simp: messages_snoc split: if_splits list.splits)
qed simp

text \<open>C5: However the threads are scheduled, the message queue behaves like a queue: the steps of all
  threads are steps of the abstract queue, whose contents are those of the two buffers. No message
  is lost, duplicated or invented; unless \<open>msgqueue_put_head\<close> is used, messages are got in the order in
  which they were put; \<open>msgqueue_get\<close> returns NULL only at a moment when there was no message, and no
  thread uses a NULL pointer. At every moment at most one thread holds each mutex.\<close>

theorem msgqueue_refines_fifo:
  assumes "mq_run (mq_init maxlen off) ls s"
  shows "\<exists>g p. fifo_run ls ([], []) = Some (g, p) \<and> queue_contents (queue s) (g @ p)
     \<and> mset (got_messages ls) + mset (g @ p) = mset (put_messages ls)
     \<and> ((\<forall>l \<in> set ls. \<not> is_push l) \<longrightarrow> got_messages ls @ g @ p = put_messages ls)
     \<and> (\<forall>t. pcs s t \<noteq> Crashed) \<and> (\<forall>t u. holds_get (pcs s t) \<and> holds_get (pcs s u) \<or> holds_put (pcs s t) \<and> holds_put (pcs s u) \<longrightarrow> t = u)"
proof -
  obtain gs ps where i: "locks_ok s" "data_ok s gs ps" "fifo_run ls ([], []) = Some (messages (queue s) gs, messages (queue s) ps)"
    using mq_run_inv [OF assms refl] by blast
  have c: "queue_contents (queue s) (messages (queue s) gs @ messages (queue s) ps)"
    using data_okD(1) [OF i(2)] unfolding queue_contents_def by (intro exI [of _ gs] exI [of _ ps]) simp
  have u: "t = u" if "holds_get (pcs s t) \<and> holds_get (pcs s u) \<or> holds_put (pcs s t) \<and> holds_put (pcs s u)" for t u
    using i(1) that by (auto simp: locks_ok_def)
  have k: "pcs s t \<noteq> Crashed" for t using i(1) by (simp add: locks_ok_def)
  show ?thesis using i(3) c fifo_run_order [OF i(3)] u k by blast
qed

lemma contents_unique: "queue_contents q ms \<Longrightarrow> queue_contents q ms' \<Longrightarrow> ms' = ms"
  using buffers_fun unfolding queue_contents_def by blast

lemma unused_init: "unused m (mq_init maxlen off)"
  using contents_unique [OF new_queue_contents, of maxlen off] by (fastforce simp: unused_def mq_init_def)

theorem msgqueue_refines_fifo_witness:
  "\<exists>s. mq_run (mq_init 1 8) [Call, Tau, Enq 7] s \<and> queue_contents (queue s) [7]"
proof -
  define s0 where "s0 = mq_init 1 8"
  define s1 where "s1 = goto 0 (Put_Lock 7) (s0\<lparr>queue := clear_link 7 (queue s0)\<rparr>)"
  define s2 where "s2 = goto 0 (Put_Test 7) (s1\<lparr>put_mutex := Some 0\<rparr>)"
  define s3 where "s3 = goto 0 Signal_Get (s2\<lparr>queue := put_section 7 (queue s2), put_mutex := None\<rparr>)"
  have "mq_step 0 Call s0 s1" unfolding s1_def using unused_init [of 7 1 8] by (intro call_put) (simp_all add: s0_def mq_init_def)
  moreover have "mq_step 0 Tau s1 s2" unfolding s2_def by (rule put_lock) (simp_all add: s1_def s0_def mq_init_def)
  moreover have "\<not> blocked (queue s2)"
    by (simp add: blocked_def queue_full_def s2_def s1_def s0_def mq_init_def new_queue_def clear_link_def)
  then have "mq_step 0 (Enq 7) s2 s3" unfolding s3_def by (intro put_store) (simp_all add: s2_def)
  ultimately have "mq_run s0 [Call, Tau, Enq 7] s3" using run_step run_nil by (metis append_Cons append_Nil)
  then show ?thesis unfolding s0_def using msgqueue_refines_fifo [of 1 8 "[Call, Tau, Enq 7]" s3] by auto
qed

section \<open>No signal is lost\<close>

fun get_pending :: "mq_pc \<Rightarrow> bool" where
  "get_pending Signal_Get = True" | "get_pending Nonblock_Lock = True" | "get_pending Nonblock_Signal = True" | "get_pending _ = False"

fun put_pending :: "mq_pc \<Rightarrow> bool" where
  "put_pending Nonblock_Lock = True" | "put_pending Nonblock_Signal = True" | "put_pending _ = False"

fun waits_put :: "mq_pc \<Rightarrow> bool" where
  "waits_put (Put_Wait m) = True" | "waits_put (Head_Wait m) = True" | "waits_put _ = False"

lemma wake_put_waits [simp]: "\<not> waits_put (wake_put p)" "get_pending (wake_put p) = get_pending p" "put_pending (wake_put p) = put_pending p"
  by (cases p; simp)+

definition no_message :: "msgqueue \<Rightarrow> bool" where
  "no_message q \<longleftrightarrow> msg_cnt q = 0 \<and> \<not> nonblock q"

definition wake_ok :: "mq_sys \<Rightarrow> bool" where
  "wake_ok s \<longleftrightarrow> (\<forall>t. pcs s t = Swap_Wait \<longrightarrow> no_message (queue s) \<or> (\<exists>u. get_pending (pcs s u)))
     \<and> (\<forall>t. waits_put (pcs s t) \<longrightarrow> blocked (queue s) \<or> (\<exists>u. put_pending (pcs s u)))"

lemma wake_ok_goto:
  assumes w: "wake_ok s" and p: "pcs s' = (pcs s)(t := p)"
    and q: "no_message (queue s) \<Longrightarrow> no_message (queue s') \<or> get_pending p" "blocked (queue s) \<Longrightarrow> blocked (queue s') \<or> put_pending p"
    and k: "get_pending (pcs s t) \<Longrightarrow> get_pending p" "put_pending (pcs s t) \<Longrightarrow> put_pending p"
    and n: "p = Swap_Wait \<Longrightarrow> no_message (queue s')" "waits_put p \<Longrightarrow> blocked (queue s')"
  shows "wake_ok s'"
proof -
  have g: "\<exists>u. get_pending (pcs s' u)" if "\<exists>u. get_pending (pcs s u)"
  proof -
    from that obtain u where "get_pending (pcs s u)" by blast
    then have "get_pending (pcs s' u)" using p k(1) by auto
    then show ?thesis by blast
  qed
  have g': "\<exists>u. put_pending (pcs s' u)" if "\<exists>u. put_pending (pcs s u)"
  proof -
    from that obtain u where "put_pending (pcs s u)" by blast
    then have "put_pending (pcs s' u)" using p k(2) by auto
    then show ?thesis by blast
  qed
  have t: "pcs s' t = p" using p by simp
  have "no_message (queue s') \<or> (\<exists>u. get_pending (pcs s' u))" if "pcs s' u = Swap_Wait" for u
    using that w p q(1) n(1) g t unfolding wake_ok_def by (cases "u = t") (simp, metis fun_upd_other)
  moreover have "blocked (queue s') \<or> (\<exists>u. put_pending (pcs s' u))" if "waits_put (pcs s' u)" for u
    using that w p q(2) n(2) g' t unfolding wake_ok_def by (cases "u = t") (simp, metis fun_upd_other)
  ultimately show ?thesis unfolding wake_ok_def by blast
qed

text \<open>After a signal nobody waits for a message, since only the thread that holds \<open>get_mutex\<close> can.\<close>

lemma signal_get_none:
  assumes "signal_get s s'" "locks_ok s"
  shows "pcs s' u \<noteq> Swap_Wait"
  using assms(1)
proof (cases rule: signal_get_cases)
  case (2 v)
  then show ?thesis using only_getter [OF assms(2), of v u] by auto
qed simp

lemma wake_ok_none: "(\<And>u. pcs s u \<noteq> Swap_Wait) \<Longrightarrow> (\<And>u. waits_put (pcs s u) \<Longrightarrow> blocked (queue s) \<or> (\<exists>v. put_pending (pcs s v))) \<Longrightarrow> wake_ok s"
  by (simp add: wake_ok_def)

lemma queue_full_more:
  "queue_full q \<Longrightarrow> queue_full (put_section m q)" "queue_full q \<Longrightarrow> queue_full (push_put m q)"
  "queue_full (push_get m q) = queue_full q" "queue_full (clear_link m q) = queue_full q"
  "queue_full (msgqueue_set_nonblock q) = queue_full q" "queue_full (msgqueue_set_block q) = queue_full q"
  by (simp_all add: queue_full_def msgqueue_set_nonblock_def msgqueue_set_block_def)

lemma wake_ok_goto_via:
  assumes "wake_ok s" "pcs s1 = pcs s"
    and "no_message (queue s) \<Longrightarrow> no_message (queue s1) \<or> get_pending p" "blocked (queue s) \<Longrightarrow> blocked (queue s1) \<or> put_pending p"
    and "get_pending (pcs s t) \<Longrightarrow> get_pending p" "put_pending (pcs s t) \<Longrightarrow> put_pending p"
    and "p = Swap_Wait \<Longrightarrow> no_message (queue s1)" "waits_put p \<Longrightarrow> blocked (queue s1)"
  shows "wake_ok (goto t p s1)"
  by (rule wake_ok_goto [OF assms(1), of _ t p]) (use assms in simp_all)

lemma finish_get_wake:
  assumes "finish_get t s = (l, s')" "pcs s' t \<noteq> Crashed" "wake_ok s" "\<not> get_pending (pcs s t)" "\<not> put_pending (pcs s t)"
  shows "wake_ok s'"
proof -
  have "take_first (queue s) \<noteq> None" using assms(1,2) by (auto simp: finish_get_def split: option.splits)
  then obtain m q where q: "take_first (queue s) = Some (m, q)" "s' = goto t Idle (s\<lparr>queue := q, get_mutex := None\<rparr>)"
    using assms(1) by (elim finish_get_ok)
  show ?thesis
    by (rule wake_ok_goto [OF assms(3), of s' t Idle])
      (use q take_first_fields [OF q(1)] assms(4,5) in \<open>auto simp: no_message_def blocked_def queue_full_def\<close>)
qed

lemma wake_ok_step:
  assumes s: "mq_step t l s s'" and l: "locks_ok s" and w: "wake_ok s" and c: "pcs s' t \<noteq> Crashed"
  shows "wake_ok s'"
  using s
proof cases
  case (put_signal s1)
  have none: "pcs s1 u \<noteq> Swap_Wait" for u by (rule signal_get_none [OF put_signal(4) l])
  show ?thesis
  proof (rule wake_ok_none)
    fix u
    assume u: "waits_put (pcs s' u)"
    then have "waits_put (pcs s u)" using put_signal signal_get_pcs(2) [OF put_signal(4), of u] by (auto split: if_splits)
    then have "blocked (queue s) \<or> (\<exists>v. put_pending (pcs s v))" using w unfolding wake_ok_def by blast
    moreover have "put_pending (pcs s' v)" if "put_pending (pcs s v)" for v
      using that put_signal signal_get_pcs(2) [OF put_signal(4), of v] by auto
    moreover have "queue s' = queue s" using put_signal signal_get_pcs(1) [OF put_signal(4)] by simp
    ultimately show "blocked (queue s') \<or> (\<exists>v. put_pending (pcs s' v))" by metis
  qed (use none put_signal in auto)
next
  case (nonblock_signal s1)
  have none: "pcs s1 u \<noteq> Swap_Wait" for u by (rule signal_get_none [OF nonblock_signal(4) l])
  show ?thesis by (rule wake_ok_none) (use none nonblock_signal in \<open>auto split: if_splits\<close>)
next
  case swap_do
  have none: "pcs s u \<noteq> Swap_Wait" for u using only_getter [OF l, of t u] swap_do by auto
  show ?thesis
  proof (rule wake_ok_none)
    fix u
    assume u: "waits_put (pcs s' u)"
    then have f: "\<not> queue_full (queue s)" "waits_put (pcs s u)" "u \<noteq> t" using swap_do by (auto split: if_splits)
    then have "\<exists>v. put_pending (pcs s v)" using w unfolding wake_ok_def blocked_def by blast
    then obtain v where "put_pending (pcs s v)" by blast
    then have "put_pending (pcs s' v)" using swap_do f(1) by auto
    then show "blocked (queue s') \<or> (\<exists>v. put_pending (pcs s' v))" by blast
  qed (use none swap_do in \<open>auto split: if_splits\<close>)
next
  case get_some
  then show ?thesis using finish_get_wake [OF _ c w] by simp
next
  case (swap_some n)
  then show ?thesis using finish_get_wake [OF _ c w] by simp
next
  case call_block
  then show ?thesis using w by (auto simp: wake_ok_def no_message_def blocked_def queue_full_def msgqueue_set_block_def)
next
  case call_nonblock
  then show ?thesis by (intro wake_ok_goto [OF w, of s' t Nonblock_Lock]) auto
next
  case (put_store m)
  then show ?thesis by (intro wake_ok_goto [OF w, of s' t Signal_Get]) (auto simp: blocked_def queue_full_more)
next
  case (head_store m)
  then show ?thesis by (intro wake_ok_goto [OF w, of s' t Signal_Get]) (auto simp: blocked_def queue_full_more)
next
  case (spurious_put m)
  then show ?thesis by (intro wake_ok_goto [OF w, of s' t "wake_put (pcs s t)"]) auto
qed (hypsubst, rule wake_ok_goto_via [OF w]; auto simp: no_message_def blocked_def queue_full_more)+

lemma mq_run_wake: "mq_run s0 ls s \<Longrightarrow> s0 = mq_init maxlen off \<Longrightarrow> wake_ok s"
proof (induction rule: mq_run.induct)
  case (run_nil s)
  then show ?case by (simp add: mq_init_def wake_ok_def)
next
  case (run_step s ls s1 t l s2)
  obtain gs ps where i: "locks_ok s1" "data_ok s1 gs ps" using mq_run_inv [OF run_step(1,4)] by blast
  then have "pcs s2 t \<noteq> Crashed" using mq_step_ok [OF run_step(2) i] by (auto simp: step_ok_def)
  then show ?case using wake_ok_step [OF run_step(2) i(1)] run_step by blast
qed

text \<open>A state that only new calls and spurious wake-ups can leave.\<close>

definition at_rest :: "mq_sys \<Rightarrow> bool" where
  "at_rest s \<longleftrightarrow> (\<forall>t l s'. mq_step t l s s' \<longrightarrow> l \<in> {Call, Call_Nonblock, Spurious})"

lemma signal_get_total: "\<exists>s'. signal_get s s'"
  using signal_one signal_none by blast

lemma holds_put_moves:
  assumes "holds_put (pcs s t)"
  shows "\<not> at_rest s"
proof -
  have "\<exists>l s'. mq_step t l s s' \<and> l \<notin> {Call, Call_Nonblock, Spurious}"
  proof (cases "pcs s t")
    case (Put_Test m)
    then show ?thesis using put_wait [of s t m] put_store [of s t m] by (cases "blocked (queue s)") blast+
  next
    case (Head_Test m)
    then show ?thesis using head_some [of s t m] head_none [of s t m] by (cases "links (queue s) (get_head (queue s))") blast+
  next
    case (Head_Try m)
    then show ?thesis using head_try [of s t m] head_again [of s t m] by (cases "get_mutex s") blast+
  next
    case (Head_Full m)
    then show ?thesis using head_wait [of s t m] head_store [of s t m] by (cases "blocked (queue s)") blast+
  next
    case Swap_Test
    have "(if msg_cnt (queue s) = 0 then Empty else Swap) \<notin> {Call, Call_Nonblock, Spurious}" by simp
    then show ?thesis using swap_wait [OF Swap_Test] swap_do [OF Swap_Test]
      by (cases "msg_cnt (queue s) = 0 \<and> \<not> nonblock (queue s)") blast+
  next
    case Nonblock_Signal
    then show ?thesis using nonblock_signal [OF Nonblock_Signal] signal_get_total [of s] by blast
  qed (use assms in simp_all)
  then show ?thesis unfolding at_rest_def by blast
qed

lemma finish_get_label: "finish_get t s = (l, s') \<Longrightarrow> l \<notin> {Call, Call_Nonblock, Spurious}"
  by (auto simp: finish_get_def split: option.splits)

lemma at_rest_pcs:
  assumes r: "at_rest s" and l: "locks_ok s"
  shows "put_mutex s = None" "pcs s t \<in> {Idle, Get_Lock, Swap_Wait} \<or> waits_put (pcs s t)"
proof -
  show m: "put_mutex s = None"
  proof (rule ccontr)
    assume "put_mutex s \<noteq> None"
    then obtain u where "holds_put (pcs s u)" using l by (auto simp: locks_ok_def)
    then show False using holds_put_moves r by blast
  qed
  have no: "l \<in> {Call, Call_Nonblock, Spurious}" if "mq_step t l s s'" for l s' using r that unfolding at_rest_def by blast
  show "pcs s t \<in> {Idle, Get_Lock, Swap_Wait} \<or> waits_put (pcs s t)"
  proof (cases "pcs s t")
    case (Put_Lock m')
    then show ?thesis using no [OF put_lock [of s t m']] m by simp
  next
    case (Put_Relock m')
    then show ?thesis using no [OF put_lock [of s t m']] m by simp
  next
    case Signal_Get
    then show ?thesis using no [OF put_signal] signal_get_total [of s] by auto
  next
    case (Head_Lock m')
    then show ?thesis using no [OF head_lock [of s t m']] m by simp
  next
    case (Head_Relock m')
    then show ?thesis using no [OF head_relock [of s t m']] m by simp
  next
    case (Head_Push m')
    then show ?thesis using no [OF head_push [of s t m']] by simp
  next
    case Get_Test
    then show ?thesis using no [OF get_some [of s t]] no [OF get_none [of s t]] finish_get_label [of t s]
      by (cases "links (queue s) (get_head (queue s))"; cases "finish_get t s") auto
  next
    case Swap_Lock
    then show ?thesis using no [OF swap_lock] m by simp
  next
    case Swap_Relock
    then show ?thesis using no [OF swap_lock] m by simp
  next
    case (Swap_Done n)
    then show ?thesis using no [OF swap_some [of s t n]] no [OF swap_none [of s t]] finish_get_label [of t s]
      by (cases "n = 0"; cases "finish_get t s") auto
  next
    case Nonblock_Lock
    then show ?thesis using no [OF nonblock_lock] m by simp
  next
    case Crashed
    then show ?thesis using l by (simp add: locks_ok_def)
  qed (use holds_put_moves [of s t] r in simp_all)
qed

text \<open>C6: No signal is lost and the threads never block one another for good. When no thread can go on,
  every thread that is inside an operation waits for something that only a new call can bring
  about: a thread that gets a message waits because there is no message in either buffer and the
  queue is blocking, and a thread that puts one waits because the buffer is full and the queue is
  blocking. In particular \<open>msgqueue_set_nonblock\<close> releases every waiting thread.\<close>

theorem msgqueue_no_deadlock:
  assumes "mq_run (mq_init maxlen off) ls s" "at_rest s"
  shows "pcs s t = Idle
     \<or> pcs s t \<in> {Get_Lock, Swap_Wait} \<and> queue_contents (queue s) [] \<and> \<not> nonblock (queue s)
     \<or> waits_put (pcs s t) \<and> queue_full (queue s) \<and> \<not> nonblock (queue s)"
proof -
  obtain gs ps where i: "locks_ok s" "data_ok s gs ps" using mq_run_inv [OF assms(1) refl] by blast
  have w: "wake_ok s" by (rule mq_run_wake [OF assms(1) refl])
  note rest = at_rest_pcs(2) [OF assms(2) i(1)]
  have p: "\<not> get_pending (pcs s u)" "\<not> put_pending (pcs s u)" for u using rest [of u] by (cases "pcs s u"; simp)+
  have getter: "queue_contents (queue s) [] \<and> \<not> nonblock (queue s)" if u: "pcs s u = Swap_Wait" for u
  proof -
    have "no_message (queue s)" using w u p(1) unfolding wake_ok_def by blast
    moreover have "gs = []" using data_okD(4) [OF i(2), of u] u by simp
    moreover have "ps = []" if "msg_cnt (queue s) = 0"
      using data_okD(1) [OF i(2)] that by (simp add: buffers_def)
    ultimately show ?thesis using data_okD(1) [OF i(2)] unfolding no_message_def queue_contents_def by force
  qed
  show ?thesis
  proof (cases "pcs s t = Get_Lock")
    case True
    have "get_mutex s \<noteq> None" using assms(2) get_lock [OF True] unfolding at_rest_def by fastforce
    then obtain u where "holds_get (pcs s u)" using i(1) by (auto simp: locks_ok_def)
    then have "pcs s u = Swap_Wait" using rest [of u] by (cases "pcs s u") auto
    then show ?thesis using getter True by blast
  next
    case False
    then show ?thesis using rest [of t] getter [of t] w p(2) unfolding wake_ok_def blocked_def by auto
  qed
qed

theorem msgqueue_no_deadlock_witness:
  "\<exists>s. mq_run (mq_init 4 8) [Call, Tau, Tau, Tau, Tau] s \<and> at_rest s \<and> pcs s 0 = Swap_Wait \<and> queue_contents (queue s) []"
proof -
  define s0 where "s0 = mq_init 4 8"
  define s1 where "s1 = goto 0 Get_Lock s0"
  define s2 where "s2 = goto 0 Get_Test (s1\<lparr>get_mutex := Some 0\<rparr>)"
  define s3 where "s3 = goto 0 Swap_Lock s2"
  define s4 where "s4 = goto 0 Swap_Test (s3\<lparr>put_mutex := Some 0\<rparr>)"
  define s5 where "s5 = goto 0 Swap_Wait (s4\<lparr>put_mutex := None\<rparr>)"
  note d = s5_def s4_def s3_def s2_def s1_def s0_def mq_init_def new_queue_def
  have st1: "mq_step 0 Call s0 s1" unfolding s1_def by (rule call_get) (simp add: d)
  have st2: "mq_step 0 Tau s1 s2" unfolding s2_def by (rule get_lock) (simp_all add: d)
  have st3: "mq_step 0 Tau s2 s3" unfolding s3_def by (rule get_none) (simp_all add: d)
  have st4: "mq_step 0 Tau s3 s4" unfolding s4_def by (rule swap_lock) (simp_all add: d)
  have st5: "mq_step 0 Tau s4 s5" unfolding s5_def by (rule swap_wait) (simp_all add: d)
  have r: "mq_run s0 [Call, Tau, Tau, Tau, Tau] s5"
    using run_step [OF run_step [OF run_step [OF run_step [OF run_step [OF run_nil st1] st2] st3] st4] st5] by simp
  have p: "pcs s5 = (\<lambda>_. Idle)(0 := Swap_Wait)" by (simp add: d)
  have a: "at_rest s5" unfolding at_rest_def
  proof (intro allI impI)
    fix t l s'
    assume "mq_step t l s5 s'"
    then show "l \<in> {Call, Call_Nonblock, Spurious}" by cases (auto simp: p split: if_splits)
  qed
  then show ?thesis using r p msgqueue_no_deadlock [of 4 8 _ s5 0] unfolding s0_def by auto
qed

section \<open>The bound\<close>

lemma bounded_put:
  assumes "\<not> queue_full q" "0 < msg_max q" "msg_max q < 2 ^ 64"
  shows "Suc (msg_cnt q) \<le> msg_max q"
proof -
  have "(msg_max q + (2 ^ 64 - 1)) mod 2 ^ 64 = msg_max q - 1"
    using assms(2,3) by (cases "msg_max q") simp_all
  then show ?thesis using assms(1,2) by (simp add: queue_full_def)
qed

lemma section_limits:
  "nonblock (put_section m q) = nonblock q" "msg_max (put_section m q) = msg_max q" "msg_cnt (put_section m q) = Suc (msg_cnt q)"
  "nonblock (push_put m q) = nonblock q" "msg_max (push_put m q) = msg_max q" "msg_cnt (push_put m q) = Suc (msg_cnt q)"
  "nonblock (push_get m q) = nonblock q" "msg_max (push_get m q) = msg_max q" "msg_cnt (push_get m q) = msg_cnt q"
  "nonblock (clear_link m q) = nonblock q" "msg_max (clear_link m q) = msg_max q" "msg_cnt (clear_link m q) = msg_cnt q"
  "nonblock (snd (swap_section q)) = nonblock q" "msg_max (snd (swap_section q)) = msg_max q" "msg_cnt (snd (swap_section q)) = 0"
  by (simp_all add: put_section_def push_put_def push_get_def clear_link_def swap_section_def Let_def)

lemma finish_get_limits:
  assumes "finish_get t s = (l, s')"
  shows "nonblock (queue s') = nonblock (queue s)" "msg_max (queue s') = msg_max (queue s)" "msg_cnt (queue s') = msg_cnt (queue s)"
  using assms by (auto simp: finish_get_def take_first_def split: option.splits)

lemma mq_step_bounded:
  assumes "mq_step t l s s'" "l \<noteq> Call_Nonblock"
    and "\<not> nonblock (queue s)" "msg_cnt (queue s) \<le> msg_max (queue s)" "0 < msg_max (queue s)" "msg_max (queue s) < 2 ^ 64"
  shows "\<not> nonblock (queue s') \<and> msg_cnt (queue s') \<le> msg_max (queue s') \<and> msg_max (queue s') = msg_max (queue s)"
  using assms(1)
proof cases
  case (put_store m)
  then show ?thesis using assms(3-) bounded_put [of "queue s"] by (simp add: blocked_def section_limits)
next
  case (head_store m)
  then show ?thesis using assms(3-) bounded_put [of "queue s"] by (simp add: blocked_def section_limits)
next
  case get_some
  then show ?thesis using assms(3-) finish_get_limits by metis
next
  case (swap_some cnt)
  then show ?thesis using assms(3-) finish_get_limits by metis
next
  case (put_signal s1)
  then show ?thesis using assms(3-) signal_get_pcs(1) by simp
next
  case (nonblock_signal s1)
  then show ?thesis using assms(3-) signal_get_pcs(1) by simp
qed (use assms(2-) in \<open>simp_all add: section_limits msgqueue_set_block_def\<close>)

text \<open>C32: The limit given to \<open>msgqueue_create\<close> is kept: as long as nobody switches the queue to
  non-blocking mode, the buffer of messages that wait to be fetched never holds more than
  \<open>maxlen\<close> messages, whatever the threads do.\<close>

theorem msgqueue_bounded:
  assumes "mq_run (mq_init maxlen off) ls s" "Call_Nonblock \<notin> set ls" "0 < maxlen" "maxlen < 2 ^ 64"
  shows "\<exists>gs ps. buffers (queue s) gs ps \<and> length ps \<le> maxlen"
proof -
  have "\<not> nonblock (queue s) \<and> msg_cnt (queue s) \<le> msg_max (queue s) \<and> msg_max (queue s) = maxlen"
    if "mq_run s0 ls s" "s0 = mq_init maxlen off" "Call_Nonblock \<notin> set ls" for s0 ls s
    using that
  proof (induction rule: mq_run.induct)
    case (run_nil s)
    then show ?case by (simp add: mq_init_def new_queue_def)
  next
    case (run_step s ls s1 t l s2)
    then show ?case using mq_step_bounded [OF run_step.hyps(2)] assms(3,4) by auto
  qed
  from this [OF assms(1) refl assms(2)] have c: "msg_cnt (queue s) \<le> maxlen" by simp
  obtain gs ps where "data_ok s gs ps" using mq_run_inv [OF assms(1) refl] by blast
  then have "buffers (queue s) gs ps" using data_okD(1) by blast
  then show ?thesis using c unfolding buffers_def by auto
qed

theorem msgqueue_bounded_witness:
  "\<exists>s gs ps. mq_run (mq_init 1 8) [] s \<and> buffers (queue s) gs ps \<and> length ps \<le> 1"
  using msgqueue_bounded [of 1 8 "[]", OF run_nil] run_nil by fastforce

end
