(* ===== verification/String_Util.thy ===== *)
theory String_Util
  imports C_Prelude "HOL-Library.Monad_Syntax" "HOL-Library.Sublist"
begin

text \<open>
  The string functions of \<open>src/src/util/StringUtil.cc\<close>: URL encoding and decoding, splitting,
  stripping and the prefix test. \<open>__url_decode\<close> works in place on a buffer with two positions; the
  buffer is a list of bytes, and a read or write outside it is the value \<open>None\<close>. The results: decoding
  in place never leaves the buffer and equals a decoder that reads one string and writes another;
  decoding undoes both encoders on every string; the pieces of \<open>split\<close> are those between the
  separators.

  The character classes are those of the C locale; \<open>std::string\<close> is a list of bytes, with the NUL of
  \<open>c_str()\<close> behind it where the source uses it.
\<close>

section \<open>URL decoding and encoding\<close>

definition isupper :: "byte \<Rightarrow> bool" where
  "isupper c \<longleftrightarrow> 65 \<le> ord c \<and> ord c \<le> 90"

definition isxdigit :: "byte \<Rightarrow> bool" where
  "isxdigit c \<longleftrightarrow> isdigit c \<or> 65 \<le> ord c \<and> ord c \<le> 70 \<or> 97 \<le> ord c \<and> ord c \<le> 102"

definition isalnum :: "byte \<Rightarrow> bool" where
  "isalnum c \<longleftrightarrow> isdigit c \<or> isupper c \<or> 97 \<le> ord c \<and> ord c \<le> 122"

definition htoi_digit :: "byte \<Rightarrow> int" where
  "htoi_digit c =
     (let c = (if isupper c then tolower c else c)
      in if isdigit c then int (ord c) - 48 else int (ord c) - 97 + 10)"

definition htoi :: "byte \<Rightarrow> byte \<Rightarrow> int" where
  "htoi a b = htoi_digit a * 16 + htoi_digit b"

definition itoh :: "nat \<Rightarrow> byte" where
  "itoh n = (if n > 9 then chr (n - 10 + 65) else chr (n + 48))"

text \<open>Reads and writes of a buffer.\<close>

definition rd :: "byte list \<Rightarrow> nat \<Rightarrow> byte option" where
  "rd b i = (if i < length b then Some (b ! i) else None)"

definition wr :: "byte list \<Rightarrow> nat \<Rightarrow> byte \<Rightarrow> byte list option" where
  "wr b i c = (if i < length b then Some (b[i := c]) else None)"

text \<open>\<open>*data == '%' && isxdigit(data[1]) && isxdigit(data[2])\<close>\<close>

definition escape_at :: "byte list \<Rightarrow> nat \<Rightarrow> bool option" where
  "escape_at b data = do {
     c \<leftarrow> rd b data;
     if c \<noteq> CHR ''%'' then Some False
     else do {
       x \<leftarrow> rd b (data + 1);
       if \<not> isxdigit x then Some False
       else do { y \<leftarrow> rd b (data + 2); Some (isxdigit y) } } }"

definition decode_step :: "byte list \<Rightarrow> nat \<Rightarrow> nat \<Rightarrow> (byte list \<times> nat) option" where
  "decode_step b data dest = do {
     e \<leftarrow> escape_at b data;
     c \<leftarrow> rd b data;
     if e
     then do {
       x \<leftarrow> rd b (data + 1);
       y \<leftarrow> rd b (data + 2);
       b \<leftarrow> wr b dest (chr (nat (htoi x y mod 256)));
       Some (b, data + 2) }
     else do {
       b \<leftarrow> wr b dest (if c = CHR ''+'' then CHR '' '' else c);
       Some (b, data) } }"

lemma wr_length: "wr b i c = Some b' \<Longrightarrow> length b' = length b"
  by (auto simp: wr_def split: if_splits)

lemma decode_step_length: "decode_step b data dest = Some (b', data') \<Longrightarrow> length b' = length b \<and> data \<le> data' \<and> data < length b"
  by (auto simp: decode_step_def rd_def bind_eq_Some_conv split: if_splits dest: wr_length)

function url_decode_from :: "byte list \<Rightarrow> nat \<Rightarrow> nat \<Rightarrow> (byte list \<times> nat) option" where
  "url_decode_from b data dest = do {
     c \<leftarrow> rd b data;
     if c = NUL
     then do { b \<leftarrow> wr b dest NUL; Some (b, dest) }
     else (case decode_step b data dest of
             None \<Rightarrow> None
           | Some (b, data) \<Rightarrow> url_decode_from b (data + 1) (dest + 1)) }"
  by pat_completeness auto
termination
  by (relation "measure (\<lambda>(b, data, dest). length b - data)") (auto dest!: decode_step_length)

declare url_decode_from.simps [simp del]

definition url_decode :: "byte list \<Rightarrow> byte list option" where
  "url_decode str =
     (if str = [] then Some str
      else do { (b, sz) \<leftarrow> url_decode_from (str @ [NUL]) 0 0; Some (take sz b) })"

definition escape_byte :: "byte \<Rightarrow> byte list" where
  "escape_byte c = [CHR ''%'', itoh (ord c div 16), itoh (ord c mod 16)]"

definition url_encode :: "byte list \<Rightarrow> byte list" where
  "url_encode str = concat (map (\<lambda>c.
     if c = CHR '' '' then ''+''
     else if isalnum c \<or> c \<in> set ''-_.!~*'' \<or> c = CHR 0x27 \<or> c \<in> set ''():/@?#&'' then [c]
     else escape_byte c) str)"

definition url_encode_component :: "byte list \<Rightarrow> byte list" where
  "url_encode_component str = concat (map (\<lambda>c.
     if c = CHR '' '' then ''+''
     else if isalnum c \<or> c \<in> set ''-_.!~*'' \<or> c = CHR 0x27 \<or> c \<in> set ''()'' then [c]
     else escape_byte c) str)"

section \<open>Splitting and stripping\<close>

text \<open>An iterator is the list of the bytes from its position on; \<open>find\<close> of the separator divides the
  bytes into the piece before it and the rest from it.\<close>

lemma tl_dropWhile_less: "dropWhile P xs \<noteq> [] \<Longrightarrow> length (tl (dropWhile P xs)) < length xs"
  using length_dropWhile_le [of P xs] by (cases "dropWhile P xs") auto

function split_from :: "byte \<Rightarrow> byte list \<Rightarrow> byte list list \<Rightarrow> byte list list" where
  "split_from sep start res =
     (let piece = takeWhile (\<lambda>c. c \<noteq> sep) start; rest = dropWhile (\<lambda>c. c \<noteq> sep) start
      in if rest = [] then res @ [piece] else split_from sep (tl rest) (res @ [piece]))"
  by pat_completeness auto
termination
  by (relation "measure (\<lambda>(sep, start, res). length start)") (auto simp del: dropWhile_eq_Nil_conv dest: tl_dropWhile_less)

declare split_from.simps [simp del]

definition split_str :: "byte list \<Rightarrow> byte \<Rightarrow> byte list list" where
  "split_str str sep = split_from sep str []"

function split_filter_from :: "byte \<Rightarrow> byte list \<Rightarrow> byte list list \<Rightarrow> byte list list" where
  "split_filter_from sep start res =
     (let piece = takeWhile (\<lambda>c. c \<noteq> sep) start; rest = dropWhile (\<lambda>c. c \<noteq> sep) start;
          res = (if piece \<noteq> [] then res @ [piece] else res)
      in if rest = [] then res else split_filter_from sep (tl rest) res)"
  by pat_completeness auto
termination
  by (relation "measure (\<lambda>(sep, start, res). length start)") (auto simp del: dropWhile_eq_Nil_conv dest: tl_dropWhile_less)

declare split_filter_from.simps [simp del]

definition split_filter_empty :: "byte list \<Rightarrow> byte \<Rightarrow> byte list list" where
  "split_filter_empty str sep = split_filter_from sep str []"

text \<open>The two pointers of \<open>strip\<close> are positions; \<open>ed\<close> is that of the last byte, so it may be one
  less than \<open>st\<close>.\<close>

function strip_front :: "byte list \<Rightarrow> int \<Rightarrow> int \<Rightarrow> int" where
  "strip_front str st ed = (if st \<le> ed \<and> isspace (str ! nat st) then strip_front str (st + 1) ed else st)"
  by pat_completeness auto
termination
  by (relation "measure (\<lambda>(str, st, ed). nat (ed + 1 - st))") auto

function strip_back :: "byte list \<Rightarrow> int \<Rightarrow> int \<Rightarrow> int" where
  "strip_back str st ed = (if st \<le> ed \<and> isspace (str ! nat ed) then strip_back str st (ed - 1) else ed)"
  by pat_completeness auto
termination
  by (relation "measure (\<lambda>(str, st, ed). nat (ed + 1 - st))") auto

declare strip_front.simps [simp del] strip_back.simps [simp del]

definition strip :: "byte list \<Rightarrow> byte list" where
  "strip str =
     (if str = [] then []
      else let ed = int (length str) - 1; st = strip_front str 0 ed; ed = strip_back str st ed
           in if st \<le> ed then take (nat (ed - st + 1)) (drop (nat st) str) else [])"

definition start_with :: "byte list \<Rightarrow> byte list \<Rightarrow> bool" where
  "start_with str pre = (if length str < length pre then False else list_all (\<lambda>i. str ! i = pre ! i) [0..<length pre])"

section \<open>Decoding\<close>

text \<open>The decoder on one string: what an escape stands for, and blanks for plus signs.\<close>

definition plain :: "byte \<Rightarrow> byte" where
  "plain c = (if c = CHR ''+'' then CHR '' '' else c)"

fun pct_decode :: "byte list \<Rightarrow> byte list" where
  "pct_decode [] = []"
| "pct_decode [c] = [plain c]"
| "pct_decode [c, x] = [plain c, plain x]"
| "pct_decode (c # x # y # s) =
     (if c = CHR ''%'' \<and> isxdigit x \<and> isxdigit y then chr (nat (htoi x y mod 256)) # pct_decode s
      else plain c # pct_decode (x # y # s))"

lemma rd_drop: "drop data b = u \<Longrightarrow> k < length u \<Longrightarrow> rd b (data + k) = Some (u ! k)"
  by (auto simp: rd_def)

lemma isxdigit_NUL [simp]: "\<not> isxdigit NUL"
  by (simp add: isxdigit_def isdigit_def ord_def)

lemma decode_step_escape:
  assumes "drop data b = CHR ''%'' # x # y # s" "dest \<le> data" "isxdigit x" "isxdigit y"
  shows "decode_step b data dest = Some (b[dest := chr (nat (htoi x y mod 256))], data + 2)"
proof -
  have "rd b data = Some CHR ''%''" "rd b (Suc data) = Some x" "rd b (data + 2) = Some y"
    using rd_drop [OF assms(1), of 0] rd_drop [OF assms(1), of 1] rd_drop [OF assms(1), of 2] by simp_all
  moreover have "dest < length b" using assms(1,2) by (metis drop_eq_Nil leI le_trans list.discI)
  ultimately show ?thesis using assms(3,4) by (simp add: decode_step_def escape_at_def wr_def)
qed

lemma decode_step_plain:
  assumes "drop data b = c # s @ NUL # r" "dest \<le> data" "\<not> (c = CHR ''%'' \<and> (\<exists>x y t. s = x # y # t \<and> isxdigit x \<and> isxdigit y))"
  shows "decode_step b data dest = Some (b[dest := plain c], data)"
proof -
  have "escape_at b data = Some False"
  proof (cases s)
    case Nil
    then show ?thesis using rd_drop [OF assms(1), of 0] rd_drop [OF assms(1), of 1] by (simp add: escape_at_def)
  next
    case (Cons x t)
    then show ?thesis using assms(3) rd_drop [OF assms(1), of 0] rd_drop [OF assms(1), of 1] rd_drop [OF assms(1), of 2]
      by (cases t) (auto simp: escape_at_def)
  qed
  moreover have "dest < length b" using assms(1,2) by (metis drop_eq_Nil leI le_trans list.discI)
  ultimately show ?thesis using rd_drop [OF assms(1), of 0] by (simp add: decode_step_def wr_def plain_def)
qed

text \<open>What remains after a step: the rest of the input is untouched, the output has grown by a byte.\<close>

definition decodes_to :: "byte list \<Rightarrow> nat \<Rightarrow> nat \<Rightarrow> byte list \<Rightarrow> bool" where
  "decodes_to b data dest out \<longleftrightarrow>
     (\<exists>b'. url_decode_from b data dest = Some (b', dest + length out) \<and> take (dest + length out) b' = take dest b @ out)"

lemma decodes_to_step:
  assumes "decode_step b data dest = Some (b[dest := x], data')" "rd b data = Some c" "c \<noteq> NUL" "dest < length b"
    and "decodes_to (b[dest := x]) (data' + 1) (dest + 1) out"
  shows "decodes_to b data dest (x # out)"
proof -
  have "take (Suc dest) (b[dest := x]) = take dest b @ [x]" using assms(4) by (simp add: take_Suc_conv_app_nth)
  then show ?thesis using assms by (auto simp: decodes_to_def url_decode_from.simps [of b])
qed

definition escaped :: "byte list \<Rightarrow> bool" where
  "escaped s \<longleftrightarrow> (\<exists>x y t. s = CHR ''%'' # x # y # t \<and> isxdigit x \<and> isxdigit y)"

lemma pct_decode_plain: "\<not> escaped (c # s) \<Longrightarrow> pct_decode (c # s) = plain c # pct_decode s"
  by (cases "c # s" rule: pct_decode.cases) (auto simp: escaped_def)

lemma url_decode_from_correct:
  "drop data b = s @ NUL # r \<Longrightarrow> dest \<le> data \<Longrightarrow> NUL \<notin> set s \<Longrightarrow> decodes_to b data dest (pct_decode s)"
proof (induction s arbitrary: b data dest rule: length_induct)
  case (1 s)
  have d: "dest < length b" using 1(2,3) by (metis drop_eq_Nil leI le_trans append_is_Nil_conv list.discI)
  show ?case
  proof (cases s)
    case Nil
    then have "rd b data = Some NUL" using rd_drop [OF 1(2), of 0] by simp
    then show ?thesis using d Nil by (simp add: decodes_to_def url_decode_from.simps [of b] wr_def)
  next
    case (Cons c t)
    have c: "rd b data = Some c" "c \<noteq> NUL" using rd_drop [OF 1(2), of 0] 1(4) Cons by auto
    have dr: "drop (Suc data + k) (b[dest := x]) = drop k (t @ NUL # r)" for k x
    proof -
      have "drop (Suc data + k) (b[dest := x]) = drop (Suc data + k) b" using 1(3) by (intro drop_update_cancel) simp
      also have "\<dots> = drop k (drop 1 (drop data b))" unfolding drop_drop by (simp add: add.commute)
      finally show ?thesis using 1(2) Cons by simp
    qed
    show ?thesis
    proof (cases "escaped s")
      case True
      then obtain x y u where e: "s = CHR ''%'' # x # y # u" "isxdigit x" "isxdigit y" by (auto simp: escaped_def)
      let ?b = "b[dest := chr (nat (htoi x y mod 256))]"
      have "decodes_to ?b (data + 2 + 1) (dest + 1) (pct_decode u)"
        using 1(1) [rule_format, of u "data + 2 + 1" ?b "dest + 1"] 1(3,4) e dr [of 2] Cons by (simp add: numeral_2_eq_2)
      then show ?thesis
        using decodes_to_step [OF decode_step_escape c d] 1(2,3) e by simp
    next
      case False
      have "decodes_to (b[dest := plain c]) (data + 1) (dest + 1) (pct_decode t)"
        using 1(1) [rule_format, of t "data + 1"] 1(3,4) dr [of 0] Cons by simp
      moreover have "decode_step b data dest = Some (b[dest := plain c], data)"
        using decode_step_plain 1(2,3) False Cons by (auto simp: escaped_def)
      ultimately show ?thesis using decodes_to_step [OF _ c d] False Cons by (simp add: pct_decode_plain)
    qed
  qed
qed

lemma url_decode_eq: "url_decode str = Some (pct_decode (cstr str))"
proof (cases "str = []")
  case False
  obtain r where "drop 0 (str @ [NUL]) = cstr str @ NUL # r"
  proof (cases "NUL \<in> set str")
    case True
    then have "dropWhile (\<lambda>c. c \<noteq> NUL) str \<noteq> []" by (auto simp: dropWhile_eq_Nil_conv)
    then obtain r where "str = cstr str @ NUL # r" unfolding cstr_def
      using hd_dropWhile [of "\<lambda>c. c \<noteq> NUL" str] by (metis list.collapse takeWhile_dropWhile_id)
    then have "drop 0 (str @ [NUL]) = cstr str @ NUL # (r @ [NUL])" by (metis append.assoc append_Cons drop0)
    then show ?thesis by (rule that)
  qed (use that in auto)
  from url_decode_from_correct [OF this, of 0] show ?thesis using False
    by (auto simp: url_decode_def decodes_to_def)
qed (simp add: url_decode_def)

text \<open>C37: URL decoding in place. \<open>StringUtil::url_decode\<close> writes the decoded bytes over the string it
  reads. On every string it returns, no read or write leaves the buffer, and the result is that
  of decoding the string up to its first NUL into another buffer: no byte is overwritten before it
  is read.\<close>

theorem url_decode_in_place: "url_decode str = Some (pct_decode (cstr str))"
  by (rule url_decode_eq)

section \<open>Encoding\<close>

lemma itoh_digit:
  assumes "n < 16"
  shows "isxdigit (itoh n)" "htoi_digit (itoh n) = int n"
  using assms by (auto simp: itoh_def isxdigit_def isdigit_def htoi_digit_def isupper_def tolower_def Let_def)

lemma pct_decode_escape_byte: "pct_decode (escape_byte c @ s) = c # pct_decode s"
proof -
  have "htoi (itoh (ord c div 16)) (itoh (ord c mod 16)) = int (ord c)"
    using ord_less [of c] by (simp add: htoi_def itoh_digit less_mult_imp_div_less zdiv_int zmod_int)
  then show ?thesis using ord_less [of c] by (simp add: escape_byte_def itoh_digit less_mult_imp_div_less nat_mod_distrib)
qed

lemma pct_decode_other: "c \<noteq> CHR ''%'' \<Longrightarrow> pct_decode (c # s) = plain c # pct_decode s"
  by (rule pct_decode_plain) (simp add: escaped_def)

lemma isalnum_punctuation [simp]: "\<not> isalnum CHR ''%''" "\<not> isalnum CHR ''+''" "\<not> isalnum NUL"
  by (simp_all add: isalnum_def isupper_def isdigit_def ord_def)

lemma pct_decode_alnum: "isalnum c \<Longrightarrow> pct_decode (c # s) = c # pct_decode s"
proof -
  assume "isalnum c"
  then have "c \<noteq> CHR ''%''" "c \<noteq> CHR ''+''" by auto
  then show ?thesis by (simp add: pct_decode_other plain_def)
qed

lemma pct_decode_encode: "pct_decode (url_encode s) = s" "pct_decode (url_encode_component s) = s"
  by (induction s)
    (auto simp: url_encode_def url_encode_component_def pct_decode_escape_byte pct_decode_alnum pct_decode_other plain_def)

lemma NUL_notin_escape: "NUL \<notin> set (escape_byte c)"
proof -
  have "itoh n \<noteq> NUL" if "n < 16" for n
    using itoh_digit(1) [OF that] isxdigit_NUL by metis
  from this [of "ord c div 16"] this [of "ord c mod 16"] show ?thesis
    using ord_less [of c] by (simp add: escape_byte_def less_mult_imp_div_less eq_commute [of NUL])
qed

lemma encode_no_NUL: "NUL \<notin> set (url_encode s)" "NUL \<notin> set (url_encode_component s)"
  using NUL_notin_escape by (auto simp: url_encode_def url_encode_component_def split: if_splits)

text \<open>C38: Decoding undoes encoding: for every string of bytes, NUL and bytes above 127 included,
  \<open>url_decode\<close> of the result of \<open>url_encode\<close> or \<open>url_encode_component\<close> is the string.\<close>

theorem url_encode_roundtrip: "url_decode (url_encode s) = Some s \<and> url_decode (url_encode_component s) = Some s"
  by (simp add: url_decode_eq encode_no_NUL pct_decode_encode)

section \<open>Splitting\<close>

fun join :: "byte \<Rightarrow> byte list list \<Rightarrow> byte list" where
  "join sep [] = []"
| "join sep [p] = p"
| "join sep (p # q # ps) = p @ sep # join sep (q # ps)"

lemma join_Cons: "ps \<noteq> [] \<Longrightarrow> join sep (p # ps) = p @ sep # join sep ps"
  by (cases ps) auto

lemma span_eq: "sep \<notin> set p \<Longrightarrow> takeWhile (\<lambda>c. c \<noteq> sep) (p @ sep # s) = p \<and> dropWhile (\<lambda>c. c \<noteq> sep) (p @ sep # s) = sep # s"
  by (induction p) auto

lemma split_from_join:
  assumes "ps \<noteq> []" "list_all (\<lambda>p. sep \<notin> set p) ps"
  shows "split_from sep (join sep ps) res = res @ ps"
  using assms
proof (induction ps arbitrary: res)
  case (Cons p ps)
  have p: "sep \<notin> set p" using Cons.prems(2) by simp
  show ?case
  proof (cases "ps = []")
    case True
    have "takeWhile (\<lambda>c. c \<noteq> sep) p = p" "dropWhile (\<lambda>c. c \<noteq> sep) p = []" using p by (auto simp: takeWhile_eq_all_conv dropWhile_eq_Nil_conv)
    then show ?thesis using True by (simp add: split_from.simps)
  next
    case False
    then show ?thesis using Cons.IH [of "res @ [p]"] Cons.prems(2) p
      by (subst split_from.simps) (simp add: join_Cons span_eq Let_def)
  qed
qed simp

lemma split_str_join: "ps \<noteq> [] \<Longrightarrow> list_all (\<lambda>p. sep \<notin> set p) ps \<Longrightarrow> split_str (join sep ps) sep = ps"
  by (simp add: split_str_def split_from_join)

lemma pieces_exist: "\<exists>ps. ps \<noteq> [] \<and> list_all (\<lambda>p. sep \<notin> set p) ps \<and> join sep ps = s"
proof (induction s)
  case Nil
  show ?case by (rule exI [of _ "[[]]"]) simp
next
  case (Cons c s)
  then obtain p ps where ps: "list_all (\<lambda>p. sep \<notin> set p) (p # ps)" "join sep (p # ps) = s" by (metis list.exhaust)
  show ?case
  proof (cases "c = sep")
    case True
    then show ?thesis using ps by (intro exI [of _ "[] # p # ps"]) simp
  next
    case False
    then show ?thesis using ps by (intro exI [of _ "(c # p) # ps"]) (cases ps; auto)
  qed
qed

lemma split_iff: "ps = split_str s sep \<longleftrightarrow> ps \<noteq> [] \<and> list_all (\<lambda>p. sep \<notin> set p) ps \<and> join sep ps = s"
proof -
  obtain qs where "qs \<noteq> []" "list_all (\<lambda>p. sep \<notin> set p) qs" "join sep qs = s" using pieces_exist [of sep s] by blast
  then show ?thesis using split_str_join [of qs sep] split_str_join [of ps sep] by metis
qed

lemma split_filter_from_eq: "split_filter_from sep start res = res @ filter (\<lambda>p. p \<noteq> []) (split_from sep start [])"
proof (induction sep start res rule: split_filter_from.induct)
  case (1 sep start res)
  have acc: "split_from sep s (a @ b) = a @ split_from sep s b" for s a b
  proof (induction sep s b rule: split_from.induct)
    case (1 sep start b)
    then show ?case by (subst (1 2) split_from.simps) (simp add: Let_def del: dropWhile_eq_Nil_conv)
  qed
  show ?case
    using 1 acc [of _ "[takeWhile (\<lambda>c. c \<noteq> sep) start]" "[]"]
    by (subst split_filter_from.simps, subst split_from.simps) (simp add: Let_def del: dropWhile_eq_Nil_conv takeWhile_eq_Nil_iff)
qed

text \<open>\<open>StringUtil::split\<close> returns the pieces between the separators: the only list of pieces without the
  separator that gives the string back when it is joined with the separator. There is always at
  least one piece. \<open>split_filter_empty\<close> returns the same pieces without the empty ones.\<close>

theorem split_correct:
  "(ps = split_str s sep \<longleftrightarrow> ps \<noteq> [] \<and> list_all (\<lambda>p. sep \<notin> set p) ps \<and> join sep ps = s)
   \<and> split_filter_empty s sep = filter (\<lambda>p. p \<noteq> []) (split_str s sep)"
  using split_iff [of ps s sep] by (simp add: split_filter_empty_def split_filter_from_eq split_str_def)

section \<open>Stripping and prefixes\<close>

lemma strip_front_eq:
  "0 \<le> st \<Longrightarrow> st \<le> int (length s) \<Longrightarrow>
     drop (nat (strip_front s st (int (length s) - 1))) s = dropWhile isspace (drop (nat st) s)
     \<and> st \<le> strip_front s st (int (length s) - 1) \<and> strip_front s st (int (length s) - 1) \<le> int (length s)"
proof (induction "nat (int (length s) - st)" arbitrary: st)
  case 0
  then show ?case by (simp add: strip_front.simps)
next
  case (Suc n)
  have "drop (nat st) s = s ! nat st # drop (nat (st + 1)) s"
    using Suc.hyps(2) Suc.prems by (simp add: Cons_nth_drop_Suc nat_add_distrib)
  moreover have e: "strip_front s st (int (length s) - 1) =
      (if isspace (s ! nat st) then strip_front s (st + 1) (int (length s) - 1) else st)"
    using Suc.hyps(2) by (subst strip_front.simps) (simp, linarith)
  moreover have "n = nat (int (length s) - (st + 1))" "0 \<le> st + 1" "st + 1 \<le> int (length s)" using Suc.hyps(2) Suc.prems by linarith+
  note Suc.hyps(1) [OF this]
  ultimately show ?case unfolding e using Suc.prems by auto
qed

lemma strip_back_eq:
  "0 \<le> st \<Longrightarrow> st \<le> ed + 1 \<Longrightarrow> ed < int (length s) \<Longrightarrow>
     take (nat (strip_back s st ed - st + 1)) (drop (nat st) s) = rev (dropWhile isspace (rev (take (nat (ed - st + 1)) (drop (nat st) s))))
     \<and> strip_back s st ed \<le> ed \<and> st \<le> strip_back s st ed + 1"
proof (induction "nat (ed + 1 - st)" arbitrary: ed)
  case 0
  then show ?case by (simp add: strip_back.simps)
next
  case (Suc n)
  have "take (nat (ed - st + 1)) (drop (nat st) s) = take (nat (ed - 1 - st + 1)) (drop (nat st) s) @ [s ! nat ed]"
    using Suc.hyps(2) Suc.prems
    by (simp add: nat_add_distrib nat_diff_distrib take_Suc_conv_app_nth)
  moreover have e: "strip_back s st ed = (if isspace (s ! nat ed) then strip_back s st (ed - 1) else ed)"
    using Suc.hyps(2) by (subst strip_back.simps) (simp, linarith)
  moreover have "n = nat (ed - 1 + 1 - st)" "st \<le> ed - 1 + 1" "ed - 1 < int (length s)" using Suc.hyps(2) Suc.prems by linarith+
  note Suc.hyps(1) [OF this(1) Suc.prems(1) this(2,3)]
  ultimately show ?case unfolding e using Suc.prems by auto
qed

lemma strip_eq: "strip s = rev (dropWhile isspace (rev (dropWhile isspace s)))"
proof (cases "s = []")
  case False
  let ?e = "int (length s) - 1"
  let ?st = "strip_front s 0 ?e"
  have f: "drop (nat ?st) s = dropWhile isspace s" "0 \<le> ?st" "?st \<le> int (length s)" using strip_front_eq [of 0 s] by auto
  have len: "length (dropWhile isspace s) \<le> nat (int (length s) - ?st)" using f(2,3) by (simp add: nat_diff_distrib flip: f(1))
  let ?ed = "strip_back s ?st ?e"
  have b: "take (nat (?ed - ?st + 1)) (drop (nat ?st) s) = rev (dropWhile isspace (rev (dropWhile isspace s)))" "?st \<le> ?ed + 1"
    using strip_back_eq [of ?st ?e s] f len by auto
  show ?thesis
  proof (cases "?st \<le> ?ed")
    case True
    then show ?thesis using b(1) False by (simp add: strip_def Let_def)
  next
    case 2: False
    then have "nat (?ed - ?st + 1) = 0" by simp
    then show ?thesis using b(1) False 2 by (simp add: strip_def Let_def)
  qed
qed (simp add: strip_def)

lemma start_with_eq: "start_with s p = prefix p s"
proof -
  have "prefix p s \<longleftrightarrow> length p \<le> length s \<and> take (length p) s = p"
    by (metis append_eq_conv_conj append_take_drop_id prefix_def prefix_length_le)
  also have "\<dots> \<longleftrightarrow> length p \<le> length s \<and> (\<forall>i < length p. s ! i = p ! i)" by (auto simp: list_eq_iff_nth_eq)
  finally show ?thesis by (auto simp: start_with_def list_all_iff)
qed

end
