(* ===== verification/Uri_Parser.thy ===== *)
theory Uri_Parser
  imports Blocks String_Util
begin

text \<open>
  The URI parser of \<open>src/src/util/URIParser.cc\<close> and \<open>URIParser.h\<close>: the class \<open>ParsedURI\<close> with its copies
  and moves, \<open>URIParser::parse\<close> and the splitting of queries and paths. The text is the list of its
  bytes with the NUL at the end; a read outside it is \<open>None\<close>. The arrays \<open>start_idx\<close> and \<open>end_idx\<close> are
  lists of seven positions, indexed by the constants \<open>URI_SCHEME\<close> to \<open>URI_PATH\<close>; positions are natural
  numbers, so texts are shorter than \<open>2^31\<close> bytes. A part is a block with its bytes, or NULL.

  The results: parsing returns on every text, reads only inside it, owns exactly its blocks unless
  \<open>realloc\<close> fails on a reused object, and gives back the parts of every URI it is printed from; a
  copy has the same parts in fresh blocks or reports the error; \<open>split_query\<close> keeps the first and
  \<open>split_query_strict\<close> all values of a key.
\<close>

section \<open>Parts and tables\<close>

definition URI_SCHEME :: nat where [simp]: "URI_SCHEME = 0"
definition URI_USERINFO :: nat where [simp]: "URI_USERINFO = 1"
definition URI_HOST :: nat where [simp]: "URI_HOST = 2"
definition URI_PORT :: nat where [simp]: "URI_PORT = 3"
definition URI_QUERY :: nat where [simp]: "URI_QUERY = 4"
definition URI_FRAGMENT :: nat where [simp]: "URI_FRAGMENT = 5"
definition URI_PATH :: nat where [simp]: "URI_PATH = 6"
definition URI_PART_ELEMENTS :: nat where [simp]: "URI_PART_ELEMENTS = 7"

definition valid_char :: "nat list list" where
  "valid_char = [
    [
      0, 0, 0, 0, 0, 0, 0, 0, 0, 0, 0, 0, 0, 0, 0, 0,
      0, 0, 0, 0, 0, 0, 0, 0, 0, 0, 0, 0, 0, 0, 0, 0,
      0, 0, 0, 0, 0, 0, 0, 0, 0, 0, 0, 1, 0, 1, 1, 0,
      1, 1, 1, 1, 1, 1, 1, 1, 1, 1, 0, 0, 0, 0, 0, 0,
      0, 1, 1, 1, 1, 1, 1, 1, 1, 1, 1, 1, 1, 1, 1, 1,
      1, 1, 1, 1, 1, 1, 1, 1, 1, 1, 1, 0, 0, 0, 0, 0,
      0, 1, 1, 1, 1, 1, 1, 1, 1, 1, 1, 1, 1, 1, 1, 1,
      1, 1, 1, 1, 1, 1, 1, 1, 1, 1, 1, 0, 0, 0, 0, 0,
      0, 0, 0, 0, 0, 0, 0, 0, 0, 0, 0, 0, 0, 0, 0, 0,
      0, 0, 0, 0, 0, 0, 0, 0, 0, 0, 0, 0, 0, 0, 0, 0,
      0, 0, 0, 0, 0, 0, 0, 0, 0, 0, 0, 0, 0, 0, 0, 0,
      0, 0, 0, 0, 0, 0, 0, 0, 0, 0, 0, 0, 0, 0, 0, 0,
      0, 0, 0, 0, 0, 0, 0, 0, 0, 0, 0, 0, 0, 0, 0, 0,
      0, 0, 0, 0, 0, 0, 0, 0, 0, 0, 0, 0, 0, 0, 0, 0,
      0, 0, 0, 0, 0, 0, 0, 0, 0, 0, 0, 0, 0, 0, 0, 0,
      0, 0, 0, 0, 0, 0, 0, 0, 0, 0, 0, 0, 0, 0, 0, 0],
    [
      0, 0, 0, 0, 0, 0, 0, 0, 0, 0, 0, 0, 0, 0, 0, 0,
      0, 0, 0, 0, 0, 0, 0, 0, 0, 0, 0, 0, 0, 0, 0, 0,
      0, 1, 0, 0, 1, 1, 1, 1, 1, 1, 1, 1, 1, 1, 1, 0,
      1, 1, 1, 1, 1, 1, 1, 1, 1, 1, 1, 1, 0, 1, 0, 0,
      0, 1, 1, 1, 1, 1, 1, 1, 1, 1, 1, 1, 1, 1, 1, 1,
      1, 1, 1, 1, 1, 1, 1, 1, 1, 1, 1, 0, 0, 0, 0, 1,
      0, 1, 1, 1, 1, 1, 1, 1, 1, 1, 1, 1, 1, 1, 1, 1,
      1, 1, 1, 1, 1, 1, 1, 1, 1, 1, 1, 0, 0, 0, 1, 0,
      0, 0, 0, 0, 0, 0, 0, 0, 0, 0, 0, 0, 0, 0, 0, 0,
      0, 0, 0, 0, 0, 0, 0, 0, 0, 0, 0, 0, 0, 0, 0, 0,
      0, 0, 0, 0, 0, 0, 0, 0, 0, 0, 0, 0, 0, 0, 0, 0,
      0, 0, 0, 0, 0, 0, 0, 0, 0, 0, 0, 0, 0, 0, 0, 0,
      0, 0, 0, 0, 0, 0, 0, 0, 0, 0, 0, 0, 0, 0, 0, 0,
      0, 0, 0, 0, 0, 0, 0, 0, 0, 0, 0, 0, 0, 0, 0, 0,
      0, 0, 0, 0, 0, 0, 0, 0, 0, 0, 0, 0, 0, 0, 0, 0,
      0, 0, 0, 0, 0, 0, 0, 0, 0, 0, 0, 0, 0, 0, 0, 0],
    [
      0, 0, 0, 0, 0, 0, 0, 0, 0, 0, 0, 0, 0, 0, 0, 0,
      0, 0, 0, 0, 0, 0, 0, 0, 0, 0, 0, 0, 0, 0, 0, 0,
      0, 1, 0, 0, 1, 1, 1, 1, 1, 1, 1, 1, 1, 1, 1, 0,
      1, 1, 1, 1, 1, 1, 1, 1, 1, 1, 1, 1, 0, 1, 0, 0,
      0, 1, 1, 1, 1, 1, 1, 1, 1, 1, 1, 1, 1, 1, 1, 1,
      1, 1, 1, 1, 1, 1, 1, 1, 1, 1, 1, 1, 0, 1, 0, 1,
      0, 1, 1, 1, 1, 1, 1, 1, 1, 1, 1, 1, 1, 1, 1, 1,
      1, 1, 1, 1, 1, 1, 1, 1, 1, 1, 1, 0, 0, 0, 1, 0,
      0, 0, 0, 0, 0, 0, 0, 0, 0, 0, 0, 0, 0, 0, 0, 0,
      0, 0, 0, 0, 0, 0, 0, 0, 0, 0, 0, 0, 0, 0, 0, 0,
      0, 0, 0, 0, 0, 0, 0, 0, 0, 0, 0, 0, 0, 0, 0, 0,
      0, 0, 0, 0, 0, 0, 0, 0, 0, 0, 0, 0, 0, 0, 0, 0,
      0, 0, 0, 0, 0, 0, 0, 0, 0, 0, 0, 0, 0, 0, 0, 0,
      0, 0, 0, 0, 0, 0, 0, 0, 0, 0, 0, 0, 0, 0, 0, 0,
      0, 0, 0, 0, 0, 0, 0, 0, 0, 0, 0, 0, 0, 0, 0, 0,
      0, 0, 0, 0, 0, 0, 0, 0, 0, 0, 0, 0, 0, 0, 0, 0],
    [
      0, 0, 0, 0, 0, 0, 0, 0, 0, 0, 0, 0, 0, 0, 0, 0,
      0, 0, 0, 0, 0, 0, 0, 0, 0, 0, 0, 0, 0, 0, 0, 0,
      0, 0, 0, 0, 0, 0, 0, 0, 0, 0, 0, 0, 0, 0, 0, 0,
      1, 1, 1, 1, 1, 1, 1, 1, 1, 1, 0, 0, 0, 0, 0, 0,
      0, 0, 0, 0, 0, 0, 0, 0, 0, 0, 0, 0, 0, 0, 0, 0,
      0, 0, 0, 0, 0, 0, 0, 0, 0, 0, 0, 0, 0, 0, 0, 0,
      0, 0, 0, 0, 0, 0, 0, 0, 0, 0, 0, 0, 0, 0, 0, 0,
      0, 0, 0, 0, 0, 0, 0, 0, 0, 0, 0, 0, 0, 0, 0, 0,
      0, 0, 0, 0, 0, 0, 0, 0, 0, 0, 0, 0, 0, 0, 0, 0,
      0, 0, 0, 0, 0, 0, 0, 0, 0, 0, 0, 0, 0, 0, 0, 0,
      0, 0, 0, 0, 0, 0, 0, 0, 0, 0, 0, 0, 0, 0, 0, 0,
      0, 0, 0, 0, 0, 0, 0, 0, 0, 0, 0, 0, 0, 0, 0, 0,
      0, 0, 0, 0, 0, 0, 0, 0, 0, 0, 0, 0, 0, 0, 0, 0,
      0, 0, 0, 0, 0, 0, 0, 0, 0, 0, 0, 0, 0, 0, 0, 0,
      0, 0, 0, 0, 0, 0, 0, 0, 0, 0, 0, 0, 0, 0, 0, 0,
      0, 0, 0, 0, 0, 0, 0, 0, 0, 0, 0, 0, 0, 0, 0, 0]]"

definition authority_map :: "nat list" where
  "authority_map = [
    URI_PART_ELEMENTS, 0, 0, 0, 0, 0, 0, 0, 0, 0, 0, 0, 0, 0, 0, 0,
    0, 0, 0, 0, 0, 0, 0, 0, 0, 0, 0, 0, 0, 0, 0, 0,
    0, 0, 0, URI_FRAGMENT, 0, 0, 0, 0, 0, 0, 0, 0, 0, 0, 0, URI_PATH,
    0, 0, 0, 0, 0, 0, 0, 0, 0, 0, URI_HOST, 0, 0, 0, 0, URI_QUERY,
    URI_USERINFO, 0, 0, 0, 0, 0, 0, 0, 0, 0, 0, 0, 0, 0, 0, 0,
    0, 0, 0, 0, 0, 0, 0, 0, 0, 0, 0, 0, 0, 0, 0, 0,
    0, 0, 0, 0, 0, 0, 0, 0, 0, 0, 0, 0, 0, 0, 0, 0,
    0, 0, 0, 0, 0, 0, 0, 0, 0, 0, 0, 0, 0, 0, 0, 0,
    0, 0, 0, 0, 0, 0, 0, 0, 0, 0, 0, 0, 0, 0, 0, 0,
    0, 0, 0, 0, 0, 0, 0, 0, 0, 0, 0, 0, 0, 0, 0, 0,
    0, 0, 0, 0, 0, 0, 0, 0, 0, 0, 0, 0, 0, 0, 0, 0,
    0, 0, 0, 0, 0, 0, 0, 0, 0, 0, 0, 0, 0, 0, 0, 0,
    0, 0, 0, 0, 0, 0, 0, 0, 0, 0, 0, 0, 0, 0, 0, 0,
    0, 0, 0, 0, 0, 0, 0, 0, 0, 0, 0, 0, 0, 0, 0, 0,
    0, 0, 0, 0, 0, 0, 0, 0, 0, 0, 0, 0, 0, 0, 0, 0,
    0, 0, 0, 0, 0, 0, 0, 0, 0, 0, 0, 0, 0, 0, 0, 0]"

datatype uri_state = URI_STATE_INIT | URI_STATE_SUCCESS | URI_STATE_INVALID | URI_STATE_ERROR

record parsed_uri =
  uri_scheme :: c_string
  uri_userinfo :: c_string
  uri_host :: c_string
  uri_port :: c_string
  uri_path :: c_string
  uri_query :: c_string
  uri_fragment :: c_string
  uri_st :: uri_state
  uri_error :: int

definition ENOMEM :: int where "ENOMEM = 12"

section \<open>ParsedURI\<close>

definition uri_init :: parsed_uri where
  "uri_init = \<lparr>uri_scheme = None, uri_userinfo = None, uri_host = None, uri_port = None, uri_path = None,
     uri_query = None, uri_fragment = None, uri_st = URI_STATE_INIT, uri_error = 0\<rparr>"

definition uri_deinit :: "parsed_uri \<Rightarrow> heap_st \<Rightarrow> heap_st" where
  "uri_deinit u h =
     (let h = free_string (uri_scheme u) h;
          h = free_string (uri_userinfo u) h;
          h = free_string (uri_host u) h;
          h = free_string (uri_port u) h;
          h = free_string (uri_path u) h;
          h = free_string (uri_query u) h
      in free_string (uri_fragment u) h)"

text \<open>One field of \<open>ParsedURI::copy\<close>: \<open>strdup\<close> when there is a string; false when it fails.\<close>

definition copy_field :: "c_string \<Rightarrow> heap_st \<Rightarrow> bool \<times> c_string \<times> heap_st" where
  "copy_field s h =
     (case s of
        None \<Rightarrow> (True, None, h)
      | Some (_, bytes) \<Rightarrow> (case strdup bytes h of (d, h) \<Rightarrow> (d \<noteq> None, d, h)))"

text \<open>The strings of an object, in the order of the array \<open>dst\<close> of \<open>parse\<close>.\<close>

definition get_part :: "nat \<Rightarrow> parsed_uri \<Rightarrow> c_string" where
  "get_part i u =
     (if i = URI_SCHEME then uri_scheme u else if i = URI_USERINFO then uri_userinfo u else if i = URI_HOST then uri_host u
      else if i = URI_PORT then uri_port u else if i = URI_QUERY then uri_query u else if i = URI_FRAGMENT then uri_fragment u
      else uri_path u)"

definition set_part :: "nat \<Rightarrow> c_string \<Rightarrow> parsed_uri \<Rightarrow> parsed_uri" where
  "set_part i v u =
     (if i = URI_SCHEME then u\<lparr>uri_scheme := v\<rparr> else if i = URI_USERINFO then u\<lparr>uri_userinfo := v\<rparr>
      else if i = URI_HOST then u\<lparr>uri_host := v\<rparr> else if i = URI_PORT then u\<lparr>uri_port := v\<rparr>
      else if i = URI_QUERY then u\<lparr>uri_query := v\<rparr> else if i = URI_FRAGMENT then u\<lparr>uri_fragment := v\<rparr>
      else u\<lparr>uri_path := v\<rparr>)"

text \<open>The body of \<open>do { ... } while (0)\<close>: the fields are copied one after the other; \<open>break\<close> at the first
  failure.\<close>

fun copy_parts :: "nat list \<Rightarrow> parsed_uri \<Rightarrow> parsed_uri \<Rightarrow> heap_st \<Rightarrow> bool \<times> parsed_uri \<times> heap_st" where
  "copy_parts [] src u h = (True, u, h)"
| "copy_parts (i # is) src u h =
     (case copy_field (get_part i src) h of
        (ok, d, h) \<Rightarrow> if ok then copy_parts is src (set_part i d u) h else (False, set_part i d u, h))"

definition copy_fields :: "parsed_uri \<Rightarrow> parsed_uri \<Rightarrow> heap_st \<Rightarrow> bool \<times> parsed_uri \<times> heap_st" where
  "copy_fields = copy_parts [URI_SCHEME, URI_USERINFO, URI_HOST, URI_PORT, URI_PATH, URI_QUERY, URI_FRAGMENT]"

definition uri_copy :: "parsed_uri \<Rightarrow> heap_st \<Rightarrow> parsed_uri \<times> heap_st" where
  "uri_copy src h =
     (let u = uri_init\<lparr>uri_st := uri_st src, uri_error := uri_error src\<rparr>
      in if uri_st src = URI_STATE_SUCCESS
         then (case copy_fields src u h of
                 (True, u, h) \<Rightarrow> (u, h)
               | (False, u, h) \<Rightarrow> (uri_init\<lparr>uri_st := URI_STATE_ERROR, uri_error := ENOMEM\<rparr>, uri_deinit u h))
         else (u, h))"

text \<open>Copying and moving between different objects; the second result of a move is the source.\<close>

definition uri_assign :: "parsed_uri \<Rightarrow> parsed_uri \<Rightarrow> heap_st \<Rightarrow> parsed_uri \<times> heap_st" where
  "uri_assign dst src h = uri_copy src (uri_deinit dst h)"

definition uri_move :: "parsed_uri \<Rightarrow> parsed_uri \<times> parsed_uri" where
  "uri_move src = (src, uri_init)"

definition uri_move_assign :: "parsed_uri \<Rightarrow> parsed_uri \<Rightarrow> heap_st \<Rightarrow> parsed_uri \<times> parsed_uri \<times> heap_st" where
  "uri_move_assign dst src h = (src, uri_init, uri_deinit dst h)"

section \<open>Finding the parts\<close>

record uri_scan =
  uri_i :: nat
  start_idx :: "nat list"
  end_idx :: "nat list"
  pre_state :: nat
  in_ipv6 :: bool
  skip_path :: bool

definition set_start :: "nat \<Rightarrow> nat \<Rightarrow> uri_scan \<Rightarrow> uri_scan" where
  "set_start p v s = s\<lparr>start_idx := (start_idx s)[p := v]\<rparr>"

definition set_end :: "nat \<Rightarrow> nat \<Rightarrow> uri_scan \<Rightarrow> uri_scan" where
  "set_end p v s = s\<lparr>end_idx := (end_idx s)[p := v]\<rparr>"

text \<open>\<open>end_idx[pre_state] = v\<close>\<close>

definition end_part :: "nat \<Rightarrow> uri_scan \<Rightarrow> uri_scan option" where
  "end_part v s = (if pre_state s < length (end_idx s) then Some (set_end (pre_state s) v s) else None)"

definition strlen_at :: "byte list \<Rightarrow> nat \<Rightarrow> nat option" where
  "strlen_at b i = (if NUL \<in> set (drop i b) then Some (length (cstr (drop i b))) else None)"

text \<open>The loop that looks for the end of the scheme: \<open>end_idx[URI_SCHEME]\<close> and the position.\<close>

function scan_scheme :: "byte list \<Rightarrow> nat \<Rightarrow> (nat \<times> nat) option" where
  "scan_scheme b i = do {
     c \<leftarrow> rd b i;
     if c = NUL then Some (0, i)
     else if c = CHR '':'' then Some (i, i + 1)
     else scan_scheme b (i + 1) }"
  by pat_completeness auto
termination
  by (relation "measure (\<lambda>(b, i). length b - i)") (auto simp: rd_def split: if_splits)

definition uri_scan_init :: "nat \<Rightarrow> nat \<Rightarrow> uri_scan" where
  "uri_scan_init e i = \<lparr>uri_i = i, start_idx = replicate URI_PART_ELEMENTS 0,
     end_idx = (replicate URI_PART_ELEMENTS 0)[URI_SCHEME := e], pre_state = URI_SCHEME, in_ipv6 = False, skip_path = False\<rparr>"

text \<open>After the scheme: an authority or a path.\<close>

definition after_scheme :: "byte list \<Rightarrow> uri_scan \<Rightarrow> uri_scan option" where
  "after_scheme b s = do {
     c \<leftarrow> rd b (uri_i s);
     d \<leftarrow> (if c = CHR ''/'' then rd b (uri_i s + 1) else Some c);
     if c = CHR ''/'' \<and> d = CHR ''/''
     then do {
       let i = uri_i s + 2;
       let s = s\<lparr>pre_state := URI_HOST, uri_i := i\<rparr>;
       c \<leftarrow> rd b i;
       let s = (if c = CHR ''['' then s\<lparr>in_ipv6 := True\<rparr> else set_start URI_USERINFO i s);
       Some (set_start URI_HOST i s) }
     else Some (set_start URI_PATH (uri_i s) (s\<lparr>pre_state := URI_PATH\<rparr>)) }"

text \<open>One turn of the loop over the authority; true is \<open>continue\<close>, false is \<open>break\<close>.\<close>

definition authority_step :: "byte list \<Rightarrow> uri_scan \<Rightarrow> (bool \<times> uri_scan) option" where
  "authority_step b s = do {
     let i = uri_i s;
     c \<leftarrow> rd b i;
     let m = authority_map ! ord c;
     if m = 0 then Some (True, s)
     else if m = URI_USERINFO then do {
       d \<leftarrow> rd b (i + 1);
       let s = (if d = CHR ''['' then s\<lparr>in_ipv6 := True\<rparr> else s);
       Some (True, (set_start URI_HOST (i + 1) (set_end URI_USERINFO i s))\<lparr>pre_state := URI_HOST\<rparr>) }
     else if m = URI_HOST then do {
       d \<leftarrow> (if i = 0 then None else rd b (i - 1));
       let s = (if d = CHR '']'' then s\<lparr>in_ipv6 := False\<rparr> else s);
       Some (True, if \<not> in_ipv6 s then (set_start URI_PORT (i + 1) (set_end URI_HOST i s))\<lparr>pre_state := URI_PORT\<rparr> else s) }
     else if m = URI_QUERY then do {
       s \<leftarrow> end_part i s;
       Some (True, (set_start URI_QUERY (i + 1) s)\<lparr>pre_state := URI_QUERY, skip_path := True\<rparr>) }
     else if m = URI_FRAGMENT then do {
       s \<leftarrow> end_part i s;
       n \<leftarrow> strlen_at b i;
       Some (False, (set_end URI_FRAGMENT (i + n) (set_start URI_FRAGMENT (i + 1) s))
                      \<lparr>pre_state := URI_PART_ELEMENTS, skip_path := True\<rparr>) }
     else if m = URI_PATH then
       (if skip_path s then Some (True, s) else Some (False, set_start URI_PATH i s))
     else Some (False, s\<lparr>skip_path := True\<rparr>) }"

lemma set_start_simps [simp]:
  "uri_i (set_start p v s) = uri_i s" "start_idx (set_start p v s) = (start_idx s)[p := v]" "end_idx (set_start p v s) = end_idx s"
  "pre_state (set_start p v s) = pre_state s" "in_ipv6 (set_start p v s) = in_ipv6 s" "skip_path (set_start p v s) = skip_path s"
  by (simp_all add: set_start_def)

lemma set_end_simps [simp]:
  "uri_i (set_end p v s) = uri_i s" "start_idx (set_end p v s) = start_idx s" "end_idx (set_end p v s) = (end_idx s)[p := v]"
  "pre_state (set_end p v s) = pre_state s" "in_ipv6 (set_end p v s) = in_ipv6 s" "skip_path (set_end p v s) = skip_path s"
  by (simp_all add: set_end_def)

lemma authority_step_i: "authority_step b s = Some (go, s') \<Longrightarrow> uri_i s' = uri_i s \<and> uri_i s < length b"
  by (auto simp: authority_step_def Let_def rd_def end_part_def bind_eq_Some_conv split: if_splits)

function authority_loop :: "byte list \<Rightarrow> uri_scan \<Rightarrow> uri_scan option" where
  "authority_loop b s =
     (case authority_step b s of
        None \<Rightarrow> None
      | Some (True, s) \<Rightarrow> authority_loop b (s\<lparr>uri_i := uri_i s + 1\<rparr>)
      | Some (False, s) \<Rightarrow> Some s)"
  by pat_completeness auto
termination
  by (relation "measure (\<lambda>(b, s). length b - uri_i s)") (auto dest!: authority_step_i)

text \<open>The loops over the path and the query behind it.\<close>

function skip_query :: "byte list \<Rightarrow> nat \<Rightarrow> nat option" where
  "skip_query b i = do {
     c \<leftarrow> rd b (i + 1);
     if c = NUL then Some i
     else if c = CHR ''#'' then Some (i + 1)
     else skip_query b (i + 1) }"
  by pat_completeness auto
termination
  by (relation "measure (\<lambda>(b, i). length b - i)") (auto simp: rd_def split: if_splits)

declare scan_scheme.simps [simp del] authority_loop.simps [simp del] skip_query.simps [simp del]

lemma skip_query_mono: "skip_query b i = Some j \<Longrightarrow> i \<le> j"
proof (induction b i rule: skip_query.induct)
  case (1 b i)
  show ?case using 1(2) 1(1) by (subst (asm) skip_query.simps) (force simp: bind_eq_Some_conv split: if_splits)
qed

definition path_step :: "byte list \<Rightarrow> uri_scan \<Rightarrow> uri_scan option" where
  "path_step b s = do {
     c \<leftarrow> rd b (uri_i s);
     if c = CHR ''?''
     then do {
       let s' = (set_start URI_QUERY (uri_i s + 1) (set_end URI_PATH (uri_i s) s))\<lparr>pre_state := URI_QUERY\<rparr>;
       j \<leftarrow> skip_query b (uri_i s);
       Some (s'\<lparr>uri_i := j\<rparr>) }
     else Some s }"

lemma path_step_i: "path_step b s = Some s' \<Longrightarrow> uri_i s \<le> uri_i s' \<and> uri_i s < length b"
  by (auto simp: path_step_def Let_def rd_def bind_eq_Some_conv split: if_splits dest: skip_query_mono)

function path_loop :: "byte list \<Rightarrow> uri_scan \<Rightarrow> uri_scan option" where
  "path_loop b s = do {
     c \<leftarrow> rd b (uri_i s);
     if c = NUL then Some s
     else (case path_step b s of
             None \<Rightarrow> None
           | Some s \<Rightarrow> do {
               c \<leftarrow> rd b (uri_i s);
               if c = CHR ''#''
               then do {
                 s \<leftarrow> end_part (uri_i s) s;
                 Some ((set_start URI_FRAGMENT (uri_i s + 1) s)\<lparr>pre_state := URI_FRAGMENT\<rparr>) }
               else path_loop b (s\<lparr>uri_i := uri_i s + 1\<rparr>) }) }"
  by pat_completeness auto
termination
  by (relation "measure (\<lambda>(b, s). length b - uri_i s)") (auto dest!: path_step_i)

declare path_loop.simps [simp del]

definition find_parts :: "byte list \<Rightarrow> uri_scan option option" where
  "find_parts b = do {
     (e, i) \<leftarrow> scan_scheme b 0;
     if e = 0 then Some None
     else do {
       s \<leftarrow> after_scheme b (uri_scan_init e i);
       s \<leftarrow> (if start_idx s ! URI_PATH = 0 then authority_loop b s else Some s);
       s \<leftarrow> (if pre_state s \<noteq> URI_PART_ELEMENTS then end_part (uri_i s) s else Some s);
       if skip_path s then Some (Some s)
       else do {
         s \<leftarrow> path_loop b (s\<lparr>pre_state := URI_PATH\<rparr>);
         n \<leftarrow> strlen_at b (uri_i s);
         s \<leftarrow> end_part (uri_i s + n) s;
         Some (Some s) } } }"

section \<open>Checking and storing the parts\<close>

function valid_from :: "byte list \<Rightarrow> nat \<Rightarrow> nat \<Rightarrow> nat \<Rightarrow> bool option" where
  "valid_from b row j e =
     (if j < e
      then do { c \<leftarrow> rd b j; if valid_char ! row ! ord c = 0 then Some False else valid_from b row (j + 1) e }
      else Some True)"
  by pat_completeness auto
termination
  by (relation "measure (\<lambda>(b, row, j, e). e - j)") auto

declare valid_from.simps [simp del]

fun valid_rows :: "byte list \<Rightarrow> uri_scan \<Rightarrow> nat list \<Rightarrow> bool option" where
  "valid_rows b s [] = Some True"
| "valid_rows b s (i # is) = do {
     ok \<leftarrow> valid_from b i (start_idx s ! i) (end_idx s ! i);
     if ok then valid_rows b s is else Some False }"

definition copy_bytes :: "byte list \<Rightarrow> nat \<Rightarrow> nat \<Rightarrow> byte list option" where
  "copy_bytes b i n = (if i + n \<le> length b then Some (take n (drop i b)) else None)"

definition part_bytes :: "byte list \<Rightarrow> nat \<Rightarrow> nat \<Rightarrow> nat \<Rightarrow> byte list option" where
  "part_bytes b i st en = do {
     bracket \<leftarrow> (if i = URI_HOST then do {
         c \<leftarrow> rd b st;
         if c = CHR ''['' then do { d \<leftarrow> rd b (en - 1); Some (d = CHR '']'') } else Some False }
       else Some False);
     if bracket then copy_bytes b (st + 1) (en - st - 2) else copy_bytes b st (en - st) }"

fun store_parts :: "byte list \<Rightarrow> uri_scan \<Rightarrow> nat list \<Rightarrow> parsed_uri \<Rightarrow> heap_st \<Rightarrow> (int \<times> parsed_uri \<times> heap_st) option" where
  "store_parts b s [] u h = Some (0, u\<lparr>uri_st := URI_STATE_SUCCESS\<rparr>, h)"
| "store_parts b s (i # is) u h =
     (let st = start_idx s ! i; en = end_idx s ! i
      in if en > st
         then (case realloc (map_option fst (get_part i u)) h of
                 (None, h) \<Rightarrow> Some (- 1, (set_part i None u)\<lparr>uri_st := URI_STATE_ERROR, uri_error := ENOMEM\<rparr>, h)
               | (Some a, h) \<Rightarrow> do {
                   bytes \<leftarrow> part_bytes b i st en;
                   store_parts b s is (set_part i (Some (a, bytes)) u) h })
         else store_parts b s is (set_part i None u) (free_string (get_part i u) h))"

definition uri_parse :: "byte list \<Rightarrow> parsed_uri \<Rightarrow> heap_st \<Rightarrow> (int \<times> parsed_uri \<times> heap_st) option" where
  "uri_parse b u h = do {
     let u = u\<lparr>uri_st := URI_STATE_INVALID\<rparr>;
     parts \<leftarrow> find_parts b;
     case parts of
       None \<Rightarrow> Some (- 1, u, h)
     | Some s \<Rightarrow> do {
         ok \<leftarrow> valid_rows b s [0..<URI_QUERY];
         if ok then store_parts b s [0..<URI_PART_ELEMENTS] u h else Some (- 1, u, h) } }"

section \<open>Queries and paths\<close>

text \<open>One element of the query in \<open>split_query_strict\<close> and \<open>split_query\<close>; a key without a value has an
  empty value.\<close>

definition key_value :: "byte list \<Rightarrow> byte list \<times> byte list" where
  "key_value ele = (let kv = split_str ele (CHR ''='') in (kv ! 0, if length kv = 1 then [] else kv ! 1))"

definition strict_step :: "(byte list \<rightharpoonup> byte list list) \<Rightarrow> byte list \<Rightarrow> (byte list \<rightharpoonup> byte list list)" where
  "strict_step res ele =
     (if ele = [] then res
      else let (key, val) = key_value ele
           in if key = [] then res
              else res(key \<mapsto> (case res key of None \<Rightarrow> [] | Some vs \<Rightarrow> vs) @ [val]))"

definition split_query_strict :: "byte list \<Rightarrow> (byte list \<rightharpoonup> byte list list)" where
  "split_query_strict query = (if query = [] then Map.empty else foldl strict_step Map.empty (split_str query (CHR ''&'')))"

definition query_step :: "(byte list \<rightharpoonup> byte list) \<Rightarrow> byte list \<Rightarrow> (byte list \<rightharpoonup> byte list)" where
  "query_step res ele =
     (if ele = [] then res
      else let (key, val) = key_value ele
           in if key = [] \<or> res key \<noteq> None then res else res(key \<mapsto> val))"

definition split_query :: "byte list \<Rightarrow> (byte list \<rightharpoonup> byte list)" where
  "split_query query = (if query = [] then Map.empty else foldl query_step Map.empty (split_str query (CHR ''&'')))"

definition split_path :: "byte list \<Rightarrow> byte list list" where
  "split_path path = split_filter_empty path (CHR ''/'')"

section \<open>Parsing stays inside the text\<close>

definition uri_text :: "byte list \<Rightarrow> bool" where
  "uri_text b \<longleftrightarrow> b \<noteq> [] \<and> last b = NUL \<and> NUL \<notin> set (butlast b)"

lemma uri_textE:
  assumes "uri_text b"
  obtains s where "b = s @ [NUL]" "NUL \<notin> set s"
  using assms append_butlast_last_id [of b] unfolding uri_text_def by metis

lemma uri_text_append [simp]: "NUL \<notin> set s \<Longrightarrow> uri_text (s @ [NUL])"
  by (simp add: uri_text_def)

lemma text_rd: "i < length b \<Longrightarrow> rd b i = Some (b ! i)"
  by (simp add: rd_def)

lemma text_next: "uri_text b \<Longrightarrow> i < length b \<Longrightarrow> b ! i \<noteq> NUL \<Longrightarrow> Suc i < length b"
  by (elim uri_textE) (auto simp: nth_append less_Suc_eq split: if_splits)

lemma text_strlen:
  assumes "uri_text b" "i < length b"
  shows "strlen_at b i = Some (length b - Suc i)"
proof -
  obtain s where s: "b = s @ [NUL]" "NUL \<notin> set s" using assms(1) by (rule uri_textE)
  have "drop i b = drop i s @ [NUL]" "NUL \<notin> set (drop i s)" using s assms(2) by (auto dest: in_set_dropD)
  then have "cstr (drop i b) = drop i s" "NUL \<in> set (drop i b)" by (auto simp: cstr_def takeWhile_tail)
  then show ?thesis using s by (simp add: strlen_at_def)
qed

definition idx_ok :: "byte list \<Rightarrow> uri_scan \<Rightarrow> bool" where
  "idx_ok b s \<longleftrightarrow> length (start_idx s) = 7 \<and> length (end_idx s) = 7 \<and> uri_i s < length b \<and> 0 < uri_i s \<and> pre_state s \<le> 7
     \<and> (\<forall>x \<in> set (start_idx s). x < length b) \<and> (\<forall>x \<in> set (end_idx s). x < length b)"

lemma idx_ok_set_start: "idx_ok b s \<Longrightarrow> v < length b \<Longrightarrow> idx_ok b (set_start p v s)"
  using set_update_subset_insert [of "start_idx s" p v] by (fastforce simp: idx_ok_def)

lemma idx_ok_set_end: "idx_ok b s \<Longrightarrow> v < length b \<Longrightarrow> idx_ok b (set_end p v s)"
  using set_update_subset_insert [of "end_idx s" p v] by (fastforce simp: idx_ok_def)

lemma idx_ok_fields [simp]:
  "idx_ok b (s\<lparr>in_ipv6 := v\<rparr>) = idx_ok b s" "idx_ok b (s\<lparr>skip_path := w\<rparr>) = idx_ok b s"
  by (simp_all add: idx_ok_def)

lemma idx_ok_pre: "idx_ok b s \<Longrightarrow> p \<le> 7 \<Longrightarrow> idx_ok b (s\<lparr>pre_state := p\<rparr>)"
  by (simp add: idx_ok_def)

lemma end_part_ok: "idx_ok b s \<Longrightarrow> pre_state s < 7 \<Longrightarrow> end_part v s = Some (set_end (pre_state s) v s)"
  by (simp add: end_part_def idx_ok_def)

lemma idx_ok_i: "idx_ok b s \<Longrightarrow> 0 < i \<Longrightarrow> i < length b \<Longrightarrow> idx_ok b (s\<lparr>uri_i := i\<rparr>)"
  by (simp add: idx_ok_def)

lemma authority_map_NUL: "authority_map ! ord NUL = URI_PART_ELEMENTS"
  by (simp add: authority_map_def ord_def)

lemma authority_step_ok:
  assumes t: "uri_text b" and ok: "idx_ok b s" and p: "pre_state s < 7"
  shows "\<exists>go s'. authority_step b s = Some (go, s') \<and> idx_ok b s' \<and> (go \<longrightarrow> b ! uri_i s \<noteq> NUL \<and> pre_state s' < 7)"
proof -
  have i: "uri_i s < length b" "0 < uri_i s" using ok by (auto simp: idx_ok_def)
  show ?thesis
  proof (cases "b ! uri_i s = NUL")
    case True
    then show ?thesis using i ok by (auto simp: authority_step_def text_rd authority_map_NUL)
  next
    case False
    have n: "Suc (uri_i s) < length b" by (rule text_next [OF t i(1) False])
    have "uri_i s + (length b - Suc (uri_i s)) < length b" using i by simp
    then have idx: "idx_ok b s' \<and> (go \<longrightarrow> pre_state s' < 7)" if "authority_step b s = Some (go, s')" for go s'
      using that i n ok p text_strlen [OF t i(1)]
      by (auto simp: authority_step_def text_rd Let_def end_part_ok [OF ok p] simp del: One_nat_def split: if_splits
          intro!: idx_ok_set_start idx_ok_set_end idx_ok_pre)
    have "authority_step b s \<noteq> None"
      using i n text_strlen [OF t i(1)] by (simp add: authority_step_def text_rd Let_def end_part_ok [OF ok p] del: not_None_eq)
    then show ?thesis using idx False by (cases "authority_step b s") fastforce+
  qed
qed

lemma authority_loop_ok: "uri_text b \<Longrightarrow> idx_ok b s \<Longrightarrow> pre_state s < 7 \<Longrightarrow> \<exists>s'. authority_loop b s = Some s' \<and> idx_ok b s'"
proof (induction b s rule: authority_loop.induct)
  case (1 b s)
  obtain go s1 where s1: "authority_step b s = Some (go, s1)" "idx_ok b s1" "go \<longrightarrow> b ! uri_i s \<noteq> NUL \<and> pre_state s1 < 7"
    using authority_step_ok [OF 1(2-4)] by blast
  show ?case
  proof (cases go)
    case True
    have "uri_i s1 = uri_i s" using authority_step_i [OF s1(1)] by simp
    then have "idx_ok b (s1\<lparr>uri_i := uri_i s1 + 1\<rparr>)"
      using idx_ok_i [OF s1(2)] text_next [OF 1(2), of "uri_i s"] authority_step_i [OF s1(1)] s1(3) True by simp
    then show ?thesis using 1(1) [OF s1(1)] True 1(2) s1(1,3) by (simp add: authority_loop.simps [of b s])
  next
    case False
    then show ?thesis using s1 by (simp add: authority_loop.simps [of b s])
  qed
qed

lemma scan_scheme_ok: "uri_text b \<Longrightarrow> i < length b \<Longrightarrow> \<exists>e j. scan_scheme b i = Some (e, j) \<and> e < length b \<and> j < length b \<and> (0 < e \<longrightarrow> 0 < j)"
proof (induction b i rule: scan_scheme.induct)
  case (1 b i)
  show ?case
  proof (cases "b ! i = NUL \<or> b ! i = CHR '':''")
    case True
    then show ?thesis using 1 text_next [OF 1(2,3)] by (auto simp: scan_scheme.simps [of b i] text_rd)
  next
    case False
    then show ?thesis using 1(1) [OF text_rd [OF 1(3)]] 1(2,3) text_next [OF 1(2,3)] by (auto simp: scan_scheme.simps [of b i] text_rd)
  qed
qed

lemma after_scheme_ok:
  assumes t: "uri_text b" and ok: "idx_ok b s"
  shows "\<exists>s'. after_scheme b s = Some s' \<and> idx_ok b s' \<and> pre_state s' < 7"
proof -
  have i: "uri_i s < length b" using ok by (auto simp: idx_ok_def)
  have "Suc (Suc (uri_i s)) < length b" if "b ! uri_i s = CHR ''/''" "b ! Suc (uri_i s) = CHR ''/''"
    using text_next [OF t i] text_next [OF t, of "Suc (uri_i s)"] that by auto
  moreover have "Suc (uri_i s) < length b" if "b ! uri_i s = CHR ''/''" using text_next [OF t i] that by auto
  ultimately show ?thesis using i ok
    by (auto simp: after_scheme_def text_rd Let_def intro!: idx_ok_set_start idx_ok_i idx_ok_pre)
qed

lemma skip_query_ok:
  "uri_text b \<Longrightarrow> i < length b \<Longrightarrow> b ! i \<noteq> NUL \<Longrightarrow> \<exists>j. skip_query b i = Some j \<and> j < length b \<and> b ! j \<noteq> NUL"
proof (induction b i rule: skip_query.induct)
  case (1 b i)
  have n: "Suc i < length b" by (rule text_next [OF 1(2-4)])
  show ?case
  proof (cases "b ! Suc i = NUL \<or> b ! Suc i = CHR ''#''")
    case True
    then show ?thesis using 1(3,4) n by (auto simp: skip_query.simps [of b i] text_rd)
  next
    case False
    then show ?thesis using 1(1) [of "b ! Suc i"] 1(2) n by (auto simp: skip_query.simps [of b i] text_rd)
  qed
qed

lemma path_step_ok:
  assumes t: "uri_text b" and ok: "idx_ok b s" and n: "b ! uri_i s \<noteq> NUL" and p: "pre_state s < 7"
  shows "\<exists>s'. path_step b s = Some s' \<and> idx_ok b s' \<and> b ! uri_i s' \<noteq> NUL \<and> pre_state s' < 7"
proof -
  have i: "uri_i s < length b" "0 < uri_i s" using ok by (auto simp: idx_ok_def)
  obtain j where j: "skip_query b (uri_i s) = Some j" "j < length b" "b ! j \<noteq> NUL" using skip_query_ok [OF t i(1) n] by blast
  have "0 < j" using skip_query_mono [OF j(1)] i(2) by simp
  then show ?thesis using i j n ok p text_next [OF t i(1) n]
    by (auto simp: path_step_def text_rd Let_def intro!: idx_ok_set_start idx_ok_set_end idx_ok_i idx_ok_pre)
qed

lemma path_loop_ok: "uri_text b \<Longrightarrow> idx_ok b s \<Longrightarrow> pre_state s < 7 \<Longrightarrow> \<exists>s'. path_loop b s = Some s' \<and> idx_ok b s' \<and> pre_state s' < 7"
proof (induction b s rule: path_loop.induct)
  case (1 b s)
  have i: "uri_i s < length b" using 1(3) by (auto simp: idx_ok_def)
  show ?case
  proof (cases "b ! uri_i s = NUL")
    case True
    then show ?thesis using 1(3,4) i by (simp add: path_loop.simps [of b s] text_rd)
  next
    case False
    obtain s1 where s1: "path_step b s = Some s1" "idx_ok b s1" "b ! uri_i s1 \<noteq> NUL" "pre_state s1 < 7"
      using path_step_ok [OF 1(2,3) False 1(4)] by blast
    have j: "uri_i s1 < length b" using s1(2) by (auto simp: idx_ok_def)
    have n: "Suc (uri_i s1) < length b" by (rule text_next [OF 1(2) j s1(3)])
    show ?thesis
    proof (cases "b ! uri_i s1 = CHR ''#''")
      case True
      then show ?thesis using False i j n s1 
        by (auto simp: path_loop.simps [of b s] text_rd end_part_ok [OF s1(2,4)] intro!: idx_ok_set_start idx_ok_set_end idx_ok_pre)
    next
      case not: False
      have "idx_ok b (s1\<lparr>uri_i := uri_i s1 + 1\<rparr>)" using idx_ok_i [OF s1(2)] n by simp
      then show ?thesis using 1(1) [OF text_rd [OF i] False s1(1) text_rd [OF j] not 1(2)] False i j not s1(1,4)
        by (simp add: path_loop.simps [of b s] text_rd)
    qed
  qed
qed

lemma find_parts_ok:
  assumes t: "uri_text b"
  shows "\<exists>r. find_parts b = Some r \<and> (\<forall>s. r = Some s \<longrightarrow> idx_ok b s)"
proof -
  have "0 < length b" using t by (auto simp: uri_text_def)
  then obtain e j where e: "scan_scheme b 0 = Some (e, j)" "e < length b" "j < length b" "0 < e \<longrightarrow> 0 < j" using scan_scheme_ok [OF t] by blast
  show ?thesis
  proof (cases "e = 0")
    case False
    have "set ((replicate 7 (0::nat))[0 := e]) \<subseteq> {0, e}" using set_update_subset_insert [of "replicate 7 (0::nat)" 0 e] by auto
    then have "idx_ok b (uri_scan_init e j)" using e False \<open>0 < length b\<close> by (auto simp: idx_ok_def uri_scan_init_def)
    then obtain s1 where s1: "after_scheme b (uri_scan_init e j) = Some s1" "idx_ok b s1" "pre_state s1 < 7" using after_scheme_ok [OF t] by blast
    obtain s2 where s2: "(if start_idx s1 ! URI_PATH = 0 then authority_loop b s1 else Some s1) = Some s2" "idx_ok b s2"
      using authority_loop_ok [OF t s1(2,3)] s1(2) by (cases "start_idx s1 ! URI_PATH = 0") auto
    have "uri_i s2 < length b" "pre_state s2 \<le> 7" using s2(2) by (simp_all add: idx_ok_def)
    then obtain s3 where s3: "(if pre_state s2 \<noteq> URI_PART_ELEMENTS then end_part (uri_i s2) s2 else Some s2) = Some s3" "idx_ok b s3"
      using s2(2) end_part_ok [OF s2(2), of "uri_i s2"] idx_ok_set_end [OF s2(2)] by (cases "pre_state s2 = 7") auto
    obtain s4 where s4: "path_loop b (s3\<lparr>pre_state := URI_PATH\<rparr>) = Some s4" "idx_ok b s4" "pre_state s4 < 7"
      using path_loop_ok [OF t, of "s3\<lparr>pre_state := URI_PATH\<rparr>"] idx_ok_pre [OF s3(2), of 6] by auto
    have i: "uri_i s4 < length b" using s4(2) by (auto simp: idx_ok_def)
    then have "idx_ok b (set_end (pre_state s4) (uri_i s4 + (length b - Suc (uri_i s4))) s4)" by (intro idx_ok_set_end s4) simp
    then show ?thesis using False e(1) s1(1) s2(1) s3 s4(1) text_strlen [OF t i] end_part_ok [OF s4(2,3)]
      by (simp add: find_parts_def del: URI_PART_ELEMENTS_def URI_PATH_def)
  qed (use e in \<open>simp add: find_parts_def\<close>)
qed

section \<open>Storing the parts\<close>

definition uri_owned :: "parsed_uri \<Rightarrow> addr list" where
  "uri_owned u = str_owned (uri_scheme u) @ str_owned (uri_userinfo u) @ str_owned (uri_host u) @ str_owned (uri_port u)
     @ str_owned (uri_path u) @ str_owned (uri_query u) @ str_owned (uri_fragment u)"

lemma str_owned_None [simp]: "str_owned None = []"
  by (simp add: str_owned_def opt_list_def)

lemma uri_owned_state [simp]: "uri_owned (u\<lparr>uri_st := st\<rparr>) = uri_owned u" "uri_owned (u\<lparr>uri_error := e\<rparr>) = uri_owned u"
  by (simp_all add: uri_owned_def)

lemma uri_owned_init [simp]: "uri_owned uri_init = []"
  by (simp add: uri_owned_def uri_init_def)

lemma get_part_state [simp]: "get_part i (u\<lparr>uri_st := st\<rparr>) = get_part i u" "get_part i (u\<lparr>uri_error := e\<rparr>) = get_part i u"
  by (simp_all add: get_part_def)

lemma get_set_part: "i < 7 \<Longrightarrow> j < 7 \<Longrightarrow> get_part j (set_part i v u) = (if i = j then v else get_part j u)"
  by (auto simp: get_part_def set_part_def; arith)

lemma set_part_get: "set_part i (get_part i u) u = u"
  by (auto simp: get_part_def set_part_def)

lemma mset_owned_part: "mset (uri_owned (set_part i v u)) = mset (str_owned v) + mset (uri_owned (set_part i None u))"
  by (simp add: set_part_def uri_owned_def)

lemma holds_part:
  assumes "holds h R (uri_owned u)"
  shows "holds h R (str_owned (get_part i u) @ uri_owned (set_part i None u))"
  using holds_perm [OF assms] mset_owned_part [of i "get_part i u" u] by (simp add: set_part_get)

lemma holds_forget: "holds h R (B @ A) \<Longrightarrow> holds h (R \<union> set B) A"
  by (auto simp: holds_def)

lemma holds_realloc:
  assumes "holds h R (str_owned p @ A)" "realloc (map_option fst p) h = (q, h')"
  shows "holds h' (if q = None then R \<union> set (str_owned p) else R) (opt_list q @ A)"
proof (cases "malloc h")
  case (Pair r h1)
  show ?thesis
  proof (cases r)
    case None
    then show ?thesis using assms Pair holds_forget holds_malloc_None
      by (fastforce simp: realloc_def opt_list_def)
  next
    case (Some a)
    then have "holds h1 R (str_owned p @ a # A)"
      using holds_malloc [OF assms(1)] Pair by (auto intro: holds_perm)
    then show ?thesis using Some Pair assms(2) holds_free_opt [of h1 R "map_option fst p"]
      by (auto simp: realloc_def opt_list_def str_owned_def)
  qed
qed

lemma outcomes_malloc_Nil: "outcomes h = [] \<Longrightarrow> \<exists>a h'. malloc h = (Some a, h') \<and> outcomes h' = []"
  by (simp add: malloc_def)

lemma part_bytes_ok:
  assumes "idx_ok b s" "i < 7" "start_idx s ! i < end_idx s ! i"
  shows "\<exists>bytes. part_bytes b i (start_idx s ! i) (end_idx s ! i) = Some bytes"
proof -
  have "end_idx s ! i < length b" using assms by (simp add: idx_ok_def)
  then show ?thesis using assms(3) by (auto simp: part_bytes_def rd_def copy_bytes_def)
qed

definition part_text :: "byte list \<Rightarrow> uri_scan \<Rightarrow> nat \<Rightarrow> byte list option" where
  "part_text b s i = (if start_idx s ! i < end_idx s ! i then part_bytes b i (start_idx s ! i) (end_idx s ! i) else None)"

lemma store_parts_ok:
  assumes "idx_ok b s" "distinct is" "set is \<subseteq> {..<7}" "holds h R (uri_owned u)"
  shows "\<exists>ret u' h'. store_parts b s is u h = Some (ret, u', h')
    \<and> (ret = 0 \<and> uri_st u' = URI_STATE_SUCCESS \<and> holds h' R (uri_owned u')
         \<and> (\<forall>i < 7. map_option snd (get_part i u') = (if i \<in> set is then part_text b s i else map_option snd (get_part i u)))
       \<or> ret = - 1 \<and> outcomes h \<noteq> [] \<and> uri_st u' = URI_STATE_ERROR \<and> uri_error u' = ENOMEM
         \<and> (\<exists>i \<in> set is. holds h' (R \<union> set (str_owned (get_part i u))) (uri_owned u')))"
  using assms(2-4)
proof (induction "is" arbitrary: u h)
  case Nil
  then show ?case by simp
next
  case (Cons i "is")
  have i: "i < 7" "i \<notin> set is" using Cons.prems by auto
  note h = holds_part [OF Cons.prems(3), of i]
  let ?P = "\<lambda>u h v r. (\<exists>ret u' h'. r = Some (ret, u', h')
    \<and> (ret = (0::int) \<and> uri_st u' = URI_STATE_SUCCESS \<and> holds h' R (uri_owned u')
         \<and> (\<forall>j < 7. map_option snd (get_part j u') =
              (if j \<in> set (i # is) then part_text b s j else map_option snd (get_part j u)))
       \<or> ret = - 1 \<and> outcomes h \<noteq> [] \<and> uri_st u' = URI_STATE_ERROR \<and> uri_error u' = ENOMEM
         \<and> (\<exists>j \<in> set (i # is). holds h' (R \<union> set (str_owned (get_part j u))) (uri_owned u'))))"
  have rest: "?P u h v (store_parts b s is (set_part i v u) h1)"
    if h1: "holds h1 R (uri_owned (set_part i v u))" "outcomes h = [] \<longrightarrow> outcomes h1 = []" and v: "map_option snd v = part_text b s i" for v h1
  proof -
    have g: "get_part j (set_part i v u) = (if j = i then v else get_part j u)" if "j < 7" for j using get_set_part [OF i(1) that] by auto
    have g': "get_part j (set_part i v u) = get_part j u" if "j \<in> set is" for j using g [of j] that Cons.prems(2) i(2) by auto
    show ?thesis using Cons.IH [OF _ _ h1(1)] Cons.prems(1,2) h1(2) v i g g' by (auto simp: g')
  qed
  show ?case
  proof (cases "start_idx s ! i < end_idx s ! i")
    case False
    have "holds (free_string (get_part i u) h) R (uri_owned (set_part i None u))" by (rule holds_free_string [OF h])
    from rest [OF this] show ?thesis using False by (auto simp: part_text_def)
  next
    case True
    obtain q h1 where q: "realloc (map_option fst (get_part i u)) h = (q, h1)" by force
    note h1 = holds_realloc [OF h q]
    show ?thesis
    proof (cases q)
      case None
      then have "outcomes h \<noteq> []" using q outcomes_malloc_Nil [of h] by (auto simp: realloc_def)
      then show ?thesis using True None q h1 by (auto simp: opt_list_def)
    next
      case (Some a)
      obtain bytes where b: "part_bytes b i (start_idx s ! i) (end_idx s ! i) = Some bytes" using part_bytes_ok [OF assms(1) i(1) True] by blast
      have "holds h1 R (uri_owned (set_part i (Some (a, bytes)) u))"
        using holds_perm [of h1 R "a # uri_owned (set_part i None u)"] h1 Some mset_owned_part [of i "Some (a, bytes)" u]
        by (simp add: opt_list_def str_owned_def)
      moreover have "outcomes h = [] \<longrightarrow> outcomes h1 = []"
        using q outcomes_malloc_Nil [of h] by (auto simp: realloc_def)
      ultimately show ?thesis using rest [of h1 "Some (a, bytes)"] True Some q b by (simp add: part_text_def)
    qed
  qed
qed

lemma store_all_ok:
  assumes "idx_ok b s" "holds h R (uri_owned u)"
  shows "\<exists>ret u' h'. store_parts b s [0..<URI_PART_ELEMENTS] u h = Some (ret, u', h')
    \<and> (ret = 0 \<and> uri_st u' = URI_STATE_SUCCESS \<and> holds h' R (uri_owned u')
         \<and> (\<forall>i < URI_PART_ELEMENTS. map_option snd (get_part i u') = part_text b s i)
       \<or> ret = - 1 \<and> outcomes h \<noteq> [] \<and> uri_st u' = URI_STATE_ERROR \<and> uri_error u' = ENOMEM
         \<and> (\<exists>i < URI_PART_ELEMENTS. holds h' (R \<union> set (str_owned (get_part i u))) (uri_owned u')))"
proof -
  have "set [0..<URI_PART_ELEMENTS] \<subseteq> {..<7}" by auto
  from store_parts_ok [OF assms(1) distinct_upt this assms(2)]
  obtain ret u' h' where r: "store_parts b s [0..<URI_PART_ELEMENTS] u h = Some (ret, u', h')"
    and p: "ret = 0 \<and> uri_st u' = URI_STATE_SUCCESS \<and> holds h' R (uri_owned u')
         \<and> (\<forall>i < 7. map_option snd (get_part i u') = (if i \<in> set [0..<URI_PART_ELEMENTS] then part_text b s i else map_option snd (get_part i u)))
       \<or> ret = - 1 \<and> outcomes h \<noteq> [] \<and> uri_st u' = URI_STATE_ERROR \<and> uri_error u' = ENOMEM
         \<and> (\<exists>i \<in> set [0..<URI_PART_ELEMENTS]. holds h' (R \<union> set (str_owned (get_part i u))) (uri_owned u'))" by blast
  then show ?thesis by auto
qed

lemma valid_from_ok: "e \<le> length b \<Longrightarrow> \<exists>ok. valid_from b row j e = Some ok"
proof (induction b row j e rule: valid_from.induct)
  case (1 b row j e)
  then show ?case by (cases "j < e") (auto simp: valid_from.simps [of b row j e] rd_def)
qed

lemma valid_rows_ok: "idx_ok b s \<Longrightarrow> set is \<subseteq> {..<7} \<Longrightarrow> \<exists>ok. valid_rows b s is = Some ok"
proof (induction "is")
  case (Cons i "is")
  have "end_idx s ! i \<le> length b" using Cons.prems by (simp add: idx_ok_def less_imp_le)
  then obtain ok where "valid_from b i (start_idx s ! i) (end_idx s ! i) = Some ok" using valid_from_ok by blast
  then show ?case using Cons by auto
qed auto

text \<open>C15: \<open>URIParser::parse\<close> on any text, into any object. It returns; it never reads outside the text
  nor writes outside its arrays and buffers. It returns 0 exactly when it leaves the state
  \<open>URI_STATE_SUCCESS\<close>, and then the object owns exactly its blocks. A text that is not a URI leaves the
  strings of the object as they were. A failed allocation is reported as an error; the only block
  that is then lost is that of the part that was to be replaced, so nothing is lost when the
  object was fresh.\<close>

theorem uri_parse_safe:
  assumes "uri_text b" "holds h R (uri_owned u)"
  shows "\<exists>ret u' h'. uri_parse b u h = Some (ret, u', h')
    \<and> (ret = 0 \<and> uri_st u' = URI_STATE_SUCCESS \<and> holds h' R (uri_owned u')
       \<or> ret = - 1 \<and> u' = u\<lparr>uri_st := URI_STATE_INVALID\<rparr> \<and> h' = h
       \<or> ret = - 1 \<and> outcomes h \<noteq> [] \<and> uri_st u' = URI_STATE_ERROR \<and> uri_error u' = ENOMEM
         \<and> (\<exists>i < URI_PART_ELEMENTS. holds h' (R \<union> set (str_owned (get_part i u))) (uri_owned u')))"
proof -
  obtain r where r: "find_parts b = Some r" "\<forall>s. r = Some s \<longrightarrow> idx_ok b s" using find_parts_ok [OF assms(1)] by blast
  show ?thesis
  proof (cases r)
    case None
    then show ?thesis using r(1) by (simp add: uri_parse_def)
  next
    case (Some s)
    have ok: "idx_ok b s" using r(2) Some by simp
    let ?u = "u\<lparr>uri_st := URI_STATE_INVALID\<rparr>"
    have "set [0..<URI_QUERY] \<subseteq> {..<7}" by auto
    then obtain v where v: "valid_rows b s [0..<URI_QUERY] = Some v" using valid_rows_ok [OF ok] by blast
    obtain ret u' h' where st: "store_parts b s [0..<URI_PART_ELEMENTS] ?u h = Some (ret, u', h')"
      and p: "ret = 0 \<and> uri_st u' = URI_STATE_SUCCESS \<and> holds h' R (uri_owned u')
       \<or> ret = - 1 \<and> outcomes h \<noteq> [] \<and> uri_st u' = URI_STATE_ERROR \<and> uri_error u' = ENOMEM
         \<and> (\<exists>i < URI_PART_ELEMENTS. holds h' (R \<union> set (str_owned (get_part i u))) (uri_owned u'))"
      using store_all_ok [OF ok, of h R ?u] assms(2) unfolding uri_owned_state get_part_state by blast
    show ?thesis
    proof (cases v)
      case True
      then show ?thesis using r(1) Some v st p by (auto simp: uri_parse_def simp del: URI_PART_ELEMENTS_def URI_QUERY_def)
    next
      case False
      then show ?thesis using r(1) Some v by (simp add: uri_parse_def)
    qed
  qed
qed

theorem uri_parse_safe_witness:
  "\<exists>ret u' h'. uri_parse (''http://a/b'' @ [NUL]) uri_init (empty_heap [True, False]) = Some (ret, u', h') \<and> ret \<in> {0, - 1}"
proof -
  have "uri_text (''http://a/b'' @ [NUL])" by (rule uri_text_append) simp
  moreover have "holds (empty_heap [True, False]) {} (uri_owned uri_init)" by (simp add: holds_def heap_ok_def empty_heap_def)
  ultimately show ?thesis using uri_parse_safe by blast
qed

section \<open>Reading what was printed\<close>

text \<open>The texts of the seven parts, in the order of the constants, and the parts a scan has found.\<close>

definition is_part :: "byte list \<Rightarrow> uri_scan \<Rightarrow> nat \<Rightarrow> byte list \<Rightarrow> bool" where
  "is_part b s i t \<longleftrightarrow>
     (if t = [] then end_idx s ! i \<le> start_idx s ! i
      else end_idx s ! i = start_idx s ! i + length t \<and> take (length t) (drop (start_idx s ! i) b) = t)"

definition parts_are :: "byte list \<Rightarrow> uri_scan \<Rightarrow> byte list list \<Rightarrow> bool" where
  "parts_are b s ts \<longleftrightarrow> length (start_idx s) = 7 \<and> length (end_idx s) = 7 \<and> length ts = 7 \<and> (\<forall>i < 7. is_part b s i (ts ! i))"

lemma is_part_fields [simp]:
  "is_part b (s\<lparr>uri_i := x\<rparr>) i t = is_part b s i t" "is_part b (s\<lparr>pre_state := p\<rparr>) i t = is_part b s i t"
  "is_part b (s\<lparr>in_ipv6 := v\<rparr>) i t = is_part b s i t" "is_part b (s\<lparr>skip_path := w\<rparr>) i t = is_part b s i t"
  by (simp_all add: is_part_def)

lemma parts_are_fields [simp]:
  "parts_are b (s\<lparr>uri_i := x\<rparr>) ts = parts_are b s ts" "parts_are b (s\<lparr>pre_state := p\<rparr>) ts = parts_are b s ts"
  "parts_are b (s\<lparr>in_ipv6 := v\<rparr>) ts = parts_are b s ts" "parts_are b (s\<lparr>skip_path := w\<rparr>) ts = parts_are b s ts"
  by (simp_all add: parts_are_def)

text \<open>An empty part may start anywhere behind its end.\<close>

lemma parts_are_start:
  "parts_are b s ts \<Longrightarrow> p < 7 \<Longrightarrow> ts ! p = [] \<Longrightarrow> end_idx s ! p \<le> v \<Longrightarrow> parts_are b (set_start p v s) ts"
  by (auto simp: parts_are_def is_part_def nth_list_update)

lemma parts_are_end:
  assumes "parts_are b s ts" "p < 7" "start_idx s ! p = length pre" "b = pre @ t @ r" "v = length pre + length t"
  shows "parts_are b (set_end p v s) (ts[p := t])"
  using assms by (auto simp: parts_are_def is_part_def nth_list_update)

lemma authority_map_eq:
  "authority_map ! ord c =
     (if c = NUL then 7 else if c = CHR ''#'' then 5 else if c = CHR ''/'' then 6 else if c = CHR '':'' then 2
      else if c = CHR ''?'' then 4 else if c = CHR ''@'' then 1 else 0)"
proof -
  define z where "z = replicate 256 (0::nat)"
  have z: "length z = 256" "i < 256 \<Longrightarrow> z ! i = 0" for i unfolding z_def by (rule length_replicate, rule nth_replicate)
  have m: "authority_map = z[0 := 7, 35 := 5, 47 := 6, 58 := 2, 63 := 4, 64 := 1]"
    by (simp add: authority_map_def z_def numeral_eq_Suc)
  have n: "authority_map ! n = (if n = 0 then 7 else if n = 35 then 5 else if n = 47 then 6 else if n = 58 then 2
      else if n = 63 then 4 else if n = 64 then 1 else 0)" if "n < 256" for n
    unfolding m using that by (simp add: nth_list_update z)
  have o: "ord NUL = 0" "ord CHR ''#'' = 35" "ord CHR ''/'' = 47" "ord CHR '':'' = 58" "ord CHR ''?'' = 63" "ord CHR ''@'' = 64"
    by (simp_all add: ord_def)
  have c: "ord c = n \<longleftrightarrow> c = d" if "ord d = n" for d n using that ord_eq_iff [of c d] by simp
  show ?thesis unfolding n [OF ord_less] c [OF o(1)] c [OF o(2)] c [OF o(3)] c [OF o(4)] c [OF o(5)] c [OF o(6)] ..
qed

lemma valid_excludes:
  "valid_char ! 0 ! ord c \<noteq> 0 \<Longrightarrow> c \<notin> {NUL, CHR '':''}"
  "valid_char ! 1 ! ord c \<noteq> 0 \<Longrightarrow> c \<notin> {NUL, CHR ''#'', CHR ''/'', CHR ''?'', CHR ''@'', CHR ''[''}"
  "valid_char ! 2 ! ord c \<noteq> 0 \<Longrightarrow> c \<notin> {NUL, CHR ''#'', CHR ''/'', CHR ''?'', CHR ''@''}"
  "valid_char ! 3 ! ord c \<noteq> 0 \<Longrightarrow> c \<notin> {NUL, CHR ''#'', CHR ''/'', CHR ''?'', CHR ''@'', CHR '':''}"
  by (auto simp: valid_char_def ord_def)

lemma rd_at: "b = pre @ c # r \<Longrightarrow> rd b (length pre) = Some c"
  by (simp add: rd_def)

lemma rd_next: "b = pre @ c # d # r \<Longrightarrow> rd b (Suc (length pre)) = Some d"
  by (simp add: rd_def nth_append)

lemma rd_last: "b = pre @ r \<Longrightarrow> pre \<noteq> [] \<Longrightarrow> rd b (length pre - 1) = Some (last pre)"
  by (cases pre rule: rev_cases) (simp_all add: rd_def nth_append)

lemma in_ipv6_same: "\<not> in_ipv6 s \<Longrightarrow> s\<lparr>in_ipv6 := False\<rparr> = s"
  by auto

lemma uri_i_same: "uri_i s = n \<Longrightarrow> s\<lparr>uri_i := n\<rparr> = s"
  by auto

text \<open>The bytes the loop over the authority passes over without a change.\<close>

lemma authority_skip:
  assumes "b = pre @ seg @ r" "uri_i s = length pre"
    and "list_all (\<lambda>c. authority_map ! ord c = 0 \<or> authority_map ! ord c = URI_PATH \<and> skip_path s) seg"
  shows "authority_loop b s = authority_loop b (s\<lparr>uri_i := length pre + length seg\<rparr>)"
  using assms
proof (induction seg arbitrary: pre s)
  case (Cons c seg)
  have "authority_step b s = Some (True, s)"
    using Cons.prems rd_at [of b pre c "seg @ r"] by (auto simp: authority_step_def)
  then have "authority_loop b s = authority_loop b (s\<lparr>uri_i := Suc (length pre)\<rparr>)" using Cons.prems(2) by (simp add: authority_loop.simps [of b s])
  also have "\<dots> = authority_loop b (s\<lparr>uri_i := Suc (length pre) + length seg\<rparr>)"
    using Cons.IH [of "pre @ [c]" "s\<lparr>uri_i := Suc (length pre)\<rparr>"] Cons.prems by simp
  finally show ?case by simp
qed (simp add: uri_i_same)

lemma authority_skip_ipv6:
  assumes "b = pre @ seg @ r" "uri_i s = length pre" "pre \<noteq> []" "last pre \<noteq> CHR '']''" "in_ipv6 s"
    and "list_all (\<lambda>c. c \<noteq> CHR '']'' \<and> authority_map ! ord c \<in> {0, URI_HOST}) seg"
  shows "authority_loop b s = authority_loop b (s\<lparr>uri_i := length pre + length seg\<rparr>)"
  using assms
proof (induction seg arbitrary: pre s)
  case (Cons c seg)
  have "authority_step b s = Some (True, s)"
    using Cons.prems rd_at [of b pre c "seg @ r"] rd_last [OF Cons.prems(1,3)] by (auto simp: authority_step_def)
  then have "authority_loop b s = authority_loop b (s\<lparr>uri_i := Suc (length pre)\<rparr>)" using Cons.prems(2) by (simp add: authority_loop.simps [of b s])
  also have "\<dots> = authority_loop b (s\<lparr>uri_i := Suc (length pre) + length seg\<rparr>)"
    using Cons.IH [of "pre @ [c]" "s\<lparr>uri_i := Suc (length pre)\<rparr>"] Cons.prems by simp
  finally show ?case by simp
qed (simp add: uri_i_same)

text \<open>A user name with colons: the loop takes each colon for the end of the host.\<close>

lemma authority_user:
  assumes "b = pre @ seg @ r" "uri_i s = length pre" "pre \<noteq> []" "\<not> in_ipv6 s" "length (start_idx s) = 7" "length (end_idx s) = 7"
    and "list_all (\<lambda>c. authority_map ! ord c \<in> {0, URI_HOST}) seg" "end_idx s ! URI_HOST \<le> length pre"
  shows "\<exists>s'. authority_loop b s = authority_loop b s' \<and> uri_i s' = length pre + length seg \<and> \<not> in_ipv6 s' \<and> skip_path s' = skip_path s
    \<and> (\<exists>e v. end_idx s' = (end_idx s)[URI_HOST := e] \<and> e \<le> uri_i s' \<and> start_idx s' = (start_idx s)[URI_PORT := v])"
  using assms
proof (induction seg arbitrary: pre s)
  case Nil
  have "end_idx s = (end_idx s)[2 := end_idx s ! 2]" "start_idx s = (start_idx s)[3 := start_idx s ! 3]" by simp_all
  moreover have "end_idx s ! 2 \<le> uri_i s" using Nil by simp
  ultimately show ?case using Nil by (intro exI [of _ s]) (metis URI_HOST_def URI_PORT_def add.right_neutral list.size(3))
next
  case (Cons c seg)
  let ?n = "\<lambda>s. s\<lparr>uri_i := Suc (length pre)\<rparr>"
  show ?case
  proof (cases "authority_map ! ord c = 0")
    case True
    then have "authority_step b s = Some (True, s)"
      using Cons.prems rd_at [of b pre c "seg @ r"] by (auto simp: authority_step_def)
    then have e: "authority_loop b s = authority_loop b (?n s)" using Cons.prems(2) by (simp add: authority_loop.simps [of b s])
    show ?thesis using Cons.IH [of "pre @ [c]" "?n s"] Cons.prems unfolding e by auto
  next
    case False
    let ?s = "(set_start URI_PORT (Suc (length pre)) (set_end URI_HOST (length pre) s))\<lparr>pre_state := URI_PORT\<rparr>"
    have "authority_step b s = Some (True, ?s)"
      using Cons.prems False rd_at [of b pre c "seg @ r"] rd_last [OF Cons.prems(1,3)]
      by (auto simp: authority_step_def Let_def in_ipv6_same)
    then have e: "authority_loop b s = authority_loop b (?n ?s)" using Cons.prems(2) by (simp add: authority_loop.simps [of b s])
    show ?thesis using Cons.IH [of "pre @ [c]" "?n ?s"] Cons.prems unfolding e by auto
  qed
qed

lemma scan_scheme_at:
  assumes "b = pre @ t @ CHR '':'' # r" "list_all (\<lambda>c. c \<noteq> NUL \<and> c \<noteq> CHR '':'') t"
  shows "scan_scheme b (length pre) = Some (length pre + length t, length pre + length t + 1)"
  using assms
proof (induction t arbitrary: pre)
  case Nil
  then show ?case using rd_at [of b pre] by (simp add: scan_scheme.simps)
next
  case (Cons c t)
  then have "scan_scheme b (length pre) = scan_scheme b (length (pre @ [c]))"
    using rd_at [of b pre c] unfolding scan_scheme.simps [of b "length pre"] by simp
  then show ?case using Cons.IH [of "pre @ [c]"] Cons.prems by simp
qed

lemma skip_query_at:
  assumes "b = pre @ c # t @ d # r" "list_all (\<lambda>c. c \<noteq> NUL \<and> c \<noteq> CHR ''#'') t" "d = NUL \<or> d = CHR ''#''"
  shows "skip_query b (length pre) = Some (length pre + length t + (if d = NUL then 0 else 1))"
  using assms
proof (induction t arbitrary: pre c)
  case Nil
  then show ?case using rd_next [of b pre c d r] by (auto simp: skip_query.simps)
next
  case (Cons x t)
  then have "skip_query b (length pre) = skip_query b (length (pre @ [c]))"
    using rd_next [of b pre c x] unfolding skip_query.simps [of b "length pre"] by simp
  then show ?case using Cons.IH [of "pre @ [c]" x] Cons.prems by simp
qed

lemma path_skip:
  assumes "b = pre @ seg @ r" "uri_i s = length pre" "list_all (\<lambda>c. c \<notin> {NUL, CHR ''?'', CHR ''#''}) seg"
  shows "path_loop b s = path_loop b (s\<lparr>uri_i := length pre + length seg\<rparr>)"
  using assms
proof (induction seg arbitrary: pre s)
  case (Cons c seg)
  have "path_loop b s = path_loop b (s\<lparr>uri_i := Suc (length pre)\<rparr>)"
    unfolding path_loop.simps [of b s] using Cons.prems rd_at [of b pre c "seg @ r"] by (simp add: path_step_def)
  also have "\<dots> = path_loop b (s\<lparr>uri_i := Suc (length pre) + length seg\<rparr>)"
    using Cons.IH [of "pre @ [c]" "s\<lparr>uri_i := Suc (length pre)\<rparr>"] Cons.prems by simp
  finally show ?case by simp
qed (simp add: uri_i_same)

definition text_of :: "byte list option \<Rightarrow> byte list" where
  "text_of t = (case t of None \<Rightarrow> [] | Some t \<Rightarrow> t)"

definition opt_text :: "byte \<Rightarrow> byte list option \<Rightarrow> byte list" where
  "opt_text c t = (case t of None \<Rightarrow> [] | Some t \<Rightarrow> c # t)"

definition print_user :: "byte list option \<Rightarrow> byte list" where
  "print_user u = (case u of None \<Rightarrow> [] | Some u \<Rightarrow> u @ [CHR ''@''])"

lemma text_simps [simp]:
  "text_of None = []" "text_of (Some t) = t" "opt_text c None = []" "opt_text c (Some t) = c # t"
  "print_user None = []" "print_user (Some t) = t @ [CHR ''@'']"
  by (simp_all add: text_of_def opt_text_def print_user_def)

text \<open>The parts that have not been found yet.\<close>

definition unset :: "uri_scan \<Rightarrow> nat list \<Rightarrow> bool" where
  "unset s is \<longleftrightarrow> list_all (\<lambda>i. end_idx s ! i = 0) is"

lemma parts_are_cong: "start_idx s' = start_idx s \<Longrightarrow> end_idx s' = end_idx s \<Longrightarrow> parts_are b s ts \<Longrightarrow> parts_are b s' ts"
  by (simp add: parts_are_def is_part_def)

lemma parts_are_lengths: "parts_are b s ts \<Longrightarrow> length (start_idx s) = 7 \<and> length (end_idx s) = 7 \<and> length ts = 7"
  by (simp add: parts_are_def)

text \<open>A part that starts here and ends there.\<close>

lemma parts_are_put:
  assumes "parts_are b s ts" "p < 7" "ts ! p = []" "end_idx s ! p = 0" "b = pre @ t @ r" "v = length pre + length t"
  shows "parts_are b (set_end p v (set_start p (length pre) s)) (ts[p := t])"
proof (rule parts_are_end)
  show "parts_are b (set_start p (length pre) s) ts" using parts_are_start assms by simp
  show "start_idx (set_start p (length pre) s) ! p = length pre" using assms(2) parts_are_lengths [OF assms(1)] by simp
qed (use assms in auto)

lemma parts_are_upd_Nil: "parts_are b s ts \<Longrightarrow> ts ! p = [] \<Longrightarrow> parts_are b s (ts[p := []])"
  by (metis list_update_id)

text \<open>The path and what follows it.\<close>

lemma path_phase_None:
  assumes b: "b = pre @ path @ opt_text (CHR ''?'') q @ opt_text (CHR ''#'') f @ [NUL]" and t: "uri_text b"
    and s: "uri_i s = length pre" "start_idx s ! 6 = length pre" "pre_state s = 6" "unset s [4, 5]"
    and ts: "parts_are b s ts" "ts ! 4 = []" "ts ! 5 = []"
    and ok: "list_all (\<lambda>c. c \<notin> {NUL, CHR ''?'', CHR ''#''}) path" "list_all (\<lambda>c. c \<notin> {NUL, CHR ''#''}) (text_of q)"
    and q: "q = None"
  shows "\<exists>s1 n s2. path_loop b s = Some s1 \<and> strlen_at b (uri_i s1) = Some n \<and> end_part (uri_i s1 + n) s1 = Some s2
    \<and> parts_are b s2 (ts[6 := path, 4 := text_of q, 5 := text_of f])"
proof -
  let ?i = "length pre + length path"
  let ?s = "s\<lparr>uri_i := ?i\<rparr>"
  have sk: "path_loop b s = path_loop b ?s" by (rule path_skip [OF b s(1) ok(1)])
  have len: "length (start_idx s) = 7" "length (end_idx s) = 7" "length ts = 7" using ts(1) by (auto simp: parts_are_def)
  have p6: "parts_are b (set_end 6 ?i s) (ts[6 := path])"
    using parts_are_end [OF ts(1) _ s(2), of path "opt_text (CHR ''?'') q @ opt_text (CHR ''#'') f @ [NUL]" ?i] b by simp
  have u: "end_idx s ! 4 = 0" "end_idx s ! 5 = 0" using s(4) by (simp_all add: unset_def)
  show ?thesis
  proof (cases f)
    case f: None
    have r: "rd b ?i = Some NUL" using rd_at [of b "pre @ path" NUL "[]"] b q f by simp
    have n: "strlen_at b ?i = Some 0" using text_strlen [OF t, of ?i] b q f by simp
    have "parts_are b (set_end 6 ?i ?s) (ts[6 := path, 4 := [], 5 := []])"
      by (rule parts_are_cong [OF _ _ parts_are_upd_Nil [OF parts_are_upd_Nil [OF p6]]]) (use ts(2,3) in auto)
    then show ?thesis using n r s(3) len q f unfolding sk path_loop.simps [of b ?s] by (simp add: end_part_def)
  next
    case f: (Some x)
    have r: "rd b ?i = Some CHR ''#''" using rd_at [of b "pre @ path" "CHR ''#''" "x @ [NUL]"] b q f by simp
    have n: "strlen_at b ?i = Some (Suc (length x))" using text_strlen [OF t, of ?i] b q f by simp
    have "parts_are b (set_end 5 (?i + Suc (length x)) (set_start 5 (Suc ?i) (set_end 6 ?i s))) (ts[6 := path, 4 := [], 5 := x])"
      using parts_are_put [OF parts_are_upd_Nil [OF p6, of 4], of 5 "pre @ path @ ''#''" x "[NUL]"] b q f ts(2,3) u by simp
    then have "parts_are b (set_end 5 (?i + Suc (length x)) ((set_start 5 (Suc ?i) (set_end 6 ?i ?s))\<lparr>pre_state := 5\<rparr>)) (ts[6 := path, 4 := [], 5 := x])"
      by (rule parts_are_cong [rotated 2]) simp_all
    then show ?thesis using n r s(3) len q f unfolding sk path_loop.simps [of b ?s] by (simp add: end_part_def path_step_def)
  qed
qed

lemma path_phase_Some:
  assumes b: "b = pre @ path @ opt_text (CHR ''?'') q @ opt_text (CHR ''#'') f @ [NUL]" and t: "uri_text b"
    and s: "uri_i s = length pre" "start_idx s ! 6 = length pre" "pre_state s = 6" "unset s [4, 5]"
    and ts: "parts_are b s ts" "ts ! 4 = []" "ts ! 5 = []"
    and ok: "list_all (\<lambda>c. c \<notin> {NUL, CHR ''?'', CHR ''#''}) path" "list_all (\<lambda>c. c \<notin> {NUL, CHR ''#''}) (text_of q)"
    and q: "q = Some y"
  shows "\<exists>s1 n s2. path_loop b s = Some s1 \<and> strlen_at b (uri_i s1) = Some n \<and> end_part (uri_i s1 + n) s1 = Some s2
    \<and> parts_are b s2 (ts[6 := path, 4 := text_of q, 5 := text_of f])"
proof -
  let ?i = "length pre + length path"
  let ?s = "s\<lparr>uri_i := ?i\<rparr>"
  have sk: "path_loop b s = path_loop b ?s" by (rule path_skip [OF b s(1) ok(1)])
  have len: "length (start_idx s) = 7" "length (end_idx s) = 7" "length ts = 7" using ts(1) by (auto simp: parts_are_def)
  have p6: "parts_are b (set_end 6 ?i s) (ts[6 := path])"
    using parts_are_end [OF ts(1) _ s(2), of path "opt_text (CHR ''?'') q @ opt_text (CHR ''#'') f @ [NUL]" ?i] b by simp
  have u: "end_idx s ! 4 = 0" "end_idx s ! 5 = 0" using s(4) by (simp_all add: unset_def)
  let ?s1 = "(set_start 4 (Suc ?i) (set_end 6 ?i ?s))\<lparr>pre_state := 4\<rparr>"
  have r: "rd b ?i = Some CHR ''?''" using rd_at [of b "pre @ path" "CHR ''?''"] b q by simp
  have y: "list_all (\<lambda>c. c \<noteq> NUL \<and> c \<noteq> CHR ''#'') y" using ok(2) q by simp
  have p4: "parts_are b (set_end 4 (Suc ?i + length y) (set_start 4 (Suc ?i) (set_end 6 ?i s))) (ts[6 := path, 4 := y])"
    using parts_are_put [OF p6, of 4 "pre @ path @ ''?''" y "opt_text (CHR ''#'') f @ [NUL]"] b q ts(2) u by simp
  show ?thesis
  proof (cases f)
    case f: None
    let ?j = "?i + length y"
    have j: "skip_query b ?i = Some ?j" using skip_query_at [of b "pre @ path" "CHR ''?''" y NUL "[]"] y b q f by simp
    obtain c where c: "rd b ?j = Some c" "c \<noteq> CHR ''#''"
    proof (cases y rule: rev_cases)
      case Nil
      then show ?thesis using r that by auto
    next
      case (snoc z c)
      then show ?thesis using that [of c] rd_at [of b "pre @ path @ ''?'' @ z" c "[NUL]"] y b q f by (simp add: add.assoc)
    qed
    have e: "rd b (Suc ?j) = Some NUL" using rd_at [of b "pre @ path @ ''?'' @ y" NUL "[]"] b q f by (simp add: add.assoc)
    have n: "strlen_at b (Suc ?j) = Some 0" using text_strlen [OF t, of "Suc ?j"] b q f by simp
    let ?s2 = "?s1\<lparr>uri_i := Suc ?j\<rparr>"
    have "path_loop b ?s2 = Some ?s2" unfolding path_loop.simps [of b ?s2] using e by simp
    then have l: "path_loop b s = Some ?s2" unfolding sk path_loop.simps [of b ?s] using r j c by (simp add: path_step_def)
    have "parts_are b (set_end 4 (Suc ?j) ?s2) (ts[6 := path, 4 := y, 5 := []])"
      by (rule parts_are_cong [OF _ _ parts_are_upd_Nil [OF p4]]) (use ts(3) in auto)
    then show ?thesis using l n len q f by (simp add: end_part_def)
  next
    case f: (Some x)
    let ?j = "Suc (?i + length y)"
    have j: "skip_query b ?i = Some ?j" using skip_query_at [of b "pre @ path" "CHR ''?''" y "CHR ''#''" "x @ [NUL]"] y b q f by simp
    have c: "rd b ?j = Some CHR ''#''" using rd_at [of b "pre @ path @ ''?'' @ y" "CHR ''#''" "x @ [NUL]"] b q f by (simp add: add.assoc)
    have n: "strlen_at b ?j = Some (Suc (length x))" using text_strlen [OF t, of ?j] b q f by simp
    let ?s2 = "(set_start 5 (Suc ?j) (set_end 4 ?j (?s1\<lparr>uri_i := ?j\<rparr>)))\<lparr>pre_state := 5\<rparr>"
    have l: "path_loop b s = Some ?s2" unfolding sk path_loop.simps [of b ?s] using r j c len by (simp add: path_step_def end_part_def)
    have "parts_are b (set_end 5 (?j + Suc (length x)) (set_start 5 (Suc ?j) (set_end 4 (Suc ?i + length y) (set_start 4 (Suc ?i) (set_end 6 ?i s)))))
        (ts[6 := path, 4 := y, 5 := x])"
      using parts_are_put [OF p4, of 5 "pre @ path @ ''?'' @ y @ ''#''" x "[NUL]"] b q f ts(3) u by (simp add: add.assoc)
    then have "parts_are b (set_end 5 (?j + Suc (length x)) ?s2) (ts[6 := path, 4 := y, 5 := x])"
      by (rule parts_are_cong [rotated 2]) simp_all
    then show ?thesis using l n len q f by (simp add: end_part_def)
  qed
qed

lemma path_phase:
  assumes "b = pre @ path @ opt_text (CHR ''?'') q @ opt_text (CHR ''#'') f @ [NUL]" and "uri_text b"
    and "uri_i s = length pre" "start_idx s ! 6 = length pre" "pre_state s = 6" "unset s [4, 5]"
    and "parts_are b s ts" "ts ! 4 = []" "ts ! 5 = []"
    and "list_all (\<lambda>c. c \<notin> {NUL, CHR ''?'', CHR ''#''}) path" "list_all (\<lambda>c. c \<notin> {NUL, CHR ''#''}) (text_of q)"
  shows "\<exists>s1 n s2. path_loop b s = Some s1 \<and> strlen_at b (uri_i s1) = Some n \<and> end_part (uri_i s1 + n) s1 = Some s2
    \<and> parts_are b s2 (ts[6 := path, 4 := text_of q, 5 := text_of f])"
  using path_phase_None [OF assms] path_phase_Some [OF assms] by (cases q) simp_all

text \<open>The end of a URI without a path: the loop over the authority goes on to the end.\<close>

definition ends_with_parts :: "byte list \<Rightarrow> uri_scan \<Rightarrow> byte list list \<Rightarrow> bool" where
  "ends_with_parts b s ts \<longleftrightarrow> (\<exists>s1 s2. authority_loop b s = Some s1
     \<and> (if pre_state s1 \<noteq> URI_PART_ELEMENTS then end_part (uri_i s1) s1 else Some s1) = Some s2
     \<and> skip_path s2 \<and> parts_are b s2 ts)"

lemma ends_with_parts_loop: "authority_loop b s = authority_loop b s' \<Longrightarrow> ends_with_parts b s ts = ends_with_parts b s' ts"
  by (simp add: ends_with_parts_def)

lemma bare_fragment:
  assumes b: "b = pre @ opt_text (CHR ''#'') f @ [NUL]" and t: "uri_text b"
    and s: "uri_i s = length pre" "pre_state s < 7" "pre_state s \<noteq> 5" "unset s [5]"
    and ts: "parts_are b (set_end (pre_state s) (length pre) s) ts" "ts ! 5 = []"
  shows "ends_with_parts b s (ts[5 := text_of f])"
proof (cases f)
  case None
  have "authority_step b s = Some (False, s\<lparr>skip_path := True\<rparr>)"
    using rd_at [of b pre NUL "[]"] b None s(1) by (simp add: authority_step_def authority_map_eq)
  then have "authority_loop b s = Some (s\<lparr>skip_path := True\<rparr>)" by (simp add: authority_loop.simps [of b s])
  moreover have "parts_are b (set_end (pre_state s) (length pre) (s\<lparr>skip_path := True\<rparr>)) (ts[5 := []])"
    by (rule parts_are_cong [OF _ _ parts_are_upd_Nil [OF ts]]) simp_all
  ultimately show ?thesis using s None parts_are_lengths [OF ts(1)] by (simp add: ends_with_parts_def end_part_def)
next
  case (Some x)
  let ?i = "length pre"
  let ?s1 = "(set_end 5 (?i + Suc (length x)) (set_start 5 (Suc ?i) (set_end (pre_state s) ?i s)))\<lparr>pre_state := 7, skip_path := True\<rparr>"
  have n: "strlen_at b ?i = Some (Suc (length x))" using text_strlen [OF t, of ?i] b Some by simp
  have "authority_step b s = Some (False, ?s1)"
    using rd_at [of b pre "CHR ''#''" "x @ [NUL]"] b Some s n parts_are_lengths [OF ts(1)]
    by (simp add: authority_step_def authority_map_eq end_part_def Let_def)
  then have "authority_loop b s = Some ?s1" by (simp add: authority_loop.simps [of b s])
  moreover have "parts_are b (set_end 5 (?i + Suc (length x)) (set_start 5 (Suc ?i) (set_end (pre_state s) ?i s))) (ts[5 := x])"
    using parts_are_put [OF ts(1), of 5 "pre @ ''#''" x "[NUL]"] b Some ts(2) s(3,4) by (simp add: unset_def)
  then have "parts_are b ?s1 (ts[5 := x])" by (rule parts_are_cong [rotated 2]) simp_all
  ultimately show ?thesis using Some by (simp add: ends_with_parts_def)
qed

lemma bare_tail:
  assumes b: "b = pre @ opt_text (CHR ''?'') q @ opt_text (CHR ''#'') f @ [NUL]" and t: "uri_text b"
    and s: "uri_i s = length pre" "pre_state s < 4" "unset s [4, 5]"
    and ts: "parts_are b (set_end (pre_state s) (length pre) s) ts" "ts ! 4 = []" "ts ! 5 = []"
    and ok: "list_all (\<lambda>c. c \<notin> {NUL, CHR ''#'', CHR '':'', CHR ''@'', CHR ''?''}) (text_of q)"
  shows "ends_with_parts b s (ts[4 := text_of q, 5 := text_of f])"
proof (cases q)
  case None
  have "ends_with_parts b s (ts[5 := text_of f])"
    using bare_fragment [OF _ t s(1) _ _ _ ts(1,3), of f] b None s by (simp add: unset_def)
  then show ?thesis using None ts(2) by (metis list_update_id text_simps(1))
next
  case (Some y)
  let ?i = "length pre"
  let ?s1 = "(set_start 4 (Suc ?i) (set_end (pre_state s) ?i s))\<lparr>pre_state := 4, skip_path := True\<rparr>"
  have "authority_step b s = Some (True, ?s1)"
    using rd_at [of b pre "CHR ''?''"] b Some s parts_are_lengths [OF ts(1)] by (simp add: authority_step_def authority_map_eq end_part_def Let_def)
  then have "authority_loop b s = authority_loop b (?s1\<lparr>uri_i := Suc ?i\<rparr>)" using s(1) by (simp add: authority_loop.simps [of b s])
  also have "\<dots> = authority_loop b (?s1\<lparr>uri_i := Suc ?i + length y\<rparr>)"
    using authority_skip [of b "pre @ ''?''" y "opt_text (CHR ''#'') f @ [NUL]" "?s1\<lparr>uri_i := Suc ?i\<rparr>"] b Some ok
    by (simp add: authority_map_eq list_all_iff)
  finally have e: "authority_loop b s = authority_loop b (?s1\<lparr>uri_i := Suc ?i + length y\<rparr>)" .
  have "parts_are b (set_end 4 (Suc ?i + length y) (set_start 4 (Suc ?i) (set_end (pre_state s) ?i s))) (ts[4 := y])"
    using parts_are_put [OF ts(1), of 4 "pre @ ''?''" y "opt_text (CHR ''#'') f @ [NUL]"] b Some ts(2) s(2,3) by (simp add: unset_def)
  then have "parts_are b (set_end 4 (Suc ?i + length y) (?s1\<lparr>uri_i := Suc ?i + length y\<rparr>)) (ts[4 := y])"
    by (rule parts_are_cong [rotated 2]) simp_all
  then show ?thesis unfolding ends_with_parts_loop [OF e]
    using bare_fragment [of b "pre @ ''?'' @ y" f "?s1\<lparr>uri_i := Suc ?i + length y\<rparr>" "ts[4 := y]"] b t Some s(2,3) ts(3) by (simp add: unset_def)
qed

text \<open>A host is a name without colons, or anything without a closing bracket in brackets.\<close>

definition bracketed :: "byte list \<Rightarrow> bool" where
  "bracketed host \<longleftrightarrow> host \<noteq> [] \<and> hd host = CHR ''[''"

definition host_ok :: "byte list \<Rightarrow> bool" where
  "host_ok host \<longleftrightarrow> list_all (\<lambda>c. valid_char ! 2 ! ord c \<noteq> 0) host
     \<and> (if bracketed host then length host \<ge> 2 \<and> last host = CHR '']'' \<and> CHR '']'' \<notin> set (butlast host) else CHR '':'' \<notin> set host)"

lemma host_okE:
  assumes "host_ok host"
  obtains v where "host = CHR ''['' # v @ [CHR '']'']" "CHR '']'' \<notin> set v" "bracketed host"
    | "\<not> bracketed host" "CHR '':'' \<notin> set host"
proof (cases "bracketed host")
  case True
  then obtain w where w: "host = CHR ''['' # w" by (cases host) (auto simp: bracketed_def)
  then obtain v d where "w = v @ [d]" using assms True by (cases w rule: rev_cases) (auto simp: host_ok_def)
  then show ?thesis using that(1) [of v] assms True w by (auto simp: host_ok_def butlast_append)
next
  case False
  then show ?thesis using that(2) assms by (simp add: host_ok_def)
qed

lemma host_chars: "list_all (\<lambda>c. valid_char ! 2 ! ord c \<noteq> 0) t \<Longrightarrow> list_all (\<lambda>c. authority_map ! ord c \<in> {0, URI_HOST}) t"
  using valid_excludes(3) by (fastforce simp: list_all_iff authority_map_eq)

lemma host_skip:
  assumes "b = pre @ host @ r" "uri_i s = length pre" "host_ok host" "in_ipv6 s = bracketed host"
  shows "authority_loop b s = authority_loop b (s\<lparr>uri_i := length pre + length host\<rparr>)"
proof -
  have v: "list_all (\<lambda>c. authority_map ! ord c \<in> {0, URI_HOST}) host" using assms(3) host_chars by (simp add: host_ok_def)
  show ?thesis using assms(3)
  proof (cases rule: host_okE)
    case (1 w)
    let ?s = "\<lambda>n. s\<lparr>uri_i := length pre + n\<rparr>"
    have "authority_loop b s = authority_loop b (?s 1)"
      using authority_skip [of b pre "''[''" "w @ '']'' @ r" s] assms(1,2) 1(1) by (simp add: authority_map_eq)
    also have "\<dots> = authority_loop b (?s (Suc (length w)))"
      using authority_skip_ipv6 [of b "pre @ ''[''" w "'']'' @ r" "?s 1"] assms 1 v by (auto simp: list_all_iff)
    also have "\<dots> = authority_loop b (?s (length host))"
      using authority_skip [of b "pre @ ''['' @ w" "'']''" r "?s (Suc (length w))"] assms(1) 1(1) by (simp add: authority_map_eq add.assoc)
    finally show ?thesis .
  next
    case 2
    then have "list_all (\<lambda>c. authority_map ! ord c = 0) host" using v by (fastforce simp: list_all_iff authority_map_eq split: if_splits)
    then show ?thesis using authority_skip [OF assms(1,2)] by (simp add: list_all_iff)
  qed
qed

lemma host_phase:
  assumes b: "b = pre @ host @ opt_text (CHR '':'') port @ r" and pre: "pre \<noteq> []"
    and s: "uri_i s = length pre" "pre_state s = 2" "start_idx s ! 2 = length pre" "in_ipv6 s = bracketed host" "unset s [3]"
    and ts: "parts_are b s ts" "ts ! 3 = []"
    and ok: "host_ok host" "list_all (\<lambda>c. valid_char ! 3 ! ord c \<noteq> 0) (text_of port)"
  shows "\<exists>s'. authority_loop b s = authority_loop b s' \<and> uri_i s' = length pre + length host + length (opt_text (CHR '':'') port)
    \<and> pre_state s' < 4 \<and> skip_path s' = skip_path s \<and> start_idx s' ! 6 = start_idx s ! 6 \<and> (\<forall>i \<in> {4, 5, 6}. end_idx s' ! i = end_idx s ! i)
    \<and> parts_are b (set_end (pre_state s') (uri_i s') s') (ts[2 := host, 3 := text_of port])"
proof -
  let ?i = "length pre + length host"
  let ?s = "s\<lparr>uri_i := ?i\<rparr>"
  have sk: "authority_loop b s = authority_loop b ?s" by (rule host_skip [OF b s(1) ok(1) s(4)])
  have p2: "parts_are b (set_end 2 ?i s) (ts[2 := host])" using parts_are_end [OF ts(1) _ s(3) b, of ?i] by simp
  show ?thesis
  proof (cases port)
    case None
    have "parts_are b (set_end 2 ?i ?s) (ts[2 := host, 3 := []])"
      by (rule parts_are_cong [OF _ _ parts_are_upd_Nil [OF p2]]) (use ts(2) in simp_all)
    then show ?thesis using sk s(2) None by (intro exI [of _ ?s]) simp
  next
    case (Some p)
    let ?s1 = "(set_start 3 (Suc ?i) (set_end 2 ?i (?s\<lparr>in_ipv6 := False\<rparr>)))\<lparr>pre_state := 3\<rparr>"
    have c: "rd b ?i = Some CHR '':''" using rd_at [of b "pre @ host" "CHR '':''"] b Some by simp
    have l: "rd b (?i - 1) = Some (last (pre @ host))" using rd_last [of b "pre @ host"] b pre by simp
    have "last (pre @ host) = CHR '']'' \<or> \<not> in_ipv6 s" using ok(1) s(4) by (cases rule: host_okE) auto
    then have "authority_step b ?s = Some (True, ?s1)"
      using c l pre in_ipv6_same [of ?s] by (auto simp: authority_step_def authority_map_eq Let_def)
    then have "authority_loop b ?s = authority_loop b (?s1\<lparr>uri_i := Suc ?i\<rparr>)" by (simp add: authority_loop.simps [of b ?s])
    also have "\<dots> = authority_loop b (?s1\<lparr>uri_i := Suc ?i + length p\<rparr>)"
      using authority_skip [of b "pre @ host @ '':''" p r "?s1\<lparr>uri_i := Suc ?i\<rparr>"] b Some ok(2) valid_excludes(4)
      by (auto simp: authority_map_eq list_all_iff)
    finally have e: "authority_loop b s = authority_loop b (?s1\<lparr>uri_i := Suc ?i + length p\<rparr>)" using sk by simp
    have "parts_are b (set_end 3 (Suc ?i + length p) (set_start 3 (Suc ?i) (set_end 2 ?i s))) (ts[2 := host, 3 := p])"
      using parts_are_put [OF p2, of 3 "pre @ host @ '':''" p r] b Some ts(2) s(5) by (simp add: unset_def add.assoc)
    then have "parts_are b (set_end 3 (Suc ?i + length p) (?s1\<lparr>uri_i := Suc ?i + length p\<rparr>)) (ts[2 := host, 3 := p])"
      by (rule parts_are_cong [rotated 2]) simp_all
    then show ?thesis using e Some by (intro exI [of _ "?s1\<lparr>uri_i := Suc ?i + length p\<rparr>"]) simp
  qed
qed

lemma parts_are_empty: "parts_are b s ts \<Longrightarrow> p < 7 \<Longrightarrow> ts ! p = [] \<Longrightarrow> e \<le> v \<Longrightarrow> parts_are b (set_end p e (set_start p v s)) ts"
  by (auto simp: parts_are_def is_part_def nth_list_update)

lemma user_phase:
  assumes b: "b = pre @ print_user u @ host @ r" and pre: "pre \<noteq> []"
    and s: "uri_i s = length pre" "start_idx s ! 1 = length pre" "\<not> in_ipv6 s" "end_idx s ! 2 = 0" "end_idx s ! 3 = 0"
    and ts: "parts_are b s ts" "ts ! 1 = []" "ts ! 2 = []" "ts ! 3 = []"
    and ok: "list_all (\<lambda>c. valid_char ! 1 ! ord c \<noteq> 0) x" "u = Some x" "rd b (length pre + length x + 1) = Some d"
  shows "\<exists>s'. authority_loop b s = authority_loop b s' \<and> uri_i s' = Suc (length pre + length x)
    \<and> pre_state s' = 2 \<and> skip_path s' = skip_path s \<and> start_idx s' ! 6 = start_idx s ! 6 \<and> start_idx s' ! 2 = uri_i s'
    \<and> in_ipv6 s' = (d = CHR ''['') \<and> (\<forall>i \<in> {3, 4, 5, 6}. end_idx s' ! i = end_idx s ! i) \<and> parts_are b s' (ts[1 := x])"
proof -
  let ?i = "length pre + length x"
  have b': "b = pre @ x @ CHR ''@'' # host @ r" using b ok(2) by simp
  have len: "length (start_idx s) = 7" "length (end_idx s) = 7" "length ts = 7" using parts_are_lengths [OF ts(1)] by auto
  have "list_all (\<lambda>c. authority_map ! ord c \<in> {0, URI_HOST}) x"
    using ok(1) valid_excludes(2) by (fastforce simp: list_all_iff authority_map_eq)
  then obtain s1 e v where s1: "authority_loop b s = authority_loop b s1" "uri_i s1 = ?i" "\<not> in_ipv6 s1" "skip_path s1 = skip_path s"
    and f: "end_idx s1 = (end_idx s)[2 := e]" "e \<le> ?i" "start_idx s1 = (start_idx s)[3 := v]"
    using authority_user [OF b' s(1) pre s(3) len(1,2)] s(4) by force
  let ?s2 = "(set_start 2 (Suc ?i) (set_end 1 ?i (s1\<lparr>in_ipv6 := (d = CHR ''['')\<rparr>)))\<lparr>pre_state := 2, uri_i := Suc ?i\<rparr>"
  have "rd b ?i = Some CHR ''@''" using rd_at [of b "pre @ x" "CHR ''@''"] b' by simp
  then have "authority_step b s1 = Some (True, (set_start 2 (Suc ?i) (set_end 1 ?i (s1\<lparr>in_ipv6 := (d = CHR ''['')\<rparr>)))\<lparr>pre_state := 2\<rparr>)"
    using s1(2,3) ok(3) in_ipv6_same [of s1] by (auto simp: authority_step_def authority_map_eq Let_def)
  then have "authority_loop b s1 = authority_loop b ?s2" using s1(2) by (simp add: authority_loop.simps [of b s1])
  moreover have "parts_are b (set_end 1 ?i s) (ts[1 := x])" using parts_are_end [OF ts(1) _ s(2) b', of ?i] by simp
  then have "parts_are b (set_end 3 0 (set_start 3 v (set_end 2 e (set_start 2 (Suc ?i) (set_end 1 ?i s))))) (ts[1 := x])"
    using f(2) ts(3,4) by (intro parts_are_empty) simp_all
  then have "parts_are b ?s2 (ts[1 := x])"
    by (rule parts_are_cong [rotated 2]) (use f s(5) len in \<open>auto simp: list_eq_iff_nth_eq nth_list_update\<close>)
  ultimately show ?thesis using s1 f len by (intro exI [of _ ?s2]) (simp add: nth_list_update)
qed

lemma parts_are_init:
  assumes "b = scheme @ CHR '':'' # r"
  shows "parts_are b (uri_scan_init (length scheme) i) [scheme, [], [], [], [], [], []]"
  using assms by (auto simp: parts_are_def is_part_def uri_scan_init_def less_Suc_eq numeral_eq_Suc nth_Cons split: nat.splits)

text \<open>The state at the first byte of the authority.\<close>

lemma after_scheme_authority:
  assumes b: "b = scheme @ ''://'' @ d # r"
  shows "\<exists>s. after_scheme b (uri_scan_init (length scheme) (Suc (length scheme))) = Some s \<and> uri_i s = length scheme + 3 \<and> pre_state s = 2
    \<and> start_idx s ! 2 = uri_i s \<and> in_ipv6 s = (d = CHR ''['') \<and> \<not> skip_path s \<and> start_idx s ! 6 = 0 \<and> unset s [1, 2, 3, 4, 5, 6]
    \<and> (d \<noteq> CHR ''['' \<longrightarrow> start_idx s ! 1 = uri_i s) \<and> parts_are b s [scheme, [], [], [], [], [], []]"
proof -
  let ?i = "length scheme + 3"
  let ?init = "uri_scan_init (length scheme) (Suc (length scheme))"
  have rd: "rd b (Suc (length scheme)) = Some CHR ''/''" "rd b (Suc (Suc (length scheme))) = Some CHR ''/''" "rd b ?i = Some d"
    using b by (simp_all add: rd_def nth_append)
  let ?s1 = "?init\<lparr>pre_state := 2, uri_i := ?i\<rparr>"
  let ?s = "set_start 2 ?i (if d = CHR ''['' then ?s1\<lparr>in_ipv6 := True\<rparr> else set_start 1 ?i ?s1)"
  have "after_scheme b ?init = Some ?s" using rd by (simp add: after_scheme_def uri_scan_init_def numeral_3_eq_3)
  have "parts_are b ?init [scheme, [], [], [], [], [], []]" by (rule parts_are_init) (use b in simp)
  moreover have "end_idx ?init ! 1 = 0" "end_idx ?init ! 2 = 0" by (simp_all add: uri_scan_init_def)
  ultimately have "parts_are b ?s [scheme, [], [], [], [], [], []]" by (auto intro!: parts_are_start)
  then show ?thesis using \<open>after_scheme b ?init = Some ?s\<close>
    by (intro exI [of _ ?s]) (auto simp: uri_scan_init_def nth_list_update unset_def)
qed

lemma user_or_host:
  assumes b: "b = pre @ print_user u @ host @ r" "pre \<noteq> []" "d # r' = print_user u @ host @ r" "r \<noteq> []" "hd r \<noteq> CHR ''[''"
    and s: "uri_i s = length pre" "pre_state s = 2" "start_idx s ! 2 = length pre" "in_ipv6 s = (d = CHR ''['')" "unset s [1, 2, 3, 4, 5, 6]"
      "d \<noteq> CHR ''['' \<longrightarrow> start_idx s ! 1 = length pre" "parts_are b s [scheme, [], [], [], [], [], []]"
    and ok: "list_all (\<lambda>c. valid_char ! 1 ! ord c \<noteq> 0) (text_of u)"
  shows "\<exists>s' pre'. authority_loop b s = authority_loop b s' \<and> b = pre' @ host @ r \<and> pre' \<noteq> []
     \<and> uri_i s' = length pre' \<and> pre_state s' = 2 \<and> skip_path s' = skip_path s \<and> start_idx s' ! 6 = start_idx s ! 6 \<and> start_idx s' ! 2 = length pre'
     \<and> in_ipv6 s' = bracketed host \<and> unset s' [3, 4, 5, 6] \<and> parts_are b s' [scheme, text_of u, [], [], [], [], []]"
proof (cases u)
  case None
  have "d = CHR ''['' \<longleftrightarrow> bracketed host" using None b(3-5) by (cases host) (auto simp: bracketed_def)
  then show ?thesis using None s b(1,2) by (intro exI [of _ s] exI [of _ pre]) (auto simp: unset_def)
next
  case (Some x)
  obtain e r'' where e: "host @ r = e # r''" using b(4) by (cases "host @ r") auto
  have "rd b (length pre + length x + 1) = Some e" using rd_at [of b "pre @ x @ ''@''" e r''] b(1) Some e by simp
  moreover have "d \<noteq> CHR ''[''" using b(3) Some ok valid_excludes(2) by (cases x) auto
  ultimately obtain s' where s': "authority_loop b s = authority_loop b s'" "uri_i s' = Suc (length pre + length x)"
    "pre_state s' = 2" "skip_path s' = skip_path s" "start_idx s' ! 6 = start_idx s ! 6" "start_idx s' ! 2 = uri_i s'"
    "in_ipv6 s' = (e = CHR ''['')" "\<forall>i \<in> {3, 4, 5, 6}. end_idx s' ! i = end_idx s ! i" "parts_are b s' [scheme, x, [], [], [], [], []]"
    using user_phase [OF b(1,2) s(1) _ _ _ _ s(7), of x e] s Some ok by (auto simp: unset_def)
  have "e = CHR ''['' \<longleftrightarrow> bracketed host" using e b(4,5) by (cases host) (auto simp: bracketed_def)
  then show ?thesis using s' s(5) Some b(1) by (intro exI [of _ s'] exI [of _ "pre @ x @ ''@''"]) (auto simp: unset_def)
qed

lemma authority_phase:
  assumes b: "b = scheme @ ''://'' @ print_user u @ host @ opt_text (CHR '':'') port @ r" "r \<noteq> []" "hd r \<noteq> CHR ''[''"
    and ok: "list_all (\<lambda>c. valid_char ! 1 ! ord c \<noteq> 0) (text_of u)" "host_ok host" "list_all (\<lambda>c. valid_char ! 3 ! ord c \<noteq> 0) (text_of port)"
  shows "\<exists>s0 s pre. after_scheme b (uri_scan_init (length scheme) (Suc (length scheme))) = Some s0 \<and> start_idx s0 ! 6 = 0
    \<and> authority_loop b s0 = authority_loop b s \<and> b = pre @ r \<and> uri_i s = length pre \<and> pre_state s < 4 \<and> \<not> skip_path s \<and> start_idx s ! 6 = 0
    \<and> unset s [4, 5, 6] \<and> parts_are b (set_end (pre_state s) (uri_i s) s) [scheme, text_of u, host, text_of port, [], [], []]"
proof -
  obtain d r' where d: "d # r' = print_user u @ host @ opt_text (CHR '':'') port @ r" using b(2) by (metis append_is_Nil_conv list.exhaust)
  obtain s0 where s0: "after_scheme b (uri_scan_init (length scheme) (Suc (length scheme))) = Some s0" "uri_i s0 = length scheme + 3" "pre_state s0 = 2"
    "start_idx s0 ! 2 = uri_i s0" "in_ipv6 s0 = (d = CHR ''['')" "\<not> skip_path s0" "start_idx s0 ! 6 = 0" "unset s0 [1, 2, 3, 4, 5, 6]"
    "d \<noteq> CHR ''['' \<longrightarrow> start_idx s0 ! 1 = uri_i s0" "parts_are b s0 [scheme, [], [], [], [], [], []]"
    using after_scheme_authority [of b scheme d r'] b(1) d by auto
  have "hd (opt_text (CHR '':'') port @ r) \<noteq> CHR ''[''" using b(3) by (cases port) auto
  then obtain s1 pre where s1: "authority_loop b s0 = authority_loop b s1" "b = pre @ host @ opt_text (CHR '':'') port @ r" "pre \<noteq> []"
     "uri_i s1 = length pre" "pre_state s1 = 2" "skip_path s1 = skip_path s0" "start_idx s1 ! 6 = start_idx s0 ! 6" "start_idx s1 ! 2 = length pre"
     "in_ipv6 s1 = bracketed host" "unset s1 [3, 4, 5, 6]" "parts_are b s1 [scheme, text_of u, [], [], [], [], []]"
    using user_or_host [of b "scheme @ ''://''" u host "opt_text (CHR '':'') port @ r" d r' s0 scheme] b(1,2) d s0 ok(1) by (fastforce simp: add.commute)
  then obtain s where "authority_loop b s1 = authority_loop b s" "uri_i s = length pre + length host + length (opt_text (CHR '':'') port)"
    "pre_state s < 4" "skip_path s = skip_path s1" "start_idx s ! 6 = start_idx s1 ! 6" "\<forall>i \<in> {4, 5, 6}. end_idx s ! i = end_idx s1 ! i"
    "parts_are b (set_end (pre_state s) (uri_i s) s) [scheme, text_of u, host, text_of port, [], [], []]"
    using host_phase [OF s1(2,3,4,5,8,9) _ s1(11) _ ok(2,3)] by (auto simp: unset_def)
  then show ?thesis using s0 s1
    by (intro exI [of _ s0] exI [of _ s] exI [of _ "pre @ host @ opt_text (CHR '':'') port"]) (auto simp: unset_def)
qed

text \<open>A URI in its parts, and its text.\<close>

record uri_spec =
  sp_scheme :: "byte list"
  sp_authority :: "(byte list option \<times> byte list \<times> byte list option) option"
  sp_path :: "byte list"
  sp_query :: "byte list option"
  sp_fragment :: "byte list option"

definition print_authority :: "(byte list option \<times> byte list \<times> byte list option) option \<Rightarrow> byte list" where
  "print_authority a = (case a of None \<Rightarrow> [] | Some (u, host, port) \<Rightarrow> ''//'' @ print_user u @ host @ opt_text (CHR '':'') port)"

definition print_uri :: "uri_spec \<Rightarrow> byte list" where
  "print_uri sp = sp_scheme sp @ '':'' @ print_authority (sp_authority sp) @ sp_path sp
     @ opt_text (CHR ''?'') (sp_query sp) @ opt_text (CHR ''#'') (sp_fragment sp)"

definition authority_ok :: "(byte list option \<times> byte list \<times> byte list option) option \<Rightarrow> byte list \<Rightarrow> byte list \<Rightarrow> bool" where
  "authority_ok a path q = (case a of
      None \<Rightarrow> \<not> prefix ''//'' path
    | Some (u, host, port) \<Rightarrow>
        list_all (\<lambda>c. valid_char ! 1 ! ord c \<noteq> 0) (text_of u) \<and> host_ok host
        \<and> list_all (\<lambda>c. valid_char ! 3 ! ord c \<noteq> 0) (text_of port) \<and> (path = [] \<or> hd path = CHR ''/'')
        \<and> (path = [] \<longrightarrow> list_all (\<lambda>c. c \<notin> {CHR '':'', CHR ''@'', CHR ''?''}) q))"

definition uri_spec_ok :: "uri_spec \<Rightarrow> bool" where
  "uri_spec_ok sp \<longleftrightarrow> sp_scheme sp \<noteq> [] \<and> list_all (\<lambda>c. valid_char ! 0 ! ord c \<noteq> 0) (sp_scheme sp)
     \<and> authority_ok (sp_authority sp) (sp_path sp) (text_of (sp_query sp))
     \<and> list_all (\<lambda>c. c \<notin> {NUL, CHR ''?'', CHR ''#''}) (sp_path sp)
     \<and> list_all (\<lambda>c. c \<notin> {NUL, CHR ''#''}) (text_of (sp_query sp)) \<and> NUL \<notin> set (text_of (sp_fragment sp))"

fun authority_texts :: "(byte list option \<times> byte list \<times> byte list option) option \<Rightarrow> byte list list" where
  "authority_texts None = [[], [], []]"
| "authority_texts (Some (u, host, port)) = [text_of u, host, text_of port]"

definition uri_texts :: "uri_spec \<Rightarrow> byte list list" where
  "uri_texts sp = sp_scheme sp # authority_texts (sp_authority sp) @ [text_of (sp_query sp), text_of (sp_fragment sp), sp_path sp]"

lemma opt_text_NUL: "c \<noteq> NUL \<Longrightarrow> NUL \<notin> set (text_of t) \<Longrightarrow> NUL \<notin> set (opt_text c t)"
  by (cases t) auto

lemma valid_no_NUL: "list_all (\<lambda>c. valid_char ! n ! ord c \<noteq> 0) t \<Longrightarrow> n \<in> {0, 1, 2, 3} \<Longrightarrow> NUL \<notin> set t"
  using valid_excludes [of NUL] by (auto simp: list_all_iff)

lemma print_uri_text: "uri_spec_ok sp \<Longrightarrow> uri_text (print_uri sp @ [NUL])"
proof (rule uri_text_append)
  assume ok: "uri_spec_ok sp"
  have "NUL \<notin> set (print_authority (sp_authority sp))"
  proof (cases "sp_authority sp")
    case (Some a)
    obtain u host port where a: "a = (u, host, port)" by (cases a)
    have "NUL \<notin> set (text_of u)" "NUL \<notin> set host" "NUL \<notin> set (text_of port)"
      using ok Some a valid_no_NUL [of 1] valid_no_NUL [of 2] valid_no_NUL [of 3] by (auto simp: uri_spec_ok_def authority_ok_def host_ok_def)
    then show ?thesis using Some a by (cases u) (auto simp: print_authority_def opt_text_NUL)
  qed (simp add: print_authority_def)
  moreover have "NUL \<notin> set (sp_scheme sp)" using ok valid_no_NUL [of 0] by (simp add: uri_spec_ok_def)
  moreover have "NUL \<notin> set (sp_path sp)" "NUL \<notin> set (text_of (sp_query sp))" "NUL \<notin> set (text_of (sp_fragment sp))"
    using ok unfolding uri_spec_ok_def list_all_iff by blast+
  ultimately show "NUL \<notin> set (print_uri sp)" by (simp add: print_uri_def opt_text_NUL)
qed

lemma find_parts_authority:
  assumes b: "b = scheme @ ''://'' @ print_user u @ host @ opt_text (CHR '':'') port @ path @ opt_text (CHR ''?'') q @ opt_text (CHR ''#'') f @ [NUL]"
    and t: "uri_text b" and sc: "scheme \<noteq> []" "list_all (\<lambda>c. valid_char ! 0 ! ord c \<noteq> 0) scheme"
    and ok: "authority_ok (Some (u, host, port)) path (text_of q)" "list_all (\<lambda>c. c \<notin> {NUL, CHR ''?'', CHR ''#''}) path"
      "list_all (\<lambda>c. c \<notin> {NUL, CHR ''#''}) (text_of q)"
  shows "\<exists>s. find_parts b = Some (Some s) \<and> parts_are b s [scheme, text_of u, host, text_of port, text_of q, text_of f, path]"
proof -
  let ?r = "path @ opt_text (CHR ''?'') q @ opt_text (CHR ''#'') f @ [NUL]"
  have sch: "scan_scheme b 0 = Some (length scheme, Suc (length scheme))"
    using scan_scheme_at [of b "[]" scheme] b sc(2) valid_excludes(1) by (force simp: list_all_iff)
  have "hd ?r \<noteq> CHR ''[''" using ok(1) by (cases path; cases q; cases f) (auto simp: authority_ok_def)
  then obtain s0 s pre where s: "after_scheme b (uri_scan_init (length scheme) (Suc (length scheme))) = Some s0" "start_idx s0 ! 6 = 0"
    "authority_loop b s0 = authority_loop b s" "b = pre @ ?r" "uri_i s = length pre" "pre_state s < 4" "\<not> skip_path s" "start_idx s ! 6 = 0"
    "unset s [4, 5, 6]" "parts_are b (set_end (pre_state s) (uri_i s) s) [scheme, text_of u, host, text_of port, [], [], []]"
    using authority_phase [of b scheme u host port ?r] b ok(1) by (auto simp: authority_ok_def)
  show ?thesis
  proof (cases path)
    case Nil
    have "ends_with_parts b s [scheme, text_of u, host, text_of port, text_of q, text_of f, []]"
      using bare_tail [of b pre q f s "[scheme, text_of u, host, text_of port, [], [], []]"] s t ok Nil
      by (auto simp: authority_ok_def list_all_iff unset_def)
    then show ?thesis using sch sc(1) s(1-3) Nil by (auto simp: find_parts_def ends_with_parts_def)
  next
    case (Cons c p)
    then have c: "c = CHR ''/''" using ok(1) by (simp add: authority_ok_def)
    let ?s1 = "set_start 6 (length pre) s"
    have "authority_step b s = Some (False, ?s1)"
      using rd_at [of b pre c] s(4,5,7) Cons c by (simp add: authority_step_def authority_map_eq Let_def)
    then have l: "authority_loop b s = Some ?s1" by (simp add: authority_loop.simps [of b s])
    let ?s2 = "(set_end (pre_state s) (length pre) ?s1)\<lparr>pre_state := 6\<rparr>"
    have len: "length (start_idx s) = 7" "length (end_idx s) = 7" using parts_are_lengths [OF s(10)] by simp_all
    have "parts_are b (set_start 6 (length pre) (set_end (pre_state s) (uri_i s) s)) [scheme, text_of u, host, text_of port, [], [], []]"
      using s(6,9) by (intro parts_are_start [OF s(10)]) (auto simp: unset_def)
    then have "parts_are b ?s2 [scheme, text_of u, host, text_of port, [], [], []]"
      by (rule parts_are_cong [rotated 2]) (use s(5) in simp_all)
    from path_phase [OF s(4) t _ _ _ _ this _ _ ok(2,3)] show ?thesis
      using sch sc(1) s len l by (force simp: find_parts_def end_part_def unset_def)
  qed
qed

lemma find_parts_path:
  assumes b: "b = scheme @ '':'' @ path @ opt_text (CHR ''?'') q @ opt_text (CHR ''#'') f @ [NUL]"
    and t: "uri_text b" and sc: "scheme \<noteq> []" "list_all (\<lambda>c. valid_char ! 0 ! ord c \<noteq> 0) scheme"
    and ok: "\<not> prefix ''//'' path" "list_all (\<lambda>c. c \<notin> {NUL, CHR ''?'', CHR ''#''}) path"
      "list_all (\<lambda>c. c \<notin> {NUL, CHR ''#''}) (text_of q)"
  shows "\<exists>s. find_parts b = Some (Some s) \<and> parts_are b s [scheme, [], [], [], text_of q, text_of f, path]"
proof -
  have sch: "scan_scheme b 0 = Some (length scheme, Suc (length scheme))"
    using scan_scheme_at [of b "[]" scheme] b sc(2) valid_excludes(1) by (force simp: list_all_iff)
  let ?i = "Suc (length scheme)"
  let ?init = "uri_scan_init (length scheme) ?i"
  let ?r = "path @ opt_text (CHR ''?'') q @ opt_text (CHR ''#'') f @ [NUL]"
  let ?s1 = "set_start 6 ?i (?init\<lparr>pre_state := 6\<rparr>)"
  have "\<exists>c. rd b ?i = Some c \<and> (c = CHR ''/'' \<longrightarrow> (\<exists>d. rd b (Suc ?i) = Some d \<and> d \<noteq> CHR ''/''))"
  proof (cases path)
    case Nil
    then show ?thesis using rd_at [of b "scheme @ '':''" "hd ?r" "tl ?r"] b by (cases q; cases f) auto
  next
    case (Cons c p)
    have "\<exists>d. rd b (Suc ?i) = Some d \<and> d \<noteq> CHR ''/''" if "c = CHR ''/''"
      using rd_next [of b "scheme @ '':''" c "hd (tl ?r)" "tl (tl ?r)"] b ok(1) that Cons by (cases p; cases q; cases f) auto
    then show ?thesis using rd_at [of b "scheme @ '':''" c] b Cons by auto
  qed
  then have as: "after_scheme b ?init = Some ?s1" by (auto simp: after_scheme_def uri_scan_init_def)
  let ?s2 = "(set_end 6 ?i ?s1)\<lparr>pre_state := 6\<rparr>"
  have "parts_are b ?init [scheme, [], [], [], [], [], []]" by (rule parts_are_init) (use b in simp)
  then have "parts_are b (set_end 6 ?i (set_start 6 ?i ?init)) [scheme, [], [], [], [], [], []]" by (intro parts_are_empty) simp_all
  then have "parts_are b ?s2 [scheme, [], [], [], [], [], []]" by (rule parts_are_cong [rotated 2]) simp_all
  moreover have "unset ?s2 [4, 5]" "start_idx ?s2 ! 6 = ?i" "uri_i ?s2 = ?i" "start_idx ?s1 ! 6 = ?i" "\<not> skip_path ?s1" "uri_i ?s1 = ?i"
    "end_part ?i ?s1 = Some (set_end 6 ?i ?s1)"
    by (simp_all add: uri_scan_init_def unset_def end_part_def nth_list_update)
  ultimately show ?thesis
    using path_phase [of b "scheme @ '':''" path q f ?s2 "[scheme, [], [], [], [], [], []]"] b t ok(2,3) sch as sc(1)
    by (force simp: find_parts_def)
qed

definition present :: "byte list \<Rightarrow> byte list option" where
  "present t = (if t = [] then None else Some t)"

definition unbracket :: "byte list \<Rightarrow> byte list" where
  "unbracket host = (if bracketed host then butlast (tl host) else host)"

lemma valid_from_True:
  "(\<And>k. j \<le> k \<Longrightarrow> k < e \<Longrightarrow> k < length b \<and> valid_char ! row ! ord (b ! k) \<noteq> 0) \<Longrightarrow> valid_from b row j e = Some True"
proof (induction b row j e rule: valid_from.induct)
  case (1 b row j e)
  then show ?case by (cases "j < e") (auto simp: valid_from.simps [of b row j e] rd_def)
qed

lemma part_bound:
  assumes "is_part b s i t" "t \<noteq> []"
  shows "end_idx s ! i = start_idx s ! i + length t" "take (length t) (drop (start_idx s ! i) b) = t" "start_idx s ! i + length t \<le> length b"
proof -
  show e: "end_idx s ! i = start_idx s ! i + length t" "take (length t) (drop (start_idx s ! i) b) = t" using assms by (simp_all add: is_part_def)
  have "length t \<le> length b - start_idx s ! i" by (metis e(2) length_drop length_take min.cobounded1)
  moreover have "0 < length t" using assms(2) by simp
  ultimately show "start_idx s ! i + length t \<le> length b" by linarith
qed

lemma valid_from_part:
  assumes "is_part b s i t" "list_all (\<lambda>c. valid_char ! i ! ord c \<noteq> 0) t"
  shows "valid_from b i (start_idx s ! i) (end_idx s ! i) = Some True"
proof (rule valid_from_True)
  fix k
  assume k: "start_idx s ! i \<le> k" "k < end_idx s ! i"
  then have t: "t \<noteq> []" using assms(1) by (auto simp: is_part_def)
  note e = part_bound [OF assms(1) t]
  have "t ! (k - start_idx s ! i) = b ! k" using k e(1,3) by (subst e(2) [symmetric]) simp
  moreover have "k - start_idx s ! i < length t" using k e(1) by simp
  ultimately have "b ! k \<in> set t" using nth_mem by metis
  then show "k < length b \<and> valid_char ! i ! ord (b ! k) \<noteq> 0" using assms(2) k e(1,3) by (simp add: list_all_iff)
qed

lemma part_textI:
  assumes "is_part b s i t" "i \<noteq> URI_HOST"
  shows "part_text b s i = present t"
proof (cases "t = []")
  case True
  then show ?thesis using assms by (simp add: part_text_def is_part_def present_def)
next
  case False
  then show ?thesis using assms(2) part_bound [OF assms(1)] by (simp add: part_text_def present_def part_bytes_def copy_bytes_def)
qed

lemma part_text_host:
  assumes p: "is_part b s URI_HOST t" and ok: "host_ok t"
  shows "part_text b s URI_HOST = map_option unbracket (present t)"
proof (cases "t = []")
  case True
  then show ?thesis using p by (simp add: part_text_def is_part_def present_def)
next
  case False
  let ?st = "start_idx s ! 2"
  have t: "take (length t) (drop ?st b) = t" "end_idx s ! 2 = ?st + length t" and l: "?st + length t \<le> length b"
    using part_bound [OF p False] by simp_all
  have n: "b ! (?st + k) = t ! k" if "k < length t" for k using that l by (subst t(1) [symmetric]) simp
  have h: "rd b ?st = Some (hd t)" using n [of 0] l False by (cases t) (auto simp: rd_def)
  show ?thesis using ok
  proof (cases rule: host_okE)
    case (1 v)
    have "rd b (?st + length t - 1) = Some CHR '']''" using n [of "length t - 1"] l 1(1) by (simp add: rd_def nth_append)
    moreover have "take (length v) (drop (Suc ?st) b) = v"
    proof -
      have "drop (Suc ?st) b = drop 1 (drop ?st b)" by simp
      also have "take (length v) \<dots> = take (length v) (drop 1 (take (length t) (drop ?st b)))" using 1(1) by (simp add: take_drop)
      finally show ?thesis using t(1) 1(1) by simp
    qed
    ultimately show ?thesis using h t(2) l 1 by (simp add: part_text_def part_bytes_def copy_bytes_def present_def unbracket_def)
  next
    case 2
    then have "hd t \<noteq> CHR ''[''" using False by (simp add: bracketed_def)
    then show ?thesis using h t l 2 False by (simp add: part_text_def part_bytes_def copy_bytes_def present_def unbracket_def)
  qed
qed

lemma find_parts_print:
  assumes "uri_spec_ok sp"
  shows "\<exists>s. find_parts (print_uri sp @ [NUL]) = Some (Some s) \<and> parts_are (print_uri sp @ [NUL]) s (uri_texts sp)"
proof (cases "sp_authority sp")
  case None
  then show ?thesis
    using find_parts_path [OF _ print_uri_text [OF assms], of "sp_scheme sp" "sp_path sp" "sp_query sp" "sp_fragment sp"] assms
    by (simp add: print_uri_def print_authority_def uri_spec_ok_def authority_ok_def uri_texts_def)
next
  case (Some a)
  obtain u host port where a: "a = (u, host, port)" by (cases a)
  then show ?thesis
    using find_parts_authority [OF _ print_uri_text [OF assms], of "sp_scheme sp" u host port "sp_path sp" "sp_query sp" "sp_fragment sp"] assms Some
    by (simp add: print_uri_def print_authority_def uri_spec_ok_def uri_texts_def)
qed

text \<open>C16: Parsing undoes printing. Take a URI by its parts: a scheme, an optional authority with an
  optional user, a host (a name, or an address in brackets) and an optional port, a path, an
  optional query and an optional fragment, each of bytes that are valid in it. When memory is
  available, \<open>URIParser::parse\<close> of its text succeeds and finds exactly these parts, the host
  without its brackets and an empty part as NULL. When an authority is followed by a query without
  a path, the query must not have a colon, an at sign or a question mark.\<close>

theorem uri_parse_roundtrip:
  assumes "uri_spec_ok sp" "holds h R (uri_owned u)" "outcomes h = []"
  shows "\<exists>u' h'. uri_parse (print_uri sp @ [NUL]) u h = Some (0, u', h') \<and> uri_st u' = URI_STATE_SUCCESS \<and> holds h' R (uri_owned u')
    \<and> map_option snd (uri_scheme u') = Some (sp_scheme sp)
    \<and> map_option snd (uri_userinfo u') = present (authority_texts (sp_authority sp) ! 0)
    \<and> map_option snd (uri_host u') = map_option unbracket (present (authority_texts (sp_authority sp) ! 1))
    \<and> map_option snd (uri_port u') = present (authority_texts (sp_authority sp) ! 2)
    \<and> map_option snd (uri_path u') = present (sp_path sp)
    \<and> map_option snd (uri_query u') = present (text_of (sp_query sp))
    \<and> map_option snd (uri_fragment u') = present (text_of (sp_fragment sp))"
proof -
  let ?b = "print_uri sp @ [NUL]"
  obtain s where s: "find_parts ?b = Some (Some s)" "parts_are ?b s (uri_texts sp)" using find_parts_print [OF assms(1)] by blast
  have i: "idx_ok ?b s" using find_parts_ok [OF print_uri_text [OF assms(1)]] s(1) by auto
  have p: "is_part ?b s k (uri_texts sp ! k)" if "k < 7" for k using s(2) that by (simp add: parts_are_def)
  obtain us host port where t: "authority_texts (sp_authority sp) = [us, host, port]" "host_ok host"
    "list_all (\<lambda>c. valid_char ! 1 ! ord c \<noteq> 0) us" "list_all (\<lambda>c. valid_char ! 3 ! ord c \<noteq> 0) port"
    using assms(1) that [of "[]" "[]" "[]"] that
    by (cases "sp_authority sp") (auto simp: uri_spec_ok_def authority_ok_def host_ok_def bracketed_def)
  have ts: "uri_texts sp = [sp_scheme sp, us, host, port, text_of (sp_query sp), text_of (sp_fragment sp), sp_path sp]" by (simp add: uri_texts_def t(1))
  have "[0..<URI_QUERY] = [0, 1, 2, 3]" by (simp add: upt_rec numeral_eq_Suc)
  then have v: "valid_rows ?b s [0..<URI_QUERY] = Some True"
    using valid_from_part [OF p [of 0]] valid_from_part [OF p [of 1]] valid_from_part [OF p [of 2]] valid_from_part [OF p [of 3]] t assms(1)
    by (simp add: ts uri_spec_ok_def host_ok_def del: upt_conv_Cons)
  obtain u' h' where st: "store_parts ?b s [0..<URI_PART_ELEMENTS] (u\<lparr>uri_st := URI_STATE_INVALID\<rparr>) h = Some (0, u', h')"
    "uri_st u' = URI_STATE_SUCCESS" "holds h' R (uri_owned u')" "\<forall>k < URI_PART_ELEMENTS. map_option snd (get_part k u') = part_text ?b s k"
    using store_all_ok [OF i, of h R "u\<lparr>uri_st := URI_STATE_INVALID\<rparr>"] assms(2,3) unfolding uri_owned_state by blast
  have g: "map_option snd (get_part k u') = present (uri_texts sp ! k)" if "k < 7" "k \<noteq> 2" for k
    using st(4) part_textI [OF p [OF that(1)]] that by simp
  have "map_option snd (uri_host u') = map_option unbracket (present host)"
    using st(4) [rule_format, of 2] part_text_host [of ?b s host] p [of 2] t(2) by (simp add: ts get_part_def)
  then show ?thesis using s(1) v st g [of 0] g [of 1] g [of 3] g [of 4] g [of 5] g [of 6] assms(1) t(1)
    by (simp add: uri_parse_def ts get_part_def present_def uri_spec_ok_def)
qed

theorem uri_parse_roundtrip_witness:
  "\<exists>u' h'. uri_parse (''http://u:p@[::1]:80/x?a=b:c#f'' @ [NUL]) uri_init (empty_heap []) = Some (0, u', h')
    \<and> map_option snd (uri_userinfo u') = Some ''u:p'' \<and> map_option snd (uri_host u') = Some ''::1''
    \<and> map_option snd (uri_port u') = Some ''80'' \<and> map_option snd (uri_query u') = Some ''a=b:c''"
proof -
  let ?sp = "\<lparr>sp_scheme = ''http'', sp_authority = Some (Some ''u:p'', ''[::1]'', Some ''80''), sp_path = ''/x'',
    sp_query = Some ''a=b:c'', sp_fragment = Some ''f''\<rparr>"
  have "uri_spec_ok ?sp" by (simp add: uri_spec_ok_def authority_ok_def host_ok_def bracketed_def valid_char_def ord_def)
  moreover have "holds (empty_heap []) {} (uri_owned uri_init)" "outcomes (empty_heap []) = []" by (simp_all add: holds_def heap_ok_def empty_heap_def)
  moreover have "print_uri ?sp = ''http://u:p@[::1]:80/x?a=b:c#f''" by (simp add: print_uri_def print_authority_def)
  ultimately show ?thesis using uri_parse_roundtrip [of ?sp "empty_heap []" "{}" uri_init]
    by (auto simp: present_def unbracket_def bracketed_def)
qed

section \<open>Limits of the parser\<close>

text \<open>A query that follows the host directly is read by the loop over the authority, which takes a
  question mark in it for a new query and a colon or an at sign for the end of the host: the first
  text loses \<open>a?\<close>, the second, a valid URI, is rejected.\<close>

lemma query_without_path:
  "map_option (\<lambda>(ret, u, h). (ret, map_option snd (uri_query u))) (uri_parse (''http://h?a?b'' @ [NUL]) uri_init (empty_heap [])) = Some (0, Some ''b'')"
  "map_option (\<lambda>(ret, u, h). (ret, uri_st u)) (uri_parse (''http://h?t=1:2'' @ [NUL]) uri_init (empty_heap [])) = Some (- 1, URI_STATE_INVALID)"
  by code_simp+

text \<open>When \<open>realloc\<close> fails for a part of a reused object, the old block of the part is lost.\<close>

lemma realloc_failure_leaks:
  "map_option (\<lambda>(ret, u, h). (ret, uri_owned u, live h))
     (uri_parse (''a:b'' @ [NUL]) (uri_init\<lparr>uri_scheme := Some (0, ''x'')\<rparr>)
        \<lparr>outcomes = [False], brk = 1, live = {0}, bad_free = False\<rparr>) = Some (- 1, [], {0})"
  by code_simp

section \<open>Copies\<close>

definition no_NUL :: "c_string \<Rightarrow> bool" where
  "no_NUL s = (case s of None \<Rightarrow> True | Some (_, bytes) \<Rightarrow> NUL \<notin> set bytes)"

lemma copy_field_cases:
  assumes "holds h R A" "no_NUL s" "copy_field s h = (ok, d, h')"
  shows "holds h' R (str_owned d @ A) \<and> (if ok then map_option snd d = map_option snd s else d = None \<and> outcomes h \<noteq> [])
    \<and> (outcomes h = [] \<longrightarrow> outcomes h' = [])"
proof (cases s)
  case (Some p)
  obtain a bytes where p: "p = (a, bytes)" by (cases p)
  have "holds h' R (str_owned d @ A)" using assms Some p holds_strdup [OF assms(1), of bytes] by (auto simp: copy_field_def split: prod.splits)
  moreover have "if ok then map_option snd d = map_option snd s else d = None \<and> outcomes h \<noteq> []" "outcomes h = [] \<longrightarrow> outcomes h' = []"
    using assms(2,3) Some p outcomes_malloc_Nil [of h] by (cases "malloc h"; cases "fst (malloc h)"; auto simp: copy_field_def strdup_def no_NUL_def)+
  ultimately show ?thesis by blast
qed (use assms in \<open>auto simp: copy_field_def\<close>)

lemma uri_deinit_frees:
  assumes "holds h R (uri_owned u)"
  shows "holds (uri_deinit u h) R []"
  using assms unfolding uri_deinit_def Let_def uri_owned_def by (intro holds_free_string) simp

definition uri_no_NUL :: "parsed_uri \<Rightarrow> bool" where
  "uri_no_NUL u \<longleftrightarrow> (\<forall>i < URI_PART_ELEMENTS. no_NUL (get_part i u))"

lemma set_part_state [simp]: "uri_st (set_part i v u) = uri_st u" "uri_error (set_part i v u) = uri_error u"
  by (simp_all add: set_part_def)

lemma copy_parts_ok:
  assumes "holds h R (uri_owned u)" "uri_no_NUL src" "distinct is" "set is \<subseteq> {..<7}" "\<forall>i \<in> set is. get_part i u = None"
    and "copy_parts is src u h = (ok, u', h')"
  shows "holds h' R (uri_owned u') \<and> uri_st u' = uri_st u \<and> uri_error u' = uri_error u
    \<and> (if ok then \<forall>i < 7. map_option snd (get_part i u') = map_option snd (get_part i (if i \<in> set is then src else u)) else outcomes h \<noteq> [])"
  using assms
proof (induction "is" arbitrary: u h)
  case (Cons i "is")
  obtain ok1 d h1 where c: "copy_field (get_part i src) h = (ok1, d, h1)" by (metis prod_cases3)
  have i: "i < 7" "i \<notin> set is" using Cons.prems by auto
  then have "no_NUL (get_part i src)" using Cons.prems(2) by (simp add: uri_no_NUL_def)
  from copy_field_cases [OF Cons.prems(1) this c]
  have d: "holds h1 R (str_owned d @ uri_owned u)" "if ok1 then map_option snd d = map_option snd (get_part i src) else d = None \<and> outcomes h \<noteq> []"
    "outcomes h = [] \<longrightarrow> outcomes h1 = []" by auto
  have "set_part i None u = u" using set_part_get [of i u] Cons.prems(5) by simp
  then have h1: "holds h1 R (uri_owned (set_part i d u))"
    using holds_perm [OF d(1)] mset_owned_part [of i d u] by simp
  have g: "get_part j (set_part i d u) = (if i = j then d else get_part j u)" if "j < 7" for j by (rule get_set_part [OF i(1) that])
  show ?case
  proof (cases ok1)
    case False
    then show ?thesis using Cons.prems(6) c h1 d(2) by auto
  next
    case True
    have "\<forall>j \<in> set is. get_part j (set_part i d u) = None" using Cons.prems(4,5) i g by auto
    then show ?thesis using Cons.IH [OF h1 Cons.prems(2)] Cons.prems(3,4,6) c True d(2,3) i g by auto
  qed
qed simp

text \<open>C35: Copies of a parsed URI. The copy of a successfully parsed object has the same parts in blocks of
  its own, or, when memory is short, is an object in the error state without any block; the copy of
  another object has no part but the same state. Nothing is leaked, and destroying the copy
  gives all its blocks back.\<close>

theorem uri_copy_correct:
  assumes "holds h R []" "uri_no_NUL src" "uri_copy src h = (u, h')"
  shows "holds h' R (uri_owned u) \<and> holds (uri_deinit u h') R []
    \<and> (if uri_st src = URI_STATE_SUCCESS
       then uri_st u = URI_STATE_SUCCESS \<and> (\<forall>i < URI_PART_ELEMENTS. map_option snd (get_part i u) = map_option snd (get_part i src))
         \<or> outcomes h \<noteq> [] \<and> u = uri_init\<lparr>uri_st := URI_STATE_ERROR, uri_error := ENOMEM\<rparr>
       else u = uri_init\<lparr>uri_st := uri_st src, uri_error := uri_error src\<rparr> \<and> h' = h)"
proof -
  let ?u = "uri_init\<lparr>uri_st := uri_st src, uri_error := uri_error src\<rparr>"
  let ?is = "[URI_SCHEME, URI_USERINFO, URI_HOST, URI_PORT, URI_PATH, URI_QUERY, URI_FRAGMENT]"
  have "holds h' R (uri_owned u) \<and> (if uri_st src = URI_STATE_SUCCESS
       then uri_st u = URI_STATE_SUCCESS \<and> (\<forall>i < URI_PART_ELEMENTS. map_option snd (get_part i u) = map_option snd (get_part i src))
         \<or> outcomes h \<noteq> [] \<and> u = uri_init\<lparr>uri_st := URI_STATE_ERROR, uri_error := ENOMEM\<rparr> else u = ?u \<and> h' = h)"
  proof (cases "uri_st src = URI_STATE_SUCCESS")
    case True
    obtain ok v h1 where c: "copy_parts ?is src ?u h = (ok, v, h1)" by (metis prod_cases3)
    have "\<forall>i \<in> set ?is. get_part i ?u = None" by (auto simp: get_part_def uri_init_def)
    then have v: "holds h1 R (uri_owned v)" "uri_st v = uri_st src"
      "if ok then \<forall>i < 7. map_option snd (get_part i v) = map_option snd (get_part i (if i \<in> set ?is then src else ?u)) else outcomes h \<noteq> []"
      using copy_parts_ok [OF _ assms(2) _ _ _ c, of R] assms(1) by auto
    have "i \<in> set ?is" if "i < 7" for i using that by auto
    then show ?thesis using v True assms(3) c uri_deinit_frees [OF v(1)] by (cases ok) (auto simp: uri_copy_def copy_fields_def Let_def)
  next
    case False
    then show ?thesis using assms by (auto simp: uri_copy_def Let_def)
  qed
  then show ?thesis using uri_deinit_frees by blast
qed

theorem uri_copy_correct_witness:
  "\<exists>u h'. uri_copy (uri_init\<lparr>uri_host := Some (0, ''h''), uri_st := URI_STATE_SUCCESS\<rparr>) \<lparr>outcomes = [], brk = 1, live = {0}, bad_free = False\<rparr> = (u, h')
     \<and> map_option snd (uri_host u) = Some ''h''"
proof -
  let ?h = "\<lparr>outcomes = [], brk = 1, live = {0}, bad_free = False\<rparr>"
  let ?src = "uri_init\<lparr>uri_host := Some (0, ''h''), uri_st := URI_STATE_SUCCESS\<rparr>"
  obtain u h' where c: "uri_copy ?src ?h = (u, h')" by (cases "uri_copy ?src ?h") blast
  moreover have "holds ?h {0} []" by (simp add: holds_def heap_ok_def)
  moreover have "uri_no_NUL ?src" by (simp add: uri_no_NUL_def no_NUL_def get_part_def uri_init_def)
  ultimately have "\<forall>i < 7. map_option snd (get_part i u) = map_option snd (get_part i ?src)"
    using uri_copy_correct [of ?h "{0}" ?src u h'] by simp
  then have "map_option snd (get_part 2 u) = map_option snd (get_part 2 ?src)" by simp
  then show ?thesis using c by (simp add: get_part_def)
qed

section \<open>Queries and paths\<close>

text \<open>The keys and values of the elements of a query, those with an empty key left out.\<close>

definition pairs_of :: "byte list list \<Rightarrow> (byte list \<times> byte list) list" where
  "pairs_of es = filter (\<lambda>(key, val). key \<noteq> []) (map key_value (filter (\<lambda>ele. ele \<noteq> []) es))"

lemma pairs_of_simps [simp]:
  "pairs_of [] = []"
  "pairs_of (e # es) = (if e = [] \<or> fst (key_value e) = [] then pairs_of es else key_value e # pairs_of es)"
  by (auto simp: pairs_of_def split: prod.splits)

lemma foldl_query_step: "foldl query_step m es = map_of (pairs_of es) ++ m"
proof (induction es arbitrary: m)
  case (Cons e es)
  obtain k v where kv: "key_value e = (k, v)" by force
  show ?case
  proof (cases "e = [] \<or> k = []")
    case True
    then show ?thesis using Cons kv by (auto simp: query_step_def)
  next
    case False
    have "map_of (pairs_of es) ++ query_step m e = map_of (pairs_of (e # es)) ++ m"
    proof
      fix x
      show "(map_of (pairs_of es) ++ query_step m e) x = (map_of (pairs_of (e # es)) ++ m) x"
        using False kv by (cases "m x") (auto simp: query_step_def map_add_def split: option.splits)
    qed
    then show ?thesis using Cons by simp
  qed
qed simp

definition values_of :: "byte list \<Rightarrow> (byte list \<times> byte list) list \<Rightarrow> byte list list" where
  "values_of key ps = map snd (filter (\<lambda>p. fst p = key) ps)"

lemma foldl_strict_step:
  "foldl strict_step m es key =
     (if values_of key (pairs_of es) = [] then m key else Some ((case m key of None \<Rightarrow> [] | Some vs \<Rightarrow> vs) @ values_of key (pairs_of es)))"
proof (induction es arbitrary: m)
  case (Cons e es)
  obtain k v where "key_value e = (k, v)" by force
  then show ?case using Cons [of "strict_step m e"] by (auto simp: strict_step_def values_of_def split: option.splits)
qed (simp add: values_of_def)

text \<open>C36: The queries. Take the elements of the query between the ampersands, each a key and what stands
  between its first and second equals sign, and leave out those with an empty key.
  \<open>split_query\<close> maps each key to its first value, \<open>split_query_strict\<close> to the list of all its values
  in their order. \<open>split_path\<close> returns the non-empty pieces between the slashes.\<close>

theorem split_query_correct:
  "split_query query = map_of (pairs_of (split_str query (CHR ''&'')))
   \<and> split_query_strict query key =
       (if values_of key (pairs_of (split_str query (CHR ''&''))) = [] then None
        else Some (values_of key (pairs_of (split_str query (CHR ''&'')))))
   \<and> split_path path = filter (\<lambda>p. p \<noteq> []) (split_str path (CHR ''/''))"
proof -
  have "pairs_of (split_str [] (CHR ''&'')) = []" by (simp add: split_str_def split_from.simps)
  then show ?thesis
    by (auto simp: split_query_def split_query_strict_def foldl_query_step foldl_strict_step values_of_def split_path_def
        split_filter_empty_def split_filter_from_eq split_str_def)
qed

end
