(* ===== verification/Rb_Index.thy ===== *)
theory Rb_Index
  imports Rbtree
begin

text \<open>
  A red-black tree used as an ordered index, as \<open>LRUCache.h\<close> and \<open>poller.c\<close> use it: the search for a
  place by a test that says at each node whether to go left, insertion at the place found, removal,
  replacement and the neighbours of a node. The contract of such an index is the locale
  \<open>ordered_index\<close>; \<open>rbi\<close> is its interpretation on the pointer code of \<open>rbtree.c\<close>.
\<close>

section \<open>Searching\<close>

text \<open>The loop of the callers: \<open>p\<close> is the current node, \<open>bound\<close> the last node where the search went left,
  and \<open>link\<close> the pointer field that leads to \<open>p\<close>. The test reads the entry the node is part of, and is
  \<open>None\<close> when that entry is gone. A loop that does not end is \<open>None\<close>, too.\<close>

partial_function (option) rb_search ::
  "(addr \<Rightarrow> bool option) \<Rightarrow> rheap \<Rightarrow> addr option \<Rightarrow> addr option \<Rightarrow> (addr \<times> side) option
     \<Rightarrow> (addr option \<times> (addr \<times> side) option) option" where
  "rb_search left h p bound link =
     (case p of
        None \<Rightarrow> Some (bound, link)
      | Some a \<Rightarrow>
          (case left a of
             None \<Rightarrow> None
           | Some b \<Rightarrow> if b then rb_search left h (rb_left h a) (Some a) (Some (a, Left))
                      else rb_search left h (rb_right h a) bound (Some (a, Right))))"

definition rb_find :: "(addr \<Rightarrow> bool option) \<Rightarrow> rheap \<Rightarrow> (addr option \<times> (addr \<times> side) option) option" where
  "rb_find left h = rb_search left h (rb_node h) None None"

definition rb_put :: "addr \<Rightarrow> (addr \<times> side) option \<Rightarrow> rheap \<Rightarrow> rheap option" where
  "rb_put a link h = rb_insert_color a (rb_link_node a (map_option fst link) link h)"

text \<open>The nodes of an index in their order.\<close>

definition rindex :: "rheap \<Rightarrow> addr list \<Rightarrow> bool" where
  "rindex h xs \<longleftrightarrow> (\<exists>t. rep h t \<and> rb_tree t \<and> inorder t = xs)"

definition empty_index :: rheap where
  "empty_index = \<lparr>rb_parent = (\<lambda>_. None), rb_right = (\<lambda>_. None), rb_left = (\<lambda>_. None), rb_color = (\<lambda>_. RB_BLACK), rb_node = None\<rparr>"

lemma rb_search_zrep:
  assumes "zrep h par p t path" "inorder t = xs @ ys" "\<forall>a \<in> set xs. left a = Some False" "\<forall>a \<in> set ys. left a = Some True"
  shows "\<exists>path'. rb_search left h p bound (link_of path) = Some (case ys of [] \<Rightarrow> bound | y # _ \<Rightarrow> Some y, link_of path')
    \<and> zip_up Leaf path' = zip_up t path \<and> before path' = before path @ xs \<and> after path' = ys @ after path"
  using assms
proof (induction t arbitrary: par p path xs ys bound)
  case Leaf
  then have "p = None" "xs = []" "ys = []" by (auto simp: zrep_def)
  then show ?case by (auto simp: rb_search.simps intro!: exI [of _ path])
next
  case (Node c l a r)
  have p: "p = Some a" using Node.prems(1) by (simp add: zrep_def)
  have o: "inorder l @ a # inorder r = xs @ ys" using Node.prems(2) by simp
  have "left a = Some True \<or> left a = Some False" using o Node.prems(3,4) by (metis Un_iff in_set_conv_decomp set_append)
  then show ?case
  proof
    assume True: "left a = Some True"
    then have "a \<notin> set xs" using Node.prems(3) by force
    then obtain zs where ys: "ys = zs @ a # inorder r" "inorder l = xs @ zs"
      using o by (auto simp: append_eq_append_conv2 append_eq_Cons_conv Cons_eq_append_conv)
    have z: "zrep h (Some a) (rb_left h a) l ((Left, c, a, r) # path)"
      using zrep_down [of h par a Left c l r path] Node.prems(1) p by simp
    have step: "rb_search left h p bound (link_of path) = rb_search left h (rb_left h a) (Some a) (link_of ((Left, c, a, r) # path))"
      using p True by (simp add: rb_search.simps [of left h "Some a"] link_of_def)
    have "\<forall>b \<in> set zs. left b = Some True" using Node.prems(4) ys(1) by simp
    then show ?thesis unfolding step using Node.IH(1) [OF z ys(2) Node.prems(3), of "Some a"] ys(1) by (cases zs) simp_all
  next
    assume False: "left a = Some False"
    then have "a \<notin> set ys" using Node.prems(4) by force
    then obtain zs where xs: "xs = inorder l @ a # zs" "inorder r = zs @ ys"
      using o by (auto simp: append_eq_append_conv2 append_eq_Cons_conv Cons_eq_append_conv)
    have z: "zrep h (Some a) (rb_right h a) r ((Right, c, a, l) # path)"
      using zrep_down [of h par a Right c r l path] Node.prems(1) p by simp
    have step: "rb_search left h p bound (link_of path) = rb_search left h (rb_right h a) bound (link_of ((Right, c, a, l) # path))"
      using p False by (simp add: rb_search.simps [of left h "Some a"] link_of_def)
    have "\<forall>b \<in> set zs. left b = Some False" using Node.prems(3) xs(1) by simp
    then show ?thesis unfolding step using Node.IH(2) [OF z xs(2) _ Node.prems(4), of bound] xs(1) by simp
  qed
qed

section \<open>The contract of an ordered index\<close>

locale ordered_index =
  fixes index :: "'h \<Rightarrow> addr list \<Rightarrow> bool"
    and find :: "(addr \<Rightarrow> bool option) \<Rightarrow> 'h \<Rightarrow> (addr option \<times> 'l) option"
    and put :: "addr \<Rightarrow> 'l \<Rightarrow> 'h \<Rightarrow> 'h option"
    and erase :: "addr \<Rightarrow> 'h \<Rightarrow> 'h option"
    and replace :: "addr \<Rightarrow> addr \<Rightarrow> 'h \<Rightarrow> 'h"
  assumes index_distinct: "index h xs \<Longrightarrow> distinct xs"
    and index_find: "index h (xs @ ys) \<Longrightarrow> \<forall>a \<in> set xs. left a = Some False \<Longrightarrow> \<forall>a \<in> set ys. left a = Some True \<Longrightarrow>
      \<exists>l. find left h = Some (case ys of [] \<Rightarrow> None | y # _ \<Rightarrow> Some y, l)
        \<and> (\<forall>a. a \<notin> set (xs @ ys) \<longrightarrow> (\<exists>h'. put a l h = Some h' \<and> index h' (xs @ a # ys)))"
    and index_erase: "index h (xs @ x # ys) \<Longrightarrow> \<exists>h'. erase x h = Some h' \<and> index h' (xs @ ys)"
    and index_replace: "index h (xs @ x # ys) \<Longrightarrow> n \<notin> set (xs @ x # ys) \<Longrightarrow> index (replace x n h) (xs @ n # ys)"
begin

text \<open>With keys that increase along the index, the search by \<open>\<not> key a < k\<close> divides it at \<open>k\<close>.\<close>

lemma sorted_split:
  fixes key :: "addr \<Rightarrow> 'k::linorder"
  assumes "sorted_wrt (<) (map key xs)"
  shows "\<exists>us vs. xs = us @ vs \<and> (\<forall>a \<in> set us. key a < k) \<and> (\<forall>a \<in> set vs. \<not> key a < k)"
proof (intro exI conjI)
  show "xs = takeWhile (\<lambda>a. key a < k) xs @ dropWhile (\<lambda>a. key a < k) xs" by simp
  show "\<forall>a \<in> set (takeWhile (\<lambda>a. key a < k) xs). key a < k" by (auto dest: set_takeWhileD)
  show "\<forall>a \<in> set (dropWhile (\<lambda>a. key a < k) xs). \<not> key a < k"
  proof (cases "dropWhile (\<lambda>a. key a < k) xs")
    case (Cons d ds)
    then have "\<not> key d < k" using hd_dropWhile [of "\<lambda>a. key a < k" xs] by simp
    moreover have "sorted_wrt (<) (map key (d # ds))"
      using assms Cons by (metis map_append sorted_wrt_append takeWhile_dropWhile_id)
    ultimately show ?thesis using Cons by (auto simp: not_less intro: order_trans)
  qed (simp del: dropWhile_eq_Nil_conv)
qed

lemma find_at_key:
  fixes key :: "addr \<Rightarrow> 'k::linorder"
  assumes "index h xs" "sorted_wrt (<) (map key xs)" "a \<in> set xs" "\<forall>b \<in> set xs. left b = Some (\<not> key b < key a)"
  shows "\<exists>l. find left h = Some (Some a, l)"
proof -
  obtain us vs where xs: "xs = us @ a # vs" using assms(3) by (auto dest: split_list)
  have "\<forall>b \<in> set us. left b = Some False" "\<forall>b \<in> set (a # vs). left b = Some True"
    using assms(2,4) xs by (auto simp: sorted_wrt_append)
  then show ?thesis using index_find [of h us "a # vs" left] assms(1) xs by auto
qed

lemma find_no_key:
  fixes key :: "addr \<Rightarrow> 'k::linorder"
  assumes "index h xs" "sorted_wrt (<) (map key xs)" "k \<notin> key ` set xs" "\<forall>b \<in> set xs. left b = Some (\<not> key b < k)"
  shows "\<exists>bound l. find left h = Some (bound, l) \<and> (\<forall>b. bound = Some b \<longrightarrow> b \<in> set xs \<and> k < key b)
    \<and> (\<forall>key' n. (\<forall>b \<in> set xs. key' b = key b) \<longrightarrow> n \<notin> set xs \<longrightarrow> key' n = k \<longrightarrow>
        (\<exists>h' xs'. put n l h = Some h' \<and> index h' xs' \<and> set xs' = insert n (set xs) \<and> sorted_wrt (<) (map key' xs')))"
proof -
  obtain us vs where xs: "xs = us @ vs" "\<forall>a \<in> set us. key a < k" "\<forall>a \<in> set vs. \<not> key a < k" using sorted_split [OF assms(2)] by blast
  have gt: "\<forall>a \<in> set vs. k < key a" using xs assms(3) by (metis Un_iff image_eqI linorder_cases set_append)
  obtain l where l: "find left h = Some (case vs of [] \<Rightarrow> None | y # _ \<Rightarrow> Some y, l)"
    "\<forall>a. a \<notin> set xs \<longrightarrow> (\<exists>h'. put a l h = Some h' \<and> index h' (us @ a # vs))"
    using index_find [of h us vs left] assms(1,4) xs by auto
  have s: "sorted_wrt (<) (map key' (us @ n # vs))" if "\<forall>b \<in> set xs. key' b = key b" "key' n = k" for key' n
  proof -
    have "map key' us = map key us" "map key' vs = map key vs" using that(1) xs(1) by auto
    moreover have "sorted_wrt (<) (map key us @ k # map key vs)"
      using assms(2) xs(1,2) gt by (simp add: sorted_wrt_append)
    ultimately show ?thesis using that(2) by (simp del: map_eq_conv)
  qed
  have "\<forall>b. (case vs of [] \<Rightarrow> None | y # _ \<Rightarrow> Some y) = Some b \<longrightarrow> b \<in> set xs \<and> k < key b"
    using gt xs(1) by (auto split: list.splits)
  moreover have "\<exists>h' xs'. put n l h = Some h' \<and> index h' xs' \<and> set xs' = insert n (set xs) \<and> sorted_wrt (<) (map key' xs')"
    if new: "\<forall>b \<in> set xs. key' b = key b" "n \<notin> set xs" "key' n = k" for key' :: "addr \<Rightarrow> 'k" and n
  proof -
    obtain h' where "put n l h = Some h'" "index h' (us @ n # vs)" using l(2) new(2) by blast
    moreover have "set (us @ n # vs) = insert n (set xs)" using xs(1) by simp
    ultimately show ?thesis using s [OF new(1,3)] by blast
  qed
  ultimately show ?thesis using l(1) by blast
qed

text \<open>Removing and replacing an entry keeps the order.\<close>

lemma erase_key:
  assumes "index h xs" "sorted_wrt (<) (map key xs)" "a \<in> set xs"
  shows "\<exists>h' xs'. erase a h = Some h' \<and> index h' xs' \<and> set xs' = set xs - {a} \<and> sorted_wrt (<) (map key xs')"
proof -
  obtain us vs where xs: "xs = us @ a # vs" using assms(3) by (auto dest: split_list)
  obtain h' where "erase a h = Some h'" "index h' (us @ vs)" using index_erase assms(1) xs by blast
  moreover have "set (us @ vs) = set xs - {a}" using index_distinct [OF assms(1)] xs by auto
  moreover have "sorted_wrt (<) (map key (us @ vs))" using assms(2) xs by (auto simp: sorted_wrt_append)
  ultimately show ?thesis by blast
qed

lemma replace_key:
  assumes "index h xs" "sorted_wrt (<) (map key xs)" "a \<in> set xs" "n \<notin> set xs" "key' n = key a" "\<forall>b \<in> set xs. key' b = key b"
  shows "\<exists>xs'. index (replace a n h) xs' \<and> set xs' = insert n (set xs - {a}) \<and> sorted_wrt (<) (map key' xs')"
proof -
  obtain us vs where xs: "xs = us @ a # vs" using assms(3) by (auto dest: split_list)
  have "index (replace a n h) (us @ n # vs)" using index_replace [of h us a vs n] assms(1,4) xs by simp
  moreover have "set (us @ n # vs) = insert n (set xs - {a})" using index_distinct [OF assms(1)] xs by auto
  moreover have "map key' (us @ n # vs) = map key xs" using assms(5,6) xs by auto
  ultimately show ?thesis using assms(2) by metis
qed

end

interpretation rbi: ordered_index rindex rb_find rb_put rb_erase rb_replace_node
proof (unfold_locales, goal_cases)
  case (1 h xs)
  then show ?case by (auto simp: rindex_def rep_def zrep_def)
next
  case (2 h xs ys left)
  then obtain t where t: "rep h t" "rb_tree t" "inorder t = xs @ ys" by (auto simp: rindex_def)
  obtain path where p: "rb_find left h = Some (case ys of [] \<Rightarrow> None | y # _ \<Rightarrow> Some y, link_of path)"
    "zip_up Leaf path = t" "before path = xs" "after path = ys"
    using rb_search_zrep [of h None "rb_node h" t "[]" xs ys left None] t 2 by (auto simp: rep_def rb_find_def link_of_def)
  have "\<exists>h'. rb_put a (link_of path) h = Some h' \<and> rindex h' (xs @ a # ys)" if "a \<notin> set (xs @ ys)" for a
    using rb_insert_whole [of h path a] t that p by (auto simp: rb_put_def rindex_def)
  then show ?case using p(1) by blast
next
  case (3 h xs x ys)
  then show ?case using rb_erase_whole by (fastforce simp: rindex_def)
next
  case (4 h xs x ys n)
  then show ?case using rb_replace_node_whole by (fastforce simp: rindex_def)
qed

lemma rindex_empty [simp]: "rindex empty_index []"
  by (auto simp: rindex_def rep_def zrep_def empty_index_def rb_tree_def intro!: exI [of _ Leaf])

end
