(* ===== verification/Lru_Cache.thy ===== *)
theory Lru_Cache
  imports Clist Rb_Index "HOL-Library.Multiset"
begin

text \<open>
  The cache of \<open>src/src/util/LRUCache.h\<close>: handles with a reference count, kept on one of two
  intrusive lists (\<open>Clist\<close>) and in an ordered index (\<open>Rb_Index\<close>). A handle is addressed by one
  address, which stands for the object, its \<open>list\<close> and its \<open>rb\<close> member. A failed assertion and a use
  of a handle that has been deleted are \<open>None\<close>. The lemmas rest on the contracts \<open>cl\<close> of the lists
  and \<open>rbi\<close> of the index. The theorems: no client that releases only what it holds can make an
  operation fail, every value is deleted exactly once, and what \<open>get\<close>, \<open>put\<close> and \<open>del\<close> do to the
  contents, with the order of eviction.
\<close>

section \<open>Handles and the cache\<close>

record ('k, 'v) lru_handle =
  h_key :: 'k
  h_value :: 'v
  in_cache :: bool
  h_ref :: nat

text \<open>\<open>handles\<close> are the live handle objects, \<open>lists\<close> and \<open>cache_map\<close> the links of their members,
  \<open>deleted\<close> the values passed to the \<open>ValueDeleter\<close>. \<open>not_use\<close> and \<open>in_use\<close> are the addresses of the
  two list heads.\<close>

record ('k, 'v) lru_cache =
  max_size :: nat
  csize :: nat
  not_use :: addr
  in_use :: addr
  cache_map :: rheap
  handles :: "addr \<Rightarrow> ('k, 'v) lru_handle option"
  lists :: lheap
  deleted :: "'v list"

definition lru_new :: "addr \<Rightarrow> addr \<Rightarrow> lheap \<Rightarrow> ('k, 'v) lru_cache" where
  "lru_new n u l = \<lparr>max_size = 0, csize = 0, not_use = n, in_use = u, cache_map = empty_index,
     handles = (\<lambda>_. None), lists = INIT_LIST_HEAD u (INIT_LIST_HEAD n l), deleted = []\<rparr>"

definition set_max_size :: "nat \<Rightarrow> ('k, 'v) lru_cache \<Rightarrow> ('k, 'v) lru_cache" where
  "set_max_size n c = c\<lparr>max_size := n\<rparr>"

definition set_handle :: "addr \<Rightarrow> ('k, 'v) lru_handle \<Rightarrow> ('k, 'v) lru_cache \<Rightarrow> ('k, 'v) lru_cache" where
  "set_handle e x c = c\<lparr>handles := (handles c)(e \<mapsto> x)\<rparr>"

definition handle_ref :: "addr \<Rightarrow> ('k, 'v) lru_cache \<Rightarrow> ('k, 'v) lru_cache option" where
  "handle_ref e c =
     (case handles c e of
        None \<Rightarrow> None
      | Some x \<Rightarrow>
          Some (set_handle e (x\<lparr>h_ref := h_ref x + 1\<rparr>)
            (if in_cache x \<and> h_ref x = 1 then c\<lparr>lists := list_move_tail e (in_use c) (lists c)\<rparr> else c)))"

definition unref :: "addr \<Rightarrow> ('k, 'v) lru_cache \<Rightarrow> ('k, 'v) lru_cache option" where
  "unref e c =
     (case handles c e of
        None \<Rightarrow> None
      | Some x \<Rightarrow>
          if h_ref x = 0 then None
          else if h_ref x - 1 = 0 then
            (if in_cache x then None
             else Some (c\<lparr>handles := (handles c)(e := None), deleted := deleted c @ [h_value x]\<rparr>))
          else Some (set_handle e (x\<lparr>h_ref := h_ref x - 1\<rparr>)
            (if in_cache x \<and> h_ref x - 1 = 1 then c\<lparr>lists := list_move_tail e (not_use c) (lists c)\<rparr> else c)))"

definition release :: "addr \<Rightarrow> ('k, 'v) lru_cache \<Rightarrow> ('k, 'v) lru_cache option" where
  "release e c = unref e c"

definition erase_node :: "addr \<Rightarrow> ('k, 'v) lru_cache \<Rightarrow> ('k, 'v) lru_cache option" where
  "erase_node e c =
     (case handles c e of
        None \<Rightarrow> None
      | Some x \<Rightarrow>
          if \<not> in_cache x \<or> csize c = 0 then None
          else unref e (set_handle e (x\<lparr>in_cache := False\<rparr>)
            (c\<lparr>lists := list_del e (lists c), csize := csize c - 1\<rparr>)))"

text \<open>\<open>rb_erase\<close> and \<open>erase_node\<close>, which \<open>prune\<close>, \<open>put\<close> and \<open>del\<close> do in turn.\<close>

definition erase_entry :: "addr \<Rightarrow> ('k, 'v) lru_cache \<Rightarrow> ('k, 'v) lru_cache option" where
  "erase_entry e c =
     (case rb_erase e (cache_map c) of
        None \<Rightarrow> None
      | Some m \<Rightarrow> erase_node e (c\<lparr>cache_map := m\<rparr>))"

definition only_cached :: "addr \<Rightarrow> ('k, 'v) lru_cache \<Rightarrow> bool" where
  "only_cached e c \<longleftrightarrow> (case handles c e of None \<Rightarrow> False | Some x \<Rightarrow> h_ref x = 1)"

text \<open>Reading \<open>next\<close> of a list member: of a list head or of a live handle.\<close>

definition next_of :: "addr \<Rightarrow> ('k, 'v) lru_cache \<Rightarrow> addr option" where
  "next_of a c = (if a = not_use c \<or> a = in_use c \<or> handles c a \<noteq> None then Some (nxt (lists c) a) else None)"

text \<open>\<open>list_for_each_safe\<close> over \<open>not_use\<close>, with the successor \<open>n\<close> of \<open>pos\<close> read ahead.\<close>

partial_function (option) each_not_use ::
  "(addr \<Rightarrow> ('k, 'v) lru_cache \<Rightarrow> ('k, 'v) lru_cache option) \<Rightarrow> addr \<Rightarrow> addr \<Rightarrow> ('k, 'v) lru_cache
     \<Rightarrow> ('k, 'v) lru_cache option" where
  "each_not_use body pos n c =
     (if pos = not_use c then Some c
      else case body pos c of
        None \<Rightarrow> None
      | Some c' \<Rightarrow>
          (case next_of n c' of
             None \<Rightarrow> None
           | Some m \<Rightarrow> each_not_use body n m c'))"

definition for_each_not_use ::
  "(addr \<Rightarrow> ('k, 'v) lru_cache \<Rightarrow> ('k, 'v) lru_cache option) \<Rightarrow> ('k, 'v) lru_cache \<Rightarrow> ('k, 'v) lru_cache option" where
  "for_each_not_use body c =
     (let pos = nxt (lists c) (not_use c)
      in case next_of pos c of None \<Rightarrow> None | Some n \<Rightarrow> each_not_use body pos n c)"

definition prune :: "('k, 'v) lru_cache \<Rightarrow> ('k, 'v) lru_cache option" where
  "prune = for_each_not_use (\<lambda>e c. if only_cached e c then erase_entry e c else None)"

definition delete_unused :: "addr \<Rightarrow> ('k, 'v) lru_cache \<Rightarrow> ('k, 'v) lru_cache option" where
  "delete_unused e c =
     (case handles c e of
        None \<Rightarrow> None
      | Some x \<Rightarrow>
          if in_cache x \<and> h_ref x = 1 then unref e (set_handle e (x\<lparr>in_cache := False\<rparr>) c) else None)"

definition lru_destroy :: "('k, 'v) lru_cache \<Rightarrow> ('k, 'v) lru_cache option" where
  "lru_destroy c = (if list_empty (in_use c) (lists c) then for_each_not_use delete_unused c else None)"

section \<open>Lookup and insertion\<close>

definition not_below :: "'k::linorder \<Rightarrow> ('k, 'v) lru_cache \<Rightarrow> addr \<Rightarrow> bool option" where
  "not_below key c e = map_option (\<lambda>x. \<not> h_key x < key) (handles c e)"

definition matches :: "'k::linorder \<Rightarrow> ('k, 'v) lru_cache \<Rightarrow> addr option \<Rightarrow> addr option" where
  "matches key c bound =
     (case bound of
        None \<Rightarrow> None
      | Some b \<Rightarrow> (case handles c b of None \<Rightarrow> None | Some x \<Rightarrow> if \<not> key < h_key x then Some b else None))"

definition lru_get :: "'k::linorder \<Rightarrow> ('k, 'v) lru_cache \<Rightarrow> (addr option \<times> ('k, 'v) lru_cache) option" where
  "lru_get key c =
     (case rb_find (not_below key c) (cache_map c) of
        None \<Rightarrow> None
      | Some (bound, link) \<Rightarrow>
          (case matches key c bound of
             Some b \<Rightarrow> map_option (Pair (Some b)) (handle_ref b c)
           | None \<Rightarrow> Some (None, c)))"

partial_function (option) evict :: "('k, 'v) lru_cache \<Rightarrow> ('k, 'v) lru_cache option" where
  "evict c =
     (if max_size c < csize c \<and> \<not> list_empty (not_use c) (lists c) then
        let tmp = nxt (lists c) (not_use c) in
        if only_cached tmp c then
          (case erase_entry tmp c of None \<Rightarrow> None | Some c' \<Rightarrow> evict c')
        else None
      else Some c)"

text \<open>\<open>put\<close>; \<open>e\<close> is the address that \<open>new Handle\<close> returns.\<close>

definition with_new :: "addr \<Rightarrow> 'k \<Rightarrow> 'v \<Rightarrow> ('k, 'v) lru_cache \<Rightarrow> ('k, 'v) lru_cache" where
  "with_new e k v c = set_handle e \<lparr>h_key = k, h_value = v, in_cache = True, h_ref = 2\<rparr>
     (c\<lparr>lists := list_add_tail e (in_use c) (lists c), csize := csize c + 1\<rparr>)"

definition lru_put :: "'k::linorder \<Rightarrow> 'v \<Rightarrow> addr \<Rightarrow> ('k, 'v) lru_cache \<Rightarrow> (addr \<times> ('k, 'v) lru_cache) option" where
  "lru_put key v e c =
     (case rb_find (not_below key c) (cache_map c) of
        None \<Rightarrow> None
      | Some (bound, link) \<Rightarrow>
          let c1 = with_new e key v c;
              c2 = (case matches key c bound of
                Some b \<Rightarrow> erase_node b (c1\<lparr>cache_map := rb_replace_node b e (cache_map c1)\<rparr>)
              | None \<Rightarrow> map_option (\<lambda>m. c1\<lparr>cache_map := m\<rparr>) (rb_put e link (cache_map c1)))
          in case c2 of
            None \<Rightarrow> None
          | Some c3 \<Rightarrow> map_option (Pair e) (if max_size c3 > 0 then evict c3 else Some c3))"

definition lru_del :: "'k::linorder \<Rightarrow> ('k, 'v) lru_cache \<Rightarrow> ('k, 'v) lru_cache option" where
  "lru_del key c =
     (case lru_get key c of
        None \<Rightarrow> None
      | Some (None, c') \<Rightarrow> Some c'
      | Some (Some e, c') \<Rightarrow>
          (case unref e c' of None \<Rightarrow> None | Some c'' \<Rightarrow> erase_entry e c''))"

section \<open>What the lists and the handles say\<close>

definition two_lists_rep :: "lheap \<Rightarrow> addr \<Rightarrow> addr \<Rightarrow> addr list \<Rightarrow> addr list \<Rightarrow> bool" where
  "two_lists_rep l n u ns us \<longleftrightarrow> clist l n ns \<and> clist l u us \<and> set (n # ns) \<inter> set (u # us) = {}"

lemma two_lists_sym: "two_lists_rep l n u ns us \<Longrightarrow> two_lists_rep l u n us ns"
  by (auto simp: two_lists_rep_def)

lemma two_lists_distinct: "two_lists_rep l n u ns us \<Longrightarrow> distinct ns \<and> distinct us \<and> set ns \<inter> set us = {}"
  by (auto simp: two_lists_rep_def dest: cl.rep_distinct)

lemma two_lists_move:
  assumes "two_lists_rep l n u ns us" "e \<in> set ns"
  shows "two_lists_rep (list_move_tail e u l) n u (remove1 e ns) (us @ [e])"
proof -
  obtain as bs where ns: "ns = as @ e # bs" "e \<notin> set as" using split_list_first [OF assms(2)] by blast
  have "distinct (n # as @ e # bs)" using cl.rep_distinct [of l n ns] assms(1) ns(1) by (simp add: two_lists_rep_def)
  then show ?thesis using cl.rep_move_other [of l n as e bs u us] assms(1) ns
    by (auto simp: two_lists_rep_def list_move_tail_eq remove1_append)
qed

lemma two_lists_del:
  assumes "two_lists_rep l n u ns us" "e \<in> set ns"
  shows "two_lists_rep (list_del e l) n u (remove1 e ns) us"
proof -
  obtain as bs where ns: "ns = as @ e # bs" "e \<notin> set as" using split_list_first [OF assms(2)] by blast
  show ?thesis using cl.rep_del [of l n as e bs] cl.del_frame [of l n ns e u us] assms ns
    by (auto simp: two_lists_rep_def remove1_append)
qed

lemma two_lists_add:
  assumes "two_lists_rep l n u ns us" "e \<notin> set (n # u # ns @ us)"
  shows "two_lists_rep (list_add_tail e u l) n u ns (us @ [e])"
  using assms cl.rep_add_tail [of l u us e] cl.add_tail_frame [of l u us n ns e] by (auto simp: two_lists_rep_def)

text \<open>The handles of a cache whose client holds the references \<open>held\<close>, with the entries \<open>ns\<close> of \<open>not_use\<close>
  and \<open>us\<close> of \<open>in_use\<close>.\<close>

definition handle_ok :: "addr multiset \<Rightarrow> addr list \<Rightarrow> addr list \<Rightarrow> addr \<Rightarrow> ('k, 'v) lru_handle \<Rightarrow> bool" where
  "handle_ok held ns us e x \<longleftrightarrow>
     (in_cache x \<longleftrightarrow> e \<in> set ns \<union> set us) \<and> h_ref x = count held e + (if in_cache x then 1 else 0) \<and> h_ref x > 0
     \<and> (e \<in> set ns \<longrightarrow> e \<notin># held) \<and> (e \<in> set us \<longrightarrow> e \<in># held)"

definition handles_rep :: "('k, 'v) lru_cache \<Rightarrow> addr multiset \<Rightarrow> addr list \<Rightarrow> addr list \<Rightarrow> bool" where
  "handles_rep c held ns us \<longleftrightarrow>
     two_lists_rep (lists c) (not_use c) (in_use c) ns us
     \<and> handles c (not_use c) = None \<and> handles c (in_use c) = None
     \<and> finite (dom (handles c)) \<and> set_mset held \<subseteq> dom (handles c) \<and> set ns \<union> set us \<subseteq> dom (handles c)
     \<and> csize c = length ns + length us
     \<and> (\<forall>e x. handles c e = Some x \<longrightarrow> handle_ok held ns us e x)"

text \<open>All values the cache has been given and not forgotten: those of live handles and those deleted.\<close>

definition owned_values :: "('k, 'v) lru_cache \<Rightarrow> 'v multiset" where
  "owned_values c = image_mset (\<lambda>e. h_value (the (handles c e))) (mset_set (dom (handles c))) + mset (deleted c)"

text \<open>What every operation on the handles leaves alone.\<close>

definition same_frame :: "('k, 'v) lru_cache \<Rightarrow> ('k, 'v) lru_cache \<Rightarrow> bool" where
  "same_frame c c' \<longleftrightarrow>
     max_size c' = max_size c \<and> not_use c' = not_use c \<and> in_use c' = in_use c
     \<and> owned_values c' = owned_values c
     \<and> (\<forall>e x'. handles c' e = Some x' \<longrightarrow> (\<exists>x. handles c e = Some x \<and> h_key x' = h_key x \<and> h_value x' = h_value x))"

lemma same_frame_refl: "same_frame c c"
  by (auto simp: same_frame_def)

lemma same_frame_trans: "same_frame a b \<Longrightarrow> same_frame b c \<Longrightarrow> same_frame a c"
  unfolding same_frame_def by metis

lemma owned_values_set_handle:
  assumes "handles c e = Some x" "h_value x' = h_value x"
  shows "owned_values (set_handle e x' c) = owned_values c"
proof -
  have "dom ((handles c)(e \<mapsto> x')) = dom (handles c)" using assms(1) by (auto simp: insert_absorb)
  moreover have "h_value (the (((handles c)(e \<mapsto> x')) a)) = h_value (the (handles c a))" for a using assms by simp
  ultimately show ?thesis by (simp add: owned_values_def set_handle_def del: fun_upd_apply dom_fun_upd)
qed

lemma owned_values_cong [simp]:
  "owned_values (c\<lparr>lists := l\<rparr>) = owned_values c" "owned_values (c\<lparr>csize := n\<rparr>) = owned_values c"
  "owned_values (c\<lparr>cache_map := m\<rparr>) = owned_values c" "owned_values (c\<lparr>max_size := n\<rparr>) = owned_values c"
  by (simp_all add: owned_values_def)

lemma owned_values_delete:
  assumes "handles c e = Some x" "finite (dom (handles c))"
  shows "owned_values (c\<lparr>handles := (handles c)(e := None), deleted := deleted c @ [h_value x]\<rparr>) = owned_values c"
proof -
  have d: "dom (handles c) = insert e (dom (handles c) - {e})" using assms(1) by auto
  have "image_mset (\<lambda>a. h_value (the (handles c a))) (mset_set (dom (handles c)))
      = add_mset (h_value x) (image_mset (\<lambda>a. h_value (the (handles c a))) (mset_set (dom (handles c) - {e})))"
    by (subst d, subst mset_set.insert) (use assms in auto)
  moreover have "image_mset (\<lambda>a. h_value (the (((handles c)(e := None)) a))) (mset_set (dom (handles c) - {e}))
      = image_mset (\<lambda>a. h_value (the (handles c a))) (mset_set (dom (handles c) - {e}))"
    by (rule image_mset_cong) (use assms(2) in auto)
  ultimately show ?thesis by (simp add: owned_values_def)
qed

lemma owned_values_new:
  assumes "handles c e = None" "finite (dom (handles c))"
  shows "owned_values (set_handle e x c) = add_mset (h_value x) (owned_values c)"
proof -
  have "image_mset (\<lambda>a. h_value (the (((handles c)(e \<mapsto> x)) a))) (mset_set (dom (handles c)))
      = image_mset (\<lambda>a. h_value (the (handles c a))) (mset_set (dom (handles c)))"
    by (rule image_mset_cong) (use assms in auto)
  moreover have "mset_set (dom ((handles c)(e \<mapsto> x))) = add_mset e (mset_set (dom (handles c)))"
    using assms mset_set.insert [of "dom (handles c)" e] by (simp add: domIff)
  ultimately show ?thesis by (simp add: owned_values_def set_handle_def)
qed

section \<open>The operations on handles\<close>

lemma handles_repD:
  assumes "handles_rep c held ns us" "handles c e = Some x"
  shows "handle_ok held ns us e x" "finite (dom (handles c))" "distinct ns" "distinct us" "set ns \<inter> set us = {}"
  using assms two_lists_distinct by (fastforce simp: handles_rep_def)+

lemma length_remove1_Suc: "e \<in> set xs \<Longrightarrow> Suc (length (remove1 e xs)) = length xs"
  by (induction xs) auto

text \<open>Changing one handle: the others stay as they are.\<close>

definition others_same :: "addr \<Rightarrow> addr multiset \<Rightarrow> addr list \<Rightarrow> addr list \<Rightarrow> addr multiset \<Rightarrow> addr list \<Rightarrow> addr list \<Rightarrow> bool" where
  "others_same e held ns us held' ns' us' \<longleftrightarrow>
     (\<forall>a. a \<noteq> e \<longrightarrow> (a \<in> set ns' \<longleftrightarrow> a \<in> set ns) \<and> (a \<in> set us' \<longleftrightarrow> a \<in> set us) \<and> count held' a = count held a)"

lemma handle_ok_others:
  "others_same e held ns us held' ns' us' \<Longrightarrow> a \<noteq> e \<Longrightarrow> handle_ok held' ns' us' a x \<longleftrightarrow> handle_ok held ns us a x"
  unfolding others_same_def handle_ok_def by (metis UnCI UnE count_eq_zero_iff)

lemma others_sub:
  assumes "others_same e held ns us held' ns' us'" "set ns \<union> set us \<subseteq> D" "set_mset held \<subseteq> D"
  shows "set ns' \<union> set us' \<subseteq> insert e D" "set_mset held' \<subseteq> insert e D"
proof -
  show "set ns' \<union> set us' \<subseteq> insert e D" using assms(1,2) unfolding others_same_def by blast
  show "set_mset held' \<subseteq> insert e D"
    using assms(1,3) unfolding others_same_def by (metis count_eq_zero_iff insert_iff subset_iff)
qed

lemma handles_rep_set:
  assumes r: "handles_rep c held ns us" and x: "e \<noteq> not_use c" "e \<noteq> in_use c"
    and l: "two_lists_rep l' (not_use c) (in_use c) ns' us'" and o: "others_same e held ns us held' ns' us'"
    and ok: "handle_ok held' ns' us' e x'" and s: "s' = length ns' + length us'"
  shows "handles_rep (set_handle e x' (c\<lparr>lists := l', csize := s'\<rparr>)) held' ns' us'"
proof -
  have "set ns \<union> set us \<subseteq> dom (handles c)" "set_mset held \<subseteq> dom (handles c)" using r by (auto simp: handles_rep_def)
  note sub = others_sub [OF o this]
  have "handle_ok held' ns' us' a y" if "((handles c)(e \<mapsto> x')) a = Some y" for a y
    using that ok handle_ok_others [OF o, of a y] r by (cases "a = e") (auto simp: handles_rep_def)
  then show ?thesis using r x l s sub by (simp add: handles_rep_def set_handle_def)
qed

lemma handles_rep_delete:
  assumes r: "handles_rep c held ns us"
    and l: "two_lists_rep l' (not_use c) (in_use c) ns' us'" and o: "others_same e held ns us held' ns' us'"
    and ne: "e \<notin> set ns' \<union> set us'" "e \<notin># held'" and s: "s' = length ns' + length us'"
  shows "handles_rep (c\<lparr>lists := l', csize := s', handles := (handles c)(e := None), deleted := d\<rparr>) held' ns' us'"
proof -
  have "set ns \<union> set us \<subseteq> dom (handles c)" "set_mset held \<subseteq> dom (handles c)" using r by (auto simp: handles_rep_def)
  note sub = others_sub [OF o this]
  have "handle_ok held' ns' us' a y" if "((handles c)(e := None)) a = Some y" for a y
    using that handle_ok_others [OF o, of a y] r by (cases "a = e") (auto simp: handles_rep_def)
  then show ?thesis using r l s sub ne by (auto simp: handles_rep_def)
qed

lemma set_handle_frame:
  assumes "handles c e = Some x" "h_key x' = h_key x" "h_value x' = h_value x"
  shows "same_frame c (set_handle e x' (c\<lparr>lists := l', csize := s'\<rparr>))"
  using assms owned_values_set_handle [of "c\<lparr>lists := l', csize := s'\<rparr>" e x x'] by (auto simp: same_frame_def set_handle_def)

lemma delete_frame:
  assumes "handles c e = Some x" "finite (dom (handles c))" "v = h_value x"
  shows "same_frame c (c\<lparr>lists := l', csize := s', handles := (handles c)(e := None), deleted := deleted c @ [v]\<rparr>)"
  using assms owned_values_delete [of "c\<lparr>lists := l', csize := s'\<rparr>" e x] by (auto simp: same_frame_def)

lemma handles_rep_live:
  assumes "handles_rep c held ns us" "handles c e = Some x"
  shows "e \<noteq> not_use c" "e \<noteq> in_use c" "two_lists_rep (lists c) (not_use c) (in_use c) ns us" "csize c = length ns + length us"
  using assms by (auto simp: handles_rep_def)

lemma handle_ref_rep:
  assumes r: "handles_rep c held ns us" and x: "handles c e = Some x"
  shows "\<exists>c'. handle_ref e c = Some c' \<and> same_frame c c' \<and> cache_map c' = cache_map c
    \<and> handles_rep c' (add_mset e held) (remove1 e ns) (if e \<in> set ns then us @ [e] else us)"
proof -
  have ok: "handle_ok held ns us e x" and d: "distinct ns" "set ns \<inter> set us = {}" using handles_repD [OF r x] by auto
  note live = handles_rep_live [OF r x]
  have ns: "in_cache x \<and> h_ref x = 1 \<longleftrightarrow> e \<in> set ns" using ok by (auto simp: handle_ok_def count_eq_zero_iff)
  let ?l = "if e \<in> set ns then list_move_tail e (in_use c) (lists c) else lists c"
  let ?x = "x\<lparr>h_ref := h_ref x + 1\<rparr>" and ?us = "if e \<in> set ns then us @ [e] else us"
  have eq: "handle_ref e c = Some (set_handle e ?x (c\<lparr>lists := ?l, csize := csize c\<rparr>))"
    using x ns by (simp add: handle_ref_def)
  have "handles_rep (set_handle e ?x (c\<lparr>lists := ?l, csize := csize c\<rparr>)) (add_mset e held) (remove1 e ns) ?us"
  proof (rule handles_rep_set [OF r live(1,2)])
    show "two_lists_rep ?l (not_use c) (in_use c) (remove1 e ns) ?us"
      using live(3) two_lists_move [OF live(3), of e] by (simp add: remove1_idem)
    show "others_same e held ns us (add_mset e held) (remove1 e ns) ?us" using d by (auto simp: others_same_def)
    show "handle_ok (add_mset e held) (remove1 e ns) ?us e ?x" using ok d by (auto simp: handle_ok_def)
    show "csize c = length (remove1 e ns) + length ?us"
      using live(4) length_remove1_Suc [of e ns] by (auto simp: remove1_idem)
  qed
  moreover have "same_frame c (set_handle e ?x (c\<lparr>lists := ?l, csize := csize c\<rparr>))" using x by (rule set_handle_frame) simp_all
  ultimately show ?thesis unfolding eq by (auto simp: set_handle_def)
qed

lemma unref_rep:
  assumes r: "handles_rep c held ns us" and e: "e \<in># held"
  defines "final \<equiv> e \<in> set us \<and> count held e = 1"
  shows "\<exists>c'. unref e c = Some c' \<and> same_frame c c' \<and> cache_map c' = cache_map c
    \<and> handles_rep c' (held - {#e#}) (if final then ns @ [e] else ns) (if final then remove1 e us else us)"
proof -
  obtain x where x: "handles c e = Some x" using r e by (auto simp: handles_rep_def)
  have ok: "handle_ok held ns us e x" and d: "distinct us" "set ns \<inter> set us = {}" and fin: "finite (dom (handles c))"
    using handles_repD [OF r x] by auto
  note live = handles_rep_live [OF r x]
  have cnt: "count held e > 0" using e by simp
  have ens: "e \<notin> set ns" using ok e by (auto simp: handle_ok_def)
  let ?ns = "if final then ns @ [e] else ns" and ?us = "if final then remove1 e us else us"
  have o: "others_same e held ns us (held - {#e#}) ?ns ?us" using d by (auto simp: others_same_def)
  have s: "csize c = length ?ns + length ?us" using live(4) length_remove1_Suc [of e us] by (auto simp: final_def)
  show ?thesis
  proof (cases "h_ref x = 1")
    case True
    have rf: "h_ref x = (if in_cache x then count held e + 1 else count held e)" "in_cache x \<longleftrightarrow> e \<in> set ns \<union> set us"
      using ok by (auto simp: handle_ok_def)
    have "\<not> in_cache x" using rf(1) True cnt by presburger
    then have g: "\<not> in_cache x" "e \<notin> set us" "count held e = 1" using rf True by (blast, blast, presburger)
    let ?c = "c\<lparr>lists := lists c, csize := csize c, handles := (handles c)(e := None), deleted := deleted c @ [h_value x]\<rparr>"
    have "unref e c = Some ?c" using x True g by (simp add: unref_def)
    moreover have "handles_rep ?c (held - {#e#}) ?ns ?us"
      using live(3) g ens by (intro handles_rep_delete [OF r _ o _ _ s]) (auto simp: final_def not_in_iff)
    moreover have "same_frame c ?c" using x fin by (rule delete_frame) simp
    ultimately show ?thesis by auto
  next
    case False
    have "h_ref x > 0" using ok unfolding handle_ok_def by blast
    then have r0: "h_ref x > 1" using False by linarith
    have mv: "in_cache x \<and> h_ref x - 1 = 1 \<longleftrightarrow> final" using ok ens cnt by (auto simp: handle_ok_def final_def)
    let ?l = "if final then list_move_tail e (not_use c) (lists c) else lists c" and ?x = "x\<lparr>h_ref := h_ref x - 1\<rparr>"
    let ?c = "set_handle e ?x (c\<lparr>lists := ?l, csize := csize c\<rparr>)"
    have "unref e c = Some ?c" using x r0 mv by (simp add: unref_def)
    moreover have "handles_rep ?c (held - {#e#}) ?ns ?us"
    proof (rule handles_rep_set [OF r live(1,2) _ o _ s])
      show "two_lists_rep ?l (not_use c) (in_use c) ?ns ?us"
        using live(3) two_lists_sym [OF two_lists_move [OF two_lists_sym [OF live(3)], of e]] by (simp add: final_def)
      show "handle_ok (held - {#e#}) ?ns ?us e ?x"
        using ok d ens cnt r0 Suc_lessI [OF cnt] by (auto simp: handle_ok_def final_def not_in_iff in_diff_count)
    qed
    moreover have "same_frame c ?c" using x by (rule set_handle_frame) simp_all
    ultimately show ?thesis by (auto simp: set_handle_def)
  qed
qed

lemma erase_node_rep:
  assumes r: "handles_rep c held ns us" and e: "e \<in> set ns \<union> set us"
  shows "\<exists>c'. erase_node e c = Some c' \<and> same_frame c c' \<and> cache_map c' = cache_map c
    \<and> handles_rep c' held (remove1 e ns) (remove1 e us)"
proof -
  obtain x where x: "handles c e = Some x" using r e by (auto simp: handles_rep_def)
  have ok: "handle_ok held ns us e x" and d: "distinct ns" "distinct us" "set ns \<inter> set us = {}" and fin: "finite (dom (handles c))"
    using handles_repD [OF r x] by auto
  note live = handles_rep_live [OF r x]
  consider "e \<in> set ns" "e \<notin> set us" | "e \<notin> set ns" "e \<in> set us" using e d(3) by blast
  then have s: "csize c - 1 = length (remove1 e ns) + length (remove1 e us) \<and> csize c > 0"
    using live(4) length_remove1_Suc [of e ns] length_remove1_Suc [of e us] by cases (auto simp: remove1_idem)
  have l: "two_lists_rep (list_del e (lists c)) (not_use c) (in_use c) (remove1 e ns) (remove1 e us)"
    using e two_lists_del [OF live(3), of e] two_lists_sym [OF two_lists_del [OF two_lists_sym [OF live(3)], of e]] d(3)
    by (metis UnE disjoint_iff remove1_idem)
  have o: "others_same e held ns us held (remove1 e ns) (remove1 e us)" by (auto simp: others_same_def)
  have ic: "in_cache x" "h_ref x = count held e + 1" using ok e by (auto simp: handle_ok_def)
  let ?c1 = "set_handle e (x\<lparr>in_cache := False\<rparr>) (c\<lparr>lists := list_del e (lists c), csize := csize c - 1\<rparr>)"
  have eq: "erase_node e c = unref e ?c1" using x ic(1) s by (simp add: erase_node_def)
  show ?thesis
  proof (cases "e \<in># held")
    case False
    let ?c = "c\<lparr>lists := list_del e (lists c), csize := csize c - 1, handles := (handles c)(e := None), deleted := deleted c @ [h_value x]\<rparr>"
    have "unref e ?c1 = Some ?c" using False ic by (simp add: unref_def set_handle_def not_in_iff)
    moreover have "handles_rep ?c held (remove1 e ns) (remove1 e us)"
      using handles_rep_delete [OF r l o _ False conjunct1 [OF s]] d by simp
    moreover have "same_frame c ?c" using x fin by (rule delete_frame) simp
    ultimately show ?thesis unfolding eq by auto
  next
    case True
    let ?x = "x\<lparr>in_cache := False, h_ref := h_ref x - 1\<rparr>"
    let ?c = "set_handle e ?x (c\<lparr>lists := list_del e (lists c), csize := csize c - 1\<rparr>)"
    have "unref e ?c1 = Some ?c" using True ic by (simp add: unref_def set_handle_def count_eq_zero_iff)
    moreover have "handles_rep ?c held (remove1 e ns) (remove1 e us)"
      using ok True d ic by (intro handles_rep_set [OF r live(1,2) l o _ conjunct1 [OF s]]) (auto simp: handle_ok_def)
    moreover have "same_frame c ?c" using x by (rule set_handle_frame) simp_all
    ultimately show ?thesis unfolding eq by (auto simp: set_handle_def)
  qed
qed

section \<open>The index\<close>

definition key_of :: "('k, 'v) lru_cache \<Rightarrow> addr \<Rightarrow> 'k" where
  "key_of c e = h_key (the (handles c e))"

lemma key_of_cache_map [simp]: "key_of (c\<lparr>cache_map := m\<rparr>) = key_of c" "key_of (c\<lparr>max_size := n\<rparr>) = key_of c"
  by (auto simp: key_of_def)

definition index_rep :: "('k::linorder, 'v) lru_cache \<Rightarrow> addr set \<Rightarrow> bool" where
  "index_rep c A \<longleftrightarrow> (\<exists>xs. rindex (cache_map c) xs \<and> set xs = A \<and> sorted_wrt (<) (map (key_of c) xs))"

text \<open>The invariant of a cache.\<close>

definition lru_rep :: "('k::linorder, 'v) lru_cache \<Rightarrow> addr multiset \<Rightarrow> addr list \<Rightarrow> addr list \<Rightarrow> bool" where
  "lru_rep c held ns us \<longleftrightarrow> handles_rep c held ns us \<and> index_rep c (set ns \<union> set us)"

lemma same_frame_key: "same_frame c c' \<Longrightarrow> handles c' e \<noteq> None \<Longrightarrow> key_of c' e = key_of c e"
  by (force simp: same_frame_def key_of_def)

lemma index_rep_frame:
  assumes "index_rep c A" "same_frame c c'" "cache_map c' = cache_map c" "A \<subseteq> dom (handles c')"
  shows "index_rep c' A"
proof -
  obtain xs where xs: "rindex (cache_map c) xs" "set xs = A" "sorted_wrt (<) (map (key_of c) xs)"
    using assms(1) by (auto simp: index_rep_def)
  moreover have "map (key_of c') xs = map (key_of c) xs" using same_frame_key [OF assms(2)] assms(4) xs(2) by auto
  ultimately show ?thesis unfolding index_rep_def assms(3) by metis
qed

lemma lru_rep_live: "lru_rep c held ns us \<Longrightarrow> e \<in> set ns \<union> set us \<Longrightarrow> \<exists>x. handles c e = Some x"
  by (auto simp: lru_rep_def handles_rep_def)

lemma erase_entry_rep:
  assumes r: "lru_rep c held ns us" and e: "e \<in> set ns \<union> set us"
  shows "\<exists>c'. erase_entry e c = Some c' \<and> same_frame c c' \<and> lru_rep c' held (remove1 e ns) (remove1 e us)"
proof -
  have h: "handles_rep c held ns us" using r by (simp add: lru_rep_def)
  obtain xs where xs: "rindex (cache_map c) xs" "set xs = set ns \<union> set us" "sorted_wrt (<) (map (key_of c) xs)"
    using r by (auto simp: lru_rep_def index_rep_def)
  obtain m xs' where m: "rb_erase e (cache_map c) = Some m" "rindex m xs'" "set xs' = set xs - {e}" "sorted_wrt (<) (map (key_of c) xs')"
    using rbi.erase_key [OF xs(1,3)] e xs(2) by blast
  let ?c = "c\<lparr>cache_map := m\<rparr>"
  have "handles_rep ?c held ns us" using h by (simp add: handles_rep_def)
  from erase_node_rep [OF this e] obtain c' where c': "erase_node e ?c = Some c'" "same_frame ?c c'" "cache_map c' = m"
    "handles_rep c' held (remove1 e ns) (remove1 e us)" by auto
  have d: "distinct ns" "distinct us" using h two_lists_distinct by (auto simp: handles_rep_def)
  have "index_rep ?c (set (remove1 e ns) \<union> set (remove1 e us))"
    using m(2-4) xs(2) d by (auto simp: index_rep_def intro!: exI [of _ xs'])
  then have "index_rep c' (set (remove1 e ns) \<union> set (remove1 e us))"
    by (rule index_rep_frame [OF _ c'(2)]) (use c'(3,4) in \<open>auto simp: handles_rep_def\<close>)
  moreover have "same_frame c c'" using c'(2) by (simp add: same_frame_def)
  ultimately show ?thesis using m(1) c' by (simp add: erase_entry_def lru_rep_def)
qed

lemma not_below_live:
  "lru_rep c held ns us \<Longrightarrow> \<forall>b \<in> set ns \<union> set us. not_below key c b = Some (\<not> key_of c b < key)"
  using lru_rep_live by (fastforce simp: not_below_def key_of_def)

lemma lru_find_hit:
  assumes r: "lru_rep c held ns us" and e: "e \<in> set ns \<union> set us"
  shows "\<exists>l. rb_find (not_below (key_of c e) c) (cache_map c) = Some (Some e, l)"
proof -
  obtain xs where xs: "rindex (cache_map c) xs" "set xs = set ns \<union> set us" "sorted_wrt (<) (map (key_of c) xs)"
    using r by (auto simp: lru_rep_def index_rep_def)
  show ?thesis using rbi.find_at_key [OF xs(1,3)] not_below_live [OF r] e xs(2) by metis
qed

lemma lru_matches: "lru_rep c held ns us \<Longrightarrow> e \<in> set ns \<union> set us \<Longrightarrow>
    matches key c (Some e) = (if \<not> key < key_of c e then Some e else None)"
  using lru_rep_live [of c held ns us e] by (auto simp: matches_def key_of_def)

lemma lru_find_miss:
  fixes c :: "('k::linorder, 'v) lru_cache"
  assumes r: "lru_rep c held ns us" and k: "key \<notin> key_of c ` (set ns \<union> set us)"
  shows "\<exists>bound l. rb_find (not_below key c) (cache_map c) = Some (bound, l) \<and> matches key c bound = None
    \<and> (\<forall>n (c' :: ('k, 'v) lru_cache). n \<notin> set ns \<union> set us \<longrightarrow> key_of c' n = key \<longrightarrow> (\<forall>b \<in> set ns \<union> set us. key_of c' b = key_of c b) \<longrightarrow>
         (\<exists>m. rb_put n l (cache_map c) = Some m \<and> index_rep (c'\<lparr>cache_map := m\<rparr>) (insert n (set ns \<union> set us))))"
proof -
  obtain xs where xs: "rindex (cache_map c) xs" "set xs = set ns \<union> set us" "sorted_wrt (<) (map (key_of c) xs)"
    using r by (auto simp: lru_rep_def index_rep_def)
  have k': "key \<notin> key_of c ` set xs" and nb: "\<forall>b \<in> set xs. not_below key c b = Some (\<not> key_of c b < key)"
    using k not_below_live [OF r] xs(2) by simp_all
  obtain bound l where l: "rb_find (not_below key c) (cache_map c) = Some (bound, l)"
    "\<forall>b. bound = Some b \<longrightarrow> b \<in> set xs \<and> key < key_of c b"
    "\<And>key' n. \<forall>b \<in> set xs. key' b = key_of c b \<Longrightarrow> n \<notin> set xs \<Longrightarrow> key' n = key \<Longrightarrow>
      \<exists>m xs'. rb_put n l (cache_map c) = Some m \<and> rindex m xs' \<and> set xs' = insert n (set xs) \<and> sorted_wrt (<) (map key' xs')"
    using rbi.find_no_key [OF xs(1,3) k' nb] by blast
  have "matches key c bound = None"
    using l(2) lru_matches [OF r] xs(2) by (cases bound) (auto simp: matches_def)
  moreover have "\<exists>m. rb_put n l (cache_map c) = Some m \<and> index_rep (c'\<lparr>cache_map := m\<rparr>) (insert n (set ns \<union> set us))"
    if "n \<notin> set ns \<union> set us" "key_of c' n = key" "\<forall>b \<in> set ns \<union> set us. key_of c' b = key_of c b" for n and c' :: "('k, 'v) lru_cache"
    using l(3) [of "key_of c'" n] that xs(2) by (auto simp: index_rep_def)
  ultimately show ?thesis using l(1) by blast
qed

section \<open>The operations of the cache\<close>

lemma lru_rep_frame:
  assumes "lru_rep c held ns us" "same_frame c c'" "cache_map c' = cache_map c" "handles_rep c' held' ns' us'"
    and "set ns' \<union> set us' = set ns \<union> set us"
  shows "lru_rep c' held' ns' us'"
  using assms index_rep_frame [of c "set ns \<union> set us" c'] by (auto simp: lru_rep_def handles_rep_def)

lemma lru_rep_distinct:
  assumes "lru_rep c held ns us"
  shows "distinct ns" "distinct us" "set ns \<inter> set us = {}" "inj_on (key_of c) (set ns \<union> set us)"
proof -
  show "distinct ns" "distinct us" "set ns \<inter> set us = {}"
    using assms two_lists_distinct [of "lists c" "not_use c" "in_use c" ns us] by (simp_all add: lru_rep_def handles_rep_def)
  show "inj_on (key_of c) (set ns \<union> set us)"
    using assms by (auto simp: lru_rep_def index_rep_def strict_sorted_iff distinct_map)
qed

lemma lru_get_hit:
  assumes r: "lru_rep c held ns us" and e: "e \<in> set ns \<union> set us" "key_of c e = key"
  shows "\<exists>c'. lru_get key c = Some (Some e, c') \<and> same_frame c c'
    \<and> lru_rep c' (add_mset e held) (remove1 e ns) (if e \<in> set ns then us @ [e] else us)"
proof -
  obtain x where x: "handles c e = Some x" using lru_rep_live [OF r e(1)] by blast
  have h: "handles_rep c held ns us" using r by (simp add: lru_rep_def)
  obtain c' where c': "handle_ref e c = Some c'" "same_frame c c'" "cache_map c' = cache_map c"
    "handles_rep c' (add_mset e held) (remove1 e ns) (if e \<in> set ns then us @ [e] else us)"
    using handle_ref_rep [OF h x] by blast
  have "set (remove1 e ns) \<union> set (if e \<in> set ns then us @ [e] else us) = set ns \<union> set us"
    using lru_rep_distinct(1) [OF r] by (auto simp: remove1_idem)
  then have "lru_rep c' (add_mset e held) (remove1 e ns) (if e \<in> set ns then us @ [e] else us)"
    using lru_rep_frame [OF r c'(2,3,4)] by blast
  moreover obtain l where "rb_find (not_below key c) (cache_map c) = Some (Some e, l)" using lru_find_hit [OF r e(1)] e(2) by auto
  ultimately show ?thesis using c'(1,2) lru_matches [OF r e(1), of key] e(2) by (simp add: lru_get_def)
qed

lemma lru_get_miss:
  assumes "lru_rep c held ns us" "key \<notin> key_of c ` (set ns \<union> set us)"
  shows "lru_get key c = Some (None, c)"
  using lru_find_miss [OF assms] by (auto simp: lru_get_def)

lemma remove_key_filter:
  assumes r: "lru_rep c held ns us" and e: "e \<in> set ns \<union> set us" "key_of c e = key"
  shows "remove1 e ns = filter (\<lambda>a. key_of c a \<noteq> key) ns" "remove1 e us = filter (\<lambda>a. key_of c a \<noteq> key) us"
  using e lru_rep_distinct [OF r]
  by (auto simp: distinct_remove1_removeAll removeAll_filter_not_eq inj_on_def intro!: filter_cong)

lemma release_rep:
  assumes r: "lru_rep c held ns us" and e: "e \<in># held"
  defines "final \<equiv> e \<in> set us \<and> count held e = 1"
  shows "\<exists>c'. unref e c = Some c' \<and> same_frame c c'
    \<and> lru_rep c' (held - {#e#}) (if final then ns @ [e] else ns) (if final then remove1 e us else us)"
proof -
  have h: "handles_rep c held ns us" using r by (simp add: lru_rep_def)
  let ?ns = "if final then ns @ [e] else ns" and ?us = "if final then remove1 e us else us"
  obtain c' where c': "unref e c = Some c'" "same_frame c c'" "cache_map c' = cache_map c" "handles_rep c' (held - {#e#}) ?ns ?us"
    using unref_rep [OF h e] unfolding final_def by blast
  have "set ?ns \<union> set ?us = set ns \<union> set us" using lru_rep_distinct(2) [OF r] by (auto simp: final_def)
  then show ?thesis using lru_rep_frame [OF r c'(2-4)] c'(1,2) by blast
qed

lemma lru_del_rep:
  assumes r: "lru_rep c held ns us"
  shows "\<exists>c'. lru_del key c = Some c' \<and> same_frame c c'
    \<and> lru_rep c' held (filter (\<lambda>e. key_of c e \<noteq> key) ns) (filter (\<lambda>e. key_of c e \<noteq> key) us)"
proof (cases "key \<in> key_of c ` (set ns \<union> set us)")
  case False
  then have "filter (\<lambda>e. key_of c e \<noteq> key) ns = ns" "filter (\<lambda>e. key_of c e \<noteq> key) us = us" by (auto simp: filter_id_conv)
  then show ?thesis using lru_get_miss [OF r False] r by (simp add: lru_del_def same_frame_refl)
next
  case True
  then obtain e where e: "e \<in> set ns \<union> set us" "key_of c e = key" by blast
  note d = lru_rep_distinct [OF r]
  obtain c1 where c1: "lru_get key c = Some (Some e, c1)" "same_frame c c1"
    "lru_rep c1 (add_mset e held) (remove1 e ns) (if e \<in> set ns then us @ [e] else us)"
    using lru_get_hit [OF r e] by blast
  have h: "e \<in> set ns \<longrightarrow> e \<notin># held" "e \<in> set us \<longrightarrow> e \<in># held"
    using r lru_rep_live [OF r e(1)] by (auto simp: lru_rep_def handles_rep_def handle_ok_def)
  let ?ns = "if e \<in> set ns then remove1 e ns @ [e] else ns"
  have "\<exists>c2. unref e c1 = Some c2 \<and> same_frame c1 c2 \<and> lru_rep c2 held ?ns us"
  proof (cases "e \<in> set ns")
    case True
    then have "e \<notin> set us" "count held e = 0" using d(3) h by (auto simp: count_eq_zero_iff)
    then show ?thesis using release_rep [OF c1(3), of e] True by (simp add: remove1_append)
  next
    case False
    then have "e \<in> set us" "count held e \<noteq> 0" using e h by auto
    then show ?thesis using release_rep [OF c1(3), of e] False by (simp add: remove1_idem count_eq_zero_iff)
  qed
  then obtain c2 where c2: "unref e c1 = Some c2" "same_frame c1 c2" "lru_rep c2 held ?ns us" by blast
  have "e \<in> set ?ns \<union> set us" using e(1) by auto
  from erase_entry_rep [OF c2(3) this] obtain c3 where c3: "erase_entry e c2 = Some c3" "same_frame c2 c3"
    "lru_rep c3 held (remove1 e ?ns) (remove1 e us)" by blast
  have "remove1 e ?ns = remove1 e ns" using d(1) by (auto simp: remove1_append)
  moreover have "same_frame c c3" using c1(2) c2(2) c3(2) same_frame_trans by blast
  ultimately show ?thesis using c1(1) c2(1) c3(1,3) remove_key_filter [OF r e] by (simp add: lru_del_def)
qed

lemma only_cached_rep:
  assumes r: "lru_rep c held ns us" and e: "e \<in> set ns"
  shows "only_cached e c"
proof -
  obtain x where x: "handles c e = Some x" using lru_rep_live [OF r] e by blast
  have "handle_ok held ns us e x" using r x by (simp add: lru_rep_def handles_rep_def)
  then have "in_cache x" "count held e = 0" "h_ref x = count held e + (if in_cache x then 1 else 0)"
    using e by (auto simp: handle_ok_def count_eq_zero_iff)
  then show ?thesis using x by (simp add: only_cached_def)
qed

lemma lru_rep_lists:
  assumes "lru_rep c held ns us"
  shows "clist (lists c) (not_use c) ns" "clist (lists c) (in_use c) us" "csize c = length ns + length us"
  using assms by (simp_all add: lru_rep_def handles_rep_def two_lists_rep_def)

lemma lru_rep_size_pos: "lru_rep c held ns us \<Longrightarrow> list_empty (not_use c) (lists c) \<longleftrightarrow> ns = []"
  using clist_empty lru_rep_lists(1) by blast

lemma erase_first_rep:
  assumes r: "lru_rep c held (e # ns) us"
  shows "\<exists>c'. erase_entry e c = Some c' \<and> same_frame c c' \<and> lru_rep c' held ns us"
proof -
  have "e \<notin> set us" using lru_rep_distinct(3) [OF r] by auto
  then show ?thesis using erase_entry_rep [OF r, of e] by (simp add: remove1_idem)
qed

lemma evict_rep:
  "lru_rep c held ns us \<Longrightarrow> \<exists>c'. evict c = Some c' \<and> same_frame c c' \<and> lru_rep c' held (drop (csize c - max_size c) ns) us"
proof (induction ns arbitrary: c)
  case Nil
  then show ?case using lru_rep_size_pos [OF Nil.prems] by (simp add: evict.simps same_frame_refl)
next
  case (Cons e ns)
  note r = Cons.prems
  show ?case
  proof (cases "max_size c < csize c")
    case False
    then show ?thesis using r by (simp add: evict.simps same_frame_refl)
  next
    case True
    have tmp: "nxt (lists c) (not_use c) = e" using clist_first [OF lru_rep_lists(1) [OF r]] by simp
    obtain c1 where c1: "erase_entry e c = Some c1" "same_frame c c1" "lru_rep c1 held ns us" using erase_first_rep [OF r] by blast
    have "csize c - max_size c = Suc (csize c1 - max_size c1)"
      using lru_rep_lists(3) [OF r] lru_rep_lists(3) [OF c1(3)] c1(2) True by (simp add: same_frame_def)
    then show ?thesis using Cons.IH [OF c1(3)] True tmp c1 lru_rep_size_pos [OF r] only_cached_rep [OF r, of e] same_frame_trans [OF c1(2)]
      by (auto simp: evict.simps [of c])
  qed
qed

lemma each_prune:
  assumes "lru_rep c held ns us" "ns \<noteq> [] \<longrightarrow> n = nxt (lists c) (hd ns)"
  shows "\<exists>c'. each_not_use (\<lambda>e c. if only_cached e c then erase_entry e c else None) (hd (ns @ [not_use c])) n c = Some c'
    \<and> same_frame c c' \<and> lru_rep c' held [] us"
  using assms
proof (induction ns arbitrary: c n)
  case Nil
  then show ?case by (simp add: each_not_use.simps same_frame_refl)
next
  case (Cons e ns)
  note r = Cons.prems(1)
  have cl: "clist (lists c) (not_use c) (e # ns)" using lru_rep_lists(1) [OF r] .
  have e: "e \<noteq> not_use c" using cl by (auto simp: clist_def)
  have n: "n = hd (ns @ [not_use c])" using Cons.prems(2) clist_next_of [of "lists c" "not_use c" "[]" e ns] cl by simp
  obtain c1 where c1: "erase_entry e c = Some c1" "same_frame c c1" "lru_rep c1 held ns us" using erase_first_rep [OF r] by blast
  have nu: "not_use c1 = not_use c" using c1(2) by (simp add: same_frame_def)
  have "n = not_use c1 \<or> handles c1 n \<noteq> None" using n nu lru_rep_live [OF c1(3), of n] by (cases ns) auto
  then have nx: "next_of n c1 = Some (nxt (lists c1) n)" by (auto simp: next_of_def)
  obtain c2 where c2: "each_not_use (\<lambda>e c. if only_cached e c then erase_entry e c else None) n (nxt (lists c1) n) c1 = Some c2"
    "same_frame c1 c2" "lru_rep c2 held [] us"
    using Cons.IH [OF c1(3), of "nxt (lists c1) n"] n nu by (cases ns) auto
  have "same_frame c c2" using same_frame_trans c1(2) c2(2) .
  then show ?case using e c1(1) only_cached_rep [OF r, of e] nx c2 by (simp add: each_not_use.simps [of _ e])
qed

lemma prune_rep:
  assumes r: "lru_rep c held ns us"
  shows "\<exists>c'. prune c = Some c' \<and> same_frame c c' \<and> lru_rep c' held [] us"
proof -
  have first: "nxt (lists c) (not_use c) = hd (ns @ [not_use c])" using clist_first lru_rep_lists(1) [OF r] .
  then have "nxt (lists c) (not_use c) = not_use c \<or> handles c (nxt (lists c) (not_use c)) \<noteq> None"
    using lru_rep_live [OF r, of "hd ns"] by (cases ns) auto
  then have "next_of (nxt (lists c) (not_use c)) c = Some (nxt (lists c) (nxt (lists c) (not_use c)))" by (auto simp: next_of_def)
  then show ?thesis using each_prune [OF r, of "nxt (lists c) (nxt (lists c) (not_use c))"] first
    by (cases ns) (auto simp: prune_def for_each_not_use_def)
qed

text \<open>What the address that \<open>new\<close> returns satisfies, and what \<open>put\<close> leaves alone.\<close>

definition fresh :: "addr \<Rightarrow> ('k, 'v) lru_cache \<Rightarrow> bool" where
  "fresh e c \<longleftrightarrow> handles c e = None \<and> e \<noteq> not_use c \<and> e \<noteq> in_use c"

definition put_frame :: "addr \<Rightarrow> 'k \<Rightarrow> 'v \<Rightarrow> ('k, 'v) lru_cache \<Rightarrow> ('k, 'v) lru_cache \<Rightarrow> bool" where
  "put_frame e k v c c' \<longleftrightarrow>
     max_size c' = max_size c \<and> not_use c' = not_use c \<and> in_use c' = in_use c
     \<and> owned_values c' = add_mset v (owned_values c)
     \<and> (\<exists>x. handles c' e = Some x \<and> h_key x = k \<and> h_value x = v)
     \<and> (\<forall>a x'. a \<noteq> e \<longrightarrow> handles c' a = Some x' \<longrightarrow>
          (\<exists>x. handles c a = Some x \<and> h_key x' = h_key x \<and> h_value x' = h_value x))"

lemma put_frame_trans:
  assumes "put_frame e k v c c1" "same_frame c1 c2" "handles c2 e \<noteq> None"
  shows "put_frame e k v c c2"
proof -
  obtain x2 where x2: "handles c2 e = Some x2" using assms(3) by blast
  then obtain x1 where x1: "handles c1 e = Some x1" "h_key x2 = h_key x1" "h_value x2 = h_value x1"
    using assms(2) unfolding same_frame_def by blast
  have "\<exists>x. handles c a = Some x \<and> h_key x' = h_key x \<and> h_value x' = h_value x" if "a \<noteq> e" "handles c2 a = Some x'" for a x'
    using that assms(1,2) unfolding same_frame_def put_frame_def by metis
  then show ?thesis using x1 x2 assms(1,2) by (simp add: put_frame_def same_frame_def)
qed

lemma with_new_rep:
  assumes r: "handles_rep c held ns us" and f: "fresh e c"
  shows "handles_rep (with_new e k v c) (add_mset e held) ns (us @ [e])" "put_frame e k v c (with_new e k v c)"
proof -
  have e: "e \<notin> set ns \<union> set us" "e \<notin># held" using r f by (auto simp: handles_rep_def fresh_def)
  show "handles_rep (with_new e k v c) (add_mset e held) ns (us @ [e])" unfolding with_new_def
  proof (rule handles_rep_set [OF r])
    show "two_lists_rep (list_add_tail e (in_use c) (lists c)) (not_use c) (in_use c) ns (us @ [e])"
      using two_lists_add r e f by (simp add: handles_rep_def fresh_def)
    show "handle_ok (add_mset e held) ns (us @ [e]) e \<lparr>h_key = k, h_value = v, in_cache = True, h_ref = 2\<rparr>"
      using e by (simp add: handle_ok_def not_in_iff)
  qed (use f r in \<open>auto simp: fresh_def others_same_def handles_rep_def\<close>)
  show "put_frame e k v c (with_new e k v c)"
    using f r owned_values_new [of "c\<lparr>lists := list_add_tail e (in_use c) (lists c), csize := csize c + 1\<rparr>" e]
    by (auto simp: put_frame_def with_new_def fresh_def handles_rep_def set_handle_def)
qed

lemma put_frame_key: "put_frame e k v c c' \<Longrightarrow> handles c' a \<noteq> None \<Longrightarrow> key_of c' a = (if a = e then k else key_of c a)"
  by (force simp: put_frame_def key_of_def)

text \<open>\<open>put\<close> up to the eviction.\<close>

lemma put_insert_rep:
  assumes r: "lru_rep c held ns us" and f: "fresh e c"
  shows "\<exists>bound link c'. rb_find (not_below k c) (cache_map c) = Some (bound, link)
    \<and> (case matches k c bound of
         Some b \<Rightarrow> erase_node b ((with_new e k v c)\<lparr>cache_map := rb_replace_node b e (cache_map (with_new e k v c))\<rparr>)
       | None \<Rightarrow> map_option (\<lambda>m. (with_new e k v c)\<lparr>cache_map := m\<rparr>) (rb_put e link (cache_map (with_new e k v c)))) = Some c'
    \<and> put_frame e k v c c'
    \<and> lru_rep c' (add_mset e held) (filter (\<lambda>a. key_of c a \<noteq> k) ns) (filter (\<lambda>a. key_of c a \<noteq> k) us @ [e])"
proof -
  let ?w = "with_new e k v c" and ?A = "set ns \<union> set us"
  have h: "handles_rep c held ns us" using r by (simp add: lru_rep_def)
  note w = with_new_rep [OF h f, of k v]
  have e: "e \<notin> ?A" using h f by (auto simp: handles_rep_def fresh_def)
  have keys: "key_of ?w e = k" "\<forall>b \<in> ?A. key_of ?w b = key_of c b"
    using put_frame_key [OF w(2)] w(1) e by (auto simp: handles_rep_def)
  have cm: "cache_map ?w = cache_map c" by (simp add: with_new_def set_handle_def)
  show ?thesis
  proof (cases "k \<in> key_of c ` ?A")
    case False
    then have fl: "filter (\<lambda>a. key_of c a \<noteq> k) ns = ns" "filter (\<lambda>a. key_of c a \<noteq> k) us = us" by (auto simp: filter_id_conv)
    obtain bound l m where m: "rb_find (not_below k c) (cache_map c) = Some (bound, l)" "matches k c bound = None"
      "rb_put e l (cache_map c) = Some m" "index_rep (?w\<lparr>cache_map := m\<rparr>) (insert e ?A)"
      using lru_find_miss [OF r False] e keys by meson
    have "lru_rep (?w\<lparr>cache_map := m\<rparr>) (add_mset e held) ns (us @ [e])"
      using m(4) w(1) by (simp add: lru_rep_def handles_rep_def)
    moreover have "put_frame e k v c (?w\<lparr>cache_map := m\<rparr>)" using w(2) by (simp add: put_frame_def)
    ultimately show ?thesis using m(1-3) by (simp add: cm fl)
  next
    case True
    then obtain b where b: "b \<in> ?A" "key_of c b = k" by blast
    obtain l where l: "rb_find (not_below k c) (cache_map c) = Some (Some b, l)" using lru_find_hit [OF r b(1)] b(2) by auto
    have mt: "matches k c (Some b) = Some b" using lru_matches [OF r b(1)] b(2) by simp
    obtain xs where xs: "rindex (cache_map c) xs" "set xs = ?A" "sorted_wrt (<) (map (key_of c) xs)"
      using r by (auto simp: lru_rep_def index_rep_def)
    let ?m = "rb_replace_node b e (cache_map c)" and ?w' = "?w\<lparr>cache_map := rb_replace_node b e (cache_map c)\<rparr>"
    obtain xs' where xs': "rindex ?m xs'" "set xs' = insert e (?A - {b})" "sorted_wrt (<) (map (key_of ?w) xs')"
      using rbi.replace_key [OF xs(1,3), of b e "key_of ?w"] xs(2) b e keys by metis
    have h': "handles_rep ?w' (add_mset e held) ns (us @ [e])" using w(1) by (simp add: handles_rep_def)
    obtain c' where c': "erase_node b ?w' = Some c'" "same_frame ?w' c'" "cache_map c' = ?m"
      "handles_rep c' (add_mset e held) (remove1 b ns) (remove1 b (us @ [e]))"
      using erase_node_rep [OF h', of b] b(1) by auto
    have be: "b \<noteq> e" using b(1) e by blast
    have rm: "remove1 b (us @ [e]) = remove1 b us @ [e]" using be by (simp add: remove1_append remove1_idem)
    have sets: "insert e (?A - {b}) = set (remove1 b ns) \<union> set (remove1 b us @ [e])"
      using lru_rep_distinct [OF r] be by auto
    have "index_rep ?w' (insert e (?A - {b}))" using xs' by (auto simp: index_rep_def)
    then have "index_rep c' (insert e (?A - {b}))"
      by (rule index_rep_frame [OF _ c'(2)]) (use c'(3,4) sets rm in \<open>auto simp: handles_rep_def\<close>)
    then have "lru_rep c' (add_mset e held) (remove1 b ns) (remove1 b us @ [e])"
      using c'(4) rm sets by (simp add: lru_rep_def)
    moreover have "put_frame e k v c c'"
    proof (rule put_frame_trans [OF w(2)])
      show "same_frame ?w c'" using c'(2) by (simp add: same_frame_def)
      show "handles c' e \<noteq> None" using c'(4) rm by (auto simp: handles_rep_def)
    qed
    ultimately show ?thesis using l mt c'(1) remove_key_filter [OF r b] by (simp add: cm)
  qed
qed

lemma lru_put_rep:
  fixes k :: "'k::linorder"
  assumes r: "lru_rep c held ns us" and f: "fresh e c"
  defines "ns1 \<equiv> filter (\<lambda>a. key_of c a \<noteq> k) ns" and "us1 \<equiv> filter (\<lambda>a. key_of c a \<noteq> k) us"
  defines "d \<equiv> if max_size c = 0 then 0 else length ns1 + length us1 + 1 - max_size c"
  shows "\<exists>c'. lru_put k v e c = Some (e, c') \<and> put_frame e k v c c' \<and> lru_rep c' (add_mset e held) (drop d ns1) (us1 @ [e])"
proof -
  obtain bound link c1 where c1: "rb_find (not_below k c) (cache_map c) = Some (bound, link)"
    "(case matches k c bound of
         Some b \<Rightarrow> erase_node b ((with_new e k v c)\<lparr>cache_map := rb_replace_node b e (cache_map (with_new e k v c))\<rparr>)
       | None \<Rightarrow> map_option (\<lambda>m. (with_new e k v c)\<lparr>cache_map := m\<rparr>) (rb_put e link (cache_map (with_new e k v c)))) = Some c1"
    "put_frame e k v c c1" "lru_rep c1 (add_mset e held) ns1 (us1 @ [e])"
    using put_insert_rep [OF r f] unfolding ns1_def us1_def by blast
  have eq: "lru_put k v e c = map_option (Pair e) (if max_size c > 0 then evict c1 else Some c1)"
    using c1(1-3) by (simp add: lru_put_def Let_def put_frame_def)
  obtain c2 where c2: "evict c1 = Some c2" "same_frame c1 c2" "lru_rep c2 (add_mset e held) (drop (csize c1 - max_size c1) ns1) (us1 @ [e])"
    using evict_rep [OF c1(4)] by blast
  have "handles c2 e \<noteq> None" using lru_rep_live [OF c2(3), of e] by auto
  from put_frame_trans [OF c1(3) c2(2) this] have "put_frame e k v c c2" .
  moreover have "csize c1 - max_size c1 = length ns1 + length us1 + 1 - max_size c"
    using lru_rep_lists(3) [OF c1(4)] c1(3) by (simp add: put_frame_def)
  ultimately show ?thesis using c1(3,4) c2 unfolding eq d_def by auto
qed

section \<open>Destruction\<close>

lemma delete_unused_eq:
  assumes "handles c e = Some x" "in_cache x" "h_ref x = 1"
  shows "delete_unused e c = Some (c\<lparr>handles := (handles c)(e := None), deleted := deleted c @ [h_value x]\<rparr>)"
  using assms by (simp add: delete_unused_def unref_def set_handle_def)

lemma each_delete:
  assumes "clist (lists c) (not_use c) (ps @ ns)" "\<forall>e \<in> set ns. \<exists>x. handles c e = Some x \<and> in_cache x \<and> h_ref x = 1"
    and "finite (dom (handles c))" "ns \<noteq> [] \<longrightarrow> n = nxt (lists c) (hd ns)"
  shows "\<exists>c'. each_not_use delete_unused (hd (ns @ [not_use c])) n c = Some c'
    \<and> handles c' = handles c |` (- set ns) \<and> owned_values c' = owned_values c"
  using assms
proof (induction ns arbitrary: c n ps)
  case Nil
  then show ?case by (simp add: each_not_use.simps)
next
  case (Cons e ns)
  note cl = Cons.prems(1)
  obtain x where x: "handles c e = Some x" "in_cache x" "h_ref x = 1" using Cons.prems(2) by auto
  have e: "e \<noteq> not_use c" "e \<notin> set ns" using cl by (auto simp: clist_def)
  have n: "n = hd (ns @ [not_use c])" using Cons.prems(4) clist_next_of [OF cl] by simp
  let ?c = "c\<lparr>handles := (handles c)(e := None), deleted := deleted c @ [h_value x]\<rparr>"
  have "n = not_use c \<or> handles ?c n \<noteq> None" using n e(2) Cons.prems(2) by (cases ns) auto
  then have nx: "next_of n ?c = Some (nxt (lists c) n)" by (auto simp: next_of_def)
  have "\<exists>c'. each_not_use delete_unused (hd (ns @ [not_use ?c])) (nxt (lists c) n) ?c = Some c'
      \<and> handles c' = handles ?c |` (- set ns) \<and> owned_values c' = owned_values ?c"
  proof (rule Cons.IH)
    show "clist (lists ?c) (not_use ?c) ((ps @ [e]) @ ns)" using cl by simp
    show "\<forall>a \<in> set ns. \<exists>x. handles ?c a = Some x \<and> in_cache x \<and> h_ref x = 1" using Cons.prems(2) e(2) by auto
    show "ns \<noteq> [] \<longrightarrow> nxt (lists c) n = nxt (lists ?c) (hd ns)" using n by (cases ns) auto
  qed (use Cons.prems(3) in \<open>simp del: fun_upd_apply\<close>)
  then obtain c' where c': "each_not_use delete_unused n (nxt (lists c) n) ?c = Some c'"
    "handles c' = handles ?c |` (- set ns)" "owned_values c' = owned_values ?c" using n by auto
  have "handles c' = handles c |` (- set (e # ns))" using c'(2) by (auto simp: restrict_map_def)
  moreover have "owned_values c' = owned_values c" using c'(3) owned_values_delete [OF x(1) Cons.prems(3)] by simp
  ultimately show ?case using e(1) delete_unused_eq [OF x] nx c'(1) by (simp add: each_not_use.simps [of _ e])
qed

lemma lru_destroy_rep:
  assumes r: "lru_rep c {#} ns us"
  shows "\<exists>c'. lru_destroy c = Some c' \<and> handles c' = (\<lambda>_. None) \<and> mset (deleted c') = owned_values c"
proof -
  have h: "handles_rep c {#} ns us" using r by (simp add: lru_rep_def)
  have us: "us = []" using h by (cases us) (auto simp: handles_rep_def handle_ok_def)
  have ok: "in_cache x \<and> h_ref x = 1 \<and> e \<in> set ns" if "handles c e = Some x" for e x
    using h that us by (fastforce simp: handles_rep_def handle_ok_def split: if_splits)
  have first: "nxt (lists c) (not_use c) = hd (ns @ [not_use c])" using clist_first lru_rep_lists(1) [OF r] .
  then have "nxt (lists c) (not_use c) = not_use c \<or> handles c (nxt (lists c) (not_use c)) \<noteq> None"
    using lru_rep_live [OF r, of "hd ns"] by (cases ns) auto
  then have nx: "next_of (nxt (lists c) (not_use c)) c = Some (nxt (lists c) (nxt (lists c) (not_use c)))" by (auto simp: next_of_def)
  have em: "list_empty (in_use c) (lists c)" using clist_empty [OF lru_rep_lists(2) [OF r]] us by simp
  have "\<forall>e \<in> set ns. \<exists>x. handles c e = Some x \<and> in_cache x \<and> h_ref x = 1" using ok lru_rep_live [OF r] by blast
  then obtain c' where c': "each_not_use delete_unused (hd (ns @ [not_use c])) (nxt (lists c) (nxt (lists c) (not_use c))) c = Some c'"
    "handles c' = handles c |` (- set ns)" "owned_values c' = owned_values c"
    using each_delete [of c "[]" ns "nxt (lists c) (nxt (lists c) (not_use c))"] lru_rep_lists(1) [OF r] h first
    by (cases ns) (auto simp: handles_rep_def)
  have "handles c' e = None" for e using c'(2) ok [of e] by (cases "handles c e") (auto simp: restrict_map_def)
  then have none: "handles c' = (\<lambda>_. None)" by blast
  then have "mset (deleted c') = owned_values c'" by (simp add: owned_values_def)
  then show ?thesis using c' em nx first none by (simp add: lru_destroy_def for_each_not_use_def)
qed

lemma lru_new_rep:
  assumes "n \<noteq> u"
  shows "lru_rep (lru_new n u l :: ('k::linorder, 'v) lru_cache) {#} [] []" "owned_values (lru_new n u l) = {#}"
proof -
  have "clist (INIT_LIST_HEAD u (INIT_LIST_HEAD n l)) n []"
    using assms clist_INIT [of n l] by (auto simp: clist_def INIT_LIST_HEAD_def lheap_defs)
  then show "lru_rep (lru_new n u l :: ('k, 'v) lru_cache) {#} [] []"
    using assms clist_INIT by (simp add: lru_rep_def handles_rep_def two_lists_rep_def index_rep_def lru_new_def)
  show "owned_values (lru_new n u l) = {#}" by (simp add: owned_values_def lru_new_def)
qed

section \<open>Clients\<close>

text \<open>What a client can do: it holds a reference for every handle that \<open>get\<close> and \<open>put\<close> returned and that it
  has not released. \<open>held\<close> are these references, \<open>vs\<close> the values it has put.\<close>

inductive lru_client :: "('k::linorder, 'v) lru_cache \<Rightarrow> addr multiset \<Rightarrow> 'v multiset \<Rightarrow> bool" where
  client_new: "n \<noteq> u \<Longrightarrow> lru_client (lru_new n u l) {#} {#}"
| client_max: "lru_client c held vs \<Longrightarrow> lru_client (set_max_size n c) held vs"
| client_get: "lru_client c held vs \<Longrightarrow> lru_get k c = Some (Some e, c') \<Longrightarrow> lru_client c' (add_mset e held) vs"
| client_miss: "lru_client c held vs \<Longrightarrow> lru_get k c = Some (None, c') \<Longrightarrow> lru_client c' held vs"
| client_put: "lru_client c held vs \<Longrightarrow> fresh e c \<Longrightarrow> lru_put k v e c = Some (e', c') \<Longrightarrow>
    lru_client c' (add_mset e' held) (add_mset v vs)"
| client_release: "lru_client c held vs \<Longrightarrow> e \<in># held \<Longrightarrow> release e c = Some c' \<Longrightarrow> lru_client c' (held - {#e#}) vs"
| client_del: "lru_client c held vs \<Longrightarrow> lru_del k c = Some c' \<Longrightarrow> lru_client c' held vs"
| client_prune: "lru_client c held vs \<Longrightarrow> prune c = Some c' \<Longrightarrow> lru_client c' held vs"

lemma lru_get_cases:
  assumes r: "lru_rep c held ns us"
  obtains (hit) e c' where "e \<in> set ns \<union> set us" "key_of c e = k" "lru_get k c = Some (Some e, c')" "same_frame c c'"
      "lru_rep c' (add_mset e held) (remove1 e ns) (if e \<in> set ns then us @ [e] else us)"
  | (miss) "k \<notin> key_of c ` (set ns \<union> set us)" "lru_get k c = Some (None, c)"
  using lru_get_hit [OF r] lru_get_miss [OF r, of k] by blast

lemma same_frame_owned: "same_frame c c' \<Longrightarrow> owned_values c' = owned_values c"
  by (simp add: same_frame_def)

lemma lru_client_rep: "lru_client c held vs \<Longrightarrow> (\<exists>ns us. lru_rep c held ns us) \<and> owned_values c = vs"
proof (induction rule: lru_client.induct)
  case (client_new n u l)
  then show ?case using lru_new_rep by blast
next
  case (client_max c held vs n)
  then obtain ns us where "lru_rep c held ns us" by blast
  then have "lru_rep (set_max_size n c) held ns us"
    by (simp add: lru_rep_def handles_rep_def index_rep_def set_max_size_def)
  then show ?case using client_max.IH by (auto simp: set_max_size_def)
next
  case (client_get c held vs k e c')
  then obtain ns us where r: "lru_rep c held ns us" by blast
  show ?case using client_get by (cases k rule: lru_get_cases [OF r]) (auto dest: same_frame_owned)
next
  case (client_miss c held vs k c')
  then obtain ns us where r: "lru_rep c held ns us" by blast
  show ?case using client_miss by (cases k rule: lru_get_cases [OF r]) auto
next
  case (client_put c held vs e k v e' c')
  then obtain ns us where r: "lru_rep c held ns us" by blast
  show ?case using lru_put_rep [OF r client_put.hyps(2), of k v] client_put by (auto simp: put_frame_def)
next
  case (client_release c held vs e c')
  then obtain ns us where r: "lru_rep c held ns us" by blast
  show ?case using release_rep [OF r client_release.hyps(2)] client_release by (auto simp: release_def dest: same_frame_owned)
next
  case (client_del c held vs k c')
  then obtain ns us where r: "lru_rep c held ns us" by blast
  show ?case using lru_del_rep [OF r, of k] client_del by (auto dest: same_frame_owned)
next
  case (client_prune c held vs c')
  then obtain ns us where r: "lru_rep c held ns us" by blast
  show ?case using prune_rep [OF r] client_prune by (auto dest: same_frame_owned)
qed

section \<open>Correctness of the cache\<close>

text \<open>C3: No client can make the cache fail: after any sequence of calls in which only references that are
  held are released, every further call returns, no assertion fails and no deleted handle is used; the handles
  the client holds are live with their reference counted, and every value that was put is either in
  a live handle or has been passed to the deleter once.\<close>

theorem lru_client_safe:
  fixes c :: "('k::linorder, 'v) lru_cache"
  assumes "lru_client c held vs"
  shows "(\<exists>r. lru_get k c = Some r) \<and> (fresh e c \<longrightarrow> (\<exists>c'. lru_put k v e c = Some (e, c')))
    \<and> (a \<in># held \<longrightarrow> (\<exists>c'. release a c = Some c')) \<and> (\<exists>c'. lru_del k c = Some c') \<and> (\<exists>c'. prune c = Some c')
    \<and> (\<forall>b \<in># held. \<exists>x. handles c b = Some x \<and> count held b \<le> h_ref x) \<and> owned_values c = vs"
proof -
  obtain ns us where r: "lru_rep c held ns us" and o: "owned_values c = vs" using lru_client_rep [OF assms] by blast
  have "\<exists>r. lru_get k c = Some r" by (cases k rule: lru_get_cases [OF r]) auto
  moreover have "fresh e c \<longrightarrow> (\<exists>c'. lru_put k v e c = Some (e, c'))" using lru_put_rep [OF r] by blast
  moreover have "a \<in># held \<longrightarrow> (\<exists>c'. release a c = Some c')" using release_rep [OF r] by (auto simp: release_def)
  moreover have "(\<exists>c'. lru_del k c = Some c') \<and> (\<exists>c'. prune c = Some c')" using lru_del_rep [OF r] prune_rep [OF r] by blast
  moreover have "\<forall>b \<in># held. \<exists>x. handles c b = Some x \<and> count held b \<le> h_ref x"
    using r by (fastforce simp: lru_rep_def handles_rep_def handle_ok_def)
  ultimately show ?thesis using o by blast
qed

text \<open>C12: When the client has released everything, the destructor returns, no handle is left, and every value
  that was ever put has been passed to the deleter exactly once.\<close>

theorem lru_destroy_deletes_all:
  fixes c :: "('k::linorder, 'v) lru_cache"
  assumes "lru_client c {#} vs"
  shows "\<exists>c'. lru_destroy c = Some c' \<and> handles c' = (\<lambda>_. None) \<and> mset (deleted c') = vs"
  using lru_destroy_rep lru_client_rep [OF assms] by blast


text \<open>The handle that \<open>get\<close> would return.\<close>

definition lru_found :: "'k::linorder \<Rightarrow> ('k, 'v) lru_cache \<Rightarrow> addr option" where
  "lru_found k c = (case lru_get k c of None \<Rightarrow> None | Some (r, c') \<Rightarrow> r)"

lemma lru_found_iff:
  assumes r: "lru_rep c held ns us"
  shows "lru_found k c = Some e \<longleftrightarrow> e \<in> set ns \<union> set us \<and> key_of c e = k"
proof (rule lru_get_cases [OF r, of k])
  fix a c'
  assume hit: "a \<in> set ns \<union> set us" "key_of c a = k" "lru_get k c = Some (Some a, c')"
  have f: "lru_found k c = Some a" using hit(3) by (simp add: lru_found_def)
  have "b = a" if "b \<in> set ns \<union> set us" "key_of c b = k" for b
    using inj_onD [OF lru_rep_distinct(4) [OF r], of b a] that hit by simp
  then show ?thesis using hit(1,2) unfolding f by blast
qed (auto simp: lru_found_def)

lemma lru_found_eqI:
  assumes "lru_rep c held ns us" "lru_rep c' held' ns' us'"
    and "\<And>e. e \<in> set ns' \<union> set us' \<and> key_of c' e = k \<longleftrightarrow> e \<in> set ns \<union> set us \<and> key_of c e = k"
  shows "lru_found k c' = lru_found k c"
  using lru_found_iff [OF assms(1), of k] lru_found_iff [OF assms(2), of k] assms(3) by (metis not_None_eq)

text \<open>C39: Without a limit the cache is a map: \<open>get\<close> after \<open>put\<close> finds the handle that was put, \<open>get\<close> after \<open>del\<close>
  finds nothing, and neither changes what other keys find.\<close>

theorem lru_map_laws:
  fixes c :: "('k::linorder, 'v) lru_cache"
  assumes "lru_client c held vs" "max_size c = 0" "fresh e c"
  shows "(\<exists>c'. lru_put k v e c = Some (e, c') \<and> lru_found k c' = Some e \<and> (\<forall>k'. k' = k \<or> lru_found k' c' = lru_found k' c))
    \<and> (\<exists>c'. lru_del k c = Some c' \<and> lru_found k c' = None \<and> (\<forall>k'. k' = k \<or> lru_found k' c' = lru_found k' c))"
proof -
  obtain ns us where r: "lru_rep c held ns us" using lru_client_rep [OF assms(1)] by blast
  let ?ns = "filter (\<lambda>a. key_of c a \<noteq> k) ns" and ?us = "filter (\<lambda>a. key_of c a \<noteq> k) us"
  obtain p where p: "lru_put k v e c = Some (e, p)" "put_frame e k v c p" "lru_rep p (add_mset e held) ?ns (?us @ [e])"
    using lru_put_rep [OF r assms(3), of k v] assms(2) by auto
  have e: "e \<notin> set ns \<union> set us" using lru_rep_live [OF r] assms(3) by (force simp: fresh_def)
  have pk: "key_of p a = (if a = e then k else key_of c a)" if "a \<in> set ?ns \<union> set (?us @ [e])" for a
    using put_frame_key [OF p(2)] lru_rep_live [OF p(3) that] by simp
  have "lru_found k p = Some e" using lru_found_iff [OF p(3)] pk [of e] by simp
  moreover have "lru_found k' p = lru_found k' c" if "k' \<noteq> k" for k'
    by (rule lru_found_eqI [OF r p(3)]) (use pk that e in auto)
  moreover obtain d where d: "lru_del k c = Some d" "same_frame c d" "lru_rep d held ?ns ?us" using lru_del_rep [OF r] by blast
  have dk: "key_of d a = key_of c a" if "a \<in> set ?ns \<union> set ?us" for a
    using same_frame_key [OF d(2)] lru_rep_live [OF d(3) that] by simp
  have "lru_found k d \<noteq> Some a" for a using lru_found_iff [OF d(3), of k a] dk [of a] by auto
  then have "lru_found k d = None" by blast
  moreover have "lru_found k' d = lru_found k' c" if "k' \<noteq> k" for k'
    by (rule lru_found_eqI [OF r d(3)]) (use dk that in auto)
  ultimately show ?thesis using p(1) d(1) by blast
qed

section \<open>Instances\<close>

lemma one_put:
  "\<exists>c. lru_client c {#2#} {#''v''#} \<and> lru_put (7 :: nat) ''v'' 2 (set_max_size 1 (lru_new 0 1 two_lists)) = Some (2, c)
    \<and> lru_rep c {#2#} [] [2] \<and> fresh 3 c \<and> max_size c = 1"
proof -
  let ?c = "set_max_size 1 (lru_new 0 1 two_lists) :: (nat, string) lru_cache"
  have cl: "lru_client ?c {#} {#}" by (intro client_max client_new) simp
  have f: "fresh 2 ?c" "fresh 3 ?c" by (simp_all add: fresh_def set_max_size_def lru_new_def)
  have r: "lru_rep ?c {#} [] []" using lru_new_rep(1) [of 0 1 two_lists]
    by (simp add: lru_rep_def handles_rep_def index_rep_def set_max_size_def)
  obtain c where c: "lru_put 7 ''v'' 2 ?c = Some (2, c)" "put_frame 2 7 ''v'' ?c c" "lru_rep c {#2#} [] [2]"
    using lru_put_rep [OF r f(1), of 7 "''v''"] by auto
  have "fresh 3 c" using c(2) f(2) by (auto simp: fresh_def put_frame_def set_max_size_def lru_new_def)
  moreover have "max_size c = 1" using c(2) by (simp add: put_frame_def set_max_size_def)
  ultimately show ?thesis using client_put [OF cl f(1) c(1)] c by auto
qed

theorem lru_client_safe_witness:
  "\<exists>c. lru_client c {#2#} {#''v''#} \<and> (\<exists>c'. lru_put (8 :: nat) ''w'' 3 c = Some (3, c')) \<and> (\<exists>c'. release 2 c = Some c')"
  using one_put lru_client_safe [where k = 8 and e = 3 and v = "''w''" and a = 2] by fastforce

theorem lru_destroy_deletes_all_witness:
  "\<exists>c c' :: (nat, string) lru_cache. lru_client c {#} {#''v''#} \<and> lru_destroy c = Some c' \<and> deleted c' = [''v'']"
proof -
  obtain c :: "(nat, string) lru_cache" where c: "lru_client c {#2#} {#''v''#}" "lru_rep c {#2#} [] [2]" using one_put by blast
  obtain c1 where "release 2 c = Some c1" using release_rep [OF c(2)] by (auto simp: release_def)
  then have "lru_client c1 {#} {#''v''#}" using client_release [OF c(1), of 2 c1] by simp
  then show ?thesis using lru_destroy_deletes_all by fastforce
qed


theorem lru_map_laws_witness:
  "\<exists>c'. lru_put (7 :: nat) ''v'' 2 (lru_new 0 1 two_lists) = Some (2, c') \<and> lru_found 7 c' = Some 2"
proof -
  have "lru_client (lru_new 0 1 two_lists :: (nat, string) lru_cache) {#} {#}" by (rule client_new) simp
  moreover have "fresh 2 (lru_new 0 1 two_lists :: (nat, string) lru_cache)" "max_size (lru_new 0 1 two_lists :: (nat, string) lru_cache) = 0"
    by (simp_all add: fresh_def lru_new_def)
  ultimately show ?thesis using lru_map_laws [of "lru_new 0 1 two_lists" "{#}" "{#}" 2 7 "''v''"] by blast
qed

end
