(* ===== verification/Bin_Heap.thy ===== *)
theory Bin_Heap
  imports Complex_Main "HOL-Library.Multiset"
begin

text \<open>
  Binary heaps in arrays, as the scheduler keeps its targets: moving one entry up or down until its
  neighbours are in order. \<open>sift_up\<close> and \<open>sift_down\<close> are the references that the code of
  \<open>src/src/kernel/CommScheduler.cc\<close> (\<open>heap_adjust\<close>, \<open>heapify\<close>), which moves a hole instead of swapping,
  is compared with in \<open>Comm_Scheduler\<close>.
\<close>

section \<open>Positions\<close>

definition par :: "nat \<Rightarrow> nat" where
  "par i = (i - 1) div 2"

lemma par_less: "0 < i \<Longrightarrow> par i < i"
  by (auto simp: par_def)

lemma par_eq_iff: "0 < d \<Longrightarrow> par d = i \<longleftrightarrow> d = 2 * i + 1 \<or> d = 2 * i + 2"
  unfolding par_def by presburger

definition swap_at :: "nat \<Rightarrow> nat \<Rightarrow> 'a list \<Rightarrow> 'a list" where
  "swap_at i j xs = xs[i := xs ! j, j := xs ! i]"

lemma length_swap_at [simp]: "length (swap_at i j xs) = length xs"
  by (simp add: swap_at_def)

lemma nth_swap_at: "i < length xs \<Longrightarrow> j < length xs \<Longrightarrow> k < length xs \<Longrightarrow>
    swap_at i j xs ! k = (if k = j then xs ! i else if k = i then xs ! j else xs ! k)"
  by (auto simp: swap_at_def nth_list_update)

lemma mset_swap_at: "i < length xs \<Longrightarrow> j < length xs \<Longrightarrow> mset (swap_at i j xs) = mset xs"
  by (simp add: swap_at_def mset_swap)

section \<open>Moving an entry\<close>

function sift_up :: "('a \<Rightarrow> 'k::linorder) \<Rightarrow> bool \<Rightarrow> nat \<Rightarrow> 'a list \<Rightarrow> 'a list \<times> nat" where
  "sift_up f eq i xs =
     (if i > 0 \<and> (f (xs ! i) < f (xs ! par i) \<or> eq \<and> f (xs ! i) = f (xs ! par i))
      then sift_up f eq (par i) (swap_at i (par i) xs) else (xs, i))"
  by pat_completeness auto
termination by (relation "measure (\<lambda>(f, eq, i, xs). i)") (auto simp: par_less)

declare sift_up.simps [simp del]

text \<open>The child that takes the place of the entry at \<open>i\<close>, if one has to.\<close>

definition smaller_child :: "('a \<Rightarrow> 'k::linorder) \<Rightarrow> nat \<Rightarrow> 'a list \<Rightarrow> nat option" where
  "smaller_child f i xs =
     (let l = 2 * i + 1; r = 2 * i + 2 in
      if l < length xs \<and> f (xs ! l) < f (xs ! i) then
        (if r < length xs \<and> f (xs ! r) < f (xs ! l) then Some r else Some l)
      else if r < length xs \<and> f (xs ! r) < f (xs ! i) then Some r
      else None)"

lemma smaller_child_SomeD:
  assumes "smaller_child f i xs = Some c"
  shows "i < c" "c < length xs" "par c = i" "f (xs ! c) < f (xs ! i)"
    "\<And>d. d < length xs \<Longrightarrow> par d = i \<Longrightarrow> d > 0 \<Longrightarrow> f (xs ! c) \<le> f (xs ! d)"
proof -
  show "i < c" "c < length xs" "par c = i" "f (xs ! c) < f (xs ! i)"
    using assms by (auto simp: smaller_child_def Let_def par_def split: if_splits)
  fix d assume "d < length xs" "par d = i" "d > 0"
  then show "f (xs ! c) \<le> f (xs ! d)" using par_eq_iff [of d i] assms
    by (auto simp: smaller_child_def Let_def split: if_splits)
qed

lemma smaller_child_NoneD:
  assumes "smaller_child f i xs = None" "d < length xs" "par d = i" "d > 0"
  shows "f (xs ! i) \<le> f (xs ! d)"
proof -
  have "d = 2 * i + 1 \<or> d = 2 * i + 2" using assms par_eq_iff by blast
  then show ?thesis using assms by (auto simp: smaller_child_def Let_def split: if_splits)
qed

function sift_down :: "('a \<Rightarrow> 'k::linorder) \<Rightarrow> nat \<Rightarrow> 'a list \<Rightarrow> 'a list \<times> nat" where
  "sift_down f i xs =
     (case smaller_child f i xs of
        None \<Rightarrow> (xs, i)
      | Some c \<Rightarrow> sift_down f c (swap_at i c xs))"
  by pat_completeness auto
termination
proof (relation "measure (\<lambda>(f, i, xs). length xs - i)", goal_cases)
  case (2 f i xs c)
  then show ?case using smaller_child_SomeD(1,2) [OF 2] by simp
qed simp

declare sift_down.simps [simp del]

section \<open>Heaps\<close>

definition is_heap :: "('a \<Rightarrow> 'k::linorder) \<Rightarrow> 'a list \<Rightarrow> bool" where
  "is_heap f xs \<longleftrightarrow> (\<forall>j. 0 < j \<longrightarrow> j < length xs \<longrightarrow> f (xs ! par j) \<le> f (xs ! j))"

text \<open>A heap but for the entry at \<open>i\<close>: no order with its parent and its children, but its parent and
  its children are in order. The second one has the order with the parent, too.\<close>

definition heap_but :: "('a \<Rightarrow> 'k::linorder) \<Rightarrow> nat \<Rightarrow> 'a list \<Rightarrow> bool" where
  "heap_but f i xs \<longleftrightarrow>
     (\<forall>j. 0 < j \<longrightarrow> j < length xs \<longrightarrow> j \<noteq> i \<longrightarrow> par j \<noteq> i \<longrightarrow> f (xs ! par j) \<le> f (xs ! j))
     \<and> (\<forall>j. 0 < i \<longrightarrow> 0 < j \<longrightarrow> j < length xs \<longrightarrow> par j = i \<longrightarrow> f (xs ! par i) \<le> f (xs ! j))"

definition above_ok :: "('a \<Rightarrow> 'k::linorder) \<Rightarrow> nat \<Rightarrow> 'a list \<Rightarrow> bool" where
  "above_ok f i xs \<longleftrightarrow> i = 0 \<or> f (xs ! par i) \<le> f (xs ! i)"

definition below_ok :: "('a \<Rightarrow> 'k::linorder) \<Rightarrow> nat \<Rightarrow> 'a list \<Rightarrow> bool" where
  "below_ok f i xs \<longleftrightarrow> (\<forall>j. 0 < j \<longrightarrow> j < length xs \<longrightarrow> par j = i \<longrightarrow> f (xs ! i) \<le> f (xs ! j))"

lemma is_heapI: "heap_but f i xs \<Longrightarrow> above_ok f i xs \<Longrightarrow> below_ok f i xs \<Longrightarrow> is_heap f xs"
  unfolding is_heap_def heap_but_def above_ok_def below_ok_def by (metis not_gr_zero)

lemma is_heapD:
  assumes "is_heap f xs" "i < length xs"
  shows "heap_but f i xs" "above_ok f i xs" "below_ok f i xs"
proof -
  have "f (xs ! par i) \<le> f (xs ! j)" if "0 < i" "0 < j" "j < length xs" "par j = i" for j
    using assms that unfolding is_heap_def by (metis order_trans)
  then show "heap_but f i xs" using assms unfolding heap_but_def is_heap_def by blast
  show "above_ok f i xs" using assms unfolding above_ok_def is_heap_def by blast
  show "below_ok f i xs" using assms unfolding below_ok_def is_heap_def by blast
qed

lemma heap_root:
  "is_heap f xs \<Longrightarrow> i < length xs \<Longrightarrow> f (xs ! 0) \<le> f (xs ! i)"
proof (induction i rule: less_induct)
  case (less i)
  show ?case
  proof (cases "i = 0")
    case False
    then have "par i < i" using par_less by blast
    then have "f (xs ! 0) \<le> f (xs ! par i)" using less by simp
    also have "\<dots> \<le> f (xs ! i)" using less.prems False unfolding is_heap_def by blast
    finally show ?thesis .
  qed simp
qed

lemma heap_but_up:
  assumes "heap_but f i xs" "0 < i" "i < length xs" "f (xs ! i) \<le> f (xs ! par i)"
  shows "heap_but f (par i) (swap_at i (par i) xs)" "below_ok f (par i) (swap_at i (par i) xs)"
proof -
  let ?p = "par i" and ?ys = "swap_at i (par i) xs"
  have p: "?p < i" "?p < length xs" using par_less [OF assms(2)] assms(3) by auto
  have ys: "?ys ! k = (if k = ?p then xs ! i else if k = i then xs ! ?p else xs ! k)" if "k < length xs" for k
    using nth_swap_at [of i xs ?p k] assms(3) p that by simp
  have rel: "f (xs ! par j) \<le> f (xs ! j)" if "0 < j" "j < length xs" "j \<noteq> i" "par j \<noteq> i" for j
    using assms(1) that by (simp add: heap_but_def)
  have kids: "f (xs ! ?p) \<le> f (xs ! j)" if "0 < j" "j < length xs" "par j = i" for j
    using assms(1,2) that by (simp add: heap_but_def)
  have sib: "f (xs ! ?p) \<le> f (xs ! j)" if "0 < j" "j < length xs" "j \<noteq> i" "par j = ?p" for j
    using rel [OF that(1-3)] that p by simp
  show "heap_but f ?p ?ys" unfolding heap_but_def
  proof (intro conjI allI impI)
    fix j assume j: "0 < j" "j < length ?ys" "j \<noteq> ?p" "par j \<noteq> ?p"
    show "f (?ys ! par j) \<le> f (?ys ! j)"
    proof (cases "par j = i")
      case True
      then show ?thesis using j ys [of j] ys [of i] kids [of j] assms(3) p by auto
    next
      case False
      then show ?thesis using j ys [of j] ys [of "par j"] rel [of j] par_less [of j] by auto
    qed
  next
    fix j assume j: "0 < ?p" "0 < j" "j < length ?ys" "par j = ?p"
    have "par ?p < ?p" using par_less j(1) .
    then have up: "f (xs ! par ?p) \<le> f (xs ! ?p)" "?ys ! par ?p = xs ! par ?p"
      using rel [of ?p] ys [of "par ?p"] j(1) p by auto
    show "f (?ys ! par ?p) \<le> f (?ys ! j)"
      using up j ys [of j] sib [of j] p by (cases "j = i") auto
  qed
  show "below_ok f ?p ?ys" unfolding below_ok_def
  proof (intro allI impI)
    fix j assume j: "0 < j" "j < length ?ys" "par j = ?p"
    then have "j \<noteq> ?p" using par_less [of j] by auto
    then show "f (?ys ! ?p) \<le> f (?ys ! j)" using j ys [of j] ys [of ?p] sib [of j] assms(4) p by (cases "j = i") auto
  qed
qed

lemma sift_up_length [simp]: "length (fst (sift_up f eq i xs)) = length xs"
proof (induction f eq i xs rule: sift_up.induct)
  case (1 f eq i xs)
  then show ?case by (subst sift_up.simps) auto
qed

lemma sift_up_keeps:
  "i < length xs \<Longrightarrow> mset (fst (sift_up f eq i xs)) = mset xs \<and> snd (sift_up f eq i xs) < length xs
     \<and> fst (sift_up f eq i xs) ! snd (sift_up f eq i xs) = xs ! i"
proof (induction f eq i xs rule: sift_up.induct)
  case (1 f eq i xs)
  show ?case
  proof (cases "i > 0 \<and> (f (xs ! i) < f (xs ! par i) \<or> eq \<and> f (xs ! i) = f (xs ! par i))")
    case True
    then have "par i < length xs" "par i < i" using par_less [of i] 1(2) by auto
    then show ?thesis using 1(1) [OF True] 1(2) True nth_swap_at [of i xs "par i" "par i"]
      by (simp add: sift_up.simps [of f eq i] mset_swap_at)
  qed (use 1(2) in \<open>auto simp: sift_up.simps [of f eq i]\<close>)
qed

lemma sift_up_heap:
  "heap_but f i xs \<Longrightarrow> i < length xs \<Longrightarrow>
     heap_but f (snd (sift_up f eq i xs)) (fst (sift_up f eq i xs)) \<and> above_ok f (snd (sift_up f eq i xs)) (fst (sift_up f eq i xs))
     \<and> (below_ok f i xs \<longrightarrow> is_heap f (fst (sift_up f eq i xs)))"
proof (induction f eq i xs rule: sift_up.induct)
  case (1 f eq i xs)
  show ?case
  proof (cases "i > 0 \<and> (f (xs ! i) < f (xs ! par i) \<or> eq \<and> f (xs ! i) = f (xs ! par i))")
    case True
    then have "par i < length xs" "f (xs ! i) \<le> f (xs ! par i)" using par_less [of i] 1(3) by auto
    then show ?thesis using 1(1) [OF True] heap_but_up [OF 1(2)] 1(3) True by (simp add: sift_up.simps [of f eq i])
  next
    case False
    then have "above_ok f i xs" by (auto simp: above_ok_def)
    then show ?thesis using False 1(2) is_heapI by (auto simp: sift_up.simps [of f eq i])
  qed
qed

lemma heap_but_down:
  assumes "heap_but f i xs" "above_ok f i xs" "smaller_child f i xs = Some c"
  shows "heap_but f c (swap_at i c xs)" "above_ok f c (swap_at i c xs)"
proof -
  note c = smaller_child_SomeD [OF assms(3)]
  let ?ys = "swap_at i c xs"
  have c0: "0 < c" "i < length xs" using c(1,2) by auto
  have ys: "?ys ! k = (if k = c then xs ! i else if k = i then xs ! c else xs ! k)" if "k < length xs" for k
    using nth_swap_at [of i xs c k] c(2) c0 that by simp
  have rel: "f (xs ! par j) \<le> f (xs ! j)" if "0 < j" "j < length xs" "j \<noteq> i" "par j \<noteq> i" for j
    using assms(1) that by (simp add: heap_but_def)
  have up: "f (xs ! par i) \<le> f (xs ! j)" if "0 < i" "0 < j" "j < length xs" "par j = i" for j
    using assms(1) that by (simp add: heap_but_def)
  show "above_ok f c ?ys" using ys [of c] ys [of i] c c0 by (simp add: above_ok_def)
  show "heap_but f c ?ys" unfolding heap_but_def
  proof (intro conjI allI impI)
    fix j assume j: "0 < j" "j < length ?ys" "j \<noteq> c" "par j \<noteq> c"
    have pj: "par j < j" using par_less j(1) .
    consider "j = i" | "j \<noteq> i" "par j = i" | "j \<noteq> i" "par j \<noteq> i" by blast
    then show "f (?ys ! par j) \<le> f (?ys ! j)"
    proof cases
      case 1
      then show ?thesis using ys [of "par i"] ys [of i] up [of c] j pj c c0 by simp
    next
      case 2
      then show ?thesis using ys [of i] ys [of j] c(5) [of j] j c(1) c0 by simp
    next
      case 3
      then show ?thesis using ys [of "par j"] ys [of j] rel [of j] j pj by simp
    qed
  next
    fix j assume j: "0 < c" "0 < j" "j < length ?ys" "par j = c"
    then have "c < j" using par_less by blast
    then show "f (?ys ! par c) \<le> f (?ys ! j)" using ys [of i] ys [of j] rel [of j] j c c0 by simp
  qed
qed

lemma sift_down_length [simp]: "length (fst (sift_down f i xs)) = length xs"
proof (induction f i xs rule: sift_down.induct)
  case (1 f i xs)
  then show ?case by (subst sift_down.simps) (auto split: option.splits)
qed

lemma sift_down_keeps:
  "i < length xs \<Longrightarrow> mset (fst (sift_down f i xs)) = mset xs \<and> snd (sift_down f i xs) < length xs
     \<and> fst (sift_down f i xs) ! snd (sift_down f i xs) = xs ! i"
proof (induction f i xs rule: sift_down.induct)
  case (1 f i xs)
  show ?case
  proof (cases "smaller_child f i xs")
    case (Some c)
    then show ?thesis using 1(1) [OF Some] 1(2) smaller_child_SomeD(1,2) [OF Some] nth_swap_at [of i xs c c]
      by (simp add: sift_down.simps [of f i] mset_swap_at)
  qed (use 1(2) in \<open>simp add: sift_down.simps [of f i]\<close>)
qed

lemma sift_down_heap:
  "heap_but f i xs \<Longrightarrow> above_ok f i xs \<Longrightarrow> is_heap f (fst (sift_down f i xs))"
proof (induction f i xs rule: sift_down.induct)
  case (1 f i xs)
  show ?case
  proof (cases "smaller_child f i xs")
    case None
    then have "below_ok f i xs" using smaller_child_NoneD by (auto simp: below_ok_def)
    then show ?thesis using None 1(2,3) is_heapI by (simp add: sift_down.simps [of f i])
  next
    case (Some c)
    then show ?thesis using 1(1) [OF Some] heap_but_down [OF 1(2,3) Some] by (simp add: sift_down.simps [of f i])
  qed
qed

end
