(* ===== verification/Comm_Scheduler.thy ===== *)
theory Comm_Scheduler
  imports C_Prelude Bin_Heap
begin

text \<open>
  The scheduler of connections of \<open>src/src/kernel/CommScheduler.cc\<close> and \<open>CommScheduler.h\<close>: targets with a
  limit on their connections, and groups that keep their targets in a heap ordered by relative load.
  A step of the model is a section under the mutexes, from locking them to unlocking them or to
  waiting on a condition. Reading a slot of \<open>tg_heap\<close> that is out of bounds or not written yet, writing
  out of bounds and decrementing a load of 0 are \<open>None\<close>.
\<close>

section \<open>Targets and a group\<close>

record sched_target =
  t_max :: nat
  t_cur :: nat
  t_group :: "addr option"
  t_index :: nat
  t_wait :: nat

record sched_group =
  g_max :: nat
  g_cur :: nat
  tg_heap :: "addr option list"
  heap_size :: nat
  g_wait :: nat

record sched =
  targets :: "addr \<Rightarrow> sched_target"
  self :: addr
  grp :: sched_group

text \<open>\<open>size_t\<close> has 64 bits.\<close>

definition target_cmp :: "sched_target \<Rightarrow> sched_target \<Rightarrow> int" where
  "target_cmp target1 target2 =
     (let load1 = (t_cur target1 * t_max target2) mod 2 ^ 64;
          load2 = (t_cur target2 * t_max target1) mod 2 ^ 64
      in if load1 < load2 then -1 else if load1 > load2 then 1 else 0)"

definition slot :: "nat \<Rightarrow> sched \<Rightarrow> addr option" where
  "slot i s = (if i < length (tg_heap (grp s)) then tg_heap (grp s) ! i else None)"

text \<open>\<open>this->tg_heap[i] = target; target->index = i;\<close>\<close>

definition place :: "nat \<Rightarrow> addr \<Rightarrow> sched \<Rightarrow> sched option" where
  "place i a s =
     (if i < length (tg_heap (grp s))
      then Some (s\<lparr>grp := (grp s)\<lparr>tg_heap := (tg_heap (grp s))[i := Some a]\<rparr>,
                   targets := (targets s)(a := (targets s a)\<lparr>t_index := i\<rparr>)\<rparr>)
      else None)"

section \<open>The heap\<close>

function heap_adjust_loop :: "addr \<Rightarrow> nat \<Rightarrow> int \<Rightarrow> sched \<Rightarrow> sched option" where
  "heap_adjust_loop target index swap_on_equal s =
     (if index > 0 then
        (case slot ((index - 1) div 2) s of
           None \<Rightarrow> None
         | Some parent \<Rightarrow>
             if target_cmp (targets s target) (targets s parent) < swap_on_equal then
               (case place index parent s of
                  None \<Rightarrow> None
                | Some s' \<Rightarrow> heap_adjust_loop target ((index - 1) div 2) swap_on_equal s')
             else place index target s)
      else place index target s)"
  by pat_completeness auto
termination by (relation "measure (\<lambda>(target, index, e, s). index)") auto

declare heap_adjust_loop.simps [simp del]

definition heap_adjust :: "nat \<Rightarrow> int \<Rightarrow> sched \<Rightarrow> sched option" where
  "heap_adjust index swap_on_equal s =
     (case slot index s of
        None \<Rightarrow> None
      | Some target \<Rightarrow> heap_adjust_loop target index swap_on_equal s)"

function heapify_loop :: "addr \<Rightarrow> nat \<Rightarrow> nat \<Rightarrow> sched \<Rightarrow> sched option" where
  "heapify_loop target top_i last_i s =
     (let i = 2 * top_i + 1 in
      if i < last_i then
        (case (slot i s, slot (i + 1) s) of
           (Some child0, Some child1) \<Rightarrow>
             if target_cmp (targets s child0) (targets s target) < 0 then
               (if target_cmp (targets s child1) (targets s child0) < 0 then
                  (case place top_i child1 s of None \<Rightarrow> None | Some s' \<Rightarrow> heapify_loop target (i + 1) last_i s')
                else
                  (case place top_i child0 s of None \<Rightarrow> None | Some s' \<Rightarrow> heapify_loop target i last_i s'))
             else if target_cmp (targets s child1) (targets s target) < 0 then
               (case place top_i child1 s of None \<Rightarrow> None | Some s' \<Rightarrow> heapify_loop target (i + 1) last_i s')
             else place top_i target s
         | _ \<Rightarrow> None)
      else if i = last_i then
        (case slot i s of
           None \<Rightarrow> None
         | Some child0 \<Rightarrow>
             if target_cmp (targets s child0) (targets s target) < 0 then
               (case place top_i child0 s of None \<Rightarrow> None | Some s' \<Rightarrow> place i target s')
             else place top_i target s)
      else place top_i target s)"
  by pat_completeness auto
termination by (relation "measure (\<lambda>(target, top_i, last_i, s). last_i - top_i)") auto

declare heapify_loop.simps [simp del]

definition heapify :: "nat \<Rightarrow> sched \<Rightarrow> sched option" where
  "heapify top_i s =
     (case slot top_i s of
        None \<Rightarrow> None
      | Some target \<Rightarrow> heapify_loop target top_i (heap_size (grp s) - 1) s)"

text \<open>\<open>ok\<close> says whether \<open>realloc\<close> succeeds; the new slots are not written yet. \<open>heap_buf_size\<close> is the
  length of \<open>tg_heap\<close>.\<close>

definition heap_insert :: "bool \<Rightarrow> addr \<Rightarrow> sched \<Rightarrow> (bool \<times> sched) option" where
  "heap_insert ok target s =
     (let n = heap_size (grp s); size = length (tg_heap (grp s)) in
      if n = size \<and> \<not> ok then Some (False, s)
      else
        let s1 = (if n = size then s\<lparr>grp := (grp s)\<lparr>tg_heap := tg_heap (grp s) @ replicate (2 * size - size) None\<rparr>\<rparr> else s)
        in case place n target s1 of
          None \<Rightarrow> None
        | Some s2 \<Rightarrow>
            (case heap_adjust n 0 s2 of
               None \<Rightarrow> None
             | Some s3 \<Rightarrow> Some (True, s3\<lparr>grp := (grp s3)\<lparr>heap_size := n + 1\<rparr>\<rparr>)))"

definition heap_remove :: "nat \<Rightarrow> sched \<Rightarrow> sched option" where
  "heap_remove index s =
     (if heap_size (grp s) = 0 then None
      else
        let n = heap_size (grp s) - 1; s1 = s\<lparr>grp := (grp s)\<lparr>heap_size := n\<rparr>\<rparr> in
        if index \<noteq> n then
          (case slot n s1 of
             None \<Rightarrow> None
           | Some target \<Rightarrow>
               (case place index target s1 of
                  None \<Rightarrow> None
                | Some s2 \<Rightarrow>
                    (case heap_adjust index 0 s2 of
                       None \<Rightarrow> None
                     | Some s3 \<Rightarrow> heapify (t_index (targets s3 target)) s3)))
        else Some s1)"

section \<open>The sections under the mutexes\<close>

datatype sched_errno = EAGAIN | ETIMEDOUT | EEXIST | EINVAL | EBUSY | ENOENT | ENOMEM

text \<open>Waking up one waiter of a target or of the group.\<close>

datatype signal = Signal_target addr | Signal_group

definition COMMGROUP_INIT_SIZE :: nat where "COMMGROUP_INIT_SIZE = 4"

definition sched_target_init :: "nat \<Rightarrow> sched_errno + sched_target" where
  "sched_target_init max_connections =
     (if max_connections = 0 then Inl EINVAL
      else Inr \<lparr>t_max = max_connections, t_cur = 0, t_group = None, t_index = 0, t_wait = 0\<rparr>)"

definition sched_group_init :: sched_group where
  "sched_group_init = \<lparr>g_max = 0, g_cur = 0, tg_heap = replicate COMMGROUP_INIT_SIZE None, heap_size = 0, g_wait = 0\<rparr>"

definition in_group :: "addr \<Rightarrow> sched \<Rightarrow> bool" where
  "in_group a s \<longleftrightarrow> t_group (targets s a) = Some (self s)"

definition upd_target :: "addr \<Rightarrow> (sched_target \<Rightarrow> sched_target) \<Rightarrow> sched \<Rightarrow> sched" where
  "upd_target a f s = s\<lparr>targets := (targets s)(a := f (targets s a))\<rparr>"

definition upd_group :: "(sched_group \<Rightarrow> sched_group) \<Rightarrow> sched \<Rightarrow> sched" where
  "upd_group f s = s\<lparr>grp := f (grp s)\<rparr>"

text \<open>\<open>CommSchedTarget::acquire\<close> once there is no need to wait, for a target of this group or of none.\<close>

definition target_take :: "addr \<Rightarrow> sched \<Rightarrow> sched option" where
  "target_take a s =
     (let s1 = upd_target a (\<lambda>t. t\<lparr>t_cur := t_cur t + 1\<rparr>) s in
      if in_group a s
      then heapify (t_index (targets s1 a)) (upd_group (\<lambda>g. g\<lparr>g_cur := g_cur g + 1\<rparr>) s1)
      else Some s1)"

definition target_release :: "addr \<Rightarrow> bool \<Rightarrow> sched \<Rightarrow> (signal list \<times> sched) option" where
  "target_release a has_idle_conn s =
     (if t_cur (targets s a) = 0 then None
      else
        let s1 = upd_target a (\<lambda>t. t\<lparr>t_cur := t_cur t - 1\<rparr>) s;
            sig1 = (if t_wait (targets s a) > 0 then [Signal_target a] else [])
        in if in_group a s then
             (if g_cur (grp s) = 0 then None
              else
                let s2 = upd_group (\<lambda>g. g\<lparr>g_cur := g_cur g - 1\<rparr>) s1;
                    sig2 = (if t_wait (targets s a) = 0 \<and> g_wait (grp s) > 0 then [Signal_group] else [])
                in map_option (Pair (sig1 @ sig2)) (heap_adjust (t_index (targets s2 a)) (if has_idle_conn then 1 else 0) s2))
           else Some (sig1, s1))"

definition group_add :: "bool \<Rightarrow> addr \<Rightarrow> sched \<Rightarrow> ((sched_errno + signal list) \<times> sched) option" where
  "group_add ok a s =
     (if t_group (targets s a) = None \<and> t_wait (targets s a) = 0 then
        (case heap_insert ok a s of
           None \<Rightarrow> None
         | Some (False, s1) \<Rightarrow> Some (Inl ENOMEM, s1)
         | Some (True, s1) \<Rightarrow>
             let s2 = upd_group (\<lambda>g. g\<lparr>g_max := g_max g + t_max (targets s a), g_cur := g_cur g + t_cur (targets s a)\<rparr>)
                   (upd_target a (\<lambda>t. t\<lparr>t_group := Some (self s)\<rparr>) s1)
             in Some (Inr (if g_wait (grp s2) > 0 \<and> g_cur (grp s2) < g_max (grp s2) then [Signal_group] else []), s2))
      else if in_group a s then Some (Inl EEXIST, s)
      else if t_group (targets s a) \<noteq> None then Some (Inl EINVAL, s)
      else Some (Inl EBUSY, s))"

definition group_remove :: "addr \<Rightarrow> sched \<Rightarrow> ((sched_errno + unit) \<times> sched) option" where
  "group_remove a s =
     (if in_group a s \<and> t_wait (targets s a) = 0 then
        (case heap_remove (t_index (targets s a)) s of
           None \<Rightarrow> None
         | Some s1 \<Rightarrow>
             if g_max (grp s1) < t_max (targets s a) \<or> g_cur (grp s1) < t_cur (targets s a) then None
             else Some (Inr (),
               upd_target a (\<lambda>t. t\<lparr>t_group := None\<rparr>)
                 (upd_group (\<lambda>g. g\<lparr>g_max := g_max g - t_max (targets s a), g_cur := g_cur g - t_cur (targets s a)\<rparr>) s1)))
      else if \<not> in_group a s then Some (Inl ENOENT, s)
      else Some (Inl EBUSY, s))"

text \<open>\<open>CommSchedGroup::acquire\<close> once there is no need to wait.\<close>

definition group_take :: "sched \<Rightarrow> (addr \<times> sched) option" where
  "group_take s =
     (case slot 0 s of
        None \<Rightarrow> None
      | Some a \<Rightarrow>
          map_option (Pair a)
            (heapify 0 (upd_group (\<lambda>g. g\<lparr>g_cur := g_cur g + 1\<rparr>) (upd_target a (\<lambda>t. t\<lparr>t_cur := t_cur t + 1\<rparr>) s))))"

section \<open>The order of the heap\<close>

text \<open>The loads are compared by multiplication, which does not wrap around for limits below \<open>2 ^ 32\<close>.\<close>

definition target_ok :: "sched_target \<Rightarrow> bool" where
  "target_ok t \<longleftrightarrow> 0 < t_max t \<and> t_max t < 2 ^ 32 \<and> t_cur t \<le> t_max t"

definition ratio :: "sched_target \<Rightarrow> rat" where
  "ratio t = of_nat (t_cur t) / of_nat (t_max t)"

definition load :: "sched \<Rightarrow> addr \<Rightarrow> rat" where
  "load s a = ratio (targets s a)"

lemma load_product: "target_ok a \<Longrightarrow> target_ok b \<Longrightarrow> t_cur a * t_max b < 2 ^ 64"
proof -
  assume a: "target_ok a" "target_ok b"
  then have "t_cur a * t_max b \<le> t_max a * t_max b" by (simp add: target_ok_def)
  also have "\<dots> < 2 ^ 32 * 2 ^ 32" using a by (intro mult_strict_mono) (auto simp: target_ok_def)
  finally show ?thesis by simp
qed

lemma ratio_less_iff:
  assumes "target_ok a" "target_ok b"
  shows "ratio a < ratio b \<longleftrightarrow> t_cur a * t_max b < t_cur b * t_max a"
proof -
  have "ratio a < ratio b \<longleftrightarrow> of_nat (t_cur a) * of_nat (t_max b) < (of_nat (t_cur b) * of_nat (t_max a) :: rat)"
    using assms by (simp add: ratio_def target_ok_def divide_less_eq field_simps)
  also have "\<dots> \<longleftrightarrow> t_cur a * t_max b < t_cur b * t_max a" by (metis of_nat_less_iff of_nat_mult)
  finally show ?thesis .
qed

lemma target_cmp_ratio:
  assumes "target_ok a" "target_ok b"
  shows "target_cmp a b < 0 \<longleftrightarrow> ratio a < ratio b" "target_cmp a b < 1 \<longleftrightarrow> ratio a \<le> ratio b"
  using load_product [OF assms] load_product [OF assms(2,1)] ratio_less_iff [OF assms] ratio_less_iff [OF assms(2,1)]
  by (auto simp: target_cmp_def Let_def not_less [symmetric] simp del: power_numeral)

section \<open>The slots of the heap\<close>

text \<open>The slots hold \<open>hs\<close>, but for the slot \<open>i\<close> and the index of the target that belongs there.\<close>

definition slots_but :: "nat \<Rightarrow> sched \<Rightarrow> addr list \<Rightarrow> bool" where
  "slots_but i s hs \<longleftrightarrow> length hs \<le> length (tg_heap (grp s)) \<and> distinct hs
     \<and> (\<forall>k < length hs. k \<noteq> i \<longrightarrow> tg_heap (grp s) ! k = Some (hs ! k) \<and> t_index (targets s (hs ! k)) = k)"

definition slots_rep :: "sched \<Rightarrow> addr list \<Rightarrow> bool" where
  "slots_rep s hs \<longleftrightarrow> slots_but (length hs) s hs"

text \<open>What moving targets in the heap leaves alone.\<close>

definition moved :: "addr set \<Rightarrow> sched \<Rightarrow> sched \<Rightarrow> bool" where
  "moved A s s' \<longleftrightarrow> self s' = self s \<and> length (tg_heap (grp s')) = length (tg_heap (grp s))
     \<and> g_max (grp s') = g_max (grp s) \<and> g_cur (grp s') = g_cur (grp s)
     \<and> heap_size (grp s') = heap_size (grp s) \<and> g_wait (grp s') = g_wait (grp s)
     \<and> (\<forall>a. t_max (targets s' a) = t_max (targets s a) \<and> t_cur (targets s' a) = t_cur (targets s a)
            \<and> t_group (targets s' a) = t_group (targets s a) \<and> t_wait (targets s' a) = t_wait (targets s a)
            \<and> (a \<notin> A \<longrightarrow> t_index (targets s' a) = t_index (targets s a)))"

lemma moved_refl: "moved A s s"
  by (simp add: moved_def)

lemma moved_trans: "moved A s s' \<Longrightarrow> moved A s' s'' \<Longrightarrow> moved A s s''"
  by (simp add: moved_def)

lemma moved_load: "moved A s s' \<Longrightarrow> load s' = load s"
  by (rule ext) (simp add: moved_def load_def ratio_def)

lemma moved_ok: "moved A s s' \<Longrightarrow> target_ok (targets s' a) \<longleftrightarrow> target_ok (targets s a)"
  by (simp add: moved_def target_ok_def)

lemma slot_rep: "slots_but i s hs \<Longrightarrow> k < length hs \<Longrightarrow> k \<noteq> i \<Longrightarrow> slot k s = Some (hs ! k)"
  by (simp add: slots_but_def slot_def)

lemma place_last:
  assumes "slots_but i s hs" "i < length hs"
  shows "\<exists>s'. place i (hs ! i) s = Some s' \<and> slots_rep s' hs \<and> moved (set hs) s s'"
  using assms by (auto simp: place_def slots_but_def slots_rep_def moved_def nth_list_update nth_eq_iff_index_eq)

lemma place_step:
  assumes "slots_but i s hs" "i < length hs" "j < length hs" "i \<noteq> j"
  shows "\<exists>s'. place i (hs ! j) s = Some s' \<and> slots_but j s' (swap_at i j hs) \<and> moved (set hs) s s'"
proof -
  have "distinct (swap_at i j hs)" using assms by (simp add: swap_at_def slots_but_def distinct_swap)
  then show ?thesis using assms
    by (auto simp: place_def slots_but_def moved_def nth_swap_at nth_list_update nth_eq_iff_index_eq)
qed

lemma set_swap_at: "i < length hs \<Longrightarrow> j < length hs \<Longrightarrow> set (swap_at i j hs) = set hs"
  by (simp add: swap_at_def set_swap)

section \<open>The code refines the heap operations\<close>

lemma heap_adjust_loop_refines:
  assumes "slots_but i s hs" "i < length hs" "\<forall>a \<in> set hs. target_ok (targets s a)" "eq = (e = 1)" "e \<in> {0, 1}"
  shows "\<exists>s'. heap_adjust_loop (hs ! i) i e s = Some s' \<and> slots_rep s' (fst (sift_up (load s) eq i hs)) \<and> moved (set hs) s s'"
  using assms
proof (induction "load s" eq i hs arbitrary: s rule: sift_up.induct)
  case (1 eq i hs s)
  note rep = 1(2) and i = 1(3) and ok = 1(4) and e = 1(5,6)
  show ?case
  proof (cases "i = 0")
    case True
    then show ?thesis using place_last [OF rep i] by (simp add: heap_adjust_loop.simps [of _ 0] sift_up.simps [of _ _ 0])
  next
    case False
    then have p: "par i < i" "par i < length hs" using par_less [of i] i by auto
    have sl: "slot ((i - 1) div 2) s = Some (hs ! par i)" using slot_rep [OF rep p(2)] p(1) by (simp add: par_def)
    have "target_ok (targets s (hs ! i))" "target_ok (targets s (hs ! par i))" using ok i p by auto
    then have cmp: "target_cmp (targets s (hs ! i)) (targets s (hs ! par i)) < e \<longleftrightarrow>
        load s (hs ! i) < load s (hs ! par i) \<or> eq \<and> load s (hs ! i) = load s (hs ! par i)"
      using target_cmp_ratio e by (auto simp: load_def)
    show ?thesis
    proof (cases "target_cmp (targets s (hs ! i)) (targets s (hs ! par i)) < e")
      case c: False
      have "heap_adjust_loop (hs ! i) i e s = place i (hs ! i) s" using c sl False by (simp add: heap_adjust_loop.simps [of _ i])
      moreover have "sift_up (load s) eq i hs = (hs, i)" using c cmp by (auto simp: sift_up.simps [of _ _ i])
      ultimately show ?thesis using place_last [OF rep i] by simp
    next
      case c: True
      let ?hs = "swap_at i (par i) hs"
      obtain s1 where s1: "place i (hs ! par i) s = Some s1" "slots_but (par i) s1 ?hs" "moved (set hs) s s1"
        using place_step [OF rep i p(2)] p(1) by auto
      have sets: "set ?hs = set hs" using set_swap_at i p(2) by blast
      have tgt: "?hs ! par i = hs ! i" using nth_swap_at [of i hs "par i" "par i"] i p by simp
      have "\<exists>s'. heap_adjust_loop (?hs ! par i) (par i) e s1 = Some s' \<and> slots_rep s' (fst (sift_up (load s1) eq (par i) ?hs))
          \<and> moved (set ?hs) s1 s'"
        by (rule 1(1)) (use False c cmp s1 sets ok e p moved_load [OF s1(3)] moved_ok [OF s1(3)] in auto)
      moreover have "heap_adjust_loop (hs ! i) i e s = heap_adjust_loop (hs ! i) (par i) e s1"
        using c sl False s1(1) by (simp add: heap_adjust_loop.simps [of _ i] par_def)
      moreover have "sift_up (load s) eq i hs = sift_up (load s) eq (par i) ?hs" using c cmp False by (simp add: sift_up.simps [of _ _ i])
      ultimately show ?thesis using tgt sets moved_load [OF s1(3)] moved_trans [OF s1(3)] by auto
    qed
  qed
qed

lemma slots_rep_but: "slots_rep s hs \<Longrightarrow> slots_but i s hs"
  by (auto simp: slots_rep_def slots_but_def)

lemma heap_adjust_refines:
  assumes "slots_rep s hs" "i < length hs" "\<forall>a \<in> set hs. target_ok (targets s a)" "eq = (e = 1)" "e \<in> {0, 1}"
  shows "\<exists>s'. heap_adjust i e s = Some s' \<and> slots_rep s' (fst (sift_up (load s) eq i hs)) \<and> moved (set hs) s s'"
  using heap_adjust_loop_refines [OF slots_rep_but [OF assms(1)] assms(2-5)] slot_rep [of "length hs" s hs i] assms
  by (simp add: heap_adjust_def slots_rep_def)

lemma heapify_leaf: "n < 2 * i + 1 \<Longrightarrow> heapify_loop a i n s = place i a s"
  by (simp add: heapify_loop.simps [of a i] Let_def)

lemma heapify_loop_refines:
  assumes "slots_but i s hs" "i < length hs" "\<forall>a \<in> set hs. target_ok (targets s a)"
  shows "\<exists>s'. heapify_loop (hs ! i) i (length hs - 1) s = Some s' \<and> slots_rep s' (fst (sift_down (load s) i hs)) \<and> moved (set hs) s s'"
  using assms
proof (induction "load s" i hs arbitrary: s rule: sift_down.induct)
  case (1 i hs s)
  note rep = 1(2) and i = 1(3) and ok = 1(4)
  let ?l = "2 * i + 1" and ?r = "2 * i + 2"
  have cmp: "target_cmp (targets s (hs ! j)) (targets s (hs ! k)) < 0 \<longleftrightarrow> load s (hs ! j) < load s (hs ! k)"
    if "j < length hs" "k < length hs" for j k using target_cmp_ratio(1) ok that by (simp add: load_def)
  have sl: "slot j s = Some (hs ! j)" if "i < j" "j < length hs" for j using slot_rep [OF rep that(2)] that(1) by simp
  have down: "\<exists>s1 s'. place i (hs ! c) s = Some s1 \<and> heapify_loop (hs ! i) c (length hs - 1) s1 = Some s'
      \<and> slots_rep s' (fst (sift_down (load s) i hs)) \<and> moved (set hs) s s'" if c: "smaller_child (load s) i hs = Some c" for c
  proof -
    note cD = smaller_child_SomeD [OF c]
    let ?hs = "swap_at i c hs"
    obtain s1 where s1: "place i (hs ! c) s = Some s1" "slots_but c s1 ?hs" "moved (set hs) s s1"
      using place_step [OF rep i cD(2)] cD(1) by auto
    have sets: "set ?hs = set hs" using set_swap_at i cD(2) by blast
    have tgt: "?hs ! c = hs ! i" using nth_swap_at [of i hs c c] i cD by simp
    have "\<exists>s'. heapify_loop (?hs ! c) c (length ?hs - 1) s1 = Some s' \<and> slots_rep s' (fst (sift_down (load s1) c ?hs))
        \<and> moved (set ?hs) s1 s'"
      by (rule 1(1) [OF c]) (use s1 sets ok cD moved_load [OF s1(3)] moved_ok [OF s1(3)] in auto)
    then show ?thesis using s1 tgt sets c moved_load [OF s1(3)] moved_trans [OF s1(3)]
      by (auto simp: sift_down.simps [of _ i])
  qed
  have stay: "\<exists>s'. place i (hs ! i) s = Some s' \<and> slots_rep s' (fst (sift_down (load s) i hs)) \<and> moved (set hs) s s'"
    if "smaller_child (load s) i hs = None"
    using place_last [OF rep i] that by (simp add: sift_down.simps [of _ i])
  consider "?r < length hs" | "?l < length hs" "\<not> ?r < length hs" | "\<not> ?l < length hs" by linarith
  then show ?case
  proof cases
    case 1
    then have eq: "heapify_loop (hs ! i) i (length hs - 1) s =
        (case smaller_child (load s) i hs of
           None \<Rightarrow> place i (hs ! i) s
         | Some c \<Rightarrow> (case place i (hs ! c) s of None \<Rightarrow> None | Some s' \<Rightarrow> heapify_loop (hs ! i) c (length hs - 1) s'))"
      using sl [of ?l] sl [of ?r] cmp [of ?l i] cmp [of ?r ?l] cmp [of ?r i] i
      by (auto simp: heapify_loop.simps [of _ i] Let_def smaller_child_def split: option.split)
    show ?thesis using stay down unfolding eq by (fastforce split: option.splits)
  next
    case 2
    then have "?l = length hs - 1" by simp
    then have eq: "heapify_loop (hs ! i) i (length hs - 1) s =
        (case smaller_child (load s) i hs of
           None \<Rightarrow> place i (hs ! i) s
         | Some c \<Rightarrow> (case place i (hs ! c) s of None \<Rightarrow> None | Some s' \<Rightarrow> heapify_loop (hs ! i) c (length hs - 1) s'))"
      using 2 sl [of ?l] cmp [of ?l i] i
      by (simp add: heapify_loop.simps [of _ i] heapify_leaf Let_def smaller_child_def split: option.split)
    show ?thesis using stay down unfolding eq by (fastforce split: option.splits)
  next
    case 3
    then show ?thesis using stay i by (auto simp: heapify_loop.simps [of _ i] Let_def smaller_child_def)
  qed
qed

lemma heapify_refines:
  assumes "slots_rep s hs" "heap_size (grp s) = length hs" "i < length hs" "\<forall>a \<in> set hs. target_ok (targets s a)"
  shows "\<exists>s'. heapify i s = Some s' \<and> slots_rep s' (fst (sift_down (load s) i hs)) \<and> moved (set hs) s s'"
  using heapify_loop_refines [OF slots_rep_but [OF assms(1)] assms(3,4)] slot_rep [of "length hs" s hs i] assms
  by (simp add: heapify_def slots_rep_def)

section \<open>The invariant of a group\<close>

lemma heap_but_change:
  assumes "is_heap f xs" "distinct xs" "i < length xs" "\<And>x. x \<in> set xs \<Longrightarrow> x \<noteq> xs ! i \<Longrightarrow> f' x = f x"
  shows "heap_but f' i xs" "f (xs ! i) \<le> f' (xs ! i) \<Longrightarrow> above_ok f' i xs" "f' (xs ! i) \<le> f (xs ! i) \<Longrightarrow> below_ok f' i xs"
proof -
  have ne: "f' (xs ! j) = f (xs ! j)" if "j < length xs" "j \<noteq> i" for j
    using assms(2-4) that by (simp add: nth_eq_iff_index_eq)
  have le: "f (xs ! par j) \<le> f (xs ! j)" if "0 < j" "j < length xs" for j using assms(1) that by (simp add: is_heap_def)
  have pj: "par j < j" "par j < length xs" if "0 < j" "j < length xs" for j using par_less [OF that(1)] that by auto
  show "heap_but f' i xs" unfolding heap_but_def
  proof (intro conjI allI impI)
    fix j assume j: "0 < j" "j < length xs" "j \<noteq> i" "par j \<noteq> i"
    then show "f' (xs ! par j) \<le> f' (xs ! j)" using le [of j] ne pj [of j] by auto
  next
    fix j assume j: "0 < i" "0 < j" "j < length xs" "par j = i"
    then have "f (xs ! par i) \<le> f (xs ! j)" using le [of i] le [of j] assms(3) order_trans by blast
    then show "f' (xs ! par i) \<le> f' (xs ! j)" using ne [of j] ne [of "par i"] pj [of i] pj [of j] j assms(3) by auto
  qed
  show "above_ok f' i xs" if "f (xs ! i) \<le> f' (xs ! i)"
    using le [of i] ne [of "par i"] pj [of i] assms(3) that by (cases "i = 0") (auto simp: above_ok_def)
  show "below_ok f' i xs" if le': "f' (xs ! i) \<le> f (xs ! i)" unfolding below_ok_def
  proof (intro allI impI)
    fix j assume j: "0 < j" "j < length xs" "par j = i"
    then have "f' (xs ! j) = f (xs ! j)" using ne pj [of j] by auto
    then show "f' (xs ! i) \<le> f' (xs ! j)" using le [of j] j le' by auto
  qed
qed

lemma heap_but_append:
  assumes "is_heap f xs"
  shows "heap_but f (length xs) (xs @ [x])" "below_ok f (length xs) (xs @ [x])"
proof -
  have p: "par j < j" if "0 < j" for j using par_less that .
  show "heap_but f (length xs) (xs @ [x])" unfolding heap_but_def
  proof (intro conjI allI impI)
    fix j assume j: "0 < j" "j < length (xs @ [x])" "j \<noteq> length xs" "par j \<noteq> length xs"
    then show "f ((xs @ [x]) ! par j) \<le> f ((xs @ [x]) ! j)" using assms p [of j] by (simp add: is_heap_def nth_append)
  next
    fix j assume "0 < j" "j < length (xs @ [x])" "par j = length xs"
    then show "f ((xs @ [x]) ! par (length xs)) \<le> f ((xs @ [x]) ! j)" using p [of j] by simp
  qed
  show "below_ok f (length xs) (xs @ [x])" using p unfolding below_ok_def
    by (metis Suc_leI length_append_singleton linorder_not_less)
qed

lemma heap_but_replace:
  assumes "is_heap f xs" "i < length xs - 1"
  shows "heap_but f i ((butlast xs)[i := y])"
proof -
  have le: "f (xs ! par j) \<le> f (xs ! j)" if "0 < j" "j < length xs" for j using assms(1) that by (simp add: is_heap_def)
  have nth: "(butlast xs)[i := y] ! j = (if j = i then y else xs ! j)" if "j < length xs - 1" for j
    using that assms(2) by (simp add: nth_list_update nth_butlast)
  show ?thesis unfolding heap_but_def
  proof (intro conjI allI impI)
    fix j assume j: "0 < j" "j < length ((butlast xs)[i := y])" "j \<noteq> i" "par j \<noteq> i"
    then show "f ((butlast xs)[i := y] ! par j) \<le> f ((butlast xs)[i := y] ! j)"
      using le [of j] nth [of j] nth [of "par j"] par_less [of j] by auto
  next
    fix j assume j: "0 < i" "0 < j" "j < length ((butlast xs)[i := y])" "par j = i"
    then have "f (xs ! par i) \<le> f (xs ! j)" using le [of i] le [of j] assms(2) by force
    then show "f ((butlast xs)[i := y] ! par i) \<le> f ((butlast xs)[i := y] ! j)"
      using nth [of j] nth [of "par i"] par_less [of i] par_less [of j] j assms(2) by auto
  qed
qed

lemma heap_butlast: "is_heap f xs \<Longrightarrow> is_heap f (butlast xs)"
proof -
  assume h: "is_heap f xs"
  have "f (butlast xs ! par j) \<le> f (butlast xs ! j)" if "0 < j" "j < length xs - 1" for j
    using h that par_less [of j] by (simp add: is_heap_def nth_butlast)
  then show ?thesis by (simp add: is_heap_def)
qed

text \<open>The fields of the group and of its targets, and with the heap.\<close>

definition group_data :: "sched \<Rightarrow> addr list \<Rightarrow> bool" where
  "group_data s hs \<longleftrightarrow> heap_size (grp s) = length hs \<and> 0 < length (tg_heap (grp s))
     \<and> (\<forall>a. in_group a s \<longleftrightarrow> a \<in> set hs) \<and> (\<forall>a. target_ok (targets s a))
     \<and> g_max (grp s) = (\<Sum>a \<in> set hs. t_max (targets s a)) \<and> g_cur (grp s) = (\<Sum>a \<in> set hs. t_cur (targets s a))"

definition group_inv :: "sched \<Rightarrow> addr list \<Rightarrow> bool" where
  "group_inv s hs \<longleftrightarrow> slots_rep s hs \<and> is_heap (load s) hs \<and> group_data s hs"

lemma group_data_moved:
  assumes "group_data s hs" "moved A s s'" "mset hs' = mset hs"
  shows "group_data s' hs'"
proof -
  have "set hs' = set hs" "length hs' = length hs" using assms(3) mset_eq_setD mset_eq_length by blast+
  then show ?thesis using assms(1,2) moved_ok [OF assms(2)] by (simp add: group_data_def moved_def in_group_def)
qed

lemma heap_adjust_inv:
  assumes "slots_rep s hs" "group_data s hs" "heap_but (load s) i hs" "below_ok (load s) i hs" "i < length hs" "e \<in> {0, 1}"
  shows "\<exists>s' hs'. heap_adjust i e s = Some s' \<and> group_inv s' hs' \<and> mset hs' = mset hs \<and> moved (set hs) s s'"
proof -
  let ?hs = "fst (sift_up (load s) (e = 1) i hs)"
  obtain s' where s': "heap_adjust i e s = Some s'" "slots_rep s' ?hs" "moved (set hs) s s'"
    using heap_adjust_refines [OF assms(1,5), of "e = 1" e] assms(2,6) by (auto simp: group_data_def)
  have m: "mset ?hs = mset hs" using sift_up_keeps [OF assms(5)] by blast
  have "is_heap (load s') ?hs" using sift_up_heap [OF assms(3,5)] assms(4) moved_load [OF s'(3)] by simp
  then show ?thesis using s' m group_data_moved [OF assms(2) s'(3) m] by (auto simp: group_inv_def)
qed

lemma heapify_inv:
  assumes "slots_rep s hs" "group_data s hs" "heap_but (load s) i hs" "above_ok (load s) i hs" "i < length hs"
  shows "\<exists>s' hs'. heapify i s = Some s' \<and> group_inv s' hs' \<and> mset hs' = mset hs \<and> moved (set hs) s s'"
proof -
  let ?hs = "fst (sift_down (load s) i hs)"
  obtain s' where s': "heapify i s = Some s'" "slots_rep s' ?hs" "moved (set hs) s s'"
    using heapify_refines [OF assms(1) _ assms(5)] assms(2) by (auto simp: group_data_def)
  have m: "mset ?hs = mset hs" using sift_down_keeps [OF assms(5)] by blast
  have "is_heap (load s') ?hs" using sift_down_heap [OF assms(3,4)] moved_load [OF s'(3)] by simp
  then show ?thesis using s' m group_data_moved [OF assms(2) s'(3) m] by (auto simp: group_inv_def)
qed

text \<open>Changing the load of a target of the group by one.\<close>

definition set_load :: "addr \<Rightarrow> nat \<Rightarrow> nat \<Rightarrow> sched \<Rightarrow> sched" where
  "set_load a n g s = upd_group (\<lambda>x. x\<lparr>g_cur := g\<rparr>) (upd_target a (\<lambda>t. t\<lparr>t_cur := n\<rparr>) s)"

lemma set_load_data:
  assumes "group_data s hs" "a \<in> set hs" "n \<le> t_max (targets s a)" "g + t_cur (targets s a) = g_cur (grp s) + n"
  shows "group_data (set_load a n g s) hs"
proof -
  let ?s = "set_load a n g s"
  have t: "targets ?s b = (if b = a then (targets s a)\<lparr>t_cur := n\<rparr> else targets s b)" for b
    by (simp add: set_load_def upd_group_def upd_target_def)
  have "(\<Sum>b \<in> set hs. t_cur (targets ?s b)) + t_cur (targets s a) = (\<Sum>b \<in> set hs. t_cur (targets s b)) + n"
    using assms(2) by (simp add: t sum.remove [of "set hs" a])
  moreover have "(\<Sum>b \<in> set hs. t_max (targets ?s b)) = (\<Sum>b \<in> set hs. t_max (targets s b))" by (rule sum.cong) (auto simp: t)
  moreover have "in_group b ?s \<longleftrightarrow> in_group b s" for b by (simp add: in_group_def t) (simp add: set_load_def upd_group_def upd_target_def)
  moreover have "target_ok (targets ?s b)" for b using assms(1,3) by (auto simp: t group_data_def target_ok_def)
  ultimately show ?thesis using assms(1,4) by (simp add: group_data_def) (simp add: set_load_def upd_group_def upd_target_def)
qed

lemma set_load_slots: "slots_rep s hs \<Longrightarrow> slots_rep (set_load a n g s) hs"
  by (auto simp: slots_rep_def slots_but_def set_load_def upd_group_def upd_target_def)

lemma set_load_load:
  "load (set_load a n g s) b = (if b = a then of_nat n / of_nat (t_max (targets s a)) else load s b)"
  by (simp add: load_def ratio_def set_load_def upd_group_def upd_target_def)

lemma set_load_heap:
  assumes "group_inv s hs" "i < length hs"
  shows "heap_but (load (set_load (hs ! i) n g s)) i hs"
    "t_cur (targets s (hs ! i)) \<le> n \<Longrightarrow> above_ok (load (set_load (hs ! i) n g s)) i hs"
    "n \<le> t_cur (targets s (hs ! i)) \<Longrightarrow> below_ok (load (set_load (hs ! i) n g s)) i hs"
proof -
  have h: "is_heap (load s) hs" "distinct hs" using assms(1) by (auto simp: group_inv_def slots_rep_def slots_but_def)
  note ch = heap_but_change [OF h assms(2), of "load (set_load (hs ! i) n g s)"]
  have same: "load (set_load (hs ! i) n g s) x = load s x" if "x \<noteq> hs ! i" for x using that by (simp add: set_load_load)
  show "heap_but (load (set_load (hs ! i) n g s)) i hs" using ch(1) same by blast
  have at: "load (set_load (hs ! i) n g s) (hs ! i) = of_nat n / of_nat (t_max (targets s (hs ! i)))"
    "load s (hs ! i) = of_nat (t_cur (targets s (hs ! i))) / of_nat (t_max (targets s (hs ! i)))"
    by (simp_all add: set_load_load) (simp add: load_def ratio_def)
  have le: "of_nat a / of_nat (t_max (targets s (hs ! i))) \<le> (of_nat b / of_nat (t_max (targets s (hs ! i))) :: rat)" if "a \<le> b" for a b
    using that by (intro divide_right_mono) auto
  show "above_ok (load (set_load (hs ! i) n g s)) i hs" if "t_cur (targets s (hs ! i)) \<le> n"
    using ch(2) same le [OF that] by (simp add: at)
  show "below_ok (load (set_load (hs ! i) n g s)) i hs" if "n \<le> t_cur (targets s (hs ! i))"
    using ch(3) same le [OF that] by (simp add: at)
qed

section \<open>The operations on a group\<close>

lemma group_inv_index:
  assumes "group_inv s hs" "in_group a s"
  shows "t_index (targets s a) < length hs" "hs ! t_index (targets s a) = a" "a \<in> set hs"
proof -
  show a: "a \<in> set hs" using assms by (simp add: group_inv_def group_data_def)
  then obtain i where i: "i < length hs" "hs ! i = a" by (auto simp: in_set_conv_nth)
  then have "t_index (targets s a) = i" using assms(1) by (auto simp: group_inv_def slots_rep_def slots_but_def)
  then show "t_index (targets s a) < length hs" "hs ! t_index (targets s a) = a" using i by simp_all
qed

lemma ratio_one: "target_ok t \<Longrightarrow> ratio t < 1 \<longleftrightarrow> t_cur t < t_max t"
  by (simp add: target_ok_def ratio_def divide_less_eq)

lemma least_load_free:
  assumes inv: "group_inv s hs" and free: "g_cur (grp s) < g_max (grp s)"
  shows "hs \<noteq> []" "t_cur (targets s (hs ! 0)) < t_max (targets s (hs ! 0))" "\<forall>b \<in> set hs. load s (hs ! 0) \<le> load s b"
proof -
  have ok: "target_ok (targets s a)" for a using inv by (simp add: group_inv_def group_data_def)
  show ne: "hs \<noteq> []" using inv free by (auto simp: group_inv_def group_data_def)
  show least: "\<forall>b \<in> set hs. load s (hs ! 0) \<le> load s b"
    using inv heap_root [of "load s" hs] by (auto simp: group_inv_def in_set_conv_nth)
  have "\<exists>b \<in> set hs. t_cur (targets s b) < t_max (targets s b)"
  proof (rule ccontr)
    assume "\<not> ?thesis"
    then have "(\<Sum>b \<in> set hs. t_max (targets s b)) \<le> (\<Sum>b \<in> set hs. t_cur (targets s b))" by (intro sum_mono) (auto simp: not_less)
    then show False using inv free by (simp add: group_inv_def group_data_def)
  qed
  then obtain b where "b \<in> set hs" "ratio (targets s b) < 1" using ratio_one [OF ok] by blast
  then have "ratio (targets s (hs ! 0)) < 1" using least by (force simp: load_def)
  then show "t_cur (targets s (hs ! 0)) < t_max (targets s (hs ! 0))" using ratio_one [OF ok] by blast
qed

lemma take_load_inv:
  assumes inv: "group_inv s hs" and i: "i < length hs" and lt: "t_cur (targets s (hs ! i)) < t_max (targets s (hs ! i))"
  defines "s1 \<equiv> set_load (hs ! i) (t_cur (targets s (hs ! i)) + 1) (g_cur (grp s) + 1) s"
  shows "\<exists>s' hs'. heapify i s1 = Some s' \<and> group_inv s' hs' \<and> mset hs' = mset hs \<and> moved (set hs) s1 s'"
proof (rule heapify_inv)
  show "slots_rep s1 hs" using inv set_load_slots unfolding s1_def by (simp add: group_inv_def)
  show "group_data s1 hs" unfolding s1_def by (rule set_load_data) (use inv i lt in \<open>auto simp: group_inv_def\<close>)
  show "heap_but (load s1) i hs" "above_ok (load s1) i hs" using set_load_heap [OF inv i] unfolding s1_def by auto
qed (rule i)

lemma drop_load_inv:
  assumes inv: "group_inv s hs" and i: "i < length hs" and pos: "0 < t_cur (targets s (hs ! i))" and e: "e \<in> {0, 1}"
  defines "s1 \<equiv> set_load (hs ! i) (t_cur (targets s (hs ! i)) - 1) (g_cur (grp s) - 1) s"
  shows "0 < g_cur (grp s)"
    "\<exists>s' hs'. heap_adjust i e s1 = Some s' \<and> group_inv s' hs' \<and> mset hs' = mset hs \<and> moved (set hs) s1 s'"
proof -
  have "t_cur (targets s (hs ! i)) \<le> (\<Sum>b \<in> set hs. t_cur (targets s b))" using i by (intro member_le_sum) auto
  then show g: "0 < g_cur (grp s)" using inv pos by (simp add: group_inv_def group_data_def)
  have le: "t_cur (targets s (hs ! i)) \<le> t_max (targets s (hs ! i))" using inv by (simp add: group_inv_def group_data_def target_ok_def)
  show "\<exists>s' hs'. heap_adjust i e s1 = Some s' \<and> group_inv s' hs' \<and> mset hs' = mset hs \<and> moved (set hs) s1 s'"
  proof (rule heap_adjust_inv)
    show "slots_rep s1 hs" using inv set_load_slots unfolding s1_def by (simp add: group_inv_def)
    show "group_data s1 hs" unfolding s1_def by (rule set_load_data) (use inv i pos g le in \<open>auto simp: group_inv_def\<close>)
    show "heap_but (load s1) i hs" "below_ok (load s1) i hs" using set_load_heap [OF inv i] unfolding s1_def by auto
  qed (use i e in auto)
qed

lemma group_take_inv:
  assumes inv: "group_inv s hs" and free: "g_cur (grp s) < g_max (grp s)"
  defines "a \<equiv> hs ! 0"
  shows "\<exists>s' hs'. group_take s = Some (a, s') \<and> group_inv s' hs' \<and> mset hs' = mset hs
    \<and> moved (set hs) (set_load a (t_cur (targets s a) + 1) (g_cur (grp s) + 1) s) s'"
proof -
  note least = least_load_free [OF inv free]
  have n: "0 < length hs" using least(1) by simp
  have "slot 0 s = Some a" using inv n slot_rep [of "length hs" s hs 0] unfolding a_def by (simp add: group_inv_def slots_rep_def)
  then have "group_take s = map_option (Pair a) (heapify 0 (set_load a (t_cur (targets s a) + 1) (g_cur (grp s) + 1) s))"
    by (simp add: group_take_def set_load_def upd_group_def upd_target_def)
  then show ?thesis using take_load_inv [OF inv n least(2)] unfolding a_def by auto
qed

lemma target_take_inv:
  assumes inv: "group_inv s hs" and a: "in_group a s" and lt: "t_cur (targets s a) < t_max (targets s a)"
  shows "\<exists>s' hs'. target_take a s = Some s' \<and> group_inv s' hs' \<and> mset hs' = mset hs
    \<and> moved (set hs) (set_load a (t_cur (targets s a) + 1) (g_cur (grp s) + 1) s) s'"
proof -
  note i = group_inv_index [OF inv a]
  have "target_take a s = heapify (t_index (targets s a)) (set_load a (t_cur (targets s a) + 1) (g_cur (grp s) + 1) s)"
    using a by (simp add: target_take_def set_load_def upd_group_def upd_target_def Let_def)
  then show ?thesis using take_load_inv [OF inv i(1)] i(2) lt by auto
qed

lemma target_release_inv:
  assumes inv: "group_inv s hs" and a: "in_group a s" and pos: "0 < t_cur (targets s a)"
  shows "\<exists>s' hs'. target_release a idle s =
      Some ((if t_wait (targets s a) > 0 then [Signal_target a] else if g_wait (grp s) > 0 then [Signal_group] else []), s')
    \<and> group_inv s' hs' \<and> mset hs' = mset hs
    \<and> moved (set hs) (set_load a (t_cur (targets s a) - 1) (g_cur (grp s) - 1) s) s'"
proof -
  note i = group_inv_index [OF inv a]
  let ?e = "if idle then 1 else 0 :: int"
  let ?s = "set_load a (t_cur (targets s a) - 1) (g_cur (grp s) - 1) s"
  have g: "0 < g_cur (grp s)" and
    "\<exists>s' hs'. heap_adjust (t_index (targets s a)) ?e ?s = Some s' \<and> group_inv s' hs' \<and> mset hs' = mset hs \<and> moved (set hs) ?s s'"
    using drop_load_inv [OF inv i(1), of ?e] i(2) pos by auto
  moreover have "target_release a idle s =
      map_option (Pair ((if t_wait (targets s a) > 0 then [Signal_target a] else if g_wait (grp s) > 0 then [Signal_group] else [])))
        (heap_adjust (t_index (targets s a)) ?e ?s)"
    using a g pos by (simp add: target_release_def set_load_def upd_group_def upd_target_def Let_def)
  ultimately show ?thesis by auto
qed

section \<open>Adding and removing targets\<close>

definition same_loads :: "sched \<Rightarrow> sched \<Rightarrow> bool" where
  "same_loads s s' \<longleftrightarrow> self s' = self s \<and> g_max (grp s') = g_max (grp s) \<and> g_cur (grp s') = g_cur (grp s) \<and> g_wait (grp s') = g_wait (grp s)
     \<and> (\<forall>a. t_max (targets s' a) = t_max (targets s a) \<and> t_cur (targets s' a) = t_cur (targets s a)
            \<and> t_group (targets s' a) = t_group (targets s a) \<and> t_wait (targets s' a) = t_wait (targets s a))"

lemma same_loads_trans: "same_loads s s' \<Longrightarrow> same_loads s' s'' \<Longrightarrow> same_loads s s''"
  by (simp add: same_loads_def)

lemma moved_same_loads: "moved A s s' \<Longrightarrow> same_loads s s'"
  by (simp add: same_loads_def moved_def)

lemma same_loads_load: "same_loads s s' \<Longrightarrow> load s' = load s"
  by (rule ext) (simp add: same_loads_def load_def ratio_def)

lemma same_loads_ok: "same_loads s s' \<Longrightarrow> target_ok (targets s' a) \<longleftrightarrow> target_ok (targets s a)"
  by (simp add: same_loads_def target_ok_def)

lemma place_new:
  assumes "slots_rep s hs" "length hs < length (tg_heap (grp s))" "a \<notin> set hs"
  shows "\<exists>s'. place (length hs) a s = Some s' \<and> slots_rep s' (hs @ [a]) \<and> same_loads s s'"
  using assms by (auto simp: place_def slots_rep_def slots_but_def same_loads_def nth_append nth_list_update less_Suc_eq in_set_conv_nth)

lemma heap_insert_rep:
  assumes rep: "slots_rep s hs" and n: "heap_size (grp s) = length hs" and a: "a \<notin> set hs" and buf: "0 < length (tg_heap (grp s))"
    and ok: "\<forall>b. target_ok (targets s b)" and heap: "is_heap (load s) hs"
    and alloc: "ok' \<or> length hs < length (tg_heap (grp s))"
  shows "\<exists>s' hs'. heap_insert ok' a s = Some (True, s') \<and> slots_rep s' hs' \<and> mset hs' = add_mset a (mset hs)
    \<and> is_heap (load s') hs' \<and> heap_size (grp s') = length hs' \<and> 0 < length (tg_heap (grp s')) \<and> same_loads s s'"
proof -
  let ?full = "length hs = length (tg_heap (grp s))"
  define s1 where "s1 = (if ?full then s\<lparr>grp := (grp s)\<lparr>tg_heap := tg_heap (grp s) @ replicate (2 * length (tg_heap (grp s)) - length (tg_heap (grp s))) None\<rparr>\<rparr> else s)"
  have len: "length hs \<le> length (tg_heap (grp s))" using rep by (simp add: slots_rep_def slots_but_def)
  have s1: "slots_rep s1 hs" "length hs < length (tg_heap (grp s1))" "same_loads s s1"
    using rep len buf by (auto simp: s1_def slots_rep_def slots_but_def nth_append same_loads_def)
  obtain s2 where s2: "place (length hs) a s1 = Some s2" "slots_rep s2 (hs @ [a])" "same_loads s1 s2" using place_new [OF s1(1,2) a] by blast
  have sl2: "same_loads s s2" using same_loads_trans s1(3) s2(3) .
  have ld: "load s2 = load s" using same_loads_load sl2 .
  let ?hs = "fst (sift_up (load s2) False (length hs) (hs @ [a]))"
  obtain s3 where s3: "heap_adjust (length hs) 0 s2 = Some s3" "slots_rep s3 ?hs" "moved (set (hs @ [a])) s2 s3"
    using heap_adjust_refines [OF s2(2), of "length hs" False 0] ok same_loads_ok [OF sl2] by auto
  have m: "mset ?hs = mset (hs @ [a])" using sift_up_keeps [of "length hs" "hs @ [a]" "load s2" False] by simp
  have h: "is_heap (load s2) ?hs" using sift_up_heap [OF heap_but_append(1) [OF heap, of a]] heap_but_append(2) [OF heap, of a] unfolding ld by simp
  have l3: "load s3 = load s2" using moved_load s3(3) .
  let ?s = "s3\<lparr>grp := (grp s3)\<lparr>heap_size := length hs + 1\<rparr>\<rparr>"
  have "same_loads s3 ?s" by (simp add: same_loads_def)
  then have sl: "same_loads s ?s" "load ?s = load s3"
    using same_loads_trans [OF sl2 same_loads_trans [OF moved_same_loads [OF s3(3)]]] same_loads_load by blast+
  have eq: "heap_insert ok' a s = Some (True, ?s)"
    using alloc s2(1) s3(1) by (auto simp: heap_insert_def Let_def n s1_def split: if_splits)
  have "slots_rep ?s ?hs" using s3(2) by (simp add: slots_rep_def slots_but_def)
  moreover have "0 < length (tg_heap (grp ?s))" using s3(2) by (auto simp: slots_rep_def slots_but_def)
  ultimately show ?thesis using eq m h sl l3 by (intro exI [of _ ?s] exI [of _ ?hs]) simp
qed

lemma slots_rep_last:
  assumes "slots_rep s hs" "i < length hs - 1"
  shows "\<exists>s'. place i (last hs) s = Some s' \<and> slots_rep s' ((butlast hs)[i := last hs]) \<and> moved (set hs) s s'"
proof -
  have ne: "hs \<noteq> []" and len: "i < length hs" using assms(2) by auto
  have l: "last hs = hs ! (length hs - 1)" using ne by (simp add: last_conv_nth)
  have d: "distinct ((butlast hs)[i := last hs])"
    using assms by (intro distinct_list_update) (auto simp: slots_rep_def slots_but_def distinct_butlast l nth_butlast in_set_conv_nth nth_eq_iff_index_eq)
  show ?thesis using assms d ne len
    by (auto simp: place_def slots_rep_def slots_but_def moved_def nth_list_update nth_butlast l nth_eq_iff_index_eq)
qed

lemma mset_remove_at:
  assumes "i < length xs - 1"
  shows "mset ((butlast xs)[i := last xs]) = mset xs - {#xs ! i#}"
proof -
  obtain ys y where xs: "xs = ys @ [y]" using assms by (cases xs rule: rev_cases) auto
  then show ?thesis using assms by (simp add: mset_update nth_append add_mset_commute)
qed

lemma heap_remove_rep:
  assumes rep: "slots_rep s hs" and n: "heap_size (grp s) = length hs" and i: "i < length hs"
    and ok: "\<forall>b. target_ok (targets s b)" and heap: "is_heap (load s) hs"
  shows "\<exists>s' hs'. heap_remove i s = Some s' \<and> slots_rep s' hs' \<and> mset hs' = mset hs - {#hs ! i#}
    \<and> is_heap (load s') hs' \<and> heap_size (grp s') = length hs' \<and> length (tg_heap (grp s')) = length (tg_heap (grp s)) \<and> same_loads s s'"
proof -
  let ?n = "length hs - 1"
  let ?s1 = "s\<lparr>grp := (grp s)\<lparr>heap_size := ?n\<rparr>\<rparr>"
  have r1: "slots_rep ?s1 hs" and sl1: "same_loads s ?s1" using rep by (simp_all add: slots_rep_def slots_but_def same_loads_def)
  have ld1: "load ?s1 = load s" using same_loads_load sl1 .
  show ?thesis
  proof (cases "i = ?n")
    case True
    have "slots_rep ?s1 (butlast hs)" using rep by (auto simp: slots_rep_def slots_but_def distinct_butlast nth_butlast)
    moreover have "mset (butlast hs) = mset hs - {#hs ! i#}" using i True by (cases hs rule: rev_cases) (auto simp: nth_append)
    moreover have "heap_remove i s = Some ?s1" using True i n by (cases hs) (auto simp: heap_remove_def Let_def)
    ultimately show ?thesis using heap_butlast [OF heap] sl1 ld1 by (intro exI [of _ ?s1] exI [of _ "butlast hs"]) simp
  next
    case False
    then have i': "i < length hs - 1" using i by simp
    have ne: "hs \<noteq> []" using i by auto
    let ?hs = "(butlast hs)[i := last hs]"
    obtain s2 where s2: "place i (last hs) ?s1 = Some s2" "slots_rep s2 ?hs" "moved (set hs) ?s1 s2" using slots_rep_last [OF r1 i'] by blast
    have sl2: "same_loads s s2" using same_loads_trans [OF sl1 moved_same_loads [OF s2(3)]] .
    have ld2: "load s2 = load s" using same_loads_load sl2 .
    have ok2: "\<forall>b. target_ok (targets s2 b)" using ok same_loads_ok [OF sl2] by blast
    have len: "i < length ?hs" using i' by simp
    let ?k = "snd (sift_up (load s2) False i ?hs)" and ?hs3 = "fst (sift_up (load s2) False i ?hs)"
    obtain s3 where s3: "heap_adjust i 0 s2 = Some s3" "slots_rep s3 ?hs3" "moved (set ?hs) s2 s3"
      using heap_adjust_refines [OF s2(2) len, of False 0] ok2 by auto
    have hb: "heap_but (load s) i ?hs" using heap_but_replace [OF heap i'] .
    have up: "heap_but (load s2) ?k ?hs3" "above_ok (load s2) ?k ?hs3" using sift_up_heap [OF hb len] unfolding ld2 by auto
    have keep: "mset ?hs3 = mset ?hs" "?k < length ?hs3" "?hs3 ! ?k = last hs" using sift_up_keeps [OF len, of "load s2" False] len by auto
    have ld3: "load s3 = load s2" using moved_load [OF s3(3)] .
    have idx: "t_index (targets s3 (last hs)) = ?k"
      using s3(2) keep(2,3) unfolding slots_rep_def slots_but_def by (metis less_irrefl)
    have size3: "heap_size (grp s3) = length ?hs3" using s3(3) s2(3) by (simp add: moved_def)
    have ok3: "\<forall>b \<in> set ?hs3. target_ok (targets s3 b)" using ok2 moved_ok [OF s3(3)] by blast
    let ?hs4 = "fst (sift_down (load s3) ?k ?hs3)"
    obtain s4 where s4: "heapify ?k s3 = Some s4" "slots_rep s4 ?hs4" "moved (set ?hs3) s3 s4"
      using heapify_refines [OF s3(2) size3 keep(2) ok3] by blast
    have "mset ?hs4 = mset hs - {#hs ! i#}" using sift_down_keeps [OF keep(2), of "load s3"] keep(1) mset_remove_at [OF i'] by simp
    moreover have "is_heap (load s4) ?hs4" using sift_down_heap up moved_load [OF s4(3)] ld3 by simp
    moreover have "slot ?n ?s1 = Some (last hs)"
      using slot_rep [of "length hs" ?s1 hs ?n] r1 i' by (simp add: slots_rep_def last_conv_nth [OF ne])
    then have "heap_remove i s = Some s4" using False i n ne s2(1) s3(1) s4(1) idx by (simp add: heap_remove_def Let_def)
    moreover have "same_loads s s4" using sl2 moved_same_loads [OF s3(3)] moved_same_loads [OF s4(3)] same_loads_trans by blast
    moreover have "heap_size (grp s4) = length ?hs4" "length (tg_heap (grp s4)) = length (tg_heap (grp s))"
      using size3 s4(3) s3(3) s2(3) by (simp_all add: moved_def)
    ultimately show ?thesis using s4(2) by (intro exI [of _ s4] exI [of _ ?hs4]) simp
  qed
qed

lemma group_add_inv:
  assumes inv: "group_inv s hs" and t: "t_group (targets s a) = None" "t_wait (targets s a) = 0"
    and alloc: "ok \<or> length hs < length (tg_heap (grp s))"
  shows "\<exists>sig s' hs'. group_add ok a s = Some (Inr sig, s') \<and> group_inv s' hs' \<and> mset hs' = add_mset a (mset hs)
    \<and> sig = (if g_wait (grp s) > 0 \<and> g_cur (grp s') < g_max (grp s') then [Signal_group] else [])
    \<and> g_wait (grp s') = g_wait (grp s) \<and> self s' = self s
    \<and> (\<forall>b. t_cur (targets s' b) = t_cur (targets s b) \<and> t_max (targets s' b) = t_max (targets s b) \<and> t_wait (targets s' b) = t_wait (targets s b)
          \<and> t_group (targets s' b) = (if b = a then Some (self s) else t_group (targets s b)))"
proof -
  have data: "group_data s hs" using inv by (simp add: group_inv_def)
  have a: "a \<notin> set hs" using data t(1) unfolding group_data_def in_group_def by (metis option.distinct(1))
  obtain s1 hs' where s1: "heap_insert ok a s = Some (True, s1)" "slots_rep s1 hs'" "mset hs' = add_mset a (mset hs)"
    "is_heap (load s1) hs'" "heap_size (grp s1) = length hs'" "0 < length (tg_heap (grp s1))" "same_loads s s1"
    using heap_insert_rep [of s hs a ok] inv a alloc by (auto simp: group_inv_def group_data_def)
  let ?s = "upd_group (\<lambda>g. g\<lparr>g_max := g_max g + t_max (targets s a), g_cur := g_cur g + t_cur (targets s a)\<rparr>)
      (upd_target a (\<lambda>t. t\<lparr>t_group := Some (self s)\<rparr>) s1)"
  have eq: "group_add ok a s = Some (Inr (if g_wait (grp ?s) > 0 \<and> g_cur (grp ?s) < g_max (grp ?s) then [Signal_group] else []), ?s)"
    using t s1(1) by (simp add: group_add_def Let_def)
  have set': "set hs' = insert a (set hs)" using mset_eq_setD [of hs' "a # hs"] s1(3) by simp
  have t': "t_cur (targets ?s b) = t_cur (targets s b) \<and> t_max (targets ?s b) = t_max (targets s b) \<and> t_wait (targets ?s b) = t_wait (targets s b)
      \<and> t_group (targets ?s b) = (if b = a then Some (self s) else t_group (targets s b))" for b
    using s1(7) by (simp add: upd_group_def upd_target_def same_loads_def)
  have g': "self ?s = self s" "g_wait (grp ?s) = g_wait (grp s)" "g_max (grp ?s) = g_max (grp s) + t_max (targets s a)"
    "g_cur (grp ?s) = g_cur (grp s) + t_cur (targets s a)" "heap_size (grp ?s) = length hs'" "0 < length (tg_heap (grp ?s))"
    using s1(5-7) by (simp_all add: upd_group_def upd_target_def same_loads_def)
  have "load ?s = load s1" using t' s1(7) by (auto simp: load_def ratio_def same_loads_def)
  moreover have "slots_rep ?s hs'" using s1(2) by (auto simp: slots_rep_def slots_but_def upd_group_def upd_target_def)
  moreover have "group_data ?s hs'" unfolding group_data_def g' set'
    using data a t' g'(6) by (auto simp: group_data_def in_group_def g'(1) target_ok_def)
  ultimately have "group_inv ?s hs'" using s1(4) by (simp add: group_inv_def)
  then show ?thesis unfolding eq using s1(3) g' t' by auto
qed

lemma group_remove_inv:
  assumes inv: "group_inv s hs" and a: "in_group a s" "t_wait (targets s a) = 0"
  shows "\<exists>s' hs'. group_remove a s = Some (Inr (), s') \<and> group_inv s' hs' \<and> mset hs' = mset hs - {#a#}
    \<and> g_wait (grp s') = g_wait (grp s) \<and> self s' = self s
    \<and> (\<forall>b. t_cur (targets s' b) = t_cur (targets s b) \<and> t_max (targets s' b) = t_max (targets s b) \<and> t_wait (targets s' b) = t_wait (targets s b)
          \<and> t_group (targets s' b) = (if b = a then None else t_group (targets s b)))"
proof -
  have data: "group_data s hs" using inv by (simp add: group_inv_def)
  note i = group_inv_index [OF inv a(1)]
  obtain s1 hs' where s1: "heap_remove (t_index (targets s a)) s = Some s1" "slots_rep s1 hs'" "mset hs' = mset hs - {#a#}"
    "is_heap (load s1) hs'" "heap_size (grp s1) = length hs'" "length (tg_heap (grp s1)) = length (tg_heap (grp s))" "same_loads s s1"
    using heap_remove_rep [of s hs "t_index (targets s a)"] inv i by (auto simp: group_inv_def group_data_def)
  have d: "distinct hs" "distinct hs'" using inv s1(2) by (auto simp: group_inv_def slots_rep_def slots_but_def)
  have set': "set hs' = set hs - {a}" using mset_eq_setD [of hs' "remove1 a hs"] s1(3) d by simp
  have sums: "g_max (grp s) = t_max (targets s a) + (\<Sum>b \<in> set hs'. t_max (targets s b))"
    "g_cur (grp s) = t_cur (targets s a) + (\<Sum>b \<in> set hs'. t_cur (targets s b))"
    using data i(3) unfolding set' by (simp_all add: group_data_def sum.remove)
  let ?s = "upd_target a (\<lambda>t. t\<lparr>t_group := None\<rparr>)
      (upd_group (\<lambda>g. g\<lparr>g_max := g_max g - t_max (targets s a), g_cur := g_cur g - t_cur (targets s a)\<rparr>) s1)"
  have eq: "group_remove a s = Some (Inr (), ?s)"
    using a s1(1,7) sums by (simp add: group_remove_def same_loads_def)
  have t': "t_cur (targets ?s b) = t_cur (targets s b) \<and> t_max (targets ?s b) = t_max (targets s b) \<and> t_wait (targets ?s b) = t_wait (targets s b)
      \<and> t_group (targets ?s b) = (if b = a then None else t_group (targets s b))" for b
    using s1(7) by (simp add: upd_group_def upd_target_def same_loads_def)
  have g': "self ?s = self s" "g_wait (grp ?s) = g_wait (grp s)" "g_max (grp ?s) = (\<Sum>b \<in> set hs'. t_max (targets s b))"
    "g_cur (grp ?s) = (\<Sum>b \<in> set hs'. t_cur (targets s b))" "heap_size (grp ?s) = length hs'" "length (tg_heap (grp ?s)) = length (tg_heap (grp s))"
    using s1(5-7) sums by (simp_all add: upd_group_def upd_target_def same_loads_def)
  have "load ?s = load s1" using t' s1(7) by (auto simp: load_def ratio_def same_loads_def)
  moreover have "slots_rep ?s hs'" using s1(2) by (auto simp: slots_rep_def slots_but_def upd_group_def upd_target_def)
  moreover have "group_data ?s hs'" unfolding group_data_def g'
    using data t' by (auto simp: group_data_def in_group_def g'(1) target_ok_def set')
  ultimately have "group_inv ?s hs'" using s1(4) by (simp add: group_inv_def)
  then show ?thesis unfolding eq using s1(3) g' t' by auto
qed

end
