(* ===== verification/Comm_Threads.thy ===== *)
theory Comm_Threads
  imports Comm_Scheduler
begin

text \<open>
  Threads that acquire and release the targets of \<open>Comm_Scheduler\<close>, with the waits on the condition
  variables. A step is a section under the mutexes; a thread that waits has released them. A signal
  lets one waiting thread continue; a wait may also end by the timeout (\<open>ret\<close> is then not 0) or
  without reason. The targets considered are in the group or in none.
\<close>

section \<open>Threads\<close>

datatype sched_pc =
    Running
  | Wait_target addr
  | Woken_target addr bool
  | Wait_group
  | Woken_group bool

text \<open>\<open>held\<close> are the targets that have been acquired and not released.\<close>

record sched_sys =
  sch :: sched
  who :: "nat \<Rightarrow> sched_pc"
  held :: "addr multiset"

definition goto_pc :: "nat \<Rightarrow> sched_pc \<Rightarrow> sched_sys \<Rightarrow> sched_sys" where
  "goto_pc t p s = s\<lparr>who := (who s)(t := p)\<rparr>"

definition full_target :: "addr \<Rightarrow> sched \<Rightarrow> bool" where
  "full_target a s \<longleftrightarrow> t_cur (targets s a) \<ge> t_max (targets s a)"

definition full_group :: "sched \<Rightarrow> bool" where
  "full_group s \<longleftrightarrow> g_cur (grp s) \<ge> g_max (grp s)"

definition own :: "addr \<Rightarrow> sched \<Rightarrow> bool" where
  "own a s \<longleftrightarrow> t_group (targets s a) = None \<or> in_group a s"

definition target_waits :: "addr \<Rightarrow> sched \<Rightarrow> sched" where
  "target_waits a = upd_target a (\<lambda>x. x\<lparr>t_wait := t_wait x + 1\<rparr>)"

definition target_woken :: "addr \<Rightarrow> sched \<Rightarrow> sched" where
  "target_woken a = upd_target a (\<lambda>x. x\<lparr>t_wait := t_wait x - 1\<rparr>)"

definition group_waits :: "sched \<Rightarrow> sched" where
  "group_waits = upd_group (\<lambda>g. g\<lparr>g_wait := g_wait g + 1\<rparr>)"

definition group_woken :: "sched \<Rightarrow> sched" where
  "group_woken = upd_group (\<lambda>g. g\<lparr>g_wait := g_wait g - 1\<rparr>)"

text \<open>\<open>pthread_cond_signal\<close>: one of the waiting threads, if there is one.\<close>

inductive deliver :: "signal list \<Rightarrow> (nat \<Rightarrow> sched_pc) \<Rightarrow> (nat \<Rightarrow> sched_pc) \<Rightarrow> bool" where
  deliver_Nil: "deliver [] p p"
| deliver_target: "p t = Wait_target a \<Longrightarrow> deliver xs (p(t := Woken_target a False)) p' \<Longrightarrow> deliver (Signal_target a # xs) p p'"
| deliver_target_none: "(\<And>t. p t \<noteq> Wait_target a) \<Longrightarrow> deliver xs p p' \<Longrightarrow> deliver (Signal_target a # xs) p p'"
| deliver_group: "p t = Wait_group \<Longrightarrow> deliver xs (p(t := Woken_group False)) p' \<Longrightarrow> deliver (Signal_group # xs) p p'"
| deliver_group_none: "(\<And>t. p t \<noteq> Wait_group) \<Longrightarrow> deliver xs p p' \<Longrightarrow> deliver (Signal_group # xs) p p'"

inductive sched_step :: "sched_sys \<Rightarrow> sched_sys \<Rightarrow> bool" where
  \<comment> \<open>\<open>CommSchedTarget::acquire\<close>\<close>
  target_now: "who s t = Running \<Longrightarrow> own a (sch s) \<Longrightarrow> \<not> full_target a (sch s) \<Longrightarrow> target_take a (sch s) = Some x \<Longrightarrow>
    sched_step s (s\<lparr>sch := x, held := add_mset a (held s)\<rparr>)"
| target_wait: "who s t = Running \<Longrightarrow> own a (sch s) \<Longrightarrow> full_target a (sch s) \<Longrightarrow>
    sched_step s (goto_pc t (Wait_target a) (s\<lparr>sch := target_waits a (sch s)\<rparr>))"
| target_wake: "who s t = Wait_target a \<Longrightarrow> sched_step s (goto_pc t (Woken_target a timeout) s)"
| target_again: "who s t = Woken_target a False \<Longrightarrow> full_target a (sch s) \<Longrightarrow>
    sched_step s (goto_pc t (Wait_target a) (s\<lparr>sch := target_waits a (target_woken a (sch s))\<rparr>))"
| target_timeout: "who s t = Woken_target a True \<Longrightarrow> full_target a (sch s) \<Longrightarrow>
    sched_step s (goto_pc t Running (s\<lparr>sch := target_woken a (sch s)\<rparr>))"
| target_go: "who s t = Woken_target a timeout \<Longrightarrow> \<not> full_target a (sch s) \<Longrightarrow> target_take a (target_woken a (sch s)) = Some x \<Longrightarrow>
    sched_step s (goto_pc t Running (s\<lparr>sch := x, held := add_mset a (held s)\<rparr>))"
  \<comment> \<open>\<open>CommSchedGroup::acquire\<close>\<close>
| group_now: "who s t = Running \<Longrightarrow> \<not> full_group (sch s) \<Longrightarrow> group_take (sch s) = Some (a, x) \<Longrightarrow>
    sched_step s (s\<lparr>sch := x, held := add_mset a (held s)\<rparr>)"
| group_wait: "who s t = Running \<Longrightarrow> full_group (sch s) \<Longrightarrow> sched_step s (goto_pc t Wait_group (s\<lparr>sch := group_waits (sch s)\<rparr>))"
| group_wake: "who s t = Wait_group \<Longrightarrow> sched_step s (goto_pc t (Woken_group timeout) s)"
| group_again: "who s t = Woken_group False \<Longrightarrow> full_group (sch s) \<Longrightarrow>
    sched_step s (goto_pc t Wait_group (s\<lparr>sch := group_waits (group_woken (sch s))\<rparr>))"
| group_timeout: "who s t = Woken_group True \<Longrightarrow> full_group (sch s) \<Longrightarrow>
    sched_step s (goto_pc t Running (s\<lparr>sch := group_woken (sch s)\<rparr>))"
| group_go: "who s t = Woken_group timeout \<Longrightarrow> \<not> full_group (sch s) \<Longrightarrow> group_take (group_woken (sch s)) = Some (a, x) \<Longrightarrow>
    sched_step s (goto_pc t Running (s\<lparr>sch := x, held := add_mset a (held s)\<rparr>))"
  \<comment> \<open>\<open>CommSchedTarget::release\<close>, \<open>CommSchedGroup::add\<close> and \<open>CommSchedGroup::remove\<close>\<close>
| release: "who s t = Running \<Longrightarrow> a \<in># held s \<Longrightarrow> target_release a idle (sch s) = Some (sig, x) \<Longrightarrow> deliver sig (who s) p \<Longrightarrow>
    sched_step s (s\<lparr>sch := x, who := p, held := held s - {#a#}\<rparr>)"
| add: "who s t = Running \<Longrightarrow> own a (sch s) \<Longrightarrow> group_add ok a (sch s) = Some (Inr sig, x) \<Longrightarrow> deliver sig (who s) p \<Longrightarrow>
    sched_step s (s\<lparr>sch := x, who := p\<rparr>)"
| remove: "who s t = Running \<Longrightarrow> group_remove a (sch s) = Some (Inr (), x) \<Longrightarrow> sched_step s (s\<lparr>sch := x\<rparr>)"

text \<open>Calls that fail at once (\<open>wait_timeout\<close> 0, a target that cannot be added or removed) change nothing.\<close>

definition sched_start :: "(addr \<Rightarrow> nat) \<Rightarrow> addr \<Rightarrow> sched_sys" where
  "sched_start maxes g = \<lparr>sch = \<lparr>targets = (\<lambda>a. \<lparr>t_max = maxes a, t_cur = 0, t_group = None, t_index = 0, t_wait = 0\<rparr>),
     self = g, grp = sched_group_init\<rparr>, who = (\<lambda>_. Running), held = {#}\<rparr>"

inductive sched_run :: "sched_sys \<Rightarrow> sched_sys \<Rightarrow> bool" where
  sched_run_refl: "sched_run s s"
| sched_run_step: "sched_run s s' \<Longrightarrow> sched_step s' s'' \<Longrightarrow> sched_run s s''"

section \<open>The data invariant\<close>

definition data_inv :: "sched \<Rightarrow> addr multiset \<Rightarrow> bool" where
  "data_inv x h \<longleftrightarrow> (\<exists>hs. group_inv x hs) \<and> (\<forall>a. own a x) \<and> (\<forall>a. count h a = t_cur (targets x a))"

definition same_waits :: "sched \<Rightarrow> sched \<Rightarrow> bool" where
  "same_waits x x' \<longleftrightarrow> g_wait (grp x') = g_wait (grp x) \<and> (\<forall>a. t_wait (targets x' a) = t_wait (targets x a))"

lemma group_inv_wait:
  assumes "targets x' = (\<lambda>a. (targets x a)\<lparr>t_wait := w a\<rparr>)" "grp x' = (grp x)\<lparr>g_wait := g\<rparr>" "self x' = self x"
  shows "group_inv x' hs \<longleftrightarrow> group_inv x hs"
proof -
  have "load x' = load x" using assms(1) by (auto simp: load_def ratio_def)
  then show ?thesis using assms
    by (simp add: group_inv_def group_data_def slots_rep_def slots_but_def in_group_def target_ok_def)
qed

lemma data_inv_wait:
  assumes "targets x' = (\<lambda>a. (targets x a)\<lparr>t_wait := w a\<rparr>)" "grp x' = (grp x)\<lparr>g_wait := g\<rparr>" "self x' = self x"
  shows "data_inv x' h \<longleftrightarrow> data_inv x h"
  using group_inv_wait [OF assms] assms by (simp add: data_inv_def own_def in_group_def)

lemma upd_wait_form:
  "targets (upd_target a (\<lambda>x. x\<lparr>t_wait := f (t_wait x)\<rparr>) s) = (\<lambda>b. (targets s b)\<lparr>t_wait := (if b = a then f (t_wait (targets s a)) else t_wait (targets s b))\<rparr>)"
  by (auto simp: upd_target_def)

lemma data_inv_waits [simp]:
  "data_inv (target_waits a x) h \<longleftrightarrow> data_inv x h" "data_inv (target_woken a x) h \<longleftrightarrow> data_inv x h"
  "data_inv (group_waits x) h \<longleftrightarrow> data_inv x h" "data_inv (group_woken x) h \<longleftrightarrow> data_inv x h"
proof -
  show "data_inv (target_waits a x) h \<longleftrightarrow> data_inv x h"
    unfolding target_waits_def by (rule data_inv_wait [OF upd_wait_form [where f = "\<lambda>w. w + 1"], where g = "g_wait (grp x)"]) (auto simp: upd_target_def)
  show "data_inv (target_woken a x) h \<longleftrightarrow> data_inv x h"
    unfolding target_woken_def by (rule data_inv_wait [OF upd_wait_form [where f = "\<lambda>w. w - 1"], where g = "g_wait (grp x)"]) (auto simp: upd_target_def)
  show "data_inv (group_waits x) h \<longleftrightarrow> data_inv x h" "data_inv (group_woken x) h \<longleftrightarrow> data_inv x h"
    by (rule data_inv_wait [where w = "\<lambda>a. t_wait (targets x a)"]; simp add: group_waits_def group_woken_def upd_group_def)+
qed

lemma outside_group_inv:
  assumes inv: "group_inv x hs" and a: "\<not> in_group a x" and n: "n \<le> t_max (targets x a)"
  shows "group_inv (upd_target a (\<lambda>t. t\<lparr>t_cur := n\<rparr>) x) hs"
proof -
  let ?x = "upd_target a (\<lambda>t. t\<lparr>t_cur := n\<rparr>) x"
  have na: "a \<notin> set hs" using inv a by (simp add: group_inv_def group_data_def)
  have t: "targets ?x b = (if b = a then (targets x a)\<lparr>t_cur := n\<rparr> else targets x b)" for b by (simp add: upd_target_def)
  have g: "grp ?x = grp x" "self ?x = self x" by (simp_all add: upd_target_def)
  have "load ?x b = load x b" if "b \<in> set hs" for b using that na t by (auto simp: load_def)
  then have "is_heap (load ?x) hs" using inv par_less unfolding group_inv_def is_heap_def by (metis less_trans nth_mem)
  moreover have "slots_rep ?x hs" using inv by (auto simp: group_inv_def slots_rep_def slots_but_def g t)
  moreover have "(\<Sum>b \<in> set hs. t_cur (targets ?x b)) = (\<Sum>b \<in> set hs. t_cur (targets x b))"
    "(\<Sum>b \<in> set hs. t_max (targets ?x b)) = (\<Sum>b \<in> set hs. t_max (targets x b))" using na by (auto simp: t intro!: sum.cong)
  moreover have "target_ok (targets ?x b)" "in_group b ?x \<longleftrightarrow> in_group b x" for b
    using inv n by (auto simp: t g in_group_def group_inv_def group_data_def target_ok_def)
  ultimately show ?thesis using inv by (simp add: group_inv_def group_data_def g)
qed

lemma moved_data:
  assumes "data_inv x h" "group_inv x' hs'" "moved A (set_load a n g x) x'" "\<And>b. count h' b = (if b = a then n else count h b)"
  shows "data_inv x' h' \<and> same_waits x x'"
proof -
  have t: "t_cur (targets x' b) = (if b = a then n else t_cur (targets x b)) \<and> t_group (targets x' b) = t_group (targets x b)
      \<and> t_wait (targets x' b) = t_wait (targets x b)" for b
    using assms(3) by (auto simp: moved_def set_load_def upd_group_def upd_target_def)
  have g: "self x' = self x" "g_wait (grp x') = g_wait (grp x)" using assms(3) by (simp_all add: moved_def set_load_def upd_group_def upd_target_def)
  have "own b x'" for b using assms(1) t g by (simp add: data_inv_def own_def in_group_def)
  then show ?thesis using assms(1,2,4) t g unfolding data_inv_def same_waits_def by auto
qed

lemma outside_data:
  assumes "data_inv x h" "\<not> in_group a x" "n \<le> t_max (targets x a)" "\<And>b. count h' b = (if b = a then n else count h b)"
  shows "data_inv (upd_target a (\<lambda>t. t\<lparr>t_cur := n\<rparr>) x) h' \<and> same_waits x (upd_target a (\<lambda>t. t\<lparr>t_cur := n\<rparr>) x)"
  using assms outside_group_inv [OF _ assms(2,3)]
  by (auto simp: data_inv_def same_waits_def own_def in_group_def upd_target_def)

lemma target_take_data:
  assumes d: "data_inv x h" and f: "\<not> full_target a x"
  shows "\<exists>x'. target_take a x = Some x' \<and> data_inv x' (add_mset a h) \<and> same_waits x x'"
proof -
  obtain hs where inv: "group_inv x hs" and c: "count h a = t_cur (targets x a)" using d by (auto simp: data_inv_def)
  have lt: "t_cur (targets x a) < t_max (targets x a)" using f by (simp add: full_target_def)
  have cnt: "count (add_mset a h) b = (if b = a then t_cur (targets x a) + 1 else count h b)" for b using c by simp
  show ?thesis
  proof (cases "in_group a x")
    case True
    then show ?thesis using target_take_inv [OF inv True lt] moved_data [OF d _ _ cnt] by blast
  next
    case False
    then have "target_take a x = Some (upd_target a (\<lambda>t. t\<lparr>t_cur := t_cur (targets x a) + 1\<rparr>) x)"
      by (simp add: target_take_def upd_target_def)
    then show ?thesis using outside_data [OF d False _ cnt] lt by simp
  qed
qed

lemma group_take_data:
  assumes d: "data_inv x h" and f: "\<not> full_group x"
  shows "\<exists>a x'. group_take x = Some (a, x') \<and> data_inv x' (add_mset a h) \<and> same_waits x x'"
proof -
  obtain hs where inv: "group_inv x hs" and c: "\<And>a. count h a = t_cur (targets x a)" using d by (auto simp: data_inv_def)
  have lt: "g_cur (grp x) < g_max (grp x)" using f by (simp add: full_group_def)
  let ?a = "hs ! 0"
  have cnt: "count (add_mset ?a h) b = (if b = ?a then t_cur (targets x ?a) + 1 else count h b)" for b using c by simp
  show ?thesis using group_take_inv [OF inv lt] moved_data [OF d _ _ cnt] by blast
qed

lemma target_release_data:
  assumes d: "data_inv x h" and a: "a \<in># h"
  shows "\<exists>sig x'. target_release a idle x = Some (sig, x') \<and> data_inv x' (h - {#a#}) \<and> same_waits x x'"
proof -
  obtain hs where inv: "group_inv x hs" and c: "count h a = t_cur (targets x a)" using d by (auto simp: data_inv_def)
  have pos: "0 < t_cur (targets x a)" using a c by (metis count_greater_zero_iff)
  have cnt: "count (h - {#a#}) b = (if b = a then t_cur (targets x a) - 1 else count h b)" for b using c by simp
  show ?thesis
  proof (cases "in_group a x")
    case True
    then show ?thesis using target_release_inv [OF inv True pos] moved_data [OF d _ _ cnt] by blast
  next
    case False
    then have "target_release a idle x = Some (if t_wait (targets x a) > 0 then [Signal_target a] else [],
        upd_target a (\<lambda>t. t\<lparr>t_cur := t_cur (targets x a) - 1\<rparr>) x)"
      using pos by (simp add: target_release_def upd_target_def Let_def)
    moreover have "t_cur (targets x a) - 1 \<le> t_max (targets x a)" using inv by (auto simp: group_inv_def group_data_def target_ok_def intro: le_trans [OF diff_le_self])
    ultimately show ?thesis using outside_data [OF d False _ cnt] by blast
  qed
qed

lemma group_add_data:
  assumes d: "data_inv x h"
  shows "\<exists>r x'. group_add ok a x = Some (r, x') \<and> data_inv x' h \<and> same_waits x x'"
proof -
  obtain hs where inv: "group_inv x hs" using d by (auto simp: data_inv_def)
  consider "t_group (targets x a) = None" "t_wait (targets x a) = 0" "ok \<or> length hs < length (tg_heap (grp x))"
    | "t_group (targets x a) = None" "t_wait (targets x a) = 0" "\<not> ok" "length hs = length (tg_heap (grp x))"
    | "\<not> (t_group (targets x a) = None \<and> t_wait (targets x a) = 0)"
    using inv by (fastforce simp: group_inv_def slots_rep_def slots_but_def)
  then show ?thesis
  proof cases
    case 1
    then show ?thesis using group_add_inv [OF inv 1] d by (auto simp: data_inv_def same_waits_def own_def in_group_def)
  next
    case 2
    then have "group_add ok a x = Some (Inl ENOMEM, x)" using inv by (simp add: group_add_def heap_insert_def group_inv_def group_data_def)
    then show ?thesis using d by (simp add: same_waits_def)
  next
    case 3
    then show ?thesis using d by (auto simp: group_add_def same_waits_def)
  qed
qed

lemma group_remove_data:
  assumes d: "data_inv x h"
  shows "\<exists>r x'. group_remove a x = Some (r, x') \<and> data_inv x' h \<and> same_waits x x'"
proof -
  obtain hs where inv: "group_inv x hs" using d by (auto simp: data_inv_def)
  show ?thesis
  proof (cases "in_group a x \<and> t_wait (targets x a) = 0")
    case True
    then show ?thesis using group_remove_inv [OF inv] d by (fastforce simp: data_inv_def same_waits_def own_def in_group_def)
  next
    case False
    then show ?thesis using d by (auto simp: group_remove_def same_waits_def)
  qed
qed

section \<open>The numbers of waiting threads\<close>

fun at_target :: "addr \<Rightarrow> sched_pc \<Rightarrow> bool" where
  "at_target a (Wait_target b) = (b = a)" | "at_target a (Woken_target b _) = (b = a)" | "at_target a _ = False"

fun at_group :: "sched_pc \<Rightarrow> bool" where
  "at_group Wait_group = True" | "at_group (Woken_group _) = True" | "at_group _ = False"

definition waits_inv :: "sched \<Rightarrow> (nat \<Rightarrow> sched_pc) \<Rightarrow> bool" where
  "waits_inv x p \<longleftrightarrow> finite {t. p t \<noteq> Running} \<and> (\<forall>a. t_wait (targets x a) = card {t. at_target a (p t)})
     \<and> g_wait (grp x) = card {t. at_group (p t)}"

lemma finite_waiting:
  assumes "finite {t. p t \<noteq> Running}"
  shows "finite {t. at_target a (p t)}" "finite {t. at_group (p t)}"
  by (rule finite_subset [OF _ assms], force)+

lemma finite_goto: "finite {t. p t \<noteq> Running} \<Longrightarrow> finite {u. (p(t := q)) u \<noteq> Running}"
  by (rule finite_subset [of _ "insert t {t. p t \<noteq> Running}"]) auto

lemma card_update:
  assumes "finite {t. P (p t)}"
  shows "card {u. P ((p(t := q)) u)} = (if P q then (if P (p t) then card {t. P (p t)} else card {t. P (p t)} + 1)
    else if P (p t) then card {t. P (p t)} - 1 else card {t. P (p t)})"
proof -
  have "{u. P ((p(t := q)) u)} = (if P q then insert t {t. P (p t)} else {t. P (p t)} - {t})" by auto
  then show ?thesis using assms by (auto simp: card_insert_if card_Diff_singleton insert_absorb)
qed

lemma waits_goto:
  assumes w: "waits_inv x p"
    and t: "\<And>a. t_wait (targets x' a) + (if at_target a (p t) then 1 else 0) = t_wait (targets x a) + (if at_target a q then 1 else 0)"
    and g: "g_wait (grp x') + (if at_group (p t) then 1 else 0) = g_wait (grp x) + (if at_group q then 1 else 0)"
  shows "waits_inv x' (p(t := q))"
proof -
  have fin: "finite {t. p t \<noteq> Running}" using w by (simp add: waits_inv_def)
  have "t_wait (targets x' a) = card {u. at_target a ((p(t := q)) u)}" for a
    using t [of a] w card_update [of "at_target a" p t q] finite_waiting(1) [OF fin, of a] by (auto simp: waits_inv_def split: if_splits)
  moreover have "g_wait (grp x') = card {u. at_group ((p(t := q)) u)}"
    using g w card_update [of at_group p t q] finite_waiting(2) [OF fin] by (auto simp: waits_inv_def split: if_splits)
  ultimately show ?thesis using finite_goto [OF fin] by (simp add: waits_inv_def)
qed

lemma waits_same: "waits_inv x p \<Longrightarrow> same_waits x x' \<Longrightarrow> waits_inv x' p"
  by (simp add: waits_inv_def same_waits_def)

lemma deliver_same: "deliver sig p p' \<Longrightarrow> at_target a (p' t) = at_target a (p t) \<and> at_group (p' t) = at_group (p t) \<and> (p' t = Running \<longleftrightarrow> p t = Running)"
  by (induction rule: deliver.induct) (auto split: if_splits)

lemma waits_deliver: "waits_inv x p \<Longrightarrow> deliver sig p p' \<Longrightarrow> waits_inv x p'"
  using deliver_same by (simp add: waits_inv_def)

lemma deliver_total: "\<exists>p'. deliver sig p p'"
proof (induction sig arbitrary: p)
  case (Cons x xs)
  then show ?case by (cases x) (metis deliver.intros)+
qed (blast intro: deliver_Nil)

lemma waits_pos: "waits_inv x p \<Longrightarrow> at_target a (p t) \<Longrightarrow> 0 < t_wait (targets x a)" "waits_inv x p \<Longrightarrow> at_group (p t) \<Longrightarrow> 0 < g_wait (grp x)"
  using finite_waiting by (auto simp: waits_inv_def card_gt_0_iff)

lemma wait_fields [simp]:
  "t_wait (targets (target_waits a x) b) = (if b = a then t_wait (targets x a) + 1 else t_wait (targets x b))"
  "t_wait (targets (target_woken a x) b) = (if b = a then t_wait (targets x a) - 1 else t_wait (targets x b))"
  "g_wait (grp (target_waits a x)) = g_wait (grp x)" "g_wait (grp (target_woken a x)) = g_wait (grp x)"
  "g_wait (grp (group_waits x)) = g_wait (grp x) + 1" "g_wait (grp (group_woken x)) = g_wait (grp x) - 1"
  "targets (group_waits x) = targets x" "targets (group_woken x) = targets x"
  by (auto simp: target_waits_def target_woken_def group_waits_def group_woken_def upd_target_def upd_group_def)

lemma full_fields [simp]:
  "full_target a (target_woken b x) \<longleftrightarrow> full_target a x" "full_group (group_woken x) \<longleftrightarrow> full_group x"
  by (auto simp: full_target_def full_group_def target_woken_def group_woken_def upd_target_def upd_group_def)

definition sys_inv :: "sched_sys \<Rightarrow> bool" where
  "sys_inv s \<longleftrightarrow> data_inv (sch s) (held s) \<and> waits_inv (sch s) (who s)"

lemma sys_inv_goto:
  assumes "data_inv (sch s') (held s')" "waits_inv (sch s') ((who s)(t := q))" "who s' = (who s)(t := q)"
  shows "sys_inv s'"
  using assms by (simp add: sys_inv_def)

lemma sys_inv_step: "sched_step s s' \<Longrightarrow> sys_inv s \<Longrightarrow> sys_inv s'"
proof (induction rule: sched_step.induct)
  case (target_now s t a x)
  then show ?case using target_take_data [of "sch s" "held s" a] waits_same by (auto simp: sys_inv_def)
next
  case (target_wait s t a)
  then show ?case using waits_goto [of "sch s" "who s" "target_waits a (sch s)" t "Wait_target a"] by (auto simp: sys_inv_def goto_pc_def)
next
  case (target_wake s t a timeout)
  then show ?case using waits_goto [of "sch s" "who s" "sch s" t "Woken_target a timeout"] by (simp add: sys_inv_def goto_pc_def)
next
  case (target_again s t a)
  then show ?case using waits_goto [of "sch s" "who s" "target_waits a (target_woken a (sch s))" t "Wait_target a"]
      waits_pos(1) [of "sch s" "who s" a t] by (auto simp: sys_inv_def goto_pc_def)
next
  case (target_timeout s t a)
  have "waits_inv (target_woken a (sch s)) ((who s)(t := Running))"
    by (rule waits_goto [of "sch s"]) (use target_timeout waits_pos(1) [of "sch s" "who s" a t] in \<open>auto simp: sys_inv_def\<close>)
  then show ?case using target_timeout by (simp add: sys_inv_def goto_pc_def)
next
  case (target_go s t a timeout x)
  have "waits_inv (target_woken a (sch s)) ((who s)(t := Running))"
    by (rule waits_goto [of "sch s"]) (use target_go waits_pos(1) [of "sch s" "who s" a t] in \<open>auto simp: sys_inv_def\<close>)
  then show ?case using target_go target_take_data [of "target_woken a (sch s)" "held s" a] waits_same by (auto simp: sys_inv_def goto_pc_def)
next
  case (group_now s t a x)
  then show ?case using group_take_data [of "sch s" "held s"] waits_same by (auto simp: sys_inv_def)
next
  case (group_wait s t)
  then show ?case using waits_goto [of "sch s" "who s" "group_waits (sch s)" t Wait_group] by (auto simp: sys_inv_def goto_pc_def)
next
  case (group_wake s t timeout)
  then show ?case using waits_goto [of "sch s" "who s" "sch s" t "Woken_group timeout"] by (simp add: sys_inv_def goto_pc_def)
next
  case (group_again s t)
  then show ?case using waits_goto [of "sch s" "who s" "group_waits (group_woken (sch s))" t Wait_group]
      waits_pos(2) [of "sch s" "who s" t] by (auto simp: sys_inv_def goto_pc_def)
next
  case (group_timeout s t)
  then show ?case using waits_goto [of "sch s" "who s" "group_woken (sch s)" t Running]
      waits_pos(2) [of "sch s" "who s" t] by (auto simp: sys_inv_def goto_pc_def)
next
  case (group_go s t timeout a x)
  have "waits_inv (group_woken (sch s)) ((who s)(t := Running))"
    by (rule waits_goto [of "sch s"]) (use group_go waits_pos(2) [of "sch s" "who s" t] in \<open>auto simp: sys_inv_def\<close>)
  then show ?case using group_go group_take_data [of "group_woken (sch s)" "held s"] waits_same by (auto simp: sys_inv_def goto_pc_def)
next
  case (release s t a idle sig x p)
  then have "data_inv x (held s - {#a#}) \<and> same_waits (sch s) x"
    using target_release_data [of "sch s" "held s" a idle] by (auto simp: sys_inv_def)
  moreover have "waits_inv x p" using calculation waits_deliver [OF waits_same] release by (auto simp: sys_inv_def)
  ultimately show ?case by (simp add: sys_inv_def)
next
  case (add s t a ok sig x p)
  then have "data_inv x (held s) \<and> same_waits (sch s) x" using group_add_data [of "sch s" "held s" ok a] by (auto simp: sys_inv_def)
  moreover have "waits_inv x p" using calculation waits_deliver [OF waits_same] add by (auto simp: sys_inv_def)
  ultimately show ?case by (simp add: sys_inv_def)
next
  case (remove s t a x)
  then show ?case using group_remove_data [of "sch s" "held s" a] waits_same by (auto simp: sys_inv_def)
qed

lemma sys_inv_start:
  assumes "\<forall>a. 0 < maxes a \<and> maxes a < 2 ^ 32"
  shows "sys_inv (sched_start maxes g)"
proof -
  let ?x = "sch (sched_start maxes g)"
  have "group_inv ?x []"
    using assms by (simp add: group_inv_def group_data_def slots_rep_def slots_but_def is_heap_def sched_start_def sched_group_init_def
      in_group_def target_ok_def COMMGROUP_INIT_SIZE_def)
  then have "data_inv ?x {#}" unfolding data_inv_def by (auto simp: sched_start_def own_def)
  moreover have "waits_inv ?x (\<lambda>_. Running)" by (simp add: waits_inv_def sched_start_def sched_group_init_def)
  ultimately show ?thesis by (simp add: sys_inv_def) (simp add: sched_start_def)
qed

lemma sys_inv_run: "sched_run s s' \<Longrightarrow> sys_inv s \<Longrightarrow> sys_inv s'"
  by (induction rule: sched_run.induct) (auto intro: sys_inv_step)

section \<open>Correctness of the scheduler\<close>

text \<open>C4: However threads acquire, wait, time out, release, add and remove targets, the targets that are held are
  just the loads of the targets, no target is over its limit, the group knows the sums and keeps its targets in
  a heap, and every section under the mutexes that a thread may enter next ends without an access out of bounds.\<close>

theorem sched_never_overloaded:
  assumes "\<forall>a. 0 < maxes a \<and> maxes a < 2 ^ 32" "sched_run (sched_start maxes g) s"
  shows "count (held s) a = t_cur (targets (sch s) a) \<and> t_cur (targets (sch s) a) \<le> t_max (targets (sch s) a)
    \<and> (\<exists>hs. group_inv (sch s) hs)
    \<and> (full_target a (sch s) \<or> target_take a (sch s) \<noteq> None) \<and> (full_group (sch s) \<or> group_take (sch s) \<noteq> None)
    \<and> (count (held s) a = 0 \<or> target_release a idle (sch s) \<noteq> None)
    \<and> group_add ok a (sch s) \<noteq> None \<and> group_remove a (sch s) \<noteq> None"
proof -
  have d: "data_inv (sch s) (held s)" using sys_inv_run [OF assms(2) sys_inv_start [OF assms(1)]] by (simp add: sys_inv_def)
  then have "count (held s) a = t_cur (targets (sch s) a)" "t_cur (targets (sch s) a) \<le> t_max (targets (sch s) a)" "\<exists>hs. group_inv (sch s) hs"
    by (auto simp: data_inv_def group_inv_def group_data_def target_ok_def)
  moreover have "count (held s) a = 0 \<or> target_release a idle (sch s) \<noteq> None"
    using target_release_data [OF d, of a idle] by (auto simp: count_eq_zero_iff)
  moreover have "full_target a (sch s) \<or> target_take a (sch s) \<noteq> None" using target_take_data [OF d, of a] by auto
  moreover have "full_group (sch s) \<or> group_take (sch s) \<noteq> None" using group_take_data [OF d] by auto
  moreover have "group_add ok a (sch s) \<noteq> None" "group_remove a (sch s) \<noteq> None"
    using group_add_data [OF d, of ok a] group_remove_data [OF d, of a] by auto
  ultimately show ?thesis by blast
qed

text \<open>C14: A group that is not fully loaded gives the target with the least relative load, which has a connection
  left, and adds one to the loads of this target and of the group only.\<close>

theorem group_acquire_least_loaded:
  assumes "\<forall>a. 0 < maxes a \<and> maxes a < 2 ^ 32" "sched_run (sched_start maxes g) s" "\<not> full_group (sch s)"
  shows "\<exists>a x. group_take (sch s) = Some (a, x) \<and> in_group a (sch s) \<and> \<not> full_target a (sch s)
    \<and> (\<forall>b. \<not> in_group b (sch s) \<or> t_cur (targets (sch s) a) * t_max (targets (sch s) b) \<le> t_cur (targets (sch s) b) * t_max (targets (sch s) a))
    \<and> g_cur (grp x) = g_cur (grp (sch s)) + 1
    \<and> (\<forall>b. t_cur (targets x b) = (if b = a then t_cur (targets (sch s) a) + 1 else t_cur (targets (sch s) b)))"
proof -
  let ?x = "sch s"
  have d: "data_inv ?x (held s)" using sys_inv_run [OF assms(2) sys_inv_start [OF assms(1)]] by (simp add: sys_inv_def)
  then obtain hs where inv: "group_inv ?x hs" by (auto simp: data_inv_def)
  have ok: "target_ok (targets ?x b)" "in_group b ?x \<longleftrightarrow> b \<in> set hs" for b using inv by (auto simp: group_inv_def group_data_def)
  have lt: "g_cur (grp ?x) < g_max (grp ?x)" using assms(3) by (simp add: full_group_def)
  note least = least_load_free [OF inv lt]
  obtain x where x: "group_take ?x = Some (hs ! 0, x)"
    "moved (set hs) (set_load (hs ! 0) (t_cur (targets ?x (hs ! 0)) + 1) (g_cur (grp ?x) + 1) ?x) x"
    using group_take_inv [OF inv lt] by blast
  have "in_group (hs ! 0) ?x" using ok(2) least(1) by simp
  moreover have "t_cur (targets ?x (hs ! 0)) * t_max (targets ?x b) \<le> t_cur (targets ?x b) * t_max (targets ?x (hs ! 0))" if "in_group b ?x" for b
    using least(3) that ok ratio_less_iff [OF ok(1) [of b] ok(1) [of "hs ! 0"]] by (auto simp: load_def not_less [symmetric])
  moreover have "g_cur (grp x) = g_cur (grp ?x) + 1"
    "t_cur (targets x b) = (if b = hs ! 0 then t_cur (targets ?x (hs ! 0)) + 1 else t_cur (targets ?x b))" for b
    using x(2) by (auto simp: moved_def set_load_def upd_group_def upd_target_def)
  ultimately show ?thesis using x(1) least(2) by (auto simp: full_target_def)
qed

section \<open>A run\<close>

text \<open>One target with two connections, in the group: \<open>c\<close> of them are in use, \<open>w\<close> threads wait for the target and
  \<open>v\<close> for the group.\<close>

definition one_target :: "nat \<Rightarrow> nat \<Rightarrow> nat \<Rightarrow> sched" where
  "one_target c w v = \<lparr>targets = (\<lambda>_. \<lparr>t_max = 2, t_cur = 0, t_group = None, t_index = 0, t_wait = 0\<rparr>)
      (0 := \<lparr>t_max = 2, t_cur = c, t_group = Some 9, t_index = 0, t_wait = w\<rparr>),
    self = 9, grp = \<lparr>g_max = 2, g_cur = c, tg_heap = [Some 0, None, None, None], heap_size = 1, g_wait = v\<rparr>\<rparr>"

lemmas sched_eval = one_target_def upd_target_def upd_group_def in_group_def heapify_def heapify_loop.simps heap_adjust_def
  heap_adjust_loop.simps place_def slot_def Let_def

lemma one_target_add: "group_add True 0 (sch (sched_start (\<lambda>_. 2) 9)) = Some (Inr [], one_target 0 0 0)"
  by (simp add: sched_eval group_add_def heap_insert_def sched_start_def sched_group_init_def COMMGROUP_INIT_SIZE_def numeral_eq_Suc fun_eq_iff)

lemma one_target_take: "target_take 0 (one_target c w v) = Some (one_target (c + 1) w v)"
  by (simp add: sched_eval target_take_def)

lemma one_target_release:
  "target_release 0 idle (one_target (Suc c) w v) =
     Some (if w > 0 then [Signal_target 0] else if v > 0 then [Signal_group] else [], one_target c w v)"
  by (simp add: sched_eval target_release_def)

lemma one_target_simps [simp]:
  "target_waits 0 (one_target c w v) = one_target c (w + 1) v" "target_woken 0 (one_target c w v) = one_target c (w - 1) v"
  "group_waits (one_target c w v) = one_target c w (v + 1)" "full_target 0 (one_target c w v) \<longleftrightarrow> 2 \<le> c"
  "full_group (one_target c w v) \<longleftrightarrow> 2 \<le> c" "own 0 (one_target c w v)"
  by (simp_all add: one_target_def target_waits_def target_woken_def group_waits_def upd_target_def upd_group_def full_target_def full_group_def own_def in_group_def)

abbreviation at_run :: "nat \<Rightarrow> nat \<Rightarrow> nat \<Rightarrow> sched_pc \<Rightarrow> sched_pc \<Rightarrow> addr multiset \<Rightarrow> sched_sys" where
  "at_run c w v p q h \<equiv> \<lparr>sch = one_target c w v, who = (\<lambda>_. Running)(0 := p, 1 := q), held = h\<rparr>"

lemma run_busy: "sched_run (sched_start (\<lambda>_. 2) 9) (at_run 2 0 0 Running Running {#0, 0#})"
proof -
  have "sched_step (sched_start (\<lambda>_. 2) 9) (at_run 0 0 0 Running Running {#})"
    using sched_step.add [OF _ _ one_target_add deliver_Nil, of 0] by (simp add: sched_start_def own_def fun_upd_idem)
  moreover have "sched_step (at_run 0 0 0 Running Running {#}) (at_run 1 0 0 Running Running {#0#})"
    using target_now [of "at_run 0 0 0 Running Running {#}" 0 0] one_target_take [of 0 0 0] by simp
  moreover have "sched_step (at_run 1 0 0 Running Running {#0#}) (at_run 2 0 0 Running Running {#0, 0#})"
    using target_now [of "at_run 1 0 0 Running Running {#0#}" 0 0] one_target_take [of 1 0 0] by (simp add: numeral_2_eq_2)
  ultimately show ?thesis using sched_run_step sched_run_refl by blast
qed


theorem sched_never_overloaded_witness:
  "count {#0, 0#} (0 :: addr) \<le> t_max (targets (one_target 2 0 0) 0) \<and> target_release 0 True (one_target 2 0 0) \<noteq> None"
  using sched_never_overloaded [OF _ run_busy, of 0 True] by simp

theorem group_acquire_least_loaded_witness:
  "\<exists>x. group_take (one_target 0 0 0) = Some (0, x) \<and> g_cur (grp x) = 1"
proof -
  have "sched_step (sched_start (\<lambda>_. 2) 9) (at_run 0 0 0 Running Running {#})"
    using sched_step.add [OF _ _ one_target_add deliver_Nil, of 0] by (simp add: sched_start_def own_def fun_upd_idem)
  then have r: "sched_run (sched_start (\<lambda>_. 2) 9) (at_run 0 0 0 Running Running {#})" using sched_run_step sched_run_refl by blast
  have "in_group a (one_target 0 0 0) \<longleftrightarrow> a = 0" for a by (simp add: in_group_def one_target_def)
  moreover have "g_cur (grp (one_target 0 0 0)) = 0" by (simp add: one_target_def)
  ultimately show ?thesis using group_acquire_least_loaded [OF _ r] by auto
qed

end
